(* ===== verification/Prelude.thy ===== *)
theory Prelude
  imports Main "HOL-Library.Word" "HOL-Library.Char_ord" "HOL-Library.List_Lexorder"
    "HOL-Library.Signed_Division"
begin

text \<open>
  The shared vocabulary of the development: results of C++ code that may fail an
  \<open>assert\<close>, abort or leave the defined part of the language; \<open>size_t\<close> arithmetic with its
  wrap-around; the algorithms of the C++ standard library the sources call
  (\<open>std::find\<close>, \<open>std::search\<close>, \<open>std::copy\<close>, \<open>std::map\<close> insertion and lookup, \<open>snprintf\<close>);
  decimal printing; and three locales for components that are driven by a sequence of events.
\<close>

named_theorems outcome_simps \<open>rewriting with the error monad\<close>
named_theorems size_simps \<open>size arithmetic without wrap-around\<close>

section \<open>Results of C++ code\<close>

text \<open>
  The repository is built in debug mode, so a failing \<open>assert\<close> ends the process.
  \<open>Aborted\<close> is a call of \<open>abort()\<close>, \<open>LengthError\<close> the exception of
  \<open>std::vector::resize\<close> past \<open>max_size()\<close>, \<open>UndefinedBehaviour\<close> everything outside the
  language's defined behaviour (an access out of bounds, a missing return, a null pointer).
\<close>

datatype cpp_error = AssertionFailed | Aborted | LengthError | UndefinedBehaviour

type_synonym 'a outcome = "cpp_error + 'a"

definition bind_out :: "'a outcome \<Rightarrow> ('a \<Rightarrow> 'b outcome) \<Rightarrow> 'b outcome" where
  "bind_out m f = (case m of Inl e \<Rightarrow> Inl e | Inr x \<Rightarrow> f x)"

definition asserting :: "bool \<Rightarrow> 'a outcome \<Rightarrow> 'a outcome" where
  "asserting b m = (if b then m else Inl AssertionFailed)"

definition defined_if :: "bool \<Rightarrow> 'a outcome \<Rightarrow> 'a outcome" where
  "defined_if b m = (if b then m else Inl UndefinedBehaviour)"

section \<open>Sizes\<close>

text \<open>\<open>size_t\<close> has 64 bits on the target; a vector holds at most \<open>PTRDIFF_MAX\<close> bytes.\<close>

definition size_add :: "nat \<Rightarrow> nat \<Rightarrow> nat" where
  "size_add a b = (a + b) mod 18446744073709551616"

definition size_sub :: "nat \<Rightarrow> nat \<Rightarrow> nat" where
  "size_sub a b = (a + 18446744073709551616 - b mod 18446744073709551616) mod 18446744073709551616"

definition max_size :: nat where
  "max_size = 9223372036854775807"

section \<open>Standard algorithms on character ranges\<close>

text \<open>\<open>std::find\<close>: the offset of the first \<open>c\<close>, the length of the range if there is none.\<close>

definition std_find :: "'a \<Rightarrow> 'a list \<Rightarrow> nat" where
  "std_find c xs = length (takeWhile (\<lambda>x. x \<noteq> c) xs)"

text \<open>\<open>std::search\<close>: the offset of the first occurrence of \<open>pat\<close>, else the range's length.\<close>

fun std_search :: "'a list \<Rightarrow> 'a list \<Rightarrow> nat" where
  "std_search pat [] = 0"
| "std_search pat (x # xs) =
     (if take (length pat) (x # xs) = pat then 0 else Suc (std_search pat xs))"

text \<open>\<open>std::copy\<close> and \<open>memcpy\<close> into an array: positions \<open>i ..< i + length ys\<close> are replaced.\<close>

definition overwrite :: "'a list \<Rightarrow> nat \<Rightarrow> 'a list \<Rightarrow> 'a list" where
  "overwrite xs i ys = take i xs @ ys @ drop (i + length ys) xs"

definition copy_into :: "'a list \<Rightarrow> nat \<Rightarrow> 'a list \<Rightarrow> 'a list outcome" where
  "copy_into xs i ys = defined_if (i + length ys \<le> length xs) (Inr (overwrite xs i ys))"

text \<open>\<open>std::map\<close> as an association list sorted by key: \<open>m[k] = v\<close>, \<open>m.find(k)\<close>, \<open>m.erase(k)\<close>.\<close>

fun map_put :: "'k::linorder \<Rightarrow> 'v \<Rightarrow> ('k \<times> 'v) list \<Rightarrow> ('k \<times> 'v) list" where
  "map_put k v [] = [(k, v)]"
| "map_put k v ((k', v') # m) =
     (if k = k' then (k, v) # m
      else if k < k' then (k, v) # (k', v') # m
      else (k', v') # map_put k v m)"

definition map_erase :: "'k \<Rightarrow> ('k \<times> 'v) list \<Rightarrow> ('k \<times> 'v) list" where
  "map_erase k m = filter (\<lambda>(k', _). k' \<noteq> k) m"

section \<open>Text\<close>

abbreviation NUL :: char where "NUL \<equiv> CHR 0x00"
abbreviation CR :: char where "CR \<equiv> CHR 0x0D"
abbreviation LF :: char where "LF \<equiv> CHR 0x0A"
abbreviation CRLF :: string where "CRLF \<equiv> [CR, LF]"

text \<open>Decimal text of a number, as \<open>printf\<close> with \<open>%d\<close>, \<open>%u\<close> or \<open>%zd\<close> writes it.\<close>

definition digit_char :: "nat \<Rightarrow> char" where
  "digit_char d = char_of (48 + d)"

fun show_nat :: "nat \<Rightarrow> string" where
  "show_nat n = (if n < 10 then [digit_char n] else show_nat (n div 10) @ [digit_char (n mod 10)])"

declare show_nat.simps [simp del]

definition show_int :: "int \<Rightarrow> string" where
  "show_int i = (if i < 0 then CHR ''-'' # show_nat (nat (- i)) else show_nat (nat i))"

text \<open>
  \<open>snprintf(buf, sizeof buf, ...)\<close> with result text \<open>s\<close>: at most \<open>sizeof buf - 1\<close>
  characters, a terminating NUL, and the rest of the array as it was. Reading the array as a
  C string stops at the first NUL.
\<close>

definition snprintf_into :: "string \<Rightarrow> string \<Rightarrow> string" where
  "snprintf_into buf s = overwrite buf 0 (take (length buf - 1) s @ [NUL])"

definition c_str :: "string \<Rightarrow> string" where
  "c_str s = takeWhile (\<lambda>c. c \<noteq> NUL) s"

text \<open>Reading decimal text back, to state what printing preserves.\<close>

definition digit_val :: "char \<Rightarrow> nat" where
  "digit_val c = of_char c - 48"

definition is_digit :: "char \<Rightarrow> bool" where
  "is_digit c \<longleftrightarrow> 48 \<le> (of_char c :: nat) \<and> (of_char c :: nat) \<le> 57"

definition read_dec :: "string \<Rightarrow> nat" where
  "read_dec s = foldl (\<lambda>v c. 10 * v + digit_val c) 0 s"

section \<open>Components driven by events\<close>

fun run_events :: "('s \<Rightarrow> 'e \<Rightarrow> 's outcome) \<Rightarrow> 's \<Rightarrow> 'e list \<Rightarrow> 's outcome" where
  "run_events step s [] = Inr s"
| "run_events step s (e # es) = bind_out (step s e) (\<lambda>s'. run_events step s' es)"

text \<open>The environment keeps its side of the contract at every event of a run.\<close>

fun env_obeys ::
  "('s \<Rightarrow> 'e \<Rightarrow> 's outcome) \<Rightarrow> ('s \<Rightarrow> 'e \<Rightarrow> bool) \<Rightarrow> 's \<Rightarrow> 'e list \<Rightarrow> bool" where
  "env_obeys step env s [] = True"
| "env_obeys step env s (e # es) =
     (env s e \<and> (case step s e of Inl _ \<Rightarrow> True | Inr s' \<Rightarrow> env_obeys step env s' es))"

section \<open>Lemmas on results\<close>

lemma bind_out_simps [simp]:
  "bind_out (Inl e) f = Inl e"
  "bind_out (Inr x) f = f x"
  by (simp_all add: bind_out_def)

lemma bind_out_Inr [simp]: "bind_out m Inr = m"
  by (cases m) simp_all

lemma bind_out_assoc: "bind_out (bind_out m f) g = bind_out m (\<lambda>x. bind_out (f x) g)"
  by (cases m) simp_all

lemma bind_out_eq_Inr [outcome_simps]:
  "bind_out m f = Inr y \<longleftrightarrow> (\<exists>x. m = Inr x \<and> f x = Inr y)"
  by (cases m) simp_all

lemma bind_out_cong [fundef_cong]:
  "m = m' \<Longrightarrow> (\<And>x. m' = Inr x \<Longrightarrow> f x = f' x) \<Longrightarrow> bind_out m f = bind_out m' f'"
  by (cases m') simp_all

lemma asserting_simps [simp]:
  "asserting True m = m"
  "asserting False m = Inl AssertionFailed"
  by (simp_all add: asserting_def)

lemma asserting_eq_Inr [outcome_simps]: "asserting b m = Inr y \<longleftrightarrow> b \<and> m = Inr y"
  by (simp add: asserting_def)

lemma defined_if_simps [simp]:
  "defined_if True m = m"
  "defined_if False m = Inl UndefinedBehaviour"
  by (simp_all add: defined_if_def)

lemma defined_if_eq_Inr [outcome_simps]: "defined_if b m = Inr y \<longleftrightarrow> b \<and> m = Inr y"
  by (simp add: defined_if_def)

lemma run_events_append:
  "run_events step s (xs @ ys) = bind_out (run_events step s xs) (\<lambda>s'. run_events step s' ys)"
  by (induction xs arbitrary: s) (simp_all add: bind_out_assoc)

lemma env_obeys_append:
  "run_events step s xs = Inr t \<Longrightarrow> env_obeys step env s (xs @ ys) \<longleftrightarrow> env_obeys step env s xs \<and> env_obeys step env t ys"
  by (induction xs arbitrary: s) (auto simp: outcome_simps)

section \<open>Lemmas on sizes\<close>

lemma size_sub_le [size_simps]:
  assumes "b \<le> a" and "a \<le> max_size"
  shows "size_sub a b = a - b"
proof -
  have small: "max_size < 18446744073709551616" by (simp only: max_size_def)
  have b: "b mod 18446744073709551616 = b" and ab: "(a - b) mod 18446744073709551616 = a - b"
    using assms small by (intro mod_less; linarith)+
  have "a + 18446744073709551616 - b = (a - b) + 18446744073709551616"
    using assms(1) by linarith
  then show ?thesis unfolding size_sub_def b by (simp only: mod_add_self2 ab)
qed

lemma size_add_le [size_simps]:
  "a \<le> max_size \<Longrightarrow> b \<le> max_size \<Longrightarrow> size_add a b = a + b"
  unfolding size_add_def max_size_def by (intro mod_less) linarith

lemma sdiv_nonneg: "0 \<le> a \<Longrightarrow> 0 < b \<Longrightarrow> a sdiv b = a div (b :: int)"
  by (cases "a = 0") (simp_all add: signed_divide_int_def)

lemma smod_nonneg: "0 \<le> a \<Longrightarrow> 0 < b \<Longrightarrow> a smod b = a mod (b :: int)"
  by (cases "a = 0") (simp_all add: signed_modulo_int_def)

section \<open>Lemmas on ranges\<close>

lemma length_overwrite [simp]:
  "i + length ys \<le> length xs \<Longrightarrow> length (overwrite xs i ys) = length xs"
  by (simp add: overwrite_def)

lemma take_overwrite [simp]: "i \<le> length xs \<Longrightarrow> take i (overwrite xs i ys) = take i xs"
  by (simp add: overwrite_def)

lemma take_overwrite_le:
  "j \<le> i \<Longrightarrow> i \<le> length xs \<Longrightarrow> take j (overwrite xs i ys) = take j xs"
  by (simp add: overwrite_def min_def)

lemma take_overwrite_all:
  "i \<le> length xs \<Longrightarrow> take (i + length ys) (overwrite xs i ys) = take i xs @ ys"
  by (simp add: overwrite_def)

lemma drop_overwrite:
  "i + length ys \<le> length xs \<Longrightarrow> drop (i + length ys) (overwrite xs i ys) = drop (i + length ys) xs"
  by (simp add: overwrite_def)

lemma overwrite_Nil [simp]: "overwrite xs i [] = xs"
  by (simp add: overwrite_def)

lemma distinct_map_filterI:
  assumes "\<And>i j. i < length xs \<Longrightarrow> j < length xs \<Longrightarrow> i \<noteq> j \<Longrightarrow> P (xs ! i) \<Longrightarrow> P (xs ! j) \<Longrightarrow> f (xs ! i) \<noteq> f (xs ! j)"
  shows "distinct (map f (filter P xs))"
  using assms
proof (induction xs)
  case (Cons x xs)
  have "distinct (map f (filter P xs))"
    using Cons.prems [of "Suc _" "Suc _"] by (intro Cons.IH) simp
  moreover have "f x \<noteq> f y" if "P x" "y \<in> set xs" "P y" for y
    using that Cons.prems [of 0 "Suc _"] by (auto simp: in_set_conv_nth)
  ultimately show ?case by auto
qed simp

lemma std_find_le: "std_find c xs \<le> length xs"
  by (simp add: std_find_def length_takeWhile_le)

lemma std_find_notin: "c \<notin> set xs \<Longrightarrow> std_find c xs = length xs"
  by (induction xs) (auto simp: std_find_def)

lemma std_find_append: "c \<notin> set xs \<Longrightarrow> std_find c (xs @ c # ys) = length xs"
proof -
  assume "c \<notin> set xs"
  then have "\<And>x. x \<in> set xs \<Longrightarrow> x \<noteq> c" by blast
  then show ?thesis by (simp add: std_find_def takeWhile_append2)
qed

lemma std_find_less_iff: "std_find c xs \<noteq> length xs \<longleftrightarrow> c \<in> set xs"
proof
  assume "std_find c xs \<noteq> length xs"
  then show "c \<in> set xs" using std_find_notin by metis
next
  assume "c \<in> set xs"
  then obtain ys zs where "xs = ys @ c # zs" "c \<notin> set ys" by (meson split_list_first)
  then show "std_find c xs \<noteq> length xs" by (simp add: std_find_append)
qed

lemma std_search_le: "std_search pat xs \<le> length xs"
  by (induction pat xs rule: std_search.induct) auto

lemma std_search_found:
  "std_search pat xs < length xs \<Longrightarrow>
   take (length pat) (drop (std_search pat xs) xs) = pat"
  by (induction pat xs rule: std_search.induct) (auto split: if_splits)

section \<open>Lemmas on maps\<close>

lemma map_of_map_put: "map_of (map_put k v m) = (map_of m)(k \<mapsto> v)"
  by (induction k v m rule: map_put.induct) (auto simp: fun_eq_iff)

lemma set_keys_map_put: "fst ` set (map_put k v m) = insert k (fst ` set m)"
  by (induction k v m rule: map_put.induct) auto

lemma sorted_map_put:
  "sorted (map fst m) \<Longrightarrow> distinct (map fst m) \<Longrightarrow>
   sorted (map fst (map_put k v m)) \<and> distinct (map fst (map_put k v m))"
proof (induction k v m rule: map_put.induct)
  case (2 k v k' v' m)
  then show ?case
    using set_keys_map_put [of k v m] by (auto simp flip: set_map simp del: set_map)
qed simp

lemma map_of_map_erase: "map_of (map_erase k m) = (map_of m)(k := None)"
  by (induction m) (auto simp: map_erase_def fun_eq_iff)

section \<open>Lemmas on text\<close>

lemma of_char_digit: "d < 10 \<Longrightarrow> of_char (digit_char d) = 48 + d"
  by (simp add: digit_char_def)

lemma digit_val_char: "d < 10 \<Longrightarrow> digit_val (digit_char d) = d"
  by (simp add: digit_val_def of_char_digit)

lemma is_digit_char: "d < 10 \<Longrightarrow> is_digit (digit_char d)"
  by (simp add: is_digit_def of_char_digit)

lemma read_dec_show_nat: "read_dec (show_nat n) = n"
proof (induction n rule: show_nat.induct)
  case (1 n)
  then show ?case
    by (subst show_nat.simps) (simp add: read_dec_def digit_val_char)
qed

lemma read_dec_zeros: "read_dec (replicate k CHR ''0'' @ s) = read_dec s"
  by (induction k) (simp_all add: read_dec_def digit_val_def)

lemma set_show_nat: "c \<in> set (show_nat n) \<Longrightarrow> 48 \<le> (of_char c :: nat) \<and> of_char c < (58 :: nat)"
proof (induction n rule: show_nat.induct)
  case (1 n)
  from "1.prems" show ?case
    by (subst (asm) show_nat.simps) (auto split: if_splits simp: of_char_digit "1.IH")
qed

lemma NUL_notin_show_nat: "NUL \<notin> set (show_nat n)"
  using set_show_nat [of NUL n] by auto

lemma length_show_nat_pos: "0 < length (show_nat n)"
  by (subst show_nat.simps) simp

lemma length_show_nat: "n < 10 ^ k \<Longrightarrow> 0 < k \<Longrightarrow> length (show_nat n) \<le> k"
proof (induction k arbitrary: n)
  case (Suc k)
  show ?case
  proof (cases "n < 10")
    case True
    then show ?thesis by (subst show_nat.simps) simp
  next
    case False
    then have "0 < k" using Suc.prems(1) by (cases k) auto
    moreover have "n div 10 < 10 ^ k" using Suc.prems(1) by (simp add: less_mult_imp_div_less)
    ultimately have "length (show_nat (n div 10)) \<le> k" using Suc.IH by blast
    then show ?thesis using False by (subst show_nat.simps) simp
  qed
qed simp

lemma c_str_snprintf:
  assumes "NUL \<notin> set s" and "buf \<noteq> []"
  shows "c_str (snprintf_into buf s) = take (length buf - 1) s"
proof -
  have "\<And>c. c \<in> set (take (length buf - 1) s) \<Longrightarrow> c \<noteq> NUL" using assms(1) by (metis in_set_takeD)
  then show ?thesis by (simp add: c_str_def snprintf_into_def overwrite_def takeWhile_append2)
qed

section \<open>Invariants over runs\<close>

locale invariant_system =
  fixes step :: "'s \<Rightarrow> 'e \<Rightarrow> 's outcome"
    and env :: "'s \<Rightarrow> 'e \<Rightarrow> bool"
    and inv :: "'s \<Rightarrow> bool"
  assumes step_inv: "inv s \<Longrightarrow> env s e \<Longrightarrow> step s e = Inr s' \<Longrightarrow> inv s'"
begin

lemma run_inv:
  "inv s \<Longrightarrow> env_obeys step env s es \<Longrightarrow> run_events step s es = Inr s' \<Longrightarrow> inv s'"
proof (induction es arbitrary: s)
  case (Cons e es)
  from Cons.prems(3) obtain t where t: "step s e = Inr t" and rest: "run_events step t es = Inr s'"
    by (auto simp: outcome_simps)
  from Cons.prems(1,2) t have "inv t" and "env_obeys step env t es"
    by (auto intro: step_inv)
  then show ?case using rest by (rule Cons.IH)
qed simp

end

text \<open>A system that also never fails while its environment keeps the contract.\<close>

locale safe_system = invariant_system +
  assumes step_safe: "inv s \<Longrightarrow> env s e \<Longrightarrow> \<exists>s'. step s e = Inr s'"
begin

lemma run_safe:
  "inv s \<Longrightarrow> env_obeys step env s es \<Longrightarrow> \<exists>s'. run_events step s es = Inr s' \<and> inv s'"
proof (induction es arbitrary: s)
  case (Cons e es)
  from Cons.prems obtain t where t: "step s e = Inr t"
    using step_safe by fastforce
  with Cons.prems have "inv t" and "env_obeys step env t es"
    by (auto intro: step_inv)
  then show ?case using Cons.IH t by simp
qed simp

end

text \<open>A safe system whose steps implement, through \<open>abs\<close>, the steps of an abstract one.\<close>

locale refined_system = safe_system +
  fixes abs :: "'s \<Rightarrow> 'a" and astep :: "'a \<Rightarrow> 'e \<Rightarrow> 'a"
  assumes abs_step: "inv s \<Longrightarrow> env s e \<Longrightarrow> step s e = Inr s' \<Longrightarrow> abs s' = astep (abs s) e"
begin

lemma run_refines:
  "inv s \<Longrightarrow> env_obeys step env s es \<Longrightarrow>
   \<exists>s'. run_events step s es = Inr s' \<and> inv s' \<and> abs s' = foldl astep (abs s) es"
proof (induction es arbitrary: s)
  case (Cons e es)
  from Cons.prems obtain t where t: "step s e = Inr t"
    using step_safe by fastforce
  with Cons.prems have "inv t" "env_obeys step env t es" "abs t = astep (abs s) e"
    by (auto intro: step_inv abs_step)
  then show ?case using Cons.IH t by fastforce
qed simp

end

end
