(* ===== verification/Calendar.thy ===== *)
theory Calendar
  imports Prelude
begin

text \<open>
  The part of the C library's calendar the sources use: \<open>gmtime\<close> breaks a \<open>time_t\<close> down into
  the fields of a \<open>struct tm\<close> in the Gregorian calendar, and \<open>printf\<close> pads the fields. The year
  is found by counting whole years from the start of a 400-year period, the month by counting
  months. The main lemma is that no information is lost: \<open>timegm\<close> undoes \<open>gmtime\<close> on every
  integer, so that different seconds are printed differently.
\<close>

section \<open>Breaking down a time\<close>

record tm =
  tm_year :: int
  tm_mon :: nat
  tm_mday :: nat
  tm_hour :: nat
  tm_min :: nat
  tm_sec :: nat

definition leap :: "int \<Rightarrow> bool" where
  "leap y \<longleftrightarrow> y mod 4 = 0 \<and> (y mod 100 \<noteq> 0 \<or> y mod 400 = 0)"

definition year_days :: "int \<Rightarrow> nat" where
  "year_days y = (if leap y then 366 else 365)"

definition month_days :: "int \<Rightarrow> nat \<Rightarrow> nat" where
  "month_days y m =
     (if m = 1 then (if leap y then 29 else 28) else if m \<in> {3, 5, 8, 10} then 30 else 31)"

function find_year :: "nat \<Rightarrow> int \<Rightarrow> int \<times> nat" where
  "find_year d y = (if d < year_days y then (y, d) else find_year (d - year_days y) (y + 1))"
  by pat_completeness auto
termination
  by (relation "measure fst") (auto simp: year_days_def split: if_splits)

declare find_year.simps [simp del]

fun find_month :: "int \<Rightarrow> nat \<Rightarrow> nat list \<Rightarrow> nat \<times> nat" where
  "find_month y d [] = (12, d)"
| "find_month y d (m # ms) = (if d < month_days y m then (m, d) else find_month y (d - month_days y m) ms)"

definition gmtime :: "int \<Rightarrow> tm" where
  "gmtime t =
     (let days = t div 86400; secs = nat (t mod 86400);
          (y, d) = find_year (nat (days mod 146097)) (1970 + 400 * (days div 146097));
          (m, d') = find_month y d [0..<12]
      in \<lparr>tm_year = y - 1900, tm_mon = m, tm_mday = d' + 1,
          tm_hour = secs div 3600, tm_min = secs mod 3600 div 60, tm_sec = secs mod 60\<rparr>)"

section \<open>Putting a time together again\<close>

definition year_start :: "int \<Rightarrow> int" where
  "year_start y = 365 * y + (y - 1) div 4 - (y - 1) div 100 + (y - 1) div 400"

definition month_start :: "int \<Rightarrow> nat \<Rightarrow> nat" where
  "month_start y m = sum_list (map (month_days y) [0..<m])"

definition timegm :: "tm \<Rightarrow> int" where
  "timegm t =
     (let y = tm_year t + 1900
      in (year_start y - year_start 1970 + int (month_start y (tm_mon t)) + int (tm_mday t) - 1) * 86400
         + int (tm_hour t) * 3600 + int (tm_min t) * 60 + int (tm_sec t))"

definition tm_ok :: "tm \<Rightarrow> bool" where
  "tm_ok t \<longleftrightarrow> tm_mon t < 12 \<and> 1 \<le> tm_mday t \<and> tm_mday t \<le> month_days (tm_year t + 1900) (tm_mon t)
     \<and> tm_hour t < 24 \<and> tm_min t < 60 \<and> tm_sec t < 60"

lemma div_step:
  fixes y n :: int
  assumes n: "0 < n"
  shows "y div n = (y - 1) div n + (if n dvd y then 1 else 0)"
proof (cases "n dvd y")
  case True
  then obtain q where q: "y = n * q" by blast
  have "y - 1 = n * (q - 1) + (n - 1)" unfolding q by (simp add: right_diff_distrib)
  then have "(y - 1) div n = q - 1" by (rule int_div_pos_eq) (use n in linarith)+
  moreover have "y div n = q" using q n by simp
  ultimately show ?thesis using True by simp
next
  case False
  then have "y mod n \<noteq> 0" by (simp add: dvd_eq_mod_eq_0)
  then have "0 < y mod n" using pos_mod_sign [OF n, of y] by linarith
  then have "0 \<le> y mod n - 1" "y mod n - 1 < n"
    using pos_mod_bound [OF n, of y] by linarith+
  moreover have "y - 1 = n * (y div n) + (y mod n - 1)" by (simp add: algebra_simps)
  ultimately have "(y - 1) div n = y div n" by (intro int_div_pos_eq)
  then show ?thesis using False by simp
qed

lemma year_days_split:
  "int (year_days y) =
     365 + (if 4 dvd y then 1 else 0) - (if 100 dvd y then 1 else 0) + (if 400 dvd y then 1 else 0)"
proof -
  have "400 dvd y \<Longrightarrow> 100 dvd y" by (rule dvd_trans [of _ 400]) simp
  moreover have "100 dvd y \<Longrightarrow> 4 dvd y" by (rule dvd_trans [of _ 100]) simp
  ultimately show ?thesis
    unfolding year_days_def leap_def mod_eq_0_iff_dvd
    by (cases "4 dvd y"; cases "100 dvd y"; cases "400 dvd y"; simp only: if_True if_False simp_thms)
qed

lemma year_start_Suc: "year_start (y + 1) = year_start y + int (year_days y)"
proof -
  define a where "a = (y - 1) div 4"
  define b where "b = (y - 1) div 100"
  define c where "c = (y - 1) div 400"
  have "y div 4 = a + (if 4 dvd y then 1 else 0)" "y div 100 = b + (if 100 dvd y then 1 else 0)"
    "y div 400 = c + (if 400 dvd y then 1 else 0)"
    unfolding a_def b_def c_def by (rule div_step, simp)+
  then have "year_start (y + 1) = 365 * (y + 1) + (a + (if 4 dvd y then 1 else 0))
      - (b + (if 100 dvd y then 1 else 0)) + (c + (if 400 dvd y then 1 else 0))"
    by (simp only: year_start_def add_diff_cancel_right')
  moreover have "year_start y = 365 * y + a - b + c" by (simp only: year_start_def a_def b_def c_def)
  ultimately show ?thesis unfolding year_days_split by (simp only: distrib_left mult_1_right)
qed

lemma year_start_era: "year_start (1970 + 400 * e) = year_start 1970 + 146097 * e"
proof -
  have "(1970 + 400 * e - 1) div 4 = 1969 div 4 + 100 * e" "(1970 + 400 * e - 1) div 100 = 1969 div 100 + 4 * e"
    "(1970 + 400 * e - 1) div 400 = 1969 div 400 + e"
    using div_mult_self1 [of 4 1969 "100 * e"] div_mult_self1 [of 100 1969 "4 * e"] div_mult_self1 [of 400 1969 e]
    by (simp_all add: algebra_simps)
  then show ?thesis by (simp add: year_start_def)
qed

lemma find_year_start:
  "find_year d y = (y', d') \<Longrightarrow> year_start y' + int d' = year_start y + int d \<and> d' < year_days y' \<and> y \<le> y'"
proof (induction d y rule: find_year.induct)
  case (1 d y)
  show ?case
  proof (cases "d < year_days y")
    case True
    then show ?thesis using "1.prems" by (simp add: find_year.simps [of d y])
  next
    case False
    then have "find_year (d - year_days y) (y + 1) = (y', d')"
      using "1.prems" by (simp add: find_year.simps [of d y])
    then have "year_start y' + int d' = year_start (y + 1) + int (d - year_days y)" "d' < year_days y'" "y + 1 \<le> y'"
      using "1.IH" False by blast+
    then show ?thesis using False by (simp add: year_start_Suc of_nat_diff)
  qed
qed

lemma find_month_start:
  "find_month y d [k..<n] = (m, d') \<Longrightarrow> d < sum_list (map (month_days y) [k..<n]) \<Longrightarrow>
   k \<le> m \<and> m < n \<and> sum_list (map (month_days y) [k..<m]) + d' = d \<and> d' < month_days y m"
proof (induction "n - k" arbitrary: k d)
  case (Suc x)
  then have k: "[k..<n] = k # [Suc k..<n]" by (simp add: upt_conv_Cons)
  show ?case
  proof (cases "d < month_days y k")
    case True
    then show ?thesis using Suc.prems Suc.hyps(2) by (auto simp: k)
  next
    case False
    then have ih: "Suc k \<le> m \<and> m < n \<and> sum_list (map (month_days y) [Suc k..<m]) + d' = d - month_days y k
        \<and> d' < month_days y m"
      using Suc.prems Suc.hyps(2) by (intro Suc.hyps(1)) (auto simp: k)
    moreover have "[k..<m] = k # [Suc k..<m]" using ih by (simp add: upt_conv_Cons)
    ultimately show ?thesis using False by auto
  qed
qed simp

lemma months_of_year: "sum_list (map (month_days y) [0..<12]) = year_days y"
  by (simp add: upt_rec month_days_def year_days_def)

theorem gmtime_timegm: "tm_ok (gmtime t)" "timegm (gmtime t) = t"
proof -
  let ?days = "t div 86400" and ?s = "nat (t mod 86400)"
  obtain y d where y: "find_year (nat (?days mod 146097)) (1970 + 400 * (?days div 146097)) = (y, d)" by fastforce
  obtain m d' where m: "find_month y d [0..<12] = (m, d')" by fastforce
  have gm: "gmtime t = \<lparr>tm_year = y - 1900, tm_mon = m, tm_mday = d' + 1,
      tm_hour = ?s div 3600, tm_min = ?s mod 3600 div 60, tm_sec = ?s mod 60\<rparr>"
    by (simp add: gmtime_def Let_def y m)
  have d: "year_start y + int d = year_start 1970 + ?days" "d < year_days y"
    using find_year_start [OF y] by (simp_all add: year_start_era)
  have mon: "m < 12" "month_start y m + d' = d" "d' < month_days y m"
    using find_month_start [OF m] d(2) months_of_year by (auto simp: month_start_def)
  have s: "int ?s = t mod 86400" "?s < 86400" by (simp_all add: nat_less_iff)
  show "tm_ok (gmtime t)" using mon s(2) unfolding gm tm_ok_def by (auto simp: less_mult_imp_div_less)
  have mm: "?s mod 3600 mod 60 = ?s mod 60" by (simp add: mod_mod_cancel)
  have "?s = ?s div 3600 * 3600 + ?s mod 3600 div 60 * 60 + ?s mod 60"
    using div_mult_mod_eq [of ?s 3600] div_mult_mod_eq [of "?s mod 3600" 60] mm by linarith
  then have clock: "int (?s div 3600) * 3600 + int (?s mod 3600 div 60) * 60 + int (?s mod 60) = t mod 86400"
    using s(1) by linarith
  have date: "year_start y - year_start 1970 + int (month_start y m) + int (d' + 1) - 1 = ?days"
    using d mon(2) by linarith
  have "timegm (gmtime t) = ?days * 86400 + (int (?s div 3600) * 3600 + int (?s mod 3600 div 60) * 60 + int (?s mod 60))"
    unfolding gm timegm_def Let_def tm.simps diff_add_cancel date by (simp only: add.assoc)
  also have "\<dots> = ?days * 86400 + t mod 86400" by (simp only: clock)
  also have "\<dots> = t" by simp
  finally show "timegm (gmtime t) = t" .
qed

lemma gmtime_inj: "gmtime t = gmtime t' \<Longrightarrow> t = t'"
  by (metis gmtime_timegm(2))

lemma year_start_mono: "y \<le> z \<Longrightarrow> year_start y \<le> year_start z"
proof (induction z rule: int_ge_induct)
  case (step z)
  then show ?case by (simp add: year_start_Suc)
qed simp

lemma gmtime_year:
  assumes "0 \<le> t" and "t < 253402300800"
  shows "1970 \<le> tm_year (gmtime t) + 1900" "tm_year (gmtime t) + 1900 \<le> 9999"
proof -
  let ?y = "tm_year (gmtime t) + 1900" and ?days = "t div 86400"
  obtain y d where y: "find_year (nat (?days mod 146097)) (1970 + 400 * (?days div 146097)) = (y, d)" by fastforce
  have eq: "?y = y" by (simp add: gmtime_def Let_def y split: prod.split)
  have "0 \<le> ?days div 146097" using assms(1) by simp
  then show "1970 \<le> ?y" using find_year_start [OF y] by (simp add: eq)
  have "?days < 2932897" using assms(2) by simp
  then have "year_start y < year_start 1970 + 2932897" using find_year_start [OF y] by (simp add: year_start_era)
  moreover have "year_start 10000 = year_start 1970 + 2932897" by (simp add: year_start_def)
  ultimately show "?y \<le> 9999" using year_start_mono [of 10000 y] eq by linarith
qed

section \<open>Padded numbers\<close>

text \<open>The conversions \<open>%02d\<close> and the like on numbers that are not negative, and \<open>%4d\<close>.\<close>

definition zero_pad :: "nat \<Rightarrow> nat \<Rightarrow> string" where
  "zero_pad k n = replicate (k - length (show_nat n)) CHR ''0'' @ show_nat n"

definition space_pad :: "nat \<Rightarrow> string \<Rightarrow> string" where
  "space_pad k s = replicate (k - length s) CHR '' '' @ s"

lemma read_zero_pad: "read_dec (zero_pad k n) = n"
  by (simp add: zero_pad_def read_dec_zeros read_dec_show_nat)

lemma length_zero_pad: "n < 10 ^ k \<Longrightarrow> 0 < k \<Longrightarrow> length (zero_pad k n) = k"
  using length_show_nat [of n k] by (simp add: zero_pad_def)

lemma NUL_notin_zero_pad: "NUL \<notin> set (zero_pad k n)"
  using NUL_notin_show_nat by (auto simp: zero_pad_def)

lemma four_digits:
  assumes "1000 \<le> n" and "n < 10000"
  shows "length (show_nat n) = 4"
proof -
  have "n div 10 \<ge> 10" "n div 10 div 10 \<ge> 10" "\<not> n < 10" "n div 10 div 10 div 10 < 10"
    using assms by (simp_all add: div_mult2_eq [symmetric] less_mult_imp_div_less)
  then show ?thesis
    by (subst show_nat.simps, subst show_nat.simps, subst show_nat.simps, subst show_nat.simps) simp
qed

lemma tm_two_digits:
  assumes "tm_ok t"
  shows "length (zero_pad 2 (tm_mon t + 1)) = 2" "length (zero_pad 2 (tm_mday t)) = 2"
    "length (zero_pad 2 (tm_hour t)) = 2" "length (zero_pad 2 (tm_min t)) = 2" "length (zero_pad 2 (tm_sec t)) = 2"
proof -
  have "tm_mday t \<le> 31" using assms by (auto simp: tm_ok_def month_days_def split: if_splits)
  then show "length (zero_pad 2 (tm_mon t + 1)) = 2" "length (zero_pad 2 (tm_mday t)) = 2"
    "length (zero_pad 2 (tm_hour t)) = 2" "length (zero_pad 2 (tm_min t)) = 2" "length (zero_pad 2 (tm_sec t)) = 2"
    using assms by (auto simp: tm_ok_def intro!: length_zero_pad)
qed

text \<open>
  Year, month, day, hour, minute and second in fixed width, with text between them, determine the
  second.
\<close>

definition year_text :: "tm \<Rightarrow> string" where
  "year_text t = show_int (tm_year t + 1900)"

lemma year_text_4:
  assumes "0 \<le> t" and "t < 253402300800"
  shows "length (year_text (gmtime t)) = 4" "read_dec (year_text (gmtime t)) = nat (tm_year (gmtime t) + 1900)"
proof -
  have year: "1970 \<le> tm_year (gmtime t) + 1900" "tm_year (gmtime t) + 1900 \<le> 9999"
    using gmtime_year [OF assms] by auto
  then have yt: "year_text (gmtime t) = show_nat (nat (tm_year (gmtime t) + 1900))"
    by (simp add: year_text_def show_int_def)
  show "length (year_text (gmtime t)) = 4" unfolding yt using year by (intro four_digits) linarith+
  show "read_dec (year_text (gmtime t)) = nat (tm_year (gmtime t) + 1900)" by (simp add: yt read_dec_show_nat)
qed

lemma date_text_inj:
  assumes t: "0 \<le> t" "t < 253402300800" and t': "0 \<le> t'" "t' < 253402300800"
  assumes eq: "year_text (gmtime t) @ zero_pad 2 (tm_mon (gmtime t) + 1) @ zero_pad 2 (tm_mday (gmtime t)) @ sep
        @ zero_pad 2 (tm_hour (gmtime t)) @ sep' @ zero_pad 2 (tm_min (gmtime t)) @ sep' @ zero_pad 2 (tm_sec (gmtime t)) @ rest
      = year_text (gmtime t') @ zero_pad 2 (tm_mon (gmtime t') + 1) @ zero_pad 2 (tm_mday (gmtime t')) @ sep
        @ zero_pad 2 (tm_hour (gmtime t')) @ sep' @ zero_pad 2 (tm_min (gmtime t')) @ sep' @ zero_pad 2 (tm_sec (gmtime t')) @ rest"
  shows "t = t'"
proof (rule gmtime_inj)
  let ?x = "gmtime t" and ?y = "gmtime t'"
  have fields: "year_text ?x = year_text ?y" "zero_pad 2 (tm_mon ?x + 1) = zero_pad 2 (tm_mon ?y + 1)"
    "zero_pad 2 (tm_mday ?x) = zero_pad 2 (tm_mday ?y)" "zero_pad 2 (tm_hour ?x) = zero_pad 2 (tm_hour ?y)"
    "zero_pad 2 (tm_min ?x) = zero_pad 2 (tm_min ?y)" "zero_pad 2 (tm_sec ?x) = zero_pad 2 (tm_sec ?y)"
    using eq year_text_4(1) [OF t] year_text_4(1) [OF t']
      tm_two_digits [OF gmtime_timegm(1) [of t]] tm_two_digits [OF gmtime_timegm(1) [of t']]
    by (simp_all add: append_eq_append_conv)
  have "nat (tm_year ?x + 1900) = nat (tm_year ?y + 1900)"
    using arg_cong [OF fields(1), of read_dec] by (simp only: year_text_4(2) [OF t] year_text_4(2) [OF t'])
  then have "tm_year ?x = tm_year ?y" using gmtime_year(1) [OF t] gmtime_year(1) [OF t'] by simp
  moreover have "tm_mon ?x = tm_mon ?y" "tm_mday ?x = tm_mday ?y" "tm_hour ?x = tm_hour ?y" "tm_min ?x = tm_min ?y"
      "tm_sec ?x = tm_sec ?y"
    using fields(2-) [THEN arg_cong, of read_dec] by (simp_all add: read_zero_pad)
  ultimately show "?x = ?y" by simp
qed

end
