(* ===== verification/Timestamps.thy ===== *)
theory Timestamps
  imports Calendar
begin

text \<open>
  \<open>src/base/Timestamp.h\<close> and \<open>src/base/Timestamp.cpp\<close>: a point in time as microseconds since
  the epoch in an \<open>int64_t\<close>. Signed overflow is undefined in C++, so the constructors from
  seconds check the range. Division and remainder truncate towards zero
  (\<open>sdiv\<close>, \<open>smod\<close>). The two functions on \<open>double\<close> seconds are in \<open>Timers\<close>.
\<close>

section \<open>The class\<close>

record timestamp =
  microSecondsSinceEpoch :: int

definition kMicroSecondsPerSecond :: int where
  "kMicroSecondsPerSecond = 1000000"

definition int64 :: "int \<Rightarrow> bool" where
  "int64 x \<longleftrightarrow> - 9223372036854775808 \<le> x \<and> x < 9223372036854775808"

definition Timestamp_default :: timestamp where
  "Timestamp_default = \<lparr>microSecondsSinceEpoch = 0\<rparr>"

definition Timestamp_of :: "int \<Rightarrow> timestamp" where
  "Timestamp_of microSecondsSinceEpochArg = \<lparr>microSecondsSinceEpoch = microSecondsSinceEpochArg\<rparr>"

definition swap_Timestamp :: "timestamp \<Rightarrow> timestamp \<Rightarrow> timestamp \<times> timestamp" where
  "swap_Timestamp a that =
     (a\<lparr>microSecondsSinceEpoch := microSecondsSinceEpoch that\<rparr>,
      that\<lparr>microSecondsSinceEpoch := microSecondsSinceEpoch a\<rparr>)"

definition valid_Timestamp :: "timestamp \<Rightarrow> bool" where
  "valid_Timestamp t \<longleftrightarrow> microSecondsSinceEpoch t > 0"

definition invalid_Timestamp :: timestamp where
  "invalid_Timestamp = Timestamp_default"

definition secondsSinceEpoch :: "timestamp \<Rightarrow> int" where
  "secondsSinceEpoch t = microSecondsSinceEpoch t sdiv kMicroSecondsPerSecond"

definition fromUnixTime_us :: "int \<Rightarrow> int \<Rightarrow> timestamp outcome" where
  "fromUnixTime_us t microseconds =
     defined_if (int64 (t * kMicroSecondsPerSecond) \<and> int64 (t * kMicroSecondsPerSecond + microseconds))
       (Inr (Timestamp_of (t * kMicroSecondsPerSecond + microseconds)))"

definition fromUnixTime :: "int \<Rightarrow> timestamp outcome" where
  "fromUnixTime t = fromUnixTime_us t 0"

text \<open>\<open>now()\<close> over the two fields \<open>gettimeofday\<close> stores.\<close>

definition now_Timestamp :: "int \<Rightarrow> int \<Rightarrow> timestamp outcome" where
  "now_Timestamp tv_sec tv_usec =
     defined_if (int64 (tv_sec * kMicroSecondsPerSecond)
         \<and> int64 (tv_sec * kMicroSecondsPerSecond + tv_usec))
       (Inr (Timestamp_of (tv_sec * kMicroSecondsPerSecond + tv_usec)))"

definition less_Timestamp :: "timestamp \<Rightarrow> timestamp \<Rightarrow> bool" where
  "less_Timestamp lhs rhs \<longleftrightarrow> microSecondsSinceEpoch lhs < microSecondsSinceEpoch rhs"

definition eq_Timestamp :: "timestamp \<Rightarrow> timestamp \<Rightarrow> bool" where
  "eq_Timestamp lhs rhs \<longleftrightarrow> microSecondsSinceEpoch lhs = microSecondsSinceEpoch rhs"

text \<open>The conversion \<open>%06ld\<close>: the sign, then zeros up to six characters in all.\<close>

definition pad6 :: "int \<Rightarrow> string" where
  "pad6 i = (if i < 0 then CHR ''-'' # replicate (5 - length (show_nat (nat (- i)))) CHR ''0'' @ show_nat (nat (- i))
             else replicate (6 - length (show_nat (nat i))) CHR ''0'' @ show_nat (nat i))"

definition toString_Timestamp :: "timestamp \<Rightarrow> string" where
  "toString_Timestamp t =
     (let seconds = microSecondsSinceEpoch t sdiv kMicroSecondsPerSecond;
          microseconds = microSecondsSinceEpoch t smod kMicroSecondsPerSecond
      in c_str (snprintf_into (replicate 32 NUL) (show_int seconds @ ''.'' @ pad6 microseconds)))"

text \<open>
  \<open>toFormattedString\<close>: milliseconds shifted by eight hours, cut to seconds by \<open>to_time_t\<close>, broken
  down by \<open>gmtime\<close> and printed with \<open>%4d%02d%02d %02d:%02d:%02d\<close>.
\<close>

definition local_seconds :: "timestamp \<Rightarrow> int" where
  "local_seconds t = (microSecondsSinceEpoch t sdiv 1000 + 8 * 60 * 60 * 1000) sdiv 1000"

definition toFormattedString :: "timestamp \<Rightarrow> string" where
  "toFormattedString t =
     (let now = gmtime (local_seconds t)
      in c_str (snprintf_into (replicate 64 NUL)
           (space_pad 4 (year_text now) @ zero_pad 2 (tm_mon now + 1) @ zero_pad 2 (tm_mday now) @ '' ''
            @ zero_pad 2 (tm_hour now) @ '':'' @ zero_pad 2 (tm_min now) @ '':'' @ zero_pad 2 (tm_sec now))))"

section \<open>Properties\<close>

lemma length_pad6:
  assumes "0 \<le> i" and "i < kMicroSecondsPerSecond"
  shows "length (pad6 i) = 6" "NUL \<notin> set (pad6 i)" "read_dec (pad6 i) = nat i"
proof -
  have "length (show_nat (nat i)) \<le> 6"
    using assms by (intro length_show_nat) (simp_all add: kMicroSecondsPerSecond_def)
  then show "length (pad6 i) = 6" using assms by (simp add: pad6_def)
  show "NUL \<notin> set (pad6 i)" using assms NUL_notin_show_nat by (auto simp: pad6_def)
  show "read_dec (pad6 i) = nat i"
    using assms by (simp add: pad6_def read_dec_zeros read_dec_show_nat)
qed

text \<open>
  For every time stamp from the epoch on, \<open>toString\<close> is never cut off by its 32-byte array:
  it prints the seconds, a point and exactly six digits, from which the microseconds since the
  epoch can be read back without loss.
\<close>

lemma timestamp_toString_roundtrip:
  assumes "0 \<le> microSecondsSinceEpoch t" and "int64 (microSecondsSinceEpoch t)"
  shows "\<exists>secs frac. toString_Timestamp t = secs @ ''.'' @ frac \<and> length frac = 6
    \<and> int (read_dec secs * 1000000 + read_dec frac) = microSecondsSinceEpoch t"
proof -
  let ?us = "microSecondsSinceEpoch t"
  define s where "s = ?us div kMicroSecondsPerSecond"
  define f where "f = ?us mod kMicroSecondsPerSecond"
  have div: "?us sdiv kMicroSecondsPerSecond = s" "?us smod kMicroSecondsPerSecond = f"
    using assms(1)
    by (simp_all add: s_def f_def sdiv_nonneg smod_nonneg kMicroSecondsPerSecond_def)
  have f: "0 \<le> f" "f < kMicroSecondsPerSecond" and s: "0 \<le> s" "s < 10 ^ 13"
    using assms by (simp_all add: f_def s_def kMicroSecondsPerSecond_def int64_def)
  have us: "?us = s * 1000000 + f" by (simp add: s_def f_def kMicroSecondsPerSecond_def)
  have len: "length (show_nat (nat s)) \<le> 13"
    using s by (intro length_show_nat) (simp_all add: nat_less_iff)
  have "toString_Timestamp t = show_nat (nat s) @ ''.'' @ pad6 f"
    using len length_pad6 [OF f] s NUL_notin_show_nat
    by (simp add: toString_Timestamp_def div show_int_def Let_def c_str_snprintf)
  moreover have "int (read_dec (show_nat (nat s)) * 1000000 + read_dec (pad6 f)) = ?us"
    using length_pad6(3) [OF f] s f us by (simp add: read_dec_show_nat)
  ultimately show ?thesis using length_pad6(1) [OF f] by blast
qed

lemma local_seconds_div:
  assumes "0 \<le> microSecondsSinceEpoch t"
  shows "local_seconds t = microSecondsSinceEpoch t div 1000000 + 28800"
proof -
  have "(microSecondsSinceEpoch t div 1000 + 28800 * 1000) div 1000 = microSecondsSinceEpoch t div 1000 div 1000 + 28800"
    using div_mult_self1 [of 1000 "microSecondsSinceEpoch t div 1000" 28800] by linarith
  then show ?thesis using assms by (simp add: local_seconds_def sdiv_nonneg zdiv_zmult2_eq [symmetric])
qed

lemma toFormattedString_fields:
  assumes "0 \<le> local_seconds t" and "local_seconds t < 253402300800"
  shows "toFormattedString t =
    (let now = gmtime (local_seconds t)
     in year_text now @ zero_pad 2 (tm_mon now + 1) @ zero_pad 2 (tm_mday now) @ '' ''
        @ zero_pad 2 (tm_hour now) @ '':'' @ zero_pad 2 (tm_min now) @ '':'' @ zero_pad 2 (tm_sec now))"
    "length (toFormattedString t) = 17"
proof -
  let ?now = "gmtime (local_seconds t)"
  let ?s = "year_text ?now @ zero_pad 2 (tm_mon ?now + 1) @ zero_pad 2 (tm_mday ?now) @ '' ''
        @ zero_pad 2 (tm_hour ?now) @ '':'' @ zero_pad 2 (tm_min ?now) @ '':'' @ zero_pad 2 (tm_sec ?now)"
  have len: "length ?s = 17" and year: "space_pad 4 (year_text ?now) = year_text ?now"
    using year_text_4(1) [OF assms] tm_two_digits [OF gmtime_timegm(1), of "local_seconds t"]
    by (simp_all add: space_pad_def)
  have "NUL \<notin> set (year_text ?now)"
    using gmtime_year [OF assms] NUL_notin_show_nat by (auto simp: year_text_def show_int_def)
  then have "c_str (snprintf_into (replicate 64 NUL) ?s) = ?s"
    using len NUL_notin_zero_pad by (subst c_str_snprintf) auto
  then have fmt: "toFormattedString t = ?s" unfolding toFormattedString_def Let_def year .
  then show "toFormattedString t = (let now = gmtime (local_seconds t)
     in year_text now @ zero_pad 2 (tm_mon now + 1) @ zero_pad 2 (tm_mday now) @ '' ''
        @ zero_pad 2 (tm_hour now) @ '':'' @ zero_pad 2 (tm_min now) @ '':'' @ zero_pad 2 (tm_sec now))"
    by (simp add: Let_def)
  show "length (toFormattedString t) = 17" unfolding fmt by (rule len)
qed

text \<open>
  C28. \<open>toFormattedString\<close> names seconds uniquely. For time stamps from the epoch to the end of the
  year 9999 in the printed time zone the text has 17 characters, and two time stamps get the same
  text exactly when they lie in the same second; this rests on \<open>gmtime\<close> losing no information.
\<close>

theorem formatted_string_unique:
  assumes "0 \<le> microSecondsSinceEpoch t" and "microSecondsSinceEpoch t < 253402272000 * 1000000"
    and "0 \<le> microSecondsSinceEpoch t'" and "microSecondsSinceEpoch t' < 253402272000 * 1000000"
  shows "length (toFormattedString t) = 17
    \<and> (toFormattedString t = toFormattedString t'
       \<longleftrightarrow> microSecondsSinceEpoch t div 1000000 = microSecondsSinceEpoch t' div 1000000)"
proof -
  have ls: "local_seconds t = microSecondsSinceEpoch t div 1000000 + 28800"
    and ls': "local_seconds t' = microSecondsSinceEpoch t' div 1000000 + 28800"
    using assms(1,3) by (simp_all add: local_seconds_div)
  have "microSecondsSinceEpoch t div 1000000 < 253402272000" "microSecondsSinceEpoch t' div 1000000 < 253402272000"
    using assms(2,4) by linarith+
  then have b: "0 \<le> local_seconds t" "local_seconds t < 253402300800"
    and b': "0 \<le> local_seconds t'" "local_seconds t' < 253402300800"
    using ls ls' assms(1,3) by (simp_all add: pos_imp_zdiv_nonneg_iff)
  have "local_seconds t = local_seconds t'" if "toFormattedString t = toFormattedString t'"
    using that date_text_inj [OF b b', of "'' ''" "'':''" "[]"]
    unfolding toFormattedString_fields(1) [OF b] toFormattedString_fields(1) [OF b'] Let_def append_Nil2 by blast
  moreover have "toFormattedString t = toFormattedString t'" if "local_seconds t = local_seconds t'"
    using that by (simp add: toFormattedString_def)
  ultimately show ?thesis using toFormattedString_fields(2) [OF b] ls ls' by auto
qed

theorem formatted_string_unique_witness:
  "toFormattedString (Timestamp_of 1600000000000042) \<noteq> toFormattedString (Timestamp_of 1600000001000042)"
  using formatted_string_unique [of "Timestamp_of 1600000000000042" "Timestamp_of 1600000001000042"]
  by (simp add: Timestamp_of_def)

end
