(* ===== verification/Channels.thy ===== *)
theory Channels
  imports Timestamps
begin

text \<open>
  \<open>src/net/Channel.h\<close> and \<open>src/net/Channel.cpp\<close>: one file descriptor, the events it waits for and
  its callbacks. A callback is a name of type \<open>'cb\<close>; what calling it does to the world is an
  argument of the dispatcher, and so is the way to reach the channel in the world, since a
  callback may change or destroy the channel while its events are being handled.
\<close>

unbundle bit_operations_syntax

section \<open>Event bits\<close>

text \<open>The values of \<open>poll.h\<close> on Linux.\<close>

definition POLLIN :: "32 word" where "POLLIN = 0x001"
definition POLLPRI :: "32 word" where "POLLPRI = 0x002"
definition POLLOUT :: "32 word" where "POLLOUT = 0x004"
definition POLLERR :: "32 word" where "POLLERR = 0x008"
definition POLLHUP :: "32 word" where "POLLHUP = 0x010"
definition POLLNVAL :: "32 word" where "POLLNVAL = 0x020"
definition POLLRDHUP :: "32 word" where "POLLRDHUP = 0x2000"

definition kNoneEvent :: "32 word" where "kNoneEvent = 0"
definition kReadEvent :: "32 word" where "kReadEvent = POLLIN"
definition kWriteEvent :: "32 word" where "kWriteEvent = POLLOUT"

text \<open>The conversion of \<open>ev & bits\<close> to \<open>bool\<close>.\<close>

definition has_bits :: "32 word \<Rightarrow> 32 word \<Rightarrow> bool" where
  "has_bits ev bits \<longleftrightarrow> ev AND bits \<noteq> 0"

section \<open>The class\<close>

record 'cb channel =
  ch_fd :: int
  ch_events :: "32 word"
  ch_revents :: "32 word"
  ch_index :: int
  ch_logHup :: bool
  ch_tied :: bool
  ch_eventHandling :: bool
  ch_addedToLoop :: bool
  ch_readCallback :: "'cb option"
  ch_closeCallback :: "'cb option"
  ch_writeCallback :: "'cb option"
  ch_errorCallback :: "'cb option"

text \<open>
  The constructor leaves \<open>logHup_\<close> and \<open>tied_\<close> uninitialised: their values are arguments.
\<close>

definition Channel_ctor :: "bool \<Rightarrow> bool \<Rightarrow> int \<Rightarrow> 'cb channel" where
  "Channel_ctor logHup0 tied0 fd =
     \<lparr>ch_fd = fd, ch_events = 0, ch_revents = 0, ch_index = - 1, ch_logHup = logHup0, ch_tied = tied0,
      ch_eventHandling = False, ch_addedToLoop = False, ch_readCallback = None,
      ch_closeCallback = None, ch_writeCallback = None, ch_errorCallback = None\<rparr>"

definition setReadCallback :: "'cb \<Rightarrow> 'cb channel \<Rightarrow> 'cb channel" where
  "setReadCallback cb c = c\<lparr>ch_readCallback := Some cb\<rparr>"

definition setWriteCallback :: "'cb \<Rightarrow> 'cb channel \<Rightarrow> 'cb channel" where
  "setWriteCallback cb c = c\<lparr>ch_writeCallback := Some cb\<rparr>"

definition setCloseCallback :: "'cb \<Rightarrow> 'cb channel \<Rightarrow> 'cb channel" where
  "setCloseCallback cb c = c\<lparr>ch_closeCallback := Some cb\<rparr>"

definition setErrorCallback :: "'cb \<Rightarrow> 'cb channel \<Rightarrow> 'cb channel" where
  "setErrorCallback cb c = c\<lparr>ch_errorCallback := Some cb\<rparr>"

definition tie :: "'cb channel \<Rightarrow> 'cb channel" where
  "tie c = c\<lparr>ch_tied := True\<rparr>"

definition set_revents :: "32 word \<Rightarrow> 'cb channel \<Rightarrow> 'cb channel" where
  "set_revents revt c = c\<lparr>ch_revents := revt\<rparr>"

definition set_index :: "int \<Rightarrow> 'cb channel \<Rightarrow> 'cb channel" where
  "set_index idx c = c\<lparr>ch_index := idx\<rparr>"

definition isNoneEvent :: "'cb channel \<Rightarrow> bool" where
  "isNoneEvent c \<longleftrightarrow> ch_events c = kNoneEvent"

definition isWriting :: "'cb channel \<Rightarrow> bool" where
  "isWriting c \<longleftrightarrow> has_bits (ch_events c) kWriteEvent"

definition isReading :: "'cb channel \<Rightarrow> bool" where
  "isReading c \<longleftrightarrow> has_bits (ch_events c) kReadEvent"

text \<open>
  The functions that change the event set; each continues with \<open>update\<close>, which marks the
  channel as added and hands it to the poller (\<open>PollPollers\<close>).
\<close>

definition update_mark :: "'cb channel \<Rightarrow> 'cb channel" where
  "update_mark c = c\<lparr>ch_addedToLoop := True\<rparr>"

definition remove_mark :: "'cb channel \<Rightarrow> 'cb channel" where
  "remove_mark c = c\<lparr>ch_addedToLoop := False\<rparr>"

definition enableReading :: "'cb channel \<Rightarrow> 'cb channel" where
  "enableReading c = update_mark (c\<lparr>ch_events := ch_events c OR kReadEvent\<rparr>)"

definition disableReading :: "'cb channel \<Rightarrow> 'cb channel" where
  "disableReading c = update_mark (c\<lparr>ch_events := ch_events c AND NOT kReadEvent\<rparr>)"

definition enableWriting :: "'cb channel \<Rightarrow> 'cb channel" where
  "enableWriting c = update_mark (c\<lparr>ch_events := ch_events c OR kWriteEvent\<rparr>)"

definition disableWriting :: "'cb channel \<Rightarrow> 'cb channel" where
  "disableWriting c = update_mark (c\<lparr>ch_events := ch_events c AND NOT kWriteEvent\<rparr>)"

definition disableAll :: "'cb channel \<Rightarrow> 'cb channel" where
  "disableAll c = update_mark (c\<lparr>ch_events := kNoneEvent\<rparr>)"

section \<open>Dispatching events\<close>

text \<open>
  \<open>chan\<close> reads the channel in the world (an error once it is destroyed), \<open>upd\<close> replaces it,
  \<open>call\<close> invokes a callback. \<open>if_event\<close> is one conditional of the dispatcher.
\<close>

definition if_event ::
  "('s \<Rightarrow> 'cb channel outcome) \<Rightarrow> (32 word \<Rightarrow> bool) \<Rightarrow> ('cb channel \<Rightarrow> 'cb option)
   \<Rightarrow> ('cb \<Rightarrow> 's \<Rightarrow> 's outcome) \<Rightarrow> 's \<Rightarrow> 's outcome" where
  "if_event chan ready callback call s =
     bind_out (chan s) (\<lambda>c.
       if ready (ch_revents c)
       then (case callback c of None \<Rightarrow> Inr s | Some cb \<Rightarrow> call cb s)
       else Inr s)"

definition close_ready :: "32 word \<Rightarrow> bool" where
  "close_ready ev \<longleftrightarrow> has_bits ev POLLHUP \<and> \<not> has_bits ev POLLIN"

definition error_ready :: "32 word \<Rightarrow> bool" where
  "error_ready ev \<longleftrightarrow> has_bits ev (POLLERR OR POLLNVAL)"

definition read_ready :: "32 word \<Rightarrow> bool" where
  "read_ready ev \<longleftrightarrow> has_bits ev (POLLIN OR POLLPRI OR POLLRDHUP)"

definition write_ready :: "32 word \<Rightarrow> bool" where
  "write_ready ev \<longleftrightarrow> has_bits ev POLLOUT"

definition set_handling ::
  "('s \<Rightarrow> 'cb channel outcome) \<Rightarrow> ('cb channel \<Rightarrow> 's \<Rightarrow> 's) \<Rightarrow> bool \<Rightarrow> 's \<Rightarrow> 's outcome" where
  "set_handling chan upd b s = bind_out (chan s) (\<lambda>c. Inr (upd (c\<lparr>ch_eventHandling := b\<rparr>) s))"

definition handleEventWithGuard ::
  "('s \<Rightarrow> 'cb channel outcome) \<Rightarrow> ('cb channel \<Rightarrow> 's \<Rightarrow> 's)
   \<Rightarrow> ('cb \<Rightarrow> 's \<Rightarrow> 's outcome) \<Rightarrow> ('cb \<Rightarrow> timestamp \<Rightarrow> 's \<Rightarrow> 's outcome)
   \<Rightarrow> timestamp \<Rightarrow> 's \<Rightarrow> 's outcome" where
  "handleEventWithGuard chan upd call call_read receiveTime s =
     bind_out (set_handling chan upd True s) (\<lambda>s.
     bind_out (if_event chan close_ready ch_closeCallback call s) (\<lambda>s.
     bind_out (if_event chan error_ready ch_errorCallback call s) (\<lambda>s.
     bind_out (if_event chan read_ready ch_readCallback (\<lambda>cb. call_read cb receiveTime) s) (\<lambda>s.
     bind_out (if_event chan write_ready ch_writeCallback call s) (\<lambda>s.
     set_handling chan upd False s)))))"

definition handleEvent ::
  "('s \<Rightarrow> 'cb channel outcome) \<Rightarrow> ('cb channel \<Rightarrow> 's \<Rightarrow> 's)
   \<Rightarrow> ('cb \<Rightarrow> 's \<Rightarrow> 's outcome) \<Rightarrow> ('cb \<Rightarrow> timestamp \<Rightarrow> 's \<Rightarrow> 's outcome)
   \<Rightarrow> timestamp \<Rightarrow> 's \<Rightarrow> 's outcome" where
  "handleEvent chan upd call call_read receiveTime s =
     handleEventWithGuard chan upd call call_read receiveTime s"

definition eventsToString_fd :: "int \<Rightarrow> 32 word \<Rightarrow> string" where
  "eventsToString_fd fd ev =
     show_int fd @ '': ''
     @ (if has_bits ev POLLIN then ''IN '' else [])
     @ (if has_bits ev POLLPRI then ''PRI'' else [])
     @ (if has_bits ev POLLOUT then ''OUT '' else [])
     @ (if has_bits ev POLLHUP then ''HUP '' else [])
     @ (if has_bits ev POLLRDHUP then ''ERR '' else [])
     @ (if has_bits ev POLLNVAL then ''NVAL '' else [])"

definition reventsToString :: "'cb channel \<Rightarrow> string" where
  "reventsToString c = eventsToString_fd (ch_fd c) (ch_revents c)"

definition eventsToString :: "'cb channel \<Rightarrow> string" where
  "eventsToString c = eventsToString_fd (ch_fd c) (ch_events c)"

section \<open>What a dispatch calls\<close>

text \<open>
  The callbacks of a channel that the event bits select, in order, and their calls one after
  the other. \<open>same_handlers\<close> says that a callback leaves the bits and the callbacks in place.
\<close>

datatype 'cb event_call = PlainCall 'cb | ReadCall 'cb

definition selected :: "bool \<Rightarrow> ('cb \<Rightarrow> 'cb event_call) \<Rightarrow> 'cb option \<Rightarrow> 'cb event_call list" where
  "selected ready k cb = (if ready then map k (case cb of None \<Rightarrow> [] | Some f \<Rightarrow> [f]) else [])"

definition event_calls :: "'cb channel \<Rightarrow> 'cb event_call list" where
  "event_calls c =
     selected (close_ready (ch_revents c)) PlainCall (ch_closeCallback c)
     @ selected (error_ready (ch_revents c)) PlainCall (ch_errorCallback c)
     @ selected (read_ready (ch_revents c)) ReadCall (ch_readCallback c)
     @ selected (write_ready (ch_revents c)) PlainCall (ch_writeCallback c)"

fun run_call ::
  "('cb \<Rightarrow> 's \<Rightarrow> 's outcome) \<Rightarrow> ('cb \<Rightarrow> timestamp \<Rightarrow> 's \<Rightarrow> 's outcome) \<Rightarrow> timestamp
   \<Rightarrow> 's \<Rightarrow> 'cb event_call \<Rightarrow> 's outcome" where
  "run_call call call_read t s (PlainCall f) = call f s"
| "run_call call call_read t s (ReadCall f) = call_read f t s"

definition same_handlers :: "'cb channel \<Rightarrow> 'cb channel \<Rightarrow> bool" where
  "same_handlers c d \<longleftrightarrow> ch_revents c = ch_revents d
     \<and> ch_readCallback c = ch_readCallback d \<and> ch_closeCallback c = ch_closeCallback d
     \<and> ch_writeCallback c = ch_writeCallback d \<and> ch_errorCallback c = ch_errorCallback d"

section \<open>Event sets\<close>

lemmas event_values = POLLIN_def POLLPRI_def POLLOUT_def POLLERR_def POLLHUP_def POLLNVAL_def
  POLLRDHUP_def kNoneEvent_def kReadEvent_def kWriteEvent_def

lemma has_bits_iff:
  "has_bits w kReadEvent \<longleftrightarrow> bit w 0" "has_bits w kWriteEvent \<longleftrightarrow> bit w 2"
  "has_bits w POLLIN \<longleftrightarrow> bit w 0" "has_bits w POLLPRI \<longleftrightarrow> bit w 1" "has_bits w POLLOUT \<longleftrightarrow> bit w 2"
  "has_bits w POLLERR \<longleftrightarrow> bit w 3" "has_bits w POLLHUP \<longleftrightarrow> bit w 4" "has_bits w POLLNVAL \<longleftrightarrow> bit w 5"
  "has_bits w POLLRDHUP \<longleftrightarrow> bit w 13"
  by (simp_all add: has_bits_def event_values bit_iff_and_push_bit_not_eq_0 push_bit_eq_mult)

lemma has_bits_or: "has_bits w (a OR b) \<longleftrightarrow> has_bits w a \<or> has_bits w b"
  by (metis (no_types) has_bits_def bit.conj_disj_distrib or_eq_0_iff)

lemma bit_events:
  "bit kReadEvent n \<longleftrightarrow> n = 0" "bit kWriteEvent n \<longleftrightarrow> n = 2" "\<not> bit kNoneEvent n"
  "n < 32 \<Longrightarrow> bit (NOT kReadEvent) n \<longleftrightarrow> n \<noteq> 0" "n < 32 \<Longrightarrow> bit (NOT kWriteEvent) n \<longleftrightarrow> n \<noteq> 2"
proof -
  have "kWriteEvent = push_bit 2 1" by (simp add: event_values push_bit_eq_mult)
  then have "bit kWriteEvent n \<longleftrightarrow> bit (push_bit 2 1 :: 32 word) n" by simp
  then show w: "bit kWriteEvent n \<longleftrightarrow> n = 2" unfolding bit_push_bit_iff bit_1_iff by auto
  show r: "bit kReadEvent n \<longleftrightarrow> n = 0" by (simp add: event_values bit_1_iff)
  show "\<not> bit kNoneEvent n" by (simp add: event_values)
  show "n < 32 \<Longrightarrow> bit (NOT kReadEvent) n \<longleftrightarrow> n \<noteq> 0" by (simp add: bit_not_iff r)
  show "n < 32 \<Longrightarrow> bit (NOT kWriteEvent) n \<longleftrightarrow> n \<noteq> 2" by (simp add: bit_not_iff w)
qed

lemma bit_POLLIN: "bit POLLIN n \<longleftrightarrow> n = 0"
  by (simp add: POLLIN_def bit_1_iff)

lemmas event_set_defs = enableReading_def disableReading_def enableWriting_def disableWriting_def
  disableAll_def update_mark_def isReading_def isWriting_def isNoneEvent_def has_bits_iff bit_or_iff
  bit_and_iff bit_events

lemma event_set_simps [simp]:
  "isReading (enableReading c)" "\<not> isReading (disableReading c)" "\<not> isReading (disableAll c)"
  "isReading (enableWriting c) = isReading c" "isReading (disableWriting c) = isReading c"
  "isWriting (enableWriting c)" "\<not> isWriting (disableWriting c)" "\<not> isWriting (disableAll c)"
  "isWriting (enableReading c) = isWriting c" "isWriting (disableReading c) = isWriting c"
  "isNoneEvent (disableAll c)"
  by (simp_all add: event_set_defs)

text \<open>Two event sets agree when they agree on reading and writing and have no other bit.\<close>

lemma isNoneEvent_iff:
  assumes "\<And>n. n \<noteq> 0 \<Longrightarrow> n \<noteq> 2 \<Longrightarrow> \<not> bit (ch_events c) n"
  shows "isNoneEvent c \<longleftrightarrow> \<not> isReading c \<and> \<not> isWriting c"
proof
  assume none: "\<not> isReading c \<and> \<not> isWriting c"
  have "\<not> bit (ch_events c) n" for n
    using assms [of n] none by (cases "n = 0 \<or> n = 2") (auto simp: isReading_def isWriting_def has_bits_iff)
  then show "isNoneEvent c" by (simp add: isNoneEvent_def kNoneEvent_def bit_eq_iff)
qed (simp add: isNoneEvent_def isReading_def isWriting_def has_bits_def kNoneEvent_def)

section \<open>The dispatcher runs the selected callbacks\<close>

text \<open>
  The interface between a channel and its owner: the channel can be read back after it is
  written, and callbacks leave its received events and its callbacks in place.
\<close>

locale channel_world =
  fixes chan :: "'s \<Rightarrow> 'cb channel outcome"
    and upd :: "'cb channel \<Rightarrow> 's \<Rightarrow> 's"
    and call :: "'cb \<Rightarrow> 's \<Rightarrow> 's outcome"
    and call_read :: "'cb \<Rightarrow> timestamp \<Rightarrow> 's \<Rightarrow> 's outcome"
  assumes chan_upd: "chan s = Inr c \<Longrightarrow> chan (upd d s) = Inr d"
    and call_frame: "chan s = Inr c \<Longrightarrow> call f s = Inr s' \<Longrightarrow> \<exists>d. chan s' = Inr d \<and> same_handlers c d"
    and read_frame: "chan s = Inr c \<Longrightarrow> call_read f t s = Inr s' \<Longrightarrow> \<exists>d. chan s' = Inr d \<and> same_handlers c d"
begin

lemma if_event_calls:
  assumes "chan s = Inr c" and "\<And>f. run_call call call_read t s (k f) = invoke f s"
  shows "if_event chan ready callback invoke s
      = run_events (run_call call call_read t) s (selected (ready (ch_revents c)) k (callback c))"
  using assms by (cases "callback c") (simp_all add: if_event_def selected_def)

lemma calls_frame:
  "chan s = Inr c \<Longrightarrow> run_events (run_call call call_read t) s calls = Inr s' \<Longrightarrow>
   \<exists>d. chan s' = Inr d \<and> same_handlers c d"
proof (induction calls arbitrary: s c)
  case Nil
  then show ?case by (auto simp: same_handlers_def)
next
  case (Cons x calls)
  then obtain s1 where s1: "run_call call call_read t s x = Inr s1"
      "run_events (run_call call call_read t) s1 calls = Inr s'"
    by (auto simp: outcome_simps)
  obtain d where "chan s1 = Inr d" "same_handlers c d"
    using call_frame [OF Cons.prems(1)] read_frame [OF Cons.prems(1)] s1(1) by (cases x) (force, force)
  then show ?case using Cons.IH s1(2) by (fastforce simp: same_handlers_def)
qed

lemma handleEvent_calls:
  assumes "chan s = Inr c"
  shows "handleEvent chan upd call call_read t s =
    bind_out (run_events (run_call call call_read t) (upd (c\<lparr>ch_eventHandling := True\<rparr>) s) (event_calls c))
      (set_handling chan upd False)"
proof -
  let ?R = "run_events (run_call call call_read t)"
  let ?c = "c\<lparr>ch_eventHandling := True\<rparr>"
  define close where "close = selected (close_ready (ch_revents c)) PlainCall (ch_closeCallback c)"
  define err where "err = selected (error_ready (ch_revents c)) PlainCall (ch_errorCallback c)"
  define rd where "rd = selected (read_ready (ch_revents c)) ReadCall (ch_readCallback c)"
  define wr where "wr = selected (write_ready (ch_revents c)) PlainCall (ch_writeCallback c)"
  have calls:
    "if_event chan close_ready ch_closeCallback call s' = ?R s' close"
    "if_event chan error_ready ch_errorCallback call s' = ?R s' err"
    "if_event chan read_ready ch_readCallback (\<lambda>cb. call_read cb t) s' = ?R s' rd"
    "if_event chan write_ready ch_writeCallback call s' = ?R s' wr"
    if "chan s' = Inr d" "same_handlers c d" for s' d
    using that(2) if_event_calls [OF that(1), of t PlainCall call] if_event_calls [OF that(1), of t ReadCall]
    by (simp_all add: close_def err_def rd_def wr_def same_handlers_def)
  have step: "bind_out (?R s' xs) f = bind_out (?R s' xs) g"
    if "chan s' = Inr d" "same_handlers c d"
      and "\<And>s'' d'. chan s'' = Inr d' \<Longrightarrow> same_handlers c d' \<Longrightarrow> f s'' = g s''" for s' d xs f g
    using calls_frame [OF that(1), of t xs] that(2,3)
    by (cases "?R s' xs") (fastforce simp: same_handlers_def)+
  let ?ifc = "if_event chan close_ready ch_closeCallback call"
  let ?ife = "if_event chan error_ready ch_errorCallback call"
  let ?ifr = "if_event chan read_ready ch_readCallback (\<lambda>cb. call_read cb t)"
  let ?ifw = "if_event chan write_ready ch_writeCallback call"
  let ?W = "\<lambda>s. bind_out (?R s wr) (set_handling chan upd False)"
  let ?V = "\<lambda>s. bind_out (?R s rd) ?W"
  have V: "bind_out (?ifr s') (\<lambda>s. bind_out (?ifw s) (set_handling chan upd False)) = ?V s'"
    if "chan s' = Inr d" "same_handlers c d" for s' d
    unfolding calls(3) [OF that] by (rule step [OF that]) (simp only: calls(4))
  have U: "bind_out (?ife s') (\<lambda>s. bind_out (?ifr s) (\<lambda>s. bind_out (?ifw s) (set_handling chan upd False)))
      = bind_out (?R s' err) ?V"
    if "chan s' = Inr d" "same_handlers c d" for s' d
    unfolding calls(2) [OF that] by (rule step [OF that]) (simp only: V)
  have start: "chan (upd ?c s) = Inr ?c" "same_handlers c ?c"
    using chan_upd [OF assms] by (simp_all add: same_handlers_def)
  have "handleEvent chan upd call call_read t s = bind_out (?ifc (upd ?c s)) (\<lambda>s. bind_out (?ife s)
      (\<lambda>s. bind_out (?ifr s) (\<lambda>s. bind_out (?ifw s) (set_handling chan upd False))))"
    by (simp add: handleEvent_def handleEventWithGuard_def set_handling_def [of _ _ True] assms)
  also have "\<dots> = bind_out (?R (upd ?c s) close) (\<lambda>s. bind_out (?R s err) ?V)"
    unfolding calls(1) [OF start] by (rule step [OF start]) (simp only: U)
  also have "\<dots> = bind_out (?R (upd ?c s) (event_calls c)) (set_handling chan upd False)"
    by (simp add: event_calls_def close_def err_def rd_def wr_def run_events_append bind_out_assoc)
  finally show ?thesis .
qed

end

text \<open>
  A channel that is readable and nothing else: its read callback is called once, whatever else
  the callback does, as long as the channel and its received events are still there.
\<close>

lemma readable_only:
  "\<not> close_ready POLLIN" "\<not> error_ready POLLIN" "read_ready POLLIN" "\<not> write_ready POLLIN"
  by (simp_all add: close_ready_def error_ready_def read_ready_def write_ready_def has_bits_or has_bits_iff bit_POLLIN)

lemma handleEvent_readable:
  assumes "chan s = Inr c" and "\<And>d s. chan (upd d s) = Inr d" and "ch_revents c = POLLIN" and "ch_readCallback c = Some f"
    and "call_read f t (upd (c\<lparr>ch_eventHandling := True\<rparr>) s) = Inr s'" and "chan s' = Inr d" and "ch_revents d = POLLIN"
  shows "handleEvent chan upd call call_read t s = Inr (upd (d\<lparr>ch_eventHandling := False\<rparr>) s')"
  using assms by (simp add: handleEvent_def handleEventWithGuard_def set_handling_def if_event_def readable_only)

end
