(* ===== verification/PollPollers.thy ===== *)
theory PollPollers
  imports Channels
begin

text \<open>
  \<open>src/net/PollPoller.h\<close> and \<open>src/net/PollPoller.cpp\<close>: the array handed to \<open>poll(2)\<close> and the map
  from file descriptors to channels. Channel objects live in a heap; a pointer that leads to no
  object makes the access undefined. The map of the code holds pointers, so the heap is kept
  in the poller's state. The result of the system call is an argument.
\<close>

section \<open>State\<close>

record pollfd =
  pfd_fd :: int
  pfd_events :: "16 word"
  pfd_revents :: "16 word"

record 'cb poller =
  pl_pollfds :: "pollfd list"
  pl_channels :: "(int \<times> nat) list"
  pl_heap :: "nat \<rightharpoonup> 'cb channel"

definition PollPoller_ctor :: "(nat \<rightharpoonup> 'cb channel) \<Rightarrow> 'cb poller" where
  "PollPoller_ctor h = \<lparr>pl_pollfds = [], pl_channels = [], pl_heap = h\<rparr>"

definition deref :: "'cb poller \<Rightarrow> nat \<Rightarrow> 'cb channel outcome" where
  "deref p c = (case pl_heap p c of None \<Rightarrow> Inl UndefinedBehaviour | Some ch \<Rightarrow> Inr ch)"

definition store :: "nat \<Rightarrow> 'cb channel \<Rightarrow> 'cb poller \<Rightarrow> 'cb poller" where
  "store c ch p = p\<lparr>pl_heap := (pl_heap p)(c \<mapsto> ch)\<rparr>"

section \<open>Operations\<close>

definition hasChannel_poller :: "nat \<Rightarrow> 'cb poller \<Rightarrow> bool outcome" where
  "hasChannel_poller c p =
     bind_out (deref p c) (\<lambda>ch. Inr (map_of (pl_channels p) (ch_fd ch) = Some c))"

definition updateChannel_poller :: "nat \<Rightarrow> 'cb poller \<Rightarrow> 'cb poller outcome" where
  "updateChannel_poller c p =
     bind_out (deref p c) (\<lambda>ch.
       if ch_index ch < 0
       then let pfd = \<lparr>pfd_fd = ch_fd ch, pfd_events = ucast (ch_events ch), pfd_revents = 0\<rparr>;
                p = p\<lparr>pl_pollfds := pl_pollfds p @ [pfd]\<rparr>;
                idx = int (length (pl_pollfds p)) - 1;
                p = store c (set_index idx ch) p
            in Inr (p\<lparr>pl_channels := map_put (ch_fd ch) c (pl_channels p)\<rparr>)
       else let idx = nat (ch_index ch) in
         defined_if (idx < length (pl_pollfds p))
           (let pfd = \<lparr>pfd_fd = (if isNoneEvent ch then - ch_fd ch - 1 else ch_fd ch),
                       pfd_events = ucast (ch_events ch), pfd_revents = 0\<rparr>
            in Inr (p\<lparr>pl_pollfds := (pl_pollfds p)[idx := pfd]\<rparr>)))"

text \<open>\<open>assertInLoopThread\<close> only logs when it fails (\<open>LOG_FATAL\<close> does not end the process).\<close>

definition removeChannel_poller :: "nat \<Rightarrow> 'cb poller \<Rightarrow> 'cb poller outcome" where
  "removeChannel_poller c p =
     bind_out (deref p c) (\<lambda>ch.
       let idx = ch_index ch in
       defined_if (0 \<le> idx \<and> nat idx < length (pl_pollfds p))
         (let p = p\<lparr>pl_channels := map_erase (ch_fd ch) (pl_channels p)\<rparr> in
          if nat idx = length (pl_pollfds p) - 1
          then Inr (p\<lparr>pl_pollfds := butlast (pl_pollfds p)\<rparr>)
          else let back = last (pl_pollfds p);
                   channelAtEnd = (if pfd_fd back < 0 then - pfd_fd back - 1 else pfd_fd back)
            in case map_of (pl_channels p) channelAtEnd of
                 None \<Rightarrow> Inl UndefinedBehaviour
               | Some e \<Rightarrow> bind_out (deref p e) (\<lambda>che.
                   let p = store e (set_index idx che) p
                   in Inr (p\<lparr>pl_pollfds := butlast ((pl_pollfds p)[nat idx := back])\<rparr>))))"

fun fillActive :: "pollfd list \<Rightarrow> int \<Rightarrow> nat list \<Rightarrow> 'cb poller \<Rightarrow> (nat list \<times> 'cb poller) outcome" where
  "fillActive [] numEvents active p = Inr (active, p)"
| "fillActive (pfd # pfds) numEvents active p =
     (if \<not> 0 < numEvents then Inr (active, p)
      else if 0 < sint (pfd_revents pfd)
      then case map_of (pl_channels p) (pfd_fd pfd) of
          None \<Rightarrow> Inl AssertionFailed
        | Some c \<Rightarrow> bind_out (deref p c) (\<lambda>ch.
            asserting (ch_fd ch = pfd_fd pfd)
              (fillActive pfds (numEvents - 1) (active @ [c])
                (store c (set_revents (scast (pfd_revents pfd)) ch) p)))
      else fillActive pfds numEvents active p)"

definition fillActiveChannels :: "int \<Rightarrow> nat list \<Rightarrow> 'cb poller \<Rightarrow> (nat list \<times> 'cb poller) outcome" where
  "fillActiveChannels numEvents active p = fillActive (pl_pollfds p) numEvents active p"

text \<open>
  The result of \<open>poll(2)\<close>: the \<open>revents\<close> it stored in the array and the number of entries where
  they are not zero, or an error number. \<open>LOG_SYSERR\<close> ends the process (see \<open>Loggings\<close>).
\<close>

datatype poll_result = PollEvents "16 word list" | PollError int

definition EINTR :: int where "EINTR = 4"

definition poll_count :: "16 word list \<Rightarrow> int" where
  "poll_count rs = int (length (filter (\<lambda>r. r \<noteq> 0) rs))"

definition poll_PollPoller :: "poll_result \<Rightarrow> nat list \<Rightarrow> 'cb poller \<Rightarrow> (nat list \<times> 'cb poller) outcome" where
  "poll_PollPoller res active p =
     (case res of
        PollEvents rs \<Rightarrow>
          let p = p\<lparr>pl_pollfds := map2 (\<lambda>pfd r. pfd\<lparr>pfd_revents := r\<rparr>) (pl_pollfds p) rs\<rparr>;
              numEvents = poll_count rs
          in if 0 < numEvents then fillActiveChannels numEvents active p else Inr (active, p)
      | PollError savedErrno \<Rightarrow> if savedErrno \<noteq> EINTR then Inl Aborted else Inr (active, p))"

text \<open>A channel's change of interest, followed by the update of the poller.\<close>

datatype interest = EnableReading | DisableReading | EnableWriting | DisableWriting | DisableAll

fun change :: "interest \<Rightarrow> 'cb channel \<Rightarrow> 'cb channel" where
  "change EnableReading ch = enableReading ch"
| "change DisableReading ch = disableReading ch"
| "change EnableWriting ch = enableWriting ch"
| "change DisableWriting ch = disableWriting ch"
| "change DisableAll ch = disableAll ch"

definition update_channel :: "interest \<Rightarrow> nat \<Rightarrow> 'cb poller \<Rightarrow> 'cb poller outcome" where
  "update_channel k c p =
     bind_out (deref p c) (\<lambda>ch. updateChannel_poller c (store c (change k ch) p))"

definition remove_channel :: "nat \<Rightarrow> 'cb poller \<Rightarrow> 'cb poller outcome" where
  "remove_channel c p =
     bind_out (deref p c) (\<lambda>ch. removeChannel_poller c (store c (remove_mark ch) p))"

section \<open>Specification\<close>

definition plain_fd :: "int \<Rightarrow> int" where
  "plain_fd fd = (if fd < 0 then - fd - 1 else fd)"

text \<open>Entry \<open>i\<close> of the array belongs to the channel registered for its descriptor.\<close>

definition entry_ok :: "'cb poller \<Rightarrow> nat \<Rightarrow> bool" where
  "entry_ok p i \<longleftrightarrow>
     (let pfd = pl_pollfds p ! i in
      case map_of (pl_channels p) (plain_fd (pfd_fd pfd)) of
        None \<Rightarrow> False
      | Some c \<Rightarrow> (case pl_heap p c of
            None \<Rightarrow> False
          | Some ch \<Rightarrow> ch_index ch = int i \<and> pfd_events pfd = ucast (ch_events ch)
              \<and> (pfd_fd pfd < 0 \<longrightarrow> isNoneEvent ch)))"

definition registered_ok :: "'cb poller \<Rightarrow> int \<Rightarrow> nat \<Rightarrow> bool" where
  "registered_ok p fd c \<longleftrightarrow>
     (case pl_heap p c of
        None \<Rightarrow> False
      | Some ch \<Rightarrow> ch_fd ch = fd \<and> 0 \<le> fd \<and> 0 \<le> ch_index ch \<and> nat (ch_index ch) < length (pl_pollfds p)
          \<and> plain_fd (pfd_fd (pl_pollfds p ! nat (ch_index ch))) = fd)"

definition poller_inv :: "'cb poller \<Rightarrow> bool" where
  "poller_inv p \<longleftrightarrow>
     sorted (map fst (pl_channels p)) \<and> distinct (map fst (pl_channels p))
     \<and> (\<forall>i < length (pl_pollfds p). entry_ok p i)
     \<and> (\<forall>(fd, c) \<in> set (pl_channels p). registered_ok p fd c)"

text \<open>The same two relations with the objects named.\<close>

definition entry_of :: "'cb poller \<Rightarrow> nat \<Rightarrow> nat \<Rightarrow> 'cb channel \<Rightarrow> bool" where
  "entry_of p i c ch \<longleftrightarrow>
     map_of (pl_channels p) (plain_fd (pfd_fd (pl_pollfds p ! i))) = Some c \<and> pl_heap p c = Some ch
     \<and> ch_index ch = int i \<and> pfd_events (pl_pollfds p ! i) = ucast (ch_events ch)
     \<and> (pfd_fd (pl_pollfds p ! i) < 0 \<longrightarrow> isNoneEvent ch)"

definition chan_of :: "'cb poller \<Rightarrow> int \<Rightarrow> nat \<Rightarrow> 'cb channel \<Rightarrow> bool" where
  "chan_of p fd c ch \<longleftrightarrow>
     pl_heap p c = Some ch \<and> ch_fd ch = fd \<and> 0 \<le> fd \<and> 0 \<le> ch_index ch
     \<and> nat (ch_index ch) < length (pl_pollfds p)
     \<and> plain_fd (pfd_fd (pl_pollfds p ! nat (ch_index ch))) = fd"

definition registered :: "'cb poller \<Rightarrow> nat \<Rightarrow> bool" where
  "registered p c \<longleftrightarrow>
     (case pl_heap p c of None \<Rightarrow> False | Some ch \<Rightarrow> map_of (pl_channels p) (ch_fd ch) = Some c)"

text \<open>
  The poller as its clients see it: for every channel object its descriptor, its events and
  whether it is registered. The operations on this view and the callers' obligations: a
  channel is registered at most once under its descriptor and never again after its removal.
\<close>

type_synonym chan_view = "nat \<rightharpoonup> int \<times> 32 word \<times> bool"

definition view :: "'cb poller \<Rightarrow> chan_view" where
  "view p = (\<lambda>c. map_option (\<lambda>ch. (ch_fd ch, ch_events ch, registered p c)) (pl_heap p c))"

datatype poller_op = OpNew nat bool bool int | OpChange interest nat | OpRemoveChannel nat | OpPoll poll_result

fun poller_step :: "'cb poller \<Rightarrow> poller_op \<Rightarrow> 'cb poller outcome" where
  "poller_step p (OpNew c lh tied fd) = Inr (store c (Channel_ctor lh tied fd) p)"
| "poller_step p (OpChange k c) = update_channel k c p"
| "poller_step p (OpRemoveChannel c) = remove_channel c p"
| "poller_step p (OpPoll res) = bind_out (poll_PollPoller res [] p) (\<lambda>(active, p). Inr p)"

fun poller_env :: "'cb poller \<Rightarrow> poller_op \<Rightarrow> bool" where
  "poller_env p (OpNew c lh tied fd) \<longleftrightarrow> pl_heap p c = None \<and> 0 \<le> fd"
| "poller_env p (OpChange k c) \<longleftrightarrow>
     (case pl_heap p c of None \<Rightarrow> False
      | Some ch \<Rightarrow> registered p c
          \<or> ch_index ch < 0 \<and> 0 \<le> ch_fd ch \<and> map_of (pl_channels p) (ch_fd ch) = None)"
| "poller_env p (OpRemoveChannel c) \<longleftrightarrow> registered p c"
| "poller_env p (OpPoll res) \<longleftrightarrow>
     (case res of
        PollEvents rs \<Rightarrow> length rs = length (pl_pollfds p)
          \<and> (\<forall>i < length rs. rs ! i \<noteq> 0 \<longrightarrow> 0 \<le> pfd_fd (pl_pollfds p ! i) \<and> 0 < sint (rs ! i))
      | PollError e \<Rightarrow> e = EINTR)"

fun change_events :: "interest \<Rightarrow> 32 word \<Rightarrow> 32 word" where
  "change_events EnableReading ev = ev OR kReadEvent"
| "change_events DisableReading ev = ev AND NOT kReadEvent"
| "change_events EnableWriting ev = ev OR kWriteEvent"
| "change_events DisableWriting ev = ev AND NOT kWriteEvent"
| "change_events DisableAll ev = kNoneEvent"

fun view_step :: "chan_view \<Rightarrow> poller_op \<Rightarrow> chan_view" where
  "view_step v (OpNew c lh tied fd) = v(c \<mapsto> (fd, 0, False))"
| "view_step v (OpChange k c) =
     (case v c of None \<Rightarrow> v | Some (fd, ev, reg) \<Rightarrow> v(c \<mapsto> (fd, change_events k ev, True)))"
| "view_step v (OpRemoveChannel c) =
     (case v c of None \<Rightarrow> v | Some (fd, ev, reg) \<Rightarrow> v(c \<mapsto> (fd, ev, False)))"
| "view_step v (OpPoll res) = v"

section \<open>The invariant\<close>

lemma entry_ok_iff: "entry_ok p i \<longleftrightarrow> (\<exists>c ch. entry_of p i c ch)"
  by (auto simp: entry_ok_def entry_of_def Let_def split: option.splits)

lemma registered_ok_iff: "registered_ok p fd c \<longleftrightarrow> (\<exists>ch. chan_of p fd c ch)"
  by (auto simp: registered_ok_def chan_of_def split: option.splits)

lemma poller_invI:
  assumes "sorted (map fst (pl_channels p))" and "distinct (map fst (pl_channels p))"
    and "\<And>i. i < length (pl_pollfds p) \<Longrightarrow> \<exists>c ch. entry_of p i c ch"
    and "\<And>fd c. map_of (pl_channels p) fd = Some c \<Longrightarrow> \<exists>ch. chan_of p fd c ch"
  shows "poller_inv p"
proof -
  have "\<exists>ch. chan_of p fd c ch" if "(fd, c) \<in> set (pl_channels p)" for fd c
    using that assms(4) map_of_is_SomeI [OF assms(2)] by metis
  then show ?thesis
    using assms(1-3) by (auto simp: poller_inv_def entry_ok_iff registered_ok_iff)
qed

lemma inv_keys: "poller_inv p \<Longrightarrow> sorted (map fst (pl_channels p)) \<and> distinct (map fst (pl_channels p))"
  by (simp add: poller_inv_def)

lemma inv_entry: "poller_inv p \<Longrightarrow> i < length (pl_pollfds p) \<Longrightarrow> \<exists>c ch. entry_of p i c ch"
  by (simp add: poller_inv_def entry_ok_iff)

lemma inv_registered: "poller_inv p \<Longrightarrow> map_of (pl_channels p) fd = Some c \<Longrightarrow> \<exists>ch. chan_of p fd c ch"
  using map_of_SomeD [of "pl_channels p" fd c] unfolding poller_inv_def registered_ok_iff by fast

lemma plain_fd_unique:
  assumes "poller_inv p" and "i < length (pl_pollfds p)" and "j < length (pl_pollfds p)"
    and "plain_fd (pfd_fd (pl_pollfds p ! i)) = plain_fd (pfd_fd (pl_pollfds p ! j))"
  shows "i = j"
  using inv_entry [OF assms(1,2)] inv_entry [OF assms(1,3)] assms(4) by (auto simp: entry_of_def)

lemma plain_fd_simps [simp]:
  "0 \<le> fd \<Longrightarrow> plain_fd fd = fd" "0 \<le> fd \<Longrightarrow> plain_fd (- fd - 1) = fd"
  by (auto simp: plain_fd_def)

lemma registered_heap:
  "pl_heap p c = Some ch \<Longrightarrow> registered p c \<longleftrightarrow> map_of (pl_channels p) (ch_fd ch) = Some c"
  by (simp add: registered_def)

lemma change_simps [simp]:
  "ch_fd (change k ch) = ch_fd ch" "ch_index (change k ch) = ch_index ch"
  "ch_events (change k ch) = change_events k (ch_events ch)" "ch_revents (change k ch) = ch_revents ch"
  "same_handlers ch (change k ch)"
  by (cases k; simp add: event_set_defs same_handlers_def)+

lemma store_simps [simp]:
  "pl_pollfds (store c ch p) = pl_pollfds p" "pl_channels (store c ch p) = pl_channels p"
  "pl_heap (store c ch p) = (pl_heap p)(c \<mapsto> ch)"
  by (simp_all add: store_def)

lemma deref_simps [simp]:
  "pl_heap p c = Some ch \<Longrightarrow> deref p c = Inr ch" "pl_heap p c = None \<Longrightarrow> deref p c = Inl UndefinedBehaviour"
  by (simp_all add: deref_def)

section \<open>Every operation keeps it\<close>

lemma inv_store_new:
  assumes "poller_inv p" and "pl_heap p c = None"
  shows "poller_inv (store c ch p)"
proof (rule poller_invI)
  fix i assume "i < length (pl_pollfds (store c ch p))"
  then obtain d dh where e: "entry_of p i d dh" using inv_entry [OF assms(1), of i] by auto
  then have "d \<noteq> c" using assms(2) by (auto simp: entry_of_def)
  then have "entry_of (store c ch p) i d dh" using e by (simp add: entry_of_def)
  then show "\<exists>d dh. entry_of (store c ch p) i d dh" by blast
next
  fix fd d assume "map_of (pl_channels (store c ch p)) fd = Some d"
  then obtain dh where e: "chan_of p fd d dh" using inv_registered [OF assms(1), of fd d] by auto
  then have "d \<noteq> c" using assms(2) by (auto simp: chan_of_def)
  then have "chan_of (store c ch p) fd d dh" using e by (simp add: chan_of_def)
  then show "\<exists>dh. chan_of (store c ch p) fd d dh" by blast
qed (use inv_keys [OF assms(1)] in simp_all)

lemma inv_store_same:
  assumes "poller_inv p" and "pl_heap p c = Some ch" and "ch_fd ch' = ch_fd ch"
    and "ch_index ch' = ch_index ch" and "ch_events ch' = ch_events ch"
  shows "poller_inv (store c ch' p)"
proof (rule poller_invI)
  fix i assume "i < length (pl_pollfds (store c ch' p))"
  then obtain d dh where "entry_of p i d dh" using inv_entry [OF assms(1), of i] by auto
  then have "entry_of (store c ch' p) i d (if d = c then ch' else dh)"
    using assms(2-) by (auto simp: entry_of_def isNoneEvent_def)
  then show "\<exists>d dh. entry_of (store c ch' p) i d dh" by blast
next
  fix fd d assume "map_of (pl_channels (store c ch' p)) fd = Some d"
  then obtain dh where "chan_of p fd d dh" using inv_registered [OF assms(1), of fd d] by auto
  then have "chan_of (store c ch' p) fd d (if d = c then ch' else dh)"
    using assms(2-) by (auto simp: chan_of_def)
  then show "\<exists>dh. chan_of (store c ch' p) fd d dh" by blast
qed (use inv_keys [OF assms(1)] in simp_all)

text \<open>A registered channel with new events: its entry of the array follows.\<close>

lemma update_registered:
  assumes "poller_inv p" and "pl_heap p c = Some ch" and "registered p c"
    and "ch_fd ch' = ch_fd ch" and "ch_index ch' = ch_index ch"
  shows "\<exists>p'. updateChannel_poller c (store c ch' p) = Inr p' \<and> poller_inv p'
    \<and> pl_heap p' = (pl_heap p)(c \<mapsto> ch') \<and> pl_channels p' = pl_channels p"
proof -
  let ?i = "nat (ch_index ch)"
  let ?pfd = "\<lparr>pfd_fd = (if isNoneEvent ch' then - ch_fd ch - 1 else ch_fd ch),
      pfd_events = ucast (ch_events ch'), pfd_revents = 0\<rparr>"
  let ?p = "(store c ch' p)\<lparr>pl_pollfds := (pl_pollfds p)[?i := ?pfd]\<rparr>"
  have c: "map_of (pl_channels p) (ch_fd ch) = Some c"
    using assms(2,3) by (simp add: registered_heap)
  have ch: "0 \<le> ch_fd ch" "0 \<le> ch_index ch" "?i < length (pl_pollfds p)"
    "plain_fd (pfd_fd (pl_pollfds p ! ?i)) = ch_fd ch"
    using inv_registered [OF assms(1) c] assms(2) by (auto simp: chan_of_def)
  have "updateChannel_poller c (store c ch' p) = Inr ?p"
    using assms(4,5) ch by (simp add: updateChannel_poller_def Let_def)
  moreover have "poller_inv ?p"
  proof (rule poller_invI)
    fix i assume "i < length (pl_pollfds ?p)"
    then obtain d dh where e: "entry_of p i d dh" using inv_entry [OF assms(1), of i] by auto
    show "\<exists>d dh. entry_of ?p i d dh"
    proof (cases "i = ?i")
      case True
      then have "entry_of ?p i c ch'" using ch c assms(4,5) by (simp add: entry_of_def)
      then show ?thesis by blast
    next
      case False
      then have "d \<noteq> c" using e assms(2) by (auto simp: entry_of_def)
      then have "entry_of ?p i d dh" using e False by (simp add: entry_of_def)
      then show ?thesis by blast
    qed
  next
    fix fd d assume d: "map_of (pl_channels ?p) fd = Some d"
    then obtain dh where e: "chan_of p fd d dh" using inv_registered [OF assms(1), of fd d] by auto
    have "chan_of ?p fd d (if d = c then ch' else dh)"
    proof (cases "d = c")
      case True
      then show ?thesis using e assms(2,4,5) ch by (auto simp: chan_of_def)
    next
      case False
      then have "nat (ch_index dh) \<noteq> ?i" using e d c ch by (auto simp: chan_of_def)
      then show ?thesis using False e by (auto simp: chan_of_def)
    qed
    then show "\<exists>dh. chan_of ?p fd d dh" by blast
  qed (use inv_keys [OF assms(1)] in simp_all)
  ultimately show ?thesis by force
qed

text \<open>A channel that was never registered: a new entry at the end.\<close>

lemma update_new:
  assumes "poller_inv p" and "pl_heap p c = Some ch" and "ch_index ch < 0" and "0 \<le> ch_fd ch"
    and "map_of (pl_channels p) (ch_fd ch) = None" and "ch_fd ch' = ch_fd ch" and "ch_index ch' = ch_index ch"
  shows "\<exists>p'. updateChannel_poller c (store c ch' p) = Inr p' \<and> poller_inv p'
    \<and> pl_heap p' = (pl_heap p)(c \<mapsto> set_index (int (length (pl_pollfds p))) ch')
    \<and> pl_channels p' = map_put (ch_fd ch) c (pl_channels p)
    \<and> map pfd_fd (pl_pollfds p') = map pfd_fd (pl_pollfds p) @ [ch_fd ch]"
proof -
  let ?n = "length (pl_pollfds p)"
  let ?ch = "set_index (int ?n) ch'"
  let ?pfd = "\<lparr>pfd_fd = ch_fd ch, pfd_events = ucast (ch_events ch'), pfd_revents = 0\<rparr>"
  let ?p = "p\<lparr>pl_pollfds := pl_pollfds p @ [?pfd], pl_heap := (pl_heap p)(c \<mapsto> ?ch),
      pl_channels := map_put (ch_fd ch) c (pl_channels p)\<rparr>"
  have "updateChannel_poller c (store c ch' p) = Inr ?p"
    using assms(3,6,7) by (simp add: updateChannel_poller_def Let_def store_def)
  moreover have "poller_inv ?p"
  proof (rule poller_invI)
    fix i assume i: "i < length (pl_pollfds ?p)"
    show "\<exists>d dh. entry_of ?p i d dh"
    proof (cases "i = ?n")
      case True
      then have "entry_of ?p i c ?ch" using assms(4,6) by (simp add: entry_of_def map_of_map_put set_index_def)
      then show ?thesis by blast
    next
      case False
      then have "i < ?n" using i by simp
      then obtain d dh where e: "entry_of p i d dh" using inv_entry [OF assms(1), of i] by auto
      then have "d \<noteq> c" using assms(2,3) by (auto simp: entry_of_def)
      moreover have "plain_fd (pfd_fd (pl_pollfds p ! i)) \<noteq> ch_fd ch"
        using e assms(5) by (auto simp: entry_of_def)
      ultimately have "entry_of ?p i d dh"
        using e \<open>i < ?n\<close> by (simp add: entry_of_def map_of_map_put nth_append)
      then show ?thesis by blast
    qed
  next
    fix fd d assume d: "map_of (pl_channels ?p) fd = Some d"
    show "\<exists>dh. chan_of ?p fd d dh"
    proof (cases "fd = ch_fd ch")
      case True
      then have "chan_of ?p fd d ?ch" using d assms(4,6) by (simp add: chan_of_def map_of_map_put set_index_def)
      then show ?thesis by blast
    next
      case False
      then obtain dh where e: "chan_of p fd d dh"
        using d inv_registered [OF assms(1), of fd d] by (auto simp: map_of_map_put)
      then have "d \<noteq> c" using assms(2,3) by (auto simp: chan_of_def)
      then have "chan_of ?p fd d dh" using e by (simp add: chan_of_def nth_append)
      then show ?thesis by blast
    qed
  qed (use sorted_map_put [of "pl_channels p" "ch_fd ch" c] inv_keys [OF assms(1)] in simp_all)
  ultimately show ?thesis by force
qed

text \<open>Removal: the last entry moves into the gap.\<close>

lemma sorted_map_erase:
  "sorted (map fst m) \<and> distinct (map fst m) \<Longrightarrow>
   sorted (map fst (map_erase k m)) \<and> distinct (map fst (map_erase k m))"
  by (simp add: map_erase_def sorted_filter distinct_map_filter)

text \<open>The entry of a channel that is removed belongs to it alone.\<close>

lemma removed_entry:
  assumes "poller_inv p" and "pl_heap p c = Some ch" and "registered p c"
  shows "0 \<le> ch_fd ch" and "0 \<le> ch_index ch" and "nat (ch_index ch) < length (pl_pollfds p)"
    and "plain_fd (pfd_fd (pl_pollfds p ! nat (ch_index ch))) = ch_fd ch"
    and "i < length (pl_pollfds p) \<Longrightarrow> i \<noteq> nat (ch_index ch) \<Longrightarrow> plain_fd (pfd_fd (pl_pollfds p ! i)) \<noteq> ch_fd ch"
    and "chan_of p fd d dh \<Longrightarrow> fd \<noteq> ch_fd ch \<Longrightarrow> nat (ch_index dh) \<noteq> nat (ch_index ch)"
proof -
  have c: "map_of (pl_channels p) (ch_fd ch) = Some c"
    using assms(2,3) by (simp add: registered_heap)
  show ch: "0 \<le> ch_fd ch" "0 \<le> ch_index ch" "nat (ch_index ch) < length (pl_pollfds p)"
      "plain_fd (pfd_fd (pl_pollfds p ! nat (ch_index ch))) = ch_fd ch"
    using inv_registered [OF assms(1) c] assms(2) by (auto simp: chan_of_def)
  show "i < length (pl_pollfds p) \<Longrightarrow> i \<noteq> nat (ch_index ch) \<Longrightarrow> plain_fd (pfd_fd (pl_pollfds p ! i)) \<noteq> ch_fd ch"
    using plain_fd_unique [OF assms(1) _ ch(3), of i] ch(4) by auto
  show "chan_of p fd d dh \<Longrightarrow> fd \<noteq> ch_fd ch \<Longrightarrow> nat (ch_index dh) \<noteq> nat (ch_index ch)"
    using ch(4) by (auto simp: chan_of_def)
qed

lemma remove_last:
  assumes "poller_inv p" and "pl_heap p c = Some ch" and "registered p c"
    and "nat (ch_index ch) = length (pl_pollfds p) - 1"
  shows "\<exists>p'. removeChannel_poller c p = Inr p' \<and> poller_inv p'
    \<and> pl_channels p' = map_erase (ch_fd ch) (pl_channels p) \<and> pl_heap p' c = Some ch
    \<and> (\<forall>d. pl_heap p' d = pl_heap p d \<or> (\<exists>dh idx. pl_heap p d = Some dh \<and> pl_heap p' d = Some (set_index idx dh)))"
proof -
  let ?i = "nat (ch_index ch)" and ?n = "length (pl_pollfds p)"
  note ch = removed_entry(1-4) [OF assms(1-3)] and other = removed_entry(5) [OF assms(1-3)] and moved = removed_entry(6) [OF assms(1-3)]
  let ?p = "p\<lparr>pl_channels := map_erase (ch_fd ch) (pl_channels p), pl_pollfds := butlast (pl_pollfds p)\<rparr>"
  have "removeChannel_poller c p = Inr ?p"
    using assms(2) ch assms(4) by (simp add: removeChannel_poller_def Let_def)
  moreover have "poller_inv ?p"
  proof (rule poller_invI)
    fix i assume "i < length (pl_pollfds ?p)"
    then have i: "i < ?n" "i \<noteq> ?i" using assms(4) by auto
    then obtain d dh where "entry_of p i d dh" using inv_entry [OF assms(1)] by blast
    then have "entry_of ?p i d dh"
      using i assms(4) other [OF i] by (simp add: entry_of_def map_of_map_erase nth_butlast)
    then show "\<exists>d dh. entry_of ?p i d dh" by blast
  next
    fix fd d assume "map_of (pl_channels ?p) fd = Some d"
    then have d: "map_of (pl_channels p) fd = Some d" "fd \<noteq> ch_fd ch"
      by (auto simp: map_of_map_erase split: if_splits)
    then obtain dh where dh: "chan_of p fd d dh" using inv_registered [OF assms(1)] by blast
    then have "chan_of ?p fd d dh"
      using moved [OF dh d(2)] assms(4) by (auto simp: chan_of_def nth_butlast)
    then show "\<exists>dh. chan_of ?p fd d dh" by blast
  qed (use sorted_map_erase inv_keys [OF assms(1)] in auto)
  ultimately show ?thesis using assms(2) by auto
qed

text \<open>The last entry moves into the gap.\<close>

lemma remove_gap:
  assumes "poller_inv p" and "pl_heap p c = Some ch" and "registered p c"
    and "nat (ch_index ch) \<noteq> length (pl_pollfds p) - 1"
  shows "\<exists>p'. removeChannel_poller c p = Inr p' \<and> poller_inv p'
    \<and> pl_channels p' = map_erase (ch_fd ch) (pl_channels p) \<and> pl_heap p' c = Some ch
    \<and> (\<forall>d. pl_heap p' d = pl_heap p d \<or> (\<exists>dh idx. pl_heap p d = Some dh \<and> pl_heap p' d = Some (set_index idx dh)))"
proof -
  let ?i = "nat (ch_index ch)" and ?n = "length (pl_pollfds p)"
  note ch = removed_entry(1-4) [OF assms(1-3)] and other = removed_entry(5) [OF assms(1-3)] and moved = removed_entry(6) [OF assms(1-3)]
  have last: "?n - 1 < ?n" "?n - 1 \<noteq> ?i" "?i < ?n - 1" using ch(3) assms(4) by auto
  let ?tail = "pl_pollfds p ! (?n - 1)"
  obtain e eh where e: "entry_of p (?n - 1) e eh" using inv_entry [OF assms(1) last(1)] by blast
  have e': "map_of (pl_channels p) (plain_fd (pfd_fd ?tail)) = Some e" "pl_heap p e = Some eh"
    "ch_index eh = int (?n - 1)" "pfd_events ?tail = ucast (ch_events eh)" "pfd_fd ?tail < 0 \<longrightarrow> isNoneEvent eh"
    using e by (simp_all add: entry_of_def)
  have ec: "e \<noteq> c" using e' assms(2) last(2) ch(2) by auto
  have fdE: "ch_fd eh = plain_fd (pfd_fd ?tail)"
    using inv_registered [OF assms(1) e'(1)] e'(2) by (auto simp: chan_of_def)
  let ?p = "p\<lparr>pl_channels := map_erase (ch_fd ch) (pl_channels p),
      pl_heap := (pl_heap p)(e \<mapsto> set_index (ch_index ch) eh),
      pl_pollfds := butlast ((pl_pollfds p)[?i := ?tail])\<rparr>"
  have bk: "last (pl_pollfds p) = ?tail" using ch(3) by (intro last_conv_nth) auto
  have "map_of (map_erase (ch_fd ch) (pl_channels p)) (plain_fd (pfd_fd ?tail)) = Some e"
    using e'(1) other [OF last(1,2)] by (simp add: map_of_map_erase)
  then have "removeChannel_poller c p = Inr ?p"
    using assms(2) ch assms(4) e'(2) bk
    by (simp add: removeChannel_poller_def Let_def plain_fd_def [symmetric] store_def)
  moreover have "poller_inv ?p"
  proof (rule poller_invI)
    fix i assume "i < length (pl_pollfds ?p)"
    then have i: "i < ?n - 1" by simp
    show "\<exists>d dh. entry_of ?p i d dh"
    proof (cases "i = ?i")
      case True
      then have "entry_of ?p i e (set_index (ch_index ch) eh)"
        using i e' ch(2,3) other [OF last(1,2)]
        by (simp add: entry_of_def map_of_map_erase nth_butlast set_index_def isNoneEvent_def)
      then show ?thesis by blast
    next
      case False
      have "i < ?n" using i by simp
      then obtain d dh where d: "entry_of p i d dh" using inv_entry [OF assms(1)] by blast
      then have "d \<noteq> e" using e' i by (auto simp: entry_of_def)
      then have "entry_of ?p i d dh"
        using d i False other [of i] by (simp add: entry_of_def map_of_map_erase nth_butlast)
      then show ?thesis by blast
    qed
  next
    fix fd d assume "map_of (pl_channels ?p) fd = Some d"
    then have d: "map_of (pl_channels p) fd = Some d" "fd \<noteq> ch_fd ch"
      by (auto simp: map_of_map_erase split: if_splits)
    then obtain dh where dh: "chan_of p fd d dh" using inv_registered [OF assms(1)] by blast
    show "\<exists>dh. chan_of ?p fd d dh"
    proof (cases "d = e")
      case True
      then have "fd = plain_fd (pfd_fd ?tail)" "0 \<le> fd" using dh e'(2) fdE by (auto simp: chan_of_def)
      then have "chan_of ?p fd d (set_index (ch_index ch) eh)"
        using True ch(2,3) last(3) fdE by (simp add: chan_of_def set_index_def nth_butlast)
      then show ?thesis by blast
    next
      case False
      then have "nat (ch_index dh) \<noteq> ?n - 1" using dh d(1) e'(1) by (auto simp: chan_of_def)
      then have "chan_of ?p fd d dh"
        using False dh moved [OF dh d(2)] by (auto simp: chan_of_def nth_butlast)
      then show ?thesis by blast
    qed
  qed (use sorted_map_erase inv_keys [OF assms(1)] in auto)
  ultimately show ?thesis using assms(2) e'(2) ec by auto
qed

lemma remove_registered:
  assumes "poller_inv p" and "pl_heap p c = Some ch" and "registered p c"
  shows "\<exists>p'. removeChannel_poller c p = Inr p' \<and> poller_inv p'
    \<and> pl_channels p' = map_erase (ch_fd ch) (pl_channels p) \<and> pl_heap p' c = Some ch
    \<and> (\<forall>d. pl_heap p' d = pl_heap p d \<or> (\<exists>dh idx. pl_heap p d = Some dh \<and> pl_heap p' d = Some (set_index idx dh)))"
  using remove_last [OF assms] remove_gap [OF assms] by blast

section \<open>Polling\<close>

text \<open>
  The entries the kernel reported and their channels; \<open>kernel_ok\<close> is what \<open>poll(2)\<close> promises: it
  reports only descriptors that are not negative, with bits a positive \<open>short\<close> holds.
\<close>

definition fired :: "pollfd list \<Rightarrow> pollfd list" where
  "fired pfds = filter (\<lambda>pfd. pfd_revents pfd \<noteq> 0) pfds"

definition channel_at :: "'cb poller \<Rightarrow> pollfd \<Rightarrow> nat" where
  "channel_at p pfd = the (map_of (pl_channels p) (pfd_fd pfd))"

definition kernel_ok :: "'cb poller \<Rightarrow> pollfd list \<Rightarrow> bool" where
  "kernel_ok p pfds \<longleftrightarrow> (\<forall>pfd \<in> set (fired pfds). 0 < sint (pfd_revents pfd)
     \<and> map_of (pl_channels p) (pfd_fd pfd) \<noteq> None) \<and> distinct (map pfd_fd (fired pfds))"

lemma fillActive_spec:
  assumes "poller_inv p" and "kernel_ok p pfds" and "numEvents = int (length (fired pfds))"
  shows "\<exists>p'. fillActive pfds numEvents active p = Inr (active @ map (channel_at p) (fired pfds), p')
    \<and> poller_inv p' \<and> pl_pollfds p' = pl_pollfds p \<and> pl_channels p' = pl_channels p
    \<and> (\<forall>pfd \<in> set (fired pfds). \<exists>ch. pl_heap p (channel_at p pfd) = Some ch
         \<and> pl_heap p' (channel_at p pfd) = Some (set_revents (scast (pfd_revents pfd)) ch))
    \<and> (\<forall>c. c \<notin> channel_at p ` set (fired pfds) \<longrightarrow> pl_heap p' c = pl_heap p c)"
  using assms
proof (induction pfds arbitrary: numEvents active p)
  case Nil
  then show ?case by (simp add: fired_def)
next
  case (Cons pfd pfds)
  show ?case
  proof (cases "pfd_revents pfd = 0")
    case True
    then have f: "fired (pfd # pfds) = fired pfds" by (simp add: fired_def)
    with Cons.prems have "kernel_ok p pfds" by (simp add: kernel_ok_def)
    then show ?thesis
      using Cons.IH [of p numEvents active] Cons.prems True f
      by (cases "0 < numEvents") auto
  next
    case False
    then have f: "fired (pfd # pfds) = pfd # fired pfds" by (simp add: fired_def)
    obtain c where c: "map_of (pl_channels p) (pfd_fd pfd) = Some c" and pos: "0 < sint (pfd_revents pfd)"
      using Cons.prems(2) f by (auto simp: kernel_ok_def)
    obtain ch where ch: "pl_heap p c = Some ch" "ch_fd ch = pfd_fd pfd"
      using inv_registered [OF Cons.prems(1) c] by (auto simp: chan_of_def)
    let ?p = "store c (set_revents (scast (pfd_revents pfd)) ch) p"
    have inv: "poller_inv ?p"
      using inv_store_same [OF Cons.prems(1) ch(1)] by (simp add: set_revents_def)
    have ok: "kernel_ok ?p pfds" using Cons.prems(2) f by (simp add: kernel_ok_def)
    have ca: "channel_at ?p = channel_at p" by (simp add: channel_at_def fun_eq_iff)
    have head: "channel_at p pfd = c" using c by (simp add: channel_at_def)
    have fresh: "c \<notin> channel_at p ` set (fired pfds)"
    proof
      assume "c \<in> channel_at p ` set (fired pfds)"
      then obtain q where q: "q \<in> set (fired pfds)" "map_of (pl_channels p) (pfd_fd q) = Some c"
        using Cons.prems(2) f by (auto simp: kernel_ok_def channel_at_def)
      then have "pfd_fd q = pfd_fd pfd"
        using inv_registered [OF Cons.prems(1) q(2)] ch by (auto simp: chan_of_def)
      then show False using q(1) Cons.prems(2) f by (auto simp: kernel_ok_def image_iff)
    qed
    obtain p' where p': "fillActive pfds (numEvents - 1) (active @ [c]) ?p
          = Inr ((active @ [c]) @ map (channel_at p) (fired pfds), p')"
        "poller_inv p'" "pl_pollfds p' = pl_pollfds p" "pl_channels p' = pl_channels p"
        "\<forall>q \<in> set (fired pfds). \<exists>dh. pl_heap ?p (channel_at p q) = Some dh
           \<and> pl_heap p' (channel_at p q) = Some (set_revents (scast (pfd_revents q)) dh)"
        "\<forall>d. d \<notin> channel_at p ` set (fired pfds) \<longrightarrow> pl_heap p' d = pl_heap ?p d"
      using Cons.IH [OF inv ok, of "numEvents - 1" "active @ [c]"] Cons.prems(3) f ca by auto
    have "fillActive (pfd # pfds) numEvents active p = Inr (active @ map (channel_at p) (fired (pfd # pfds)), p')"
      using Cons.prems(3) f pos c ch p'(1) head by simp
    moreover have "\<forall>q \<in> set (fired pfds). \<exists>dh. pl_heap p (channel_at p q) = Some dh
        \<and> pl_heap p' (channel_at p q) = Some (set_revents (scast (pfd_revents q)) dh)"
      using p'(5) fresh by (metis fun_upd_apply image_eqI store_simps(3))
    moreover have "pl_heap p' c = Some (set_revents (scast (pfd_revents pfd)) ch)"
      using p'(6) fresh by simp
    ultimately show ?thesis using p' f head ch by auto
  qed
qed

lemma inv_set_revents:
  assumes "poller_inv p" and "length rs = length (pl_pollfds p)"
  shows "poller_inv (p\<lparr>pl_pollfds := map2 (\<lambda>pfd r. pfd\<lparr>pfd_revents := r\<rparr>) (pl_pollfds p) rs\<rparr>)" (is "poller_inv ?p")
proof (rule poller_invI)
  fix i assume "i < length (pl_pollfds ?p)"
  then have i: "i < length (pl_pollfds p)" by simp
  then obtain c ch where "entry_of p i c ch" using inv_entry [OF assms(1)] by blast
  then have "entry_of ?p i c ch" using i assms(2) by (simp add: entry_of_def)
  then show "\<exists>c ch. entry_of ?p i c ch" by blast
next
  fix fd c assume "map_of (pl_channels ?p) fd = Some c"
  then obtain ch where "chan_of p fd c ch" using inv_registered [OF assms(1), of fd c] by auto
  then have "chan_of ?p fd c ch" using assms(2) by (simp add: chan_of_def)
  then show "\<exists>ch. chan_of ?p fd c ch" by blast
qed (use inv_keys [OF assms(1)] in simp_all)

lemma kernel_ok_env:
  assumes "poller_inv p" and "poller_env p (OpPoll (PollEvents rs))"
  shows "kernel_ok p (map2 (\<lambda>pfd r. pfd\<lparr>pfd_revents := r\<rparr>) (pl_pollfds p) rs)" (is "kernel_ok p ?pfds")
proof -
  have len: "length rs = length (pl_pollfds p)" using assms(2) by simp
  have nz: "0 \<le> pfd_fd (pl_pollfds p ! i) \<and> 0 < sint (rs ! i)" if "i < length rs" "rs ! i \<noteq> 0" for i
    using assms(2) that by simp
  have "map_of (pl_channels p) (pfd_fd (pl_pollfds p ! i)) \<noteq> None" if "i < length rs" "rs ! i \<noteq> 0" for i
    using inv_entry [OF assms(1), of i] nz [OF that] that(1) len by (auto simp: entry_of_def)
  then have "\<forall>pfd \<in> set (fired ?pfds). 0 < sint (pfd_revents pfd) \<and> map_of (pl_channels p) (pfd_fd pfd) \<noteq> None"
    using nz len by (auto simp: fired_def set_zip)
  moreover have "distinct (map pfd_fd (fired ?pfds))"
    unfolding fired_def
  proof (rule distinct_map_filterI)
    fix i j assume "i < length ?pfds" "j < length ?pfds" "i \<noteq> j"
      "pfd_revents (?pfds ! i) \<noteq> 0" "pfd_revents (?pfds ! j) \<noteq> 0"
    then show "pfd_fd (?pfds ! i) \<noteq> pfd_fd (?pfds ! j)"
      using plain_fd_unique [OF assms(1), of i j] nz [of i] nz [of j] len by auto
  qed
  ultimately show ?thesis by (simp add: kernel_ok_def)
qed

lemma fired_channels:
  assumes "poller_inv p" and "poller_env p (OpPoll (PollEvents rs))"
  shows "(\<exists>pfd \<in> set (fired (map2 (\<lambda>pfd r. pfd\<lparr>pfd_revents := r\<rparr>) (pl_pollfds p) rs)).
      channel_at p pfd = c \<and> pfd_revents pfd = r)
    \<longleftrightarrow> (\<exists>ch. pl_heap p c = Some ch \<and> registered p c \<and> rs ! nat (ch_index ch) = r \<and> r \<noteq> 0)"
    (is "(\<exists>pfd \<in> set (fired ?pfds). _ pfd) = _")
proof
  have len: "length rs = length (pl_pollfds p)" using assms(2) by simp
  have nz: "0 \<le> pfd_fd (pl_pollfds p ! i)" if "i < length rs" "rs ! i \<noteq> 0" for i
    using assms(2) that by simp
  {
    assume "\<exists>pfd \<in> set (fired ?pfds). channel_at p pfd = c \<and> pfd_revents pfd = r"
    then obtain i where i: "i < length rs" "rs ! i \<noteq> 0" "channel_at p (pl_pollfds p ! i) = c" "rs ! i = r"
      using len by (auto simp: fired_def set_zip channel_at_def)
    obtain d dh where d: "entry_of p i d dh" using inv_entry [OF assms(1), of i] i(1) len by auto
    then have at: "map_of (pl_channels p) (pfd_fd (pl_pollfds p ! i)) = Some d"
      using nz [OF i(1,2)] by (simp add: entry_of_def)
    then have "d = c" using i(3) by (simp add: channel_at_def)
    moreover have "ch_fd dh = pfd_fd (pl_pollfds p ! i)"
      using inv_registered [OF assms(1) at] d by (auto simp: entry_of_def chan_of_def)
    ultimately show "\<exists>ch. pl_heap p c = Some ch \<and> registered p c \<and> rs ! nat (ch_index ch) = r \<and> r \<noteq> 0"
      using d at i by (auto simp: entry_of_def registered_heap)
  next
    assume "\<exists>ch. pl_heap p c = Some ch \<and> registered p c \<and> rs ! nat (ch_index ch) = r \<and> r \<noteq> 0"
    then obtain ch where ch: "pl_heap p c = Some ch" "registered p c" "rs ! nat (ch_index ch) = r" "r \<noteq> 0" by blast
    let ?i = "nat (ch_index ch)"
    have c: "map_of (pl_channels p) (ch_fd ch) = Some c" using ch by (simp add: registered_heap)
    have i: "?i < length rs" "plain_fd (pfd_fd (pl_pollfds p ! ?i)) = ch_fd ch"
      using inv_registered [OF assms(1) c] ch(1) len by (auto simp: chan_of_def)
    then have fd: "pfd_fd (pl_pollfds p ! ?i) = ch_fd ch" using nz [of ?i] ch(3,4) by auto
    have "?pfds ! ?i = (pl_pollfds p ! ?i)\<lparr>pfd_revents := r\<rparr>" "?i < length ?pfds"
      using i(1) len ch(3) by auto
    then have "(pl_pollfds p ! ?i)\<lparr>pfd_revents := r\<rparr> \<in> set (fired ?pfds)"
      using ch(4) nth_mem [of ?i ?pfds] by (simp add: fired_def)
    moreover have "channel_at p ((pl_pollfds p ! ?i)\<lparr>pfd_revents := r\<rparr>) = c"
      "pfd_revents ((pl_pollfds p ! ?i)\<lparr>pfd_revents := r\<rparr>) = r"
      using fd c by (simp_all add: channel_at_def)
    ultimately show "\<exists>pfd \<in> set (fired ?pfds). channel_at p pfd = c \<and> pfd_revents pfd = r" by blast
  }
qed

lemma fillActive_none: "\<not> 0 < n \<Longrightarrow> fillActive pfds n active p = Inr (active, p)"
  by (cases pfds) simp_all

lemma poll_count_fired:
  "length rs = length pfds \<Longrightarrow>
   poll_count rs = int (length (fired (map2 (\<lambda>pfd r. pfd\<lparr>pfd_revents := r\<rparr>) pfds rs)))"
  by (induction rs pfds rule: list_induct2) (auto simp: poll_count_def fired_def)

lemma map2_fd: "length rs = length pfds \<Longrightarrow> map pfd_fd (map2 (\<lambda>pfd r. pfd\<lparr>pfd_revents := r\<rparr>) pfds rs) = map pfd_fd pfds"
  by (induction rs pfds rule: list_induct2) simp_all

lemma poll_spec:
  assumes "poller_inv p" and "poller_env p (OpPoll (PollEvents rs))"
  shows "\<exists>active p'. poll_PollPoller (PollEvents rs) [] p = Inr (active, p') \<and> poller_inv p'
    \<and> pl_channels p' = pl_channels p \<and> int (length active) = poll_count rs
    \<and> map pfd_fd (pl_pollfds p') = map pfd_fd (pl_pollfds p)
    \<and> (\<forall>c ch. pl_heap p c = Some ch \<and> registered p c \<and> rs ! nat (ch_index ch) \<noteq> 0 \<longrightarrow>
         c \<in> set active \<and> pl_heap p' c = Some (set_revents (scast (rs ! nat (ch_index ch))) ch))
    \<and> (\<forall>c. \<not> (\<exists>ch. pl_heap p c = Some ch \<and> registered p c \<and> rs ! nat (ch_index ch) \<noteq> 0) \<longrightarrow>
         c \<notin> set active \<and> pl_heap p' c = pl_heap p c)"
proof -
  let ?pfds = "map2 (\<lambda>pfd r. pfd\<lparr>pfd_revents := r\<rparr>) (pl_pollfds p) rs"
  let ?p = "p\<lparr>pl_pollfds := ?pfds\<rparr>"
  have len: "length rs = length (pl_pollfds p)" using assms(2) by simp
  have at: "channel_at ?p = channel_at p" by (simp add: channel_at_def fun_eq_iff)
  have "kernel_ok ?p ?pfds" using kernel_ok_env [OF assms] by (simp add: kernel_ok_def)
  moreover have count: "poll_count rs = int (length (fired ?pfds))"
    by (rule poll_count_fired [OF len])
  ultimately obtain p' where p': "fillActive ?pfds (poll_count rs) [] ?p = Inr (map (channel_at p) (fired ?pfds), p')"
      "poller_inv p'" "pl_channels p' = pl_channels p" "pl_pollfds p' = ?pfds"
      "\<forall>pfd \<in> set (fired ?pfds). \<exists>ch. pl_heap p (channel_at p pfd) = Some ch
         \<and> pl_heap p' (channel_at p pfd) = Some (set_revents (scast (pfd_revents pfd)) ch)"
      "\<forall>c. c \<notin> channel_at p ` set (fired ?pfds) \<longrightarrow> pl_heap p' c = pl_heap p c"
    using fillActive_spec [OF inv_set_revents [OF assms(1) len], of ?pfds "poll_count rs" "[]"]
    unfolding at by auto
  have none: "fillActive ?pfds (poll_count rs) [] ?p = Inr ([], ?p)" if "\<not> 0 < poll_count rs"
    using that by (rule fillActive_none)
  have "poll_PollPoller (PollEvents rs) [] p = Inr (map (channel_at p) (fired ?pfds), p')"
    using none p'(1) by (simp add: poll_PollPoller_def Let_def fillActiveChannels_def)
  moreover have "c \<in> set (map (channel_at p) (fired ?pfds))
      \<and> pl_heap p' c = Some (set_revents (scast (rs ! nat (ch_index ch))) ch)"
    if c: "pl_heap p c = Some ch" "registered p c" "rs ! nat (ch_index ch) \<noteq> 0" for c ch
  proof -
    obtain pfd where "pfd \<in> set (fired ?pfds)" "channel_at p pfd = c" "pfd_revents pfd = rs ! nat (ch_index ch)"
      using fired_channels [OF assms, of c "rs ! nat (ch_index ch)"] c by auto
    then show ?thesis using p'(5) c(1) by auto
  qed
  moreover have "c \<notin> set (map (channel_at p) (fired ?pfds)) \<and> pl_heap p' c = pl_heap p c"
    if idle: "\<not> (\<exists>ch. pl_heap p c = Some ch \<and> registered p c \<and> rs ! nat (ch_index ch) \<noteq> 0)" for c
  proof -
    have "channel_at p pfd \<noteq> c" if pfd: "pfd \<in> set (fired ?pfds)" for pfd
    proof
      assume "channel_at p pfd = c"
      then have "\<exists>pfd' \<in> set (fired ?pfds). channel_at p pfd' = c \<and> pfd_revents pfd' = pfd_revents pfd"
        using pfd by blast
      then show False using fired_channels [OF assms, of c "pfd_revents pfd"] idle by auto
    qed
    then have "c \<notin> channel_at p ` set (fired ?pfds)" by blast
    then show ?thesis using p'(6) by simp
  qed
  moreover have "map pfd_fd (pl_pollfds p') = map pfd_fd (pl_pollfds p)"
    unfolding p'(4) by (rule map2_fd [OF len])
  moreover have "int (length (map (channel_at p) (fired ?pfds))) = poll_count rs" using count by simp
  ultimately show ?thesis using p'(2,3) by blast
qed

text \<open>The array \<open>poll(2)\<close> leaves when exactly the descriptor \<open>fd\<close> is readable, and what the poller makes of it.\<close>

definition report :: "int \<Rightarrow> pollfd list \<Rightarrow> 16 word list" where
  "report fd pfds = map (\<lambda>pfd. if pfd_fd pfd = fd then 1 else 0) pfds"

lemma filter_unique_length:
  assumes "k < length xs" and "\<And>i. i < length xs \<Longrightarrow> P (xs ! i) \<longleftrightarrow> i = k"
  shows "length (filter P xs) = 1"
proof -
  have "{i. i < length xs \<and> P (xs ! i)} = {k}" using assms by auto
  then show ?thesis by (simp add: length_filter_conv_card)
qed

text \<open>A report of one descriptor has one entry, at the index of its channel.\<close>

lemma report_entry:
  assumes "poller_inv p" and "pl_heap p a = Some ch" and "registered p a" and "\<not> isNoneEvent ch"
    and "rs = report (ch_fd ch) (pl_pollfds p)" and "k = nat (ch_index ch)"
  shows "length rs = length (pl_pollfds p)" and "k < length rs" and "0 \<le> pfd_fd (pl_pollfds p ! k)"
    and "\<And>i. i < length rs \<Longrightarrow> rs ! i = (if i = k then 1 else 0)"
proof -
  have c: "map_of (pl_channels p) (ch_fd ch) = Some a" using assms(2,3) by (simp add: registered_heap)
  have k: "k < length (pl_pollfds p)" "plain_fd (pfd_fd (pl_pollfds p ! k)) = ch_fd ch" "0 \<le> ch_fd ch"
    using inv_registered [OF assms(1) c] assms(2,6) by (auto simp: chan_of_def)
  show len: "length rs = length (pl_pollfds p)" by (simp add: assms(5) report_def)
  then show "k < length rs" using k(1) by simp
  show pos: "0 \<le> pfd_fd (pl_pollfds p ! k)"
    using inv_entry [OF assms(1) k(1)] c assms(2,4) k(2) by (auto simp: entry_of_def)
  then have fd: "pfd_fd (pl_pollfds p ! k) = ch_fd ch" using k(2) by simp
  fix i assume "i < length rs"
  then have i: "i < length (pl_pollfds p)" using len by simp
  have "pfd_fd (pl_pollfds p ! i) = ch_fd ch \<Longrightarrow> i = k"
    using plain_fd_unique [OF assms(1) i k(1)] k(2,3) by simp
  then have "pfd_fd (pl_pollfds p ! i) = ch_fd ch \<longleftrightarrow> i = k" using fd by blast
  then show "rs ! i = (if i = k then 1 else 0)" using i by (simp add: assms(5) report_def)
qed

lemma poll_one:
  assumes "poller_inv p" and "pl_heap p a = Some ch" and "registered p a" and "\<not> isNoneEvent ch"
  shows "\<exists>p'. poll_PollPoller (PollEvents (report (ch_fd ch) (pl_pollfds p))) [] p = Inr ([a], p')
    \<and> poller_inv p' \<and> pl_channels p' = pl_channels p \<and> pl_heap p' = (pl_heap p)(a \<mapsto> set_revents POLLIN ch)
    \<and> map pfd_fd (pl_pollfds p') = map pfd_fd (pl_pollfds p)"
proof -
  define rs where "rs = report (ch_fd ch) (pl_pollfds p)"
  define k where "k = nat (ch_index ch)"
  note rs = report_entry [OF assms rs_def k_def]
  have env: "poller_env p (OpPoll (PollEvents rs))" using rs(1,3,4) by simp
  have "length (filter (\<lambda>r. r \<noteq> 0) rs) = 1" by (rule filter_unique_length [OF rs(2)]) (simp add: rs(4))
  then have one: "poll_count rs = 1" by (simp add: poll_count_def)
  have c: "map_of (pl_channels p) (ch_fd ch) = Some a" using assms(2,3) by (simp add: registered_heap)
  have only: "d = a" if d: "pl_heap p d = Some dh" "registered p d" "rs ! nat (ch_index dh) \<noteq> 0" for d dh
  proof -
    have r: "map_of (pl_channels p) (ch_fd dh) = Some d" using d(1,2) by (simp add: registered_heap)
    have i: "nat (ch_index dh) < length rs" "plain_fd (pfd_fd (pl_pollfds p ! nat (ch_index dh))) = ch_fd dh"
      using inv_registered [OF assms(1) r] d(1) rs(1) by (auto simp: chan_of_def)
    then have "nat (ch_index dh) = k" using rs(4) d(3) by metis
    moreover have "plain_fd (pfd_fd (pl_pollfds p ! k)) = ch_fd ch"
      using inv_registered [OF assms(1) c] assms(2) by (auto simp: chan_of_def k_def)
    ultimately show ?thesis using i(2) r c by simp
  qed
  obtain active p' where p': "poll_PollPoller (PollEvents rs) [] p = Inr (active, p')" "poller_inv p'"
      "pl_channels p' = pl_channels p" "int (length active) = poll_count rs"
      "\<And>d dh. pl_heap p d = Some dh \<Longrightarrow> registered p d \<Longrightarrow> rs ! nat (ch_index dh) \<noteq> 0 \<Longrightarrow>
         d \<in> set active \<and> pl_heap p' d = Some (set_revents (scast (rs ! nat (ch_index dh))) dh)"
      "\<And>d. \<not> (\<exists>dh. pl_heap p d = Some dh \<and> registered p d \<and> rs ! nat (ch_index dh) \<noteq> 0) \<Longrightarrow>
         d \<notin> set active \<and> pl_heap p' d = pl_heap p d"
      "map pfd_fd (pl_pollfds p') = map pfd_fd (pl_pollfds p)"
    using poll_spec [OF assms(1) env] by blast
  have "rs ! nat (ch_index ch) = 1" using rs(2) rs(4) [of k] by (simp add: k_def)
  then have a: "a \<in> set active" "pl_heap p' a = Some (set_revents POLLIN ch)"
    using p'(5) [OF assms(2,3)] by (simp_all add: POLLIN_def)
  moreover have "length active = 1" using p'(4) one by simp
  ultimately have "active = [a]" by (cases active) auto
  moreover have "pl_heap p' = (pl_heap p)(a \<mapsto> set_revents POLLIN ch)"
  proof
    fix d show "pl_heap p' d = ((pl_heap p)(a \<mapsto> set_revents POLLIN ch)) d"
      using p'(6) [of d] only a(2) by (cases "d = a") auto
  qed
  ultimately show ?thesis using p'(1-3,7) unfolding rs_def by blast
qed

section \<open>The poller implements its view\<close>

lemma registered_store [simp]:
  "registered (store c ch p) d = (if d = c then map_of (pl_channels p) (ch_fd ch) = Some c else registered p d)"
  by (simp add: registered_def split: option.splits)

lemma view_eqI:
  assumes "\<And>c. pl_heap p' c = None \<longleftrightarrow> v c = None"
    and "\<And>c ch. pl_heap p' c = Some ch \<Longrightarrow> v c = Some (ch_fd ch, ch_events ch, map_of (pl_channels p') (ch_fd ch) = Some c)"
  shows "view p' = v"
proof
  fix c show "view p' c = v c"
    using assms by (cases "pl_heap p' c") (simp_all add: view_def registered_def)
qed

lemma update_channel_refines:
  assumes "poller_inv p" and "poller_env p (OpChange k c)"
  shows "\<exists>p'. update_channel k c p = Inr p' \<and> poller_inv p' \<and> view p' = view_step (view p) (OpChange k c)"
proof -
  obtain ch where ch: "pl_heap p c = Some ch"
    and reg: "registered p c \<or> ch_index ch < 0 \<and> 0 \<le> ch_fd ch \<and> map_of (pl_channels p) (ch_fd ch) = None"
    using assms(2) by (auto split: option.splits)
  show ?thesis
  proof (cases "registered p c")
    case True
    obtain p' where p': "updateChannel_poller c (store c (change k ch) p) = Inr p'" "poller_inv p'"
        "pl_heap p' = (pl_heap p)(c \<mapsto> change k ch)" "pl_channels p' = pl_channels p"
      using update_registered [OF assms(1) ch True, of "change k ch"] by auto
    have "view p' = view_step (view p) (OpChange k c)"
      using p'(3,4) ch True by (intro view_eqI) (auto simp: view_def registered_def split: if_splits)
    then show ?thesis using p' ch by (simp add: update_channel_def)
  next
    case False
    then have new: "ch_index ch < 0" "0 \<le> ch_fd ch" "map_of (pl_channels p) (ch_fd ch) = None" using reg by auto
    obtain p' where p': "updateChannel_poller c (store c (change k ch) p) = Inr p'" "poller_inv p'"
        "pl_heap p' = (pl_heap p)(c \<mapsto> set_index (int (length (pl_pollfds p))) (change k ch))"
        "pl_channels p' = map_put (ch_fd ch) c (pl_channels p)"
      using update_new [OF assms(1) ch new, of "change k ch"] by auto
    have "view p' = view_step (view p) (OpChange k c)"
      using p'(3,4) ch new(3)
      by (intro view_eqI) (auto simp: view_def registered_def set_index_def map_of_map_put split: if_splits)
    then show ?thesis using p' ch by (simp add: update_channel_def)
  qed
qed

lemma remove_channel_refines:
  assumes "poller_inv p" and "poller_env p (OpRemoveChannel c)"
  shows "\<exists>p'. remove_channel c p = Inr p' \<and> poller_inv p' \<and> view p' = view_step (view p) (OpRemoveChannel c)"
proof -
  obtain ch where ch: "pl_heap p c = Some ch" and reg: "registered p c"
    using assms(2) by (auto simp: registered_def split: option.splits)
  let ?p = "store c (remove_mark ch) p"
  have inv: "poller_inv ?p" and reg': "registered ?p c" and fd: "ch_fd (remove_mark ch) = ch_fd ch"
    using inv_store_same [OF assms(1) ch, of "remove_mark ch"] reg ch by (simp_all add: remove_mark_def registered_heap)
  obtain p' where p': "removeChannel_poller c ?p = Inr p'" "poller_inv p'"
      "pl_channels p' = map_erase (ch_fd ch) (pl_channels p)" "pl_heap p' c = Some (remove_mark ch)"
      and heap: "\<forall>d. pl_heap p' d = pl_heap ?p d \<or>
        (\<exists>dh idx. pl_heap ?p d = Some dh \<and> pl_heap p' d = Some (set_index idx dh))"
    using remove_registered [OF inv _ reg', of "remove_mark ch"] fd by auto
  have c: "map_of (pl_channels p) (ch_fd ch) = Some c" using reg ch by (simp add: registered_heap)
  have "view p' = view_step (view p) (OpRemoveChannel c)"
  proof (rule view_eqI)
    fix d
    have v: "view_step (view p) (OpRemoveChannel c) = (view p)(c \<mapsto> (ch_fd ch, ch_events ch, False))"
      using ch by (simp add: view_def)
    show "pl_heap p' d = None \<longleftrightarrow> view_step (view p) (OpRemoveChannel c) d = None"
      using heap [rule_format, of d] p'(4) v by (auto simp: view_def split: if_splits)
    fix dh assume dh: "pl_heap p' d = Some dh"
    show "view_step (view p) (OpRemoveChannel c) d
        = Some (ch_fd dh, ch_events dh, map_of (pl_channels p') (ch_fd dh) = Some d)"
    proof (cases "d = c")
      case True
      then show ?thesis using dh p'(3,4) v by (auto simp: remove_mark_def map_of_map_erase)
    next
      case False
      then obtain eh where eh: "pl_heap p d = Some eh" "ch_fd eh = ch_fd dh" "ch_events eh = ch_events dh"
        using heap [rule_format, of d] dh by (cases "pl_heap p d") (auto simp: set_index_def)
      then show ?thesis
        using False v c p'(3) by (auto simp: view_def registered_def map_of_map_erase)
    qed
  qed
  then show ?thesis using p'(1,2) ch by (simp add: remove_channel_def)
qed

lemma poll_refines:
  assumes "poller_inv p" and "poller_env p (OpPoll res)"
  shows "\<exists>p'. poller_step p (OpPoll res) = Inr p' \<and> poller_inv p' \<and> view p' = view p"
proof (cases res)
  case (PollError e)
  then show ?thesis using assms by (simp add: poll_PollPoller_def)
next
  case (PollEvents rs)
  obtain active p' where p': "poll_PollPoller (PollEvents rs) [] p = Inr (active, p')" "poller_inv p'"
      "pl_channels p' = pl_channels p"
      "\<forall>c ch. pl_heap p c = Some ch \<and> registered p c \<and> rs ! nat (ch_index ch) \<noteq> 0 \<longrightarrow>
         c \<in> set active \<and> pl_heap p' c = Some (set_revents (scast (rs ! nat (ch_index ch))) ch)"
      "\<forall>c. \<not> (\<exists>ch. pl_heap p c = Some ch \<and> registered p c \<and> rs ! nat (ch_index ch) \<noteq> 0) \<longrightarrow>
         c \<notin> set active \<and> pl_heap p' c = pl_heap p c"
    using poll_spec [OF assms(1), of rs] assms(2) unfolding PollEvents by blast
  have heap: "map_option (\<lambda>ch. (ch_fd ch, ch_events ch)) (pl_heap p' c)
      = map_option (\<lambda>ch. (ch_fd ch, ch_events ch)) (pl_heap p c)" for c
    using p'(4,5) [rule_format, of c] by (cases "pl_heap p c") (fastforce simp: set_revents_def)+
  have "view p' c = view p c" for c
    using heap [of c] p'(3)
    by (cases "pl_heap p c"; cases "pl_heap p' c") (simp_all add: view_def registered_def)
  then show ?thesis using p'(1,2) PollEvents by auto
qed

lemma poller_step_refines:
  assumes "poller_inv p" and "poller_env p e"
  shows "\<exists>p'. poller_step p e = Inr p' \<and> poller_inv p' \<and> view p' = view_step (view p) e"
proof (cases e)
  case (OpNew c lh tied fd)
  then have new: "pl_heap p c = None" using assms(2) by simp
  then have "map_of (pl_channels p) f \<noteq> Some c" for f
    using inv_registered [OF assms(1), of f c] by (auto simp: chan_of_def)
  then have "view (store c (Channel_ctor lh tied fd) p) = view_step (view p) e"
    using OpNew by (auto simp: view_def fun_eq_iff Channel_ctor_def)
  then show ?thesis using OpNew inv_store_new [OF assms(1) new] by simp
next
  case (OpChange k c)
  then show ?thesis using update_channel_refines assms by auto
next
  case (OpRemoveChannel c)
  then show ?thesis using remove_channel_refines assms by auto
next
  case (OpPoll res)
  then show ?thesis using poll_refines assms by auto
qed

interpretation pollsys: refined_system poller_step poller_env poller_inv view view_step
proof
  fix p p' :: "'a poller" and e
  assume "poller_inv p" "poller_env p e"
  then obtain q where q: "poller_step p e = Inr q" "poller_inv q" "view q = view_step (view p) e"
    using poller_step_refines by blast
  then show "\<exists>p'. poller_step p e = Inr p'" by blast
  assume "poller_step p e = Inr p'"
  then show "poller_inv p'" "view p' = view_step (view p) e" using q by auto
qed

section \<open>Properties\<close>

text \<open>
  What the kernel is asked to watch: the entries with a descriptor that is not negative; and
  what the channels of a view ask for.
\<close>

definition watched :: "'cb poller \<Rightarrow> (int \<times> 16 word) set" where
  "watched p = set (map (\<lambda>pfd. (pfd_fd pfd, pfd_events pfd))
     (filter (\<lambda>pfd. 0 \<le> pfd_fd pfd \<and> pfd_events pfd \<noteq> 0) (pl_pollfds p)))"

definition asked :: "chan_view \<Rightarrow> (int \<times> 16 word) set" where
  "asked v = (\<lambda>(fd, ev, reg). (fd, ucast ev)) ` {(fd, ev, reg) \<in> ran v. reg \<and> (ucast ev :: 16 word) \<noteq> 0}"

lemma watched_view:
  assumes "poller_inv p"
  shows "watched p = asked (view p)"
proof (intro set_eqI iffI)
  fix x assume "x \<in> watched p"
  then obtain i where i: "i < length (pl_pollfds p)" "x = (pfd_fd (pl_pollfds p ! i), pfd_events (pl_pollfds p ! i))"
      "0 \<le> pfd_fd (pl_pollfds p ! i)" "pfd_events (pl_pollfds p ! i) \<noteq> 0"
    by (auto simp: watched_def in_set_conv_nth)
  then obtain c ch where e: "entry_of p i c ch" using inv_entry [OF assms] by blast
  then have "chan_of p (pfd_fd (pl_pollfds p ! i)) c ch"
    using inv_registered [OF assms, of "pfd_fd (pl_pollfds p ! i)" c] i(3) by (auto simp: entry_of_def chan_of_def)
  then have "view p c = Some (pfd_fd (pl_pollfds p ! i), ch_events ch, True)" "pfd_events (pl_pollfds p ! i) = ucast (ch_events ch)"
    using e i(3) by (auto simp: entry_of_def chan_of_def view_def registered_heap)
  then have "(pfd_fd (pl_pollfds p ! i), ch_events ch, True) \<in> ran (view p)" "(ucast (ch_events ch) :: 16 word) \<noteq> 0"
    "x = (pfd_fd (pl_pollfds p ! i), ucast (ch_events ch))"
    using i by (auto intro: ranI)
  then show "x \<in> asked (view p)" by (force simp: asked_def)
next
  fix x assume "x \<in> asked (view p)"
  then obtain c ch where ch: "pl_heap p c = Some ch" "registered p c" "x = (ch_fd ch, ucast (ch_events ch))"
      "(ucast (ch_events ch) :: 16 word) \<noteq> 0"
    by (auto simp: asked_def ran_def view_def)
  then have c: "map_of (pl_channels p) (ch_fd ch) = Some c" by (simp add: registered_heap)
  let ?pfd = "pl_pollfds p ! nat (ch_index ch)"
  have idx: "nat (ch_index ch) < length (pl_pollfds p)" "plain_fd (pfd_fd ?pfd) = ch_fd ch"
    using inv_registered [OF assms c] ch(1) by (auto simp: chan_of_def)
  then have e: "pfd_events ?pfd = ucast (ch_events ch)" "pfd_fd ?pfd < 0 \<longrightarrow> isNoneEvent ch"
    using inv_entry [OF assms idx(1)] c ch(1) by (auto simp: entry_of_def)
  then have "0 \<le> pfd_fd ?pfd" using ch(4) by (auto simp: isNoneEvent_def kNoneEvent_def)
  then have "x = (pfd_fd ?pfd, pfd_events ?pfd)"
    "?pfd \<in> set (filter (\<lambda>pfd. 0 \<le> pfd_fd pfd \<and> pfd_events pfd \<noteq> 0) (pl_pollfds p))"
    using idx e(1) ch(3,4) nth_mem [OF idx(1)] by auto
  then show "x \<in> watched p" unfolding watched_def set_map by (rule image_eqI)
qed


lemmas poller_eval = poller_step.simps update_channel_def remove_channel_def deref_def updateChannel_poller_def
  removeChannel_poller_def store_def Channel_ctor_def change.simps enableReading_def update_mark_def
  remove_mark_def set_index_def map_erase_def Let_def


text \<open>
  C20. After a successful \<open>poll\<close>, the active channels are exactly the registered channels whose
  descriptor the kernel reported; each of them, and no other channel, has its received events
  set to the bits reported for it. The two assertions of \<open>fillActiveChannels\<close> hold.
\<close>

theorem poll_reports:
  assumes "poller_inv p" and "length rs = length (pl_pollfds p)"
    and "\<forall>i < length rs. rs ! i \<noteq> 0 \<longrightarrow> 0 \<le> pfd_fd (pl_pollfds p ! i) \<and> 0 < sint (rs ! i)"
  shows "\<exists>active p'. poll_PollPoller (PollEvents rs) [] p = Inr (active, p') \<and> poller_inv p'
    \<and> (\<forall>c ch. pl_heap p c = Some ch \<and> registered p c \<and> rs ! nat (ch_index ch) \<noteq> 0 \<longrightarrow>
         c \<in> set active \<and> pl_heap p' c = Some (set_revents (scast (rs ! nat (ch_index ch))) ch))
    \<and> (\<forall>c. \<not> (\<exists>ch. pl_heap p c = Some ch \<and> registered p c \<and> rs ! nat (ch_index ch) \<noteq> 0) \<longrightarrow>
         c \<notin> set active \<and> pl_heap p' c = pl_heap p c)"
proof -
  have env: "poller_env p (OpPoll (PollEvents rs))" using assms(2,3) by simp
  show ?thesis using poll_spec [OF assms(1) env] by blast
qed

theorem poll_reports_witness:
  "\<exists>p p' active. run_events poller_step (PollPoller_ctor Map.empty :: nat poller)
      [OpNew 1 True True 5, OpNew 2 True True 7, OpChange EnableReading 1, OpChange EnableReading 2] = Inr p
    \<and> poll_PollPoller (PollEvents [0, 1]) [] p = Inr (active, p') \<and> 2 \<in> set active \<and> 1 \<notin> set active"
proof -
  let ?es = "[OpNew 1 True True 5, OpNew 2 True True 7, OpChange EnableReading 1, OpChange EnableReading 2]"
  let ?c = "\<lambda>fd i. (Channel_ctor True True fd :: nat channel)\<lparr>ch_events := kReadEvent, ch_addedToLoop := True, ch_index := i\<rparr>"
  let ?p = "\<lparr>pl_pollfds = [\<lparr>pfd_fd = 5, pfd_events = ucast kReadEvent, pfd_revents = 0\<rparr>,
        \<lparr>pfd_fd = 7, pfd_events = ucast kReadEvent, pfd_revents = 0\<rparr>],
      pl_channels = [(5, 1), (7, 2)], pl_heap = [1 \<mapsto> ?c 5 0, 2 \<mapsto> ?c 7 1]\<rparr>"
  have run: "run_events poller_step (PollPoller_ctor Map.empty :: nat poller) ?es = Inr ?p"
    by (simp add: PollPoller_ctor_def store_def update_channel_def deref_def updateChannel_poller_def
        Channel_ctor_def enableReading_def update_mark_def Let_def set_index_def fun_upd_twist)
  have inv: "poller_inv ?p"
    by (simp add: poller_inv_def entry_ok_def registered_ok_def less_Suc_eq Channel_ctor_def)
  have len: "length [0, 1 :: 16 word] = length (pl_pollfds ?p)" by simp
  have ok: "\<forall>i < length [0, 1 :: 16 word]. [0, 1 :: 16 word] ! i \<noteq> 0 \<longrightarrow>
      0 \<le> pfd_fd (pl_pollfds ?p ! i) \<and> 0 < sint ([0, 1 :: 16 word] ! i)"
    by (simp add: less_Suc_eq)
  obtain active p' where r: "poll_PollPoller (PollEvents [0, 1]) [] ?p = Inr (active, p')"
      "\<forall>c ch. pl_heap ?p c = Some ch \<and> registered ?p c \<and> [0, 1 :: 16 word] ! nat (ch_index ch) \<noteq> 0 \<longrightarrow> c \<in> set active"
      "\<forall>c. \<not> (\<exists>ch. pl_heap ?p c = Some ch \<and> registered ?p c \<and> [0, 1 :: 16 word] ! nat (ch_index ch) \<noteq> 0) \<longrightarrow> c \<notin> set active"
    using poll_reports [OF inv len ok] by blast
  have "2 \<in> set active" using r(2) [rule_format, of 2 "?c 7 1"] by (simp add: registered_def Channel_ctor_def)
  moreover have "1 \<notin> set active" using r(3) [rule_format, of 1] by simp
  ultimately show ?thesis using run r(1) by blast
qed

section \<open>The values an event set can have\<close>

text \<open>The event set that waits for reading and for writing as the two flags say.\<close>

definition event_set :: "bool \<Rightarrow> bool \<Rightarrow> 32 word" where
  "event_set r w = (if r then kReadEvent else kNoneEvent) OR (if w then kWriteEvent else kNoneEvent)"

lemma event_set_values:
  "event_set False False = 0" "event_set True False = 1" "event_set False True = 4" "event_set True True = 5"
  by (simp_all add: event_set_def event_values)

lemma change_event_set:
  "change_events EnableReading (event_set r w) = event_set True w"
  "change_events DisableReading (event_set r w) = event_set False w"
  "change_events EnableWriting (event_set r w) = event_set r True"
  "change_events DisableWriting (event_set r w) = event_set r False"
  "change_events DisableAll (event_set r w) = event_set False False"
  by (cases r; cases w; simp add: event_set_values; simp add: event_values)+

lemma event_set_decode:
  assumes "ch_events ch = event_set r w"
  shows "isReading ch = r" and "isWriting ch = w" and "isNoneEvent ch \<longleftrightarrow> \<not> r \<and> \<not> w"
  using assms by (cases r; cases w; simp add: event_set_values isReading_def isWriting_def isNoneEvent_def
      has_bits_def event_values)+

lemma event_set_short: "ucast (ucast (event_set r w) :: 16 word) = event_set r w"
  by (cases r; cases w; simp add: event_set_values)

definition typed_view :: "chan_view \<Rightarrow> bool" where
  "typed_view v \<longleftrightarrow> (\<forall>c fd ev reg. v c = Some (fd, ev, reg) \<longrightarrow> (\<exists>r w. ev = event_set r w))"

lemma typed_view_step:
  assumes "typed_view v"
  shows "typed_view (view_step v e)"
proof (cases e)
  case (OpNew c lh tied fd)
  then show ?thesis using assms event_set_values(1) unfolding typed_view_def by (metis fun_upd_apply option.inject prod.inject view_step.simps(1))
next
  case (OpChange k c)
  have "\<exists>r w. change_events k ev = event_set r w" if "v c = Some (fd, ev, reg)" for fd ev reg
  proof -
    from assms that obtain r w where "ev = event_set r w" unfolding typed_view_def by blast
    then show ?thesis by (cases k) (simp_all only: change_event_set, blast+)
  qed
  then show ?thesis using assms OpChange by (auto simp: typed_view_def split: option.splits)
qed (use assms in \<open>auto simp: typed_view_def split: option.splits\<close>)

lemma typed_view_run: "typed_view v \<Longrightarrow> typed_view (foldl view_step v es)"
  by (induction es arbitrary: v) (simp_all add: typed_view_step)

text \<open>
  C36. The type of an event set: whatever sequence of new channels, changes of interest, removals
  and polls a loop runs from its construction, the \<open>int\<close> that a channel keeps is one of the four
  sets over reading and writing; \<open>isReading\<close>, \<open>isWriting\<close> and \<open>isNoneEvent\<close> decode it exactly;
  and the \<open>short\<close> that the kernel gets in the array of \<open>poll\<close> is the same set, so the
  conversion loses no event.
\<close>

theorem poller_run_typed:
  assumes "env_obeys poller_step poller_env (PollPoller_ctor Map.empty :: 'cb poller) es"
  shows "\<exists>p :: 'cb poller. run_events poller_step (PollPoller_ctor Map.empty) es = Inr p
    \<and> (\<forall>c ch. pl_heap p c = Some ch \<longrightarrow> ch_events ch = event_set (isReading ch) (isWriting ch)
         \<and> (isNoneEvent ch \<longleftrightarrow> \<not> isReading ch \<and> \<not> isWriting ch))
    \<and> (\<forall>i < length (pl_pollfds p). \<exists>c ch. map_of (pl_channels p) (plain_fd (pfd_fd (pl_pollfds p ! i))) = Some c
         \<and> pl_heap p c = Some ch \<and> ch_index ch = int i \<and> ucast (pfd_events (pl_pollfds p ! i)) = ch_events ch)"
proof -
  have inv: "poller_inv (PollPoller_ctor Map.empty :: 'cb poller)"
    and "typed_view (view (PollPoller_ctor Map.empty :: 'cb poller))"
    by (simp_all add: poller_inv_def PollPoller_ctor_def typed_view_def view_def)
  then obtain p :: "'cb poller" where p: "run_events poller_step (PollPoller_ctor Map.empty) es = Inr p" "poller_inv p"
      and typed: "typed_view (view p)"
    using pollsys.run_refines [OF inv assms] typed_view_run by metis
  have ev: "\<exists>r w. ch_events ch = event_set r w" if "pl_heap p c = Some ch" for c ch
    using typed that by (simp add: typed_view_def view_def) metis
  have "ch_events ch = event_set (isReading ch) (isWriting ch) \<and> (isNoneEvent ch \<longleftrightarrow> \<not> isReading ch \<and> \<not> isWriting ch)"
    if heap: "pl_heap p c = Some ch" for c ch
  proof -
    obtain r w where e: "ch_events ch = event_set r w" using ev [OF heap] by blast
    show ?thesis using e event_set_decode [OF e] by simp
  qed
  moreover have "\<exists>c ch. map_of (pl_channels p) (plain_fd (pfd_fd (pl_pollfds p ! i))) = Some c
      \<and> pl_heap p c = Some ch \<and> ch_index ch = int i \<and> ucast (pfd_events (pl_pollfds p ! i)) = ch_events ch"
    if "i < length (pl_pollfds p)" for i
    using inv_entry [OF p(2) that] ev event_set_short unfolding entry_of_def by metis
  ultimately show ?thesis using p(1) by blast
qed

theorem poller_run_typed_witness:
  "\<exists>p. run_events poller_step (PollPoller_ctor Map.empty :: nat poller)
      [OpNew 1 True True 5, OpChange EnableReading 1, OpChange EnableWriting 1] = Inr p
    \<and> (\<forall>c ch. pl_heap p c = Some ch \<longrightarrow> ch_events ch = event_set (isReading ch) (isWriting ch))"
proof -
  have "env_obeys poller_step poller_env (PollPoller_ctor Map.empty :: nat poller)
      [OpNew 1 True True 5, OpChange EnableReading 1, OpChange EnableWriting 1]"
    by (simp add: PollPoller_ctor_def poller_eval enableWriting_def registered_def)
  from poller_run_typed [OF this] show ?thesis by blast
qed

end
