(* ===== verification/EventLoops.thy ===== *)
theory EventLoops
  imports PollPollers
begin

text \<open>
  \<open>src/net/EventLoop.h\<close> and \<open>src/net/EventLoop.cpp\<close>. The first part has the functions of the class
  on the loop's state; threads are numbers, callbacks are names \<open>'cb\<close>, functors are names \<open>'f\<close>,
  and what calling one does is an argument. The counter of the event descriptor (\<open>eventfd(2)\<close>) is
  part of the state.

  The second part is the loop as its threads see it: a step relation in which the loop thread
  goes through the phases of \<open>loop\<close> while other threads call \<open>queueInLoop\<close> and \<open>quit\<close>. The push under
  the mutex and the wake-up after it are two steps, so every interleaving of them is a run.
\<close>

section \<open>State\<close>

record ('cb, 'f) event_loop =
  el_looping :: bool
  el_quit :: bool
  el_eventHandling :: bool
  el_callingPendingFunctors :: bool
  el_iteration :: int
  el_threadId :: int
  el_pollReturnTime :: timestamp
  el_poller :: "'cb poller"
  el_wakeupFd :: int
  el_wakeupChannel :: nat
  el_activeChannels :: "nat list"
  el_currentActiveChannel :: "nat option"
  el_pendingFunctors :: "'f list"
  el_eventfd :: nat

definition kPollTimeMs :: int where "kPollTimeMs = 10000"

text \<open>\<open>createEventfd\<close>: the descriptor \<open>eventfd(2)\<close> returned; a failure ends the process.\<close>

definition createEventfd :: "int \<Rightarrow> int outcome" where
  "createEventfd evtfd = (if evtfd < 0 then Inl Aborted else Inr evtfd)"

text \<open>
  The constructor: \<open>c\<close> is the address of the new wake-up channel, \<open>lh\<close> and \<open>tied\<close> its uninitialised
  fields, \<open>handleRead\<close> the name of the callback bound to \<open>EventLoop::handleRead\<close>.
\<close>

definition EventLoop_ctor ::
  "int \<Rightarrow> int \<Rightarrow> nat \<Rightarrow> bool \<Rightarrow> bool \<Rightarrow> 'cb \<Rightarrow> (nat \<rightharpoonup> 'cb channel) \<Rightarrow> ('cb, 'f) event_loop outcome" where
  "EventLoop_ctor tid evtfd c lh tied handleRead heap =
     bind_out (createEventfd evtfd) (\<lambda>wakeupFd.
     let p = store c (Channel_ctor lh tied wakeupFd) (PollPoller_ctor heap) in
     bind_out (deref p c) (\<lambda>ch.
     bind_out (update_channel EnableReading c (store c (setReadCallback handleRead ch) p)) (\<lambda>p.
     Inr \<lparr>el_looping = False, el_quit = False, el_eventHandling = False, el_callingPendingFunctors = False,
          el_iteration = 0, el_threadId = tid, el_pollReturnTime = Timestamp_default, el_poller = p,
          el_wakeupFd = wakeupFd, el_wakeupChannel = c, el_activeChannels = [],
          el_currentActiveChannel = None, el_pendingFunctors = [], el_eventfd = 0\<rparr>)))"

section \<open>Operations\<close>

definition isInLoopThread :: "int \<Rightarrow> ('cb, 'f, 'z) event_loop_scheme \<Rightarrow> bool" where
  "isInLoopThread tid l \<longleftrightarrow> el_threadId l = tid"

text \<open>\<open>LOG_FATAL\<close> only writes a line, so the check of the calling thread has no effect.\<close>

definition abortNotInLoopThread :: "('cb, 'f, 'z) event_loop_scheme \<Rightarrow> ('cb, 'f, 'z) event_loop_scheme outcome" where
  "abortNotInLoopThread l = Inr l"

definition assertInLoopThread :: "int \<Rightarrow> ('cb, 'f, 'z) event_loop_scheme \<Rightarrow> ('cb, 'f, 'z) event_loop_scheme outcome" where
  "assertInLoopThread tid l = (if \<not> isInLoopThread tid l then abortNotInLoopThread l else Inr l)"

definition hasChannel :: "nat \<Rightarrow> ('cb, 'f, 'z) event_loop_scheme \<Rightarrow> bool outcome" where
  "hasChannel c l = hasChannel_poller c (el_poller l)"

definition updateChannel :: "nat \<Rightarrow> ('cb, 'f, 'z) event_loop_scheme \<Rightarrow> ('cb, 'f, 'z) event_loop_scheme outcome" where
  "updateChannel c l = bind_out (updateChannel_poller c (el_poller l)) (\<lambda>p. Inr (l\<lparr>el_poller := p\<rparr>))"

definition removeChannel :: "nat \<Rightarrow> ('cb, 'f, 'z) event_loop_scheme \<Rightarrow> ('cb, 'f, 'z) event_loop_scheme outcome" where
  "removeChannel c l =
     asserting (el_eventHandling l \<longrightarrow>
         el_currentActiveChannel l = Some c \<or> c \<notin> set (el_activeChannels l))
       (bind_out (removeChannel_poller c (el_poller l)) (\<lambda>p. Inr (l\<lparr>el_poller := p\<rparr>)))"

text \<open>\<open>Channel::enableReading\<close> and its siblings, \<open>Channel::remove\<close>, on a channel of this loop.\<close>

definition channel_change ::
  "interest \<Rightarrow> nat \<Rightarrow> ('cb, 'f, 'z) event_loop_scheme \<Rightarrow> ('cb, 'f, 'z) event_loop_scheme outcome" where
  "channel_change k c l =
     bind_out (deref (el_poller l) c) (\<lambda>ch.
       updateChannel c (l\<lparr>el_poller := store c (change k ch) (el_poller l)\<rparr>))"

definition channel_remove :: "nat \<Rightarrow> ('cb, 'f, 'z) event_loop_scheme \<Rightarrow> ('cb, 'f, 'z) event_loop_scheme outcome" where
  "channel_remove c l =
     bind_out (deref (el_poller l) c) (\<lambda>ch.
       removeChannel c (l\<lparr>el_poller := store c (remove_mark ch) (el_poller l)\<rparr>))"

definition quit :: "('cb, 'f, 'z) event_loop_scheme \<Rightarrow> ('cb, 'f, 'z) event_loop_scheme" where
  "quit l = l\<lparr>el_quit := True\<rparr>"

text \<open>
  \<open>write\<close> of 1 to the event descriptor: the counter grows unless it is at its maximum, where the
  non-blocking write fails and the code only logs. \<open>read\<close> resets it, or fails when it is zero.
\<close>

definition eventfd_max :: nat where "eventfd_max = 18446744073709551614"

definition wakeup :: "('cb, 'f, 'z) event_loop_scheme \<Rightarrow> ('cb, 'f, 'z) event_loop_scheme" where
  "wakeup l = (if el_eventfd l < eventfd_max then l\<lparr>el_eventfd := el_eventfd l + 1\<rparr> else l)"

definition handleRead_loop :: "('cb, 'f, 'z) event_loop_scheme \<Rightarrow> ('cb, 'f, 'z) event_loop_scheme" where
  "handleRead_loop l = l\<lparr>el_eventfd := 0\<rparr>"

definition push_functor :: "'f \<Rightarrow> ('cb, 'f, 'z) event_loop_scheme \<Rightarrow> ('cb, 'f, 'z) event_loop_scheme" where
  "push_functor cb l = l\<lparr>el_pendingFunctors := el_pendingFunctors l @ [cb]\<rparr>"

definition needs_wakeup :: "int \<Rightarrow> ('cb, 'f, 'z) event_loop_scheme \<Rightarrow> bool" where
  "needs_wakeup tid l \<longleftrightarrow> \<not> isInLoopThread tid l \<or> el_callingPendingFunctors l"

definition queueInLoop :: "int \<Rightarrow> 'f \<Rightarrow> ('cb, 'f, 'z) event_loop_scheme \<Rightarrow> ('cb, 'f, 'z) event_loop_scheme" where
  "queueInLoop tid cb l =
     (let l = push_functor cb l in if needs_wakeup tid l then wakeup l else l)"

definition runInLoop ::
  "('f \<Rightarrow> ('cb, 'f, 'z) event_loop_scheme \<Rightarrow> ('cb, 'f, 'z) event_loop_scheme outcome)
   \<Rightarrow> int \<Rightarrow> 'f \<Rightarrow> ('cb, 'f, 'z) event_loop_scheme \<Rightarrow> ('cb, 'f, 'z) event_loop_scheme outcome" where
  "runInLoop run tid cb l = (if isInLoopThread tid l then run cb l else Inr (queueInLoop tid cb l))"

fun run_functors ::
  "('f \<Rightarrow> ('cb, 'f, 'z) event_loop_scheme \<Rightarrow> ('cb, 'f, 'z) event_loop_scheme outcome)
   \<Rightarrow> 'f list \<Rightarrow> ('cb, 'f, 'z) event_loop_scheme \<Rightarrow> ('cb, 'f, 'z) event_loop_scheme outcome" where
  "run_functors run [] l = Inr l"
| "run_functors run (f # fs) l = bind_out (run f l) (run_functors run fs)"

definition swap_functors ::
  "('cb, 'f, 'z) event_loop_scheme \<Rightarrow> 'f list \<times> ('cb, 'f, 'z) event_loop_scheme" where
  "swap_functors l = (el_pendingFunctors l, l\<lparr>el_pendingFunctors := []\<rparr>)"

definition doPendingFunctors ::
  "('f \<Rightarrow> ('cb, 'f, 'z) event_loop_scheme \<Rightarrow> ('cb, 'f, 'z) event_loop_scheme outcome)
   \<Rightarrow> ('cb, 'f, 'z) event_loop_scheme \<Rightarrow> ('cb, 'f, 'z) event_loop_scheme outcome" where
  "doPendingFunctors run l =
     (case swap_functors (l\<lparr>el_callingPendingFunctors := True\<rparr>) of
        (functors, l) \<Rightarrow> bind_out (run_functors run functors l) (\<lambda>l.
          Inr (l\<lparr>el_callingPendingFunctors := False\<rparr>)))"

section \<open>The loop\<close>

definition loop_chan :: "nat \<Rightarrow> ('cb, 'f, 'z) event_loop_scheme \<Rightarrow> 'cb channel outcome" where
  "loop_chan c l = deref (el_poller l) c"

definition loop_chan_upd ::
  "nat \<Rightarrow> 'cb channel \<Rightarrow> ('cb, 'f, 'z) event_loop_scheme \<Rightarrow> ('cb, 'f, 'z) event_loop_scheme" where
  "loop_chan_upd c ch l = l\<lparr>el_poller := store c ch (el_poller l)\<rparr>"

fun handle_active ::
  "('cb \<Rightarrow> ('cb, 'f, 'z) event_loop_scheme \<Rightarrow> ('cb, 'f, 'z) event_loop_scheme outcome)
   \<Rightarrow> ('cb \<Rightarrow> timestamp \<Rightarrow> ('cb, 'f, 'z) event_loop_scheme \<Rightarrow> ('cb, 'f, 'z) event_loop_scheme outcome)
   \<Rightarrow> nat list \<Rightarrow> ('cb, 'f, 'z) event_loop_scheme \<Rightarrow> ('cb, 'f, 'z) event_loop_scheme outcome" where
  "handle_active call call_read [] l = Inr l"
| "handle_active call call_read (c # cs) l =
     (let l = l\<lparr>el_currentActiveChannel := Some c\<rparr> in
      bind_out (handleEvent (loop_chan c) (loop_chan_upd c) call call_read (el_pollReturnTime l) l)
        (handle_active call call_read cs))"

text \<open>One round of the \<open>while\<close> loop, for a result of \<open>poll(2)\<close> and the time it returned.\<close>

definition loop_round ::
  "('cb \<Rightarrow> ('cb, 'f, 'z) event_loop_scheme \<Rightarrow> ('cb, 'f, 'z) event_loop_scheme outcome)
   \<Rightarrow> ('cb \<Rightarrow> timestamp \<Rightarrow> ('cb, 'f, 'z) event_loop_scheme \<Rightarrow> ('cb, 'f, 'z) event_loop_scheme outcome)
   \<Rightarrow> ('f \<Rightarrow> ('cb, 'f, 'z) event_loop_scheme \<Rightarrow> ('cb, 'f, 'z) event_loop_scheme outcome)
   \<Rightarrow> poll_result \<times> timestamp \<Rightarrow> ('cb, 'f, 'z) event_loop_scheme \<Rightarrow> ('cb, 'f, 'z) event_loop_scheme outcome" where
  "loop_round call call_read run polled l =
     bind_out (poll_PollPoller (fst polled) [] (el_poller l)) (\<lambda>(active, p).
     bind_out (handle_active call call_read active
         (l\<lparr>el_activeChannels := active, el_poller := p, el_pollReturnTime := snd polled,
            el_eventHandling := True\<rparr>)) (\<lambda>l.
     doPendingFunctors run (l\<lparr>el_currentActiveChannel := None, el_eventHandling := False\<rparr>)))"

text \<open>
  \<open>loop\<close> against the results \<open>poll(2)\<close> gives one after the other: it has returned, or it is waiting
  in \<open>poll\<close> because there is no further result.
\<close>

datatype 'a loop_result = Returned 'a | Waiting 'a

fun loop_rounds ::
  "('cb \<Rightarrow> ('cb, 'f, 'z) event_loop_scheme \<Rightarrow> ('cb, 'f, 'z) event_loop_scheme outcome)
   \<Rightarrow> ('cb \<Rightarrow> timestamp \<Rightarrow> ('cb, 'f, 'z) event_loop_scheme \<Rightarrow> ('cb, 'f, 'z) event_loop_scheme outcome)
   \<Rightarrow> ('f \<Rightarrow> ('cb, 'f, 'z) event_loop_scheme \<Rightarrow> ('cb, 'f, 'z) event_loop_scheme outcome)
   \<Rightarrow> (poll_result \<times> timestamp) list \<Rightarrow> ('cb, 'f, 'z) event_loop_scheme
   \<Rightarrow> ('cb, 'f, 'z) event_loop_scheme loop_result outcome" where
  "loop_rounds call call_read run [] l =
     (if el_quit l then Inr (Returned (l\<lparr>el_looping := False\<rparr>)) else Inr (Waiting l))"
| "loop_rounds call call_read run (r # rs) l =
     (if el_quit l then Inr (Returned (l\<lparr>el_looping := False\<rparr>))
      else bind_out (loop_round call call_read run r l) (loop_rounds call call_read run rs))"

definition loop ::
  "('cb \<Rightarrow> ('cb, 'f, 'z) event_loop_scheme \<Rightarrow> ('cb, 'f, 'z) event_loop_scheme outcome)
   \<Rightarrow> ('cb \<Rightarrow> timestamp \<Rightarrow> ('cb, 'f, 'z) event_loop_scheme \<Rightarrow> ('cb, 'f, 'z) event_loop_scheme outcome)
   \<Rightarrow> ('f \<Rightarrow> ('cb, 'f, 'z) event_loop_scheme \<Rightarrow> ('cb, 'f, 'z) event_loop_scheme outcome)
   \<Rightarrow> int \<Rightarrow> (poll_result \<times> timestamp) list \<Rightarrow> ('cb, 'f, 'z) event_loop_scheme
   \<Rightarrow> ('cb, 'f, 'z) event_loop_scheme loop_result outcome" where
  "loop call call_read run tid polls l =
     asserting (\<not> el_looping l)
       (bind_out (assertInLoopThread tid l) (\<lambda>l.
         loop_rounds call call_read run polls (l\<lparr>el_looping := True, el_quit := False\<rparr>)))"

text \<open>The destructor: the wake-up channel is disabled, removed and its descriptor closed.\<close>

definition EventLoop_dtor :: "('cb, 'f, 'z) event_loop_scheme \<Rightarrow> ('cb, 'f, 'z) event_loop_scheme outcome" where
  "EventLoop_dtor l =
     bind_out (channel_change DisableAll (el_wakeupChannel l) l) (channel_remove (el_wakeupChannel l))"

definition printActiveChannels :: "('cb, 'f, 'z) event_loop_scheme \<Rightarrow> string list outcome" where
  "printActiveChannels l =
     fold (\<lambda>c acc. bind_out acc (\<lambda>ls. bind_out (deref (el_poller l) c) (\<lambda>ch.
       Inr (ls @ [''{'' @ reventsToString ch @ ''} '']))))
     (el_activeChannels l) (Inr [])"

section \<open>The loop and its threads\<close>

text \<open>
  The phases of the loop thread: at the test of \<open>quit_\<close>; blocked in \<open>poll\<close>; handling events, where
  the flag says that the wake-up channel is still to be handled; in \<open>doPendingFunctors\<close> before the
  swap; running the functors it took; returned. \<open>posting\<close> holds the threads that are between the
  push and the test of \<open>queueInLoop\<close>. \<open>posted\<close> and \<open>ran\<close> record the functors pushed and started.
\<close>

datatype 'f loop_pc = AtTest | InPoll | Handling bool | Swapping | Running "'f list" | Exited

record ('cb, 'f) loop_system =
  sys_loop :: "('cb, 'f) event_loop"
  sys_pc :: "'f loop_pc"
  sys_posting :: "int set"
  sys_posted :: "'f list"
  sys_ran :: "'f list"

definition loop_free :: "('cb, 'f) loop_system \<Rightarrow> bool" where
  "loop_free s \<longleftrightarrow> el_threadId (sys_loop s) \<notin> sys_posting s"

text \<open>
  What the rest of the program may do to the loop's state at any time: change everything but
  the functor queue, the flags and the event descriptor.
\<close>

definition same_queue :: "('cb, 'f) event_loop \<Rightarrow> ('cb, 'f) event_loop \<Rightarrow> bool" where
  "same_queue l m \<longleftrightarrow> el_pendingFunctors m = el_pendingFunctors l \<and> el_eventfd m = el_eventfd l
     \<and> el_callingPendingFunctors m = el_callingPendingFunctors l \<and> el_quit m = el_quit l
     \<and> el_threadId m = el_threadId l"

inductive loop_step :: "('cb, 'f) loop_system \<Rightarrow> ('cb, 'f) loop_system \<Rightarrow> bool" where
  test_on: "loop_free s \<Longrightarrow> sys_pc s = AtTest \<Longrightarrow> \<not> el_quit (sys_loop s) \<Longrightarrow>
    loop_step s (s\<lparr>sys_pc := InPoll\<rparr>)"
| test_off: "loop_free s \<Longrightarrow> sys_pc s = AtTest \<Longrightarrow> el_quit (sys_loop s) \<Longrightarrow>
    loop_step s (s\<lparr>sys_pc := Exited, sys_loop := (sys_loop s)\<lparr>el_looping := False\<rparr>\<rparr>)"
| poll_wakeup: "loop_free s \<Longrightarrow> sys_pc s = InPoll \<Longrightarrow> el_eventfd (sys_loop s) > 0 \<Longrightarrow>
    loop_step s (s\<lparr>sys_pc := Handling True\<rparr>)"
| read_wakeup: "loop_free s \<Longrightarrow> sys_pc s = Handling True \<Longrightarrow>
    loop_step s (s\<lparr>sys_pc := Handling False, sys_loop := handleRead_loop (sys_loop s)\<rparr>)"
| handled: "loop_free s \<Longrightarrow> sys_pc s = Handling False \<Longrightarrow>
    loop_step s (s\<lparr>sys_pc := Swapping, sys_loop := (sys_loop s)\<lparr>el_callingPendingFunctors := True\<rparr>\<rparr>)"
| swap: "loop_free s \<Longrightarrow> sys_pc s = Swapping \<Longrightarrow> swap_functors (sys_loop s) = (fs, l) \<Longrightarrow>
    loop_step s (s\<lparr>sys_pc := Running fs, sys_loop := l\<rparr>)"
| run_next: "loop_free s \<Longrightarrow> sys_pc s = Running (f # fs) \<Longrightarrow>
    loop_step s (s\<lparr>sys_pc := Running fs, sys_ran := sys_ran s @ [f]\<rparr>)"
| run_done: "loop_free s \<Longrightarrow> sys_pc s = Running [] \<Longrightarrow>
    loop_step s (s\<lparr>sys_pc := AtTest, sys_loop := (sys_loop s)\<lparr>el_callingPendingFunctors := False\<rparr>\<rparr>)"

inductive world_step :: "('cb, 'f) loop_system \<Rightarrow> ('cb, 'f) loop_system \<Rightarrow> bool" where
  poll_io: "loop_free s \<Longrightarrow> sys_pc s = InPoll \<Longrightarrow>
    world_step s (s\<lparr>sys_pc := Handling (el_eventfd (sys_loop s) > 0)\<rparr>)"
| push: "t \<notin> sys_posting s \<Longrightarrow>
    (t = el_threadId (sys_loop s) \<Longrightarrow> (\<exists>b. sys_pc s = Handling b) \<or> (\<exists>fs. sys_pc s = Running fs)) \<Longrightarrow>
    world_step s (s\<lparr>sys_loop := push_functor f (sys_loop s), sys_posting := insert t (sys_posting s),
      sys_posted := sys_posted s @ [f]\<rparr>)"
| wake: "t \<in> sys_posting s \<Longrightarrow>
    world_step s (s\<lparr>sys_loop := (if needs_wakeup t (sys_loop s) then wakeup (sys_loop s) else sys_loop s),
      sys_posting := sys_posting s - {t}\<rparr>)"
| call_quit: "world_step s (s\<lparr>sys_loop := quit (sys_loop s)\<rparr>)"
| other: "same_queue (sys_loop s) l \<Longrightarrow> world_step s (s\<lparr>sys_loop := l\<rparr>)"

definition sys_start :: "('cb, 'f) event_loop \<Rightarrow> ('cb, 'f) loop_system" where
  "sys_start l = \<lparr>sys_loop = l, sys_pc = AtTest, sys_posting = {},
     sys_posted = el_pendingFunctors l, sys_ran = []\<rparr>"

text \<open>The loop starts with its flags as \<open>loop\<close> sets them and an event descriptor that covers
  functors queued before.\<close>

inductive sys_reachable :: "('cb, 'f) loop_system \<Rightarrow> bool" where
  start: "\<not> el_callingPendingFunctors l \<Longrightarrow> (el_pendingFunctors l \<noteq> [] \<Longrightarrow> el_eventfd l > 0) \<Longrightarrow>
    sys_reachable (sys_start l)"
| loop: "sys_reachable s \<Longrightarrow> loop_step s s' \<Longrightarrow> sys_reachable s'"
| world: "sys_reachable s \<Longrightarrow> world_step s s' \<Longrightarrow> sys_reachable s'"

section \<open>The invariant of the queue\<close>

definition running_functors :: "'f loop_pc \<Rightarrow> 'f list" where
  "running_functors pc = (case pc of Running fs \<Rightarrow> fs | _ \<Rightarrow> [])"

definition before_swap :: "'f loop_pc \<Rightarrow> bool" where
  "before_swap pc = (case pc of Handling b \<Rightarrow> True | Swapping \<Rightarrow> True | _ \<Rightarrow> False)"

definition in_pending :: "'f loop_pc \<Rightarrow> bool" where
  "in_pending pc = (case pc of Swapping \<Rightarrow> True | Running fs \<Rightarrow> True | _ \<Rightarrow> False)"

definition sys_inv :: "('cb, 'f) loop_system \<Rightarrow> bool" where
  "sys_inv s \<longleftrightarrow>
     sys_posted s = sys_ran s @ running_functors (sys_pc s) @ el_pendingFunctors (sys_loop s)
     \<and> (el_callingPendingFunctors (sys_loop s) \<longleftrightarrow> in_pending (sys_pc s))
     \<and> (el_threadId (sys_loop s) \<in> sys_posting s \<longrightarrow>
          (\<exists>b. sys_pc s = Handling b) \<or> (\<exists>fs. sys_pc s = Running fs))
     \<and> (el_pendingFunctors (sys_loop s) \<noteq> [] \<longrightarrow>
          el_eventfd (sys_loop s) > 0 \<or> (\<exists>t \<in> sys_posting s. needs_wakeup t (sys_loop s))
          \<or> before_swap (sys_pc s))"

lemmas pc_defs = running_functors_def before_swap_def in_pending_def
lemmas queue_defs = needs_wakeup_def isInLoopThread_def push_functor_def handleRead_loop_def quit_def

lemma wakeup_simps [simp]:
  "el_pendingFunctors (wakeup l) = el_pendingFunctors l" "0 < el_eventfd (wakeup l)"
  "el_callingPendingFunctors (wakeup l) = el_callingPendingFunctors l" "el_quit (wakeup l) = el_quit l"
  "el_threadId (wakeup l) = el_threadId l"
  by (auto simp: wakeup_def eventfd_max_def)

lemma needs_wakeup_cong:
  "el_threadId m = el_threadId l \<Longrightarrow> el_callingPendingFunctors m = el_callingPendingFunctors l \<Longrightarrow>
   needs_wakeup t m = needs_wakeup t l"
  by (simp add: queue_defs)

lemma loop_step_inv: "loop_step s s' \<Longrightarrow> sys_inv s \<Longrightarrow> sys_inv s'"
  by (induction rule: loop_step.induct)
     (auto simp: sys_inv_def pc_defs queue_defs loop_free_def swap_functors_def)

lemma world_step_inv: "world_step s s' \<Longrightarrow> sys_inv s \<Longrightarrow> sys_inv s'"
proof (induction rule: world_step.induct)
  case (poll_io s)
  then show ?case by (auto simp: sys_inv_def pc_defs loop_free_def)
next
  case (push t s f)
  then show ?case
    by (cases "t = el_threadId (sys_loop s)") (auto simp: sys_inv_def pc_defs queue_defs)
next
  case (wake t s)
  show ?case
  proof (cases "needs_wakeup t (sys_loop s)")
    case True
    then show ?thesis using wake by (auto simp: sys_inv_def)
  next
    case False
    then show ?thesis using wake by (auto simp: sys_inv_def)
  qed
next
  case (call_quit s)
  then show ?case by (auto simp: sys_inv_def queue_defs)
next
  case (other s l)
  then show ?case by (auto simp: sys_inv_def same_queue_def queue_defs)
qed

lemma sys_reachable_inv: "sys_reachable s \<Longrightarrow> sys_inv s"
proof (induction rule: sys_reachable.induct)
  case (start l)
  then show ?case by (auto simp: sys_inv_def sys_start_def pc_defs)
qed (auto intro: loop_step_inv world_step_inv)

section \<open>Progress of the loop thread\<close>

inductive_cases loop_stepE: "loop_step s s'"

lemma step_steps: "loop_step s s' \<Longrightarrow> loop_step\<^sup>*\<^sup>* s' s'' \<Longrightarrow> loop_step\<^sup>*\<^sup>* s s''"
  by (rule converse_rtranclp_into_rtranclp)

lemma run_all:
  "sys_pc s = Running fs \<Longrightarrow> loop_free s \<Longrightarrow>
   loop_step\<^sup>*\<^sup>* s (s\<lparr>sys_pc := AtTest, sys_ran := sys_ran s @ fs,
     sys_loop := (sys_loop s)\<lparr>el_callingPendingFunctors := False\<rparr>\<rparr>)"
proof (induction fs arbitrary: s)
  case Nil
  then show ?case using loop_step.run_done [of s] by (auto intro: r_into_rtranclp)
next
  case (Cons f fs)
  let ?s = "s\<lparr>sys_pc := Running fs, sys_ran := sys_ran s @ [f]\<rparr>"
  have "loop_step s ?s" using Cons.prems by (intro loop_step.run_next)
  moreover have "loop_step\<^sup>*\<^sup>* ?s (?s\<lparr>sys_pc := AtTest, sys_ran := sys_ran ?s @ fs,
      sys_loop := (sys_loop ?s)\<lparr>el_callingPendingFunctors := False\<rparr>\<rparr>)"
    using Cons.prems by (intro Cons.IH) (simp_all add: loop_free_def)
  ultimately show ?case by (simp add: converse_rtranclp_into_rtranclp)
qed

text \<open>From each phase the loop reaches the test of \<open>quit_\<close> with its part of the queue done.\<close>

definition round_done :: "('cb, 'f) loop_system \<Rightarrow> 'f list \<Rightarrow> 'f list \<Rightarrow> bool" where
  "round_done s fs ps \<longleftrightarrow>
     (\<exists>s'. loop_step\<^sup>*\<^sup>* s s' \<and> sys_pc s' = AtTest \<and> sys_ran s' = sys_ran s @ fs
        \<and> el_pendingFunctors (sys_loop s') = ps \<and> sys_posting s' = sys_posting s
        \<and> el_eventfd (sys_loop s') = (if sys_pc s = Handling True then 0 else el_eventfd (sys_loop s))
        \<and> el_quit (sys_loop s') = el_quit (sys_loop s) \<and> el_threadId (sys_loop s') = el_threadId (sys_loop s))"

lemma round_done_step:
  assumes "loop_step s s'" and "round_done s' fs ps" and "sys_ran s' = sys_ran s" and "sys_posting s' = sys_posting s"
    and "el_quit (sys_loop s') = el_quit (sys_loop s)" and "el_threadId (sys_loop s') = el_threadId (sys_loop s)"
    and "(if sys_pc s' = Handling True then 0 else el_eventfd (sys_loop s'))
      = (if sys_pc s = Handling True then 0 else el_eventfd (sys_loop s))"
  shows "round_done s fs ps"
proof -
  obtain t where t: "loop_step\<^sup>*\<^sup>* s' t" "sys_pc t = AtTest" "sys_ran t = sys_ran s' @ fs"
      "el_pendingFunctors (sys_loop t) = ps" "sys_posting t = sys_posting s'"
      "el_eventfd (sys_loop t) = (if sys_pc s' = Handling True then 0 else el_eventfd (sys_loop s'))"
      "el_quit (sys_loop t) = el_quit (sys_loop s')" "el_threadId (sys_loop t) = el_threadId (sys_loop s')"
    using assms(2) unfolding round_done_def by blast
  have "loop_step\<^sup>*\<^sup>* s t" using assms(1) t(1) by (rule step_steps)
  then show ?thesis unfolding round_done_def using t(2-) assms(3-) by (intro exI [of _ t]) simp
qed

lemma round_Running:
  "sys_pc s = Running fs \<Longrightarrow> loop_free s \<Longrightarrow> round_done s fs (el_pendingFunctors (sys_loop s))"
  using run_all [of s fs] unfolding round_done_def by (intro exI conjI) (assumption, auto simp: before_swap_def)

lemma round_Swapping:
  assumes "sys_pc s = Swapping" and "loop_free s"
  shows "round_done s (el_pendingFunctors (sys_loop s)) []"
proof -
  let ?fs = "el_pendingFunctors (sys_loop s)"
  let ?s = "s\<lparr>sys_pc := Running ?fs, sys_loop := (sys_loop s)\<lparr>el_pendingFunctors := []\<rparr>\<rparr>"
  have step: "loop_step s ?s" using assms by (intro loop_step.swap) (simp_all add: swap_functors_def)
  have "round_done ?s ?fs []" using round_Running [of ?s ?fs] assms(2) by (simp add: loop_free_def)
  then show ?thesis using round_done_step [OF step] assms(1) by simp
qed

lemma round_Handling:
  fixes s :: "('a, 'b) loop_system"
  assumes "sys_pc s = Handling b" and "loop_free s"
  shows "round_done s (el_pendingFunctors (sys_loop s)) []"
proof -
  have *: "round_done s (el_pendingFunctors (sys_loop s)) []"
    if "sys_pc s = Handling False" "loop_free s" for s :: "('a, 'b) loop_system"
  proof -
    let ?s = "s\<lparr>sys_pc := Swapping, sys_loop := (sys_loop s)\<lparr>el_callingPendingFunctors := True\<rparr>\<rparr>"
    have step: "loop_step s ?s" using that by (intro loop_step.handled)
    have "round_done ?s (el_pendingFunctors (sys_loop s)) []"
      using round_Swapping [of ?s] that(2) by (simp add: loop_free_def)
    then show ?thesis using round_done_step [OF step] that(1) by simp
  qed
  show ?thesis
  proof (cases b)
    case True
    let ?s = "s\<lparr>sys_pc := Handling False, sys_loop := handleRead_loop (sys_loop s)\<rparr>"
    have step: "loop_step s ?s" using assms True by (intro loop_step.read_wakeup) simp_all
    have "round_done ?s (el_pendingFunctors (sys_loop s)) []"
      using * [of ?s] assms(2) by (simp add: loop_free_def handleRead_loop_def)
    then show ?thesis
      using round_done_step [OF step] assms(1) True by (simp add: handleRead_loop_def)
  next
    case False
    then show ?thesis using * assms by simp
  qed
qed

lemma poll_round:
  assumes "sys_pc s = InPoll" and "loop_free s" and "el_eventfd (sys_loop s) > 0"
  shows "\<exists>s'. loop_step\<^sup>*\<^sup>* s s' \<and> sys_ran s' = sys_ran s @ el_pendingFunctors (sys_loop s)"
proof -
  let ?s = "s\<lparr>sys_pc := Handling True\<rparr>"
  have step: "loop_step s ?s" using assms by (intro loop_step.poll_wakeup)
  have "round_done ?s (el_pendingFunctors (sys_loop s)) []"
    using round_Handling [of ?s True] assms(2) by (simp add: loop_free_def)
  then show ?thesis
    using step_steps [OF step] by (fastforce simp: round_done_def)
qed

lemma test_round:
  assumes "sys_pc s = AtTest" and "loop_free s" and "\<not> el_quit (sys_loop s)"
    and "el_pendingFunctors (sys_loop s) \<noteq> [] \<longrightarrow> el_eventfd (sys_loop s) > 0"
  shows "\<exists>s'. loop_step\<^sup>*\<^sup>* s s' \<and> sys_ran s' = sys_ran s @ el_pendingFunctors (sys_loop s)"
proof (cases "el_pendingFunctors (sys_loop s) = []")
  case True
  then show ?thesis by (intro exI [of _ s]) simp
next
  case False
  let ?s = "s\<lparr>sys_pc := InPoll\<rparr>"
  have step: "loop_step s ?s" using assms by (intro loop_step.test_on)
  have "\<exists>s'. loop_step\<^sup>*\<^sup>* ?s s' \<and> sys_ran s' = sys_ran s @ el_pendingFunctors (sys_loop s)"
    using poll_round [of ?s] assms(2,4) False by (simp add: loop_free_def)
  then show ?thesis using step_steps [OF step] by blast
qed

text \<open>All functors posted so far run by steps of the loop thread alone.\<close>

lemma all_posted_run:
  assumes "sys_inv s" and "sys_posting s = {}" and "\<not> el_quit (sys_loop s)" and "sys_pc s \<noteq> Exited"
  shows "\<exists>s'. loop_step\<^sup>*\<^sup>* s s' \<and> sys_ran s' = sys_posted s"
proof -
  have free: "loop_free s" using assms(2) by (simp add: loop_free_def)
  have posted: "sys_posted s = sys_ran s @ running_functors (sys_pc s) @ el_pendingFunctors (sys_loop s)"
    and wake: "el_pendingFunctors (sys_loop s) \<noteq> [] \<Longrightarrow> \<not> before_swap (sys_pc s) \<Longrightarrow> el_eventfd (sys_loop s) > 0"
    using assms(1,2) by (auto simp: sys_inv_def)
  show ?thesis
  proof (cases "sys_pc s")
    case AtTest
    then show ?thesis
      using test_round [OF AtTest free assms(3)] posted wake by (auto simp: pc_defs)
  next
    case InPoll
    then show ?thesis
      using poll_round [OF InPoll free] posted wake
      by (cases "el_pendingFunctors (sys_loop s) = []") (auto simp: pc_defs)
  next
    case (Handling b)
    then show ?thesis using round_Handling [OF Handling free] posted by (auto simp: round_done_def pc_defs)
  next
    case Swapping
    then show ?thesis using round_Swapping [OF Swapping free] posted by (auto simp: round_done_def pc_defs)
  next
    case (Running fs)
    obtain s1 where s1: "loop_step\<^sup>*\<^sup>* s s1" "sys_pc s1 = AtTest" "sys_ran s1 = sys_ran s @ fs"
        "el_pendingFunctors (sys_loop s1) = el_pendingFunctors (sys_loop s)" "sys_posting s1 = {}"
        "el_eventfd (sys_loop s1) = el_eventfd (sys_loop s)" "\<not> el_quit (sys_loop s1)"
      using round_Running [OF Running free] assms(2,3) Running by (auto simp: round_done_def pc_defs)
    have "loop_free s1" using s1(5) by (simp add: loop_free_def)
    then obtain s2 where "loop_step\<^sup>*\<^sup>* s1 s2" "sys_ran s2 = sys_ran s1 @ el_pendingFunctors (sys_loop s1)"
      using test_round [OF s1(2)] s1(4,6,7) wake Running by (auto simp: pc_defs)
    then show ?thesis
      using s1(1,3,4) posted Running rtranclp_trans [of loop_step s s1 s2] by (auto simp: pc_defs)
  qed (use assms(4) in simp)
qed

section \<open>The wake-up channel\<close>

text \<open>The only callback the loop itself installs.\<close>

datatype loop_callback = HandleRead

fun call_loop :: "loop_callback \<Rightarrow> (loop_callback, 'f, 'z) event_loop_scheme \<Rightarrow> (loop_callback, 'f, 'z) event_loop_scheme outcome" where
  "call_loop HandleRead l = Inr (handleRead_loop l)"

fun call_read_loop ::
  "loop_callback \<Rightarrow> timestamp \<Rightarrow> (loop_callback, 'f, 'z) event_loop_scheme \<Rightarrow> (loop_callback, 'f, 'z) event_loop_scheme outcome" where
  "call_read_loop HandleRead t l = Inr (handleRead_loop l)"

interpretation wakech: channel_world "loop_chan c" "loop_chan_upd c" call_loop call_read_loop
proof
  fix l l' :: "(loop_callback, 'a, 'b) event_loop_scheme" and ch d f t
  show "loop_chan c l = Inr ch \<Longrightarrow> loop_chan c (loop_chan_upd c d l) = Inr d"
    by (simp add: loop_chan_def loop_chan_upd_def)
  show "loop_chan c l = Inr ch \<Longrightarrow> call_loop f l = Inr l' \<Longrightarrow> \<exists>d. loop_chan c l' = Inr d \<and> same_handlers ch d"
    by (cases f) (auto simp: loop_chan_def handleRead_loop_def same_handlers_def)
  show "loop_chan c l = Inr ch \<Longrightarrow> call_read_loop f t l = Inr l' \<Longrightarrow> \<exists>d. loop_chan c l' = Inr d \<and> same_handlers ch d"
    by (cases f) (auto simp: loop_chan_def handleRead_loop_def same_handlers_def)
qed

section \<open>Properties\<close>

text \<open>A loop with nothing to do, and the system just after a foreign thread has queued a functor.\<close>

definition idle_loop :: "(loop_callback, nat) event_loop" where
  "idle_loop = \<lparr>el_looping = True, el_quit = False, el_eventHandling = False, el_callingPendingFunctors = False,
     el_iteration = 0, el_threadId = 1, el_pollReturnTime = Timestamp_default,
     el_poller = PollPoller_ctor Map.empty, el_wakeupFd = 3, el_wakeupChannel = 0, el_activeChannels = [],
     el_currentActiveChannel = None, el_pendingFunctors = [], el_eventfd = 0\<rparr>"

definition polling_system :: "(loop_callback, nat) loop_system" where
  "polling_system = (sys_start idle_loop)\<lparr>sys_pc := InPoll\<rparr>"

definition queued_system :: "(loop_callback, nat) loop_system" where
  "queued_system = polling_system\<lparr>sys_loop := queueInLoop 2 7 idle_loop, sys_posted := [7]\<rparr>"

lemma polling_reachable: "sys_reachable polling_system"
proof -
  have "sys_reachable (sys_start idle_loop)" by (rule sys_reachable.start) (simp_all add: idle_loop_def)
  moreover have "loop_step (sys_start idle_loop) polling_system"
    unfolding polling_system_def by (rule loop_step.test_on) (simp_all add: sys_start_def idle_loop_def loop_free_def)
  ultimately show ?thesis by (rule sys_reachable.loop)
qed

lemma queued_reachable: "sys_reachable queued_system"
proof -
  let ?s = "polling_system\<lparr>sys_loop := push_functor 7 idle_loop, sys_posting := {2}, sys_posted := [7]\<rparr>"
  have "world_step polling_system ?s"
    using world_step.push [of 2 polling_system 7] by (simp add: polling_system_def sys_start_def idle_loop_def)
  then have r: "sys_reachable ?s" using polling_reachable by (rule sys_reachable.world [rotated])
  have "queueInLoop 2 7 idle_loop = wakeup (push_functor 7 idle_loop)"
    by (simp add: queueInLoop_def Let_def queue_defs idle_loop_def)
  then have "world_step ?s queued_system"
    using world_step.wake [of 2 ?s]
    by (simp add: queued_system_def polling_system_def sys_start_def queue_defs idle_loop_def)
  with r show ?thesis by (rule sys_reachable.world)
qed



text \<open>
  C17. Functors run once each and in the order in which they were queued: in every reachable
  state the functors pushed so far are those already started, then those taken by the current
  \<open>doPendingFunctors\<close>, then those pending.
\<close>

theorem functors_fifo:
  assumes "sys_reachable s"
  shows "sys_posted s = sys_ran s @ running_functors (sys_pc s) @ el_pendingFunctors (sys_loop s)"
  using sys_reachable_inv [OF assms] by (simp add: sys_inv_def)

theorem functors_fifo_witness:
  "sys_posted queued_system = [7] \<and> sys_ran queued_system = [] \<and> el_pendingFunctors (sys_loop queued_system) = [7]"
  using functors_fifo [OF queued_reachable]
  by (simp add: queued_system_def polling_system_def sys_start_def running_functors_def)



text \<open>
  \<open>quit\<close> does not stop a loop that waits in \<open>poll\<close>: the wake-up in \<open>quit\<close> is commented out and
  \<open>poll\<close> is called without a timeout, so after \<open>quit\<close> the loop thread has no step of its own
  until a descriptor becomes ready or a functor is queued.
\<close>

lemma quit_unnoticed:
  assumes "sys_reachable s" and "sys_pc s = InPoll" and "el_eventfd (sys_loop s) = 0"
  shows "\<exists>s'. world_step s s' \<and> sys_reachable s' \<and> el_quit (sys_loop s') \<and> sys_pc s' = InPoll
    \<and> (\<nexists>s''. loop_step s' s'')"
proof (intro exI conjI)
  let ?s = "s\<lparr>sys_loop := quit (sys_loop s)\<rparr>"
  show w: "world_step s ?s" by (rule world_step.call_quit)
  show "sys_reachable ?s" using assms(1) w by (rule sys_reachable.world)
  show "el_quit (sys_loop ?s)" "sys_pc ?s = InPoll" using assms(2) by (simp_all add: quit_def)
  show "\<nexists>s''. loop_step ?s s''" using assms(2,3) by (auto simp: quit_def elim: loop_stepE)
qed

text \<open>
  Handling a readable event on the loop's wake-up channel consumes the pending wake-ups: the
  dispatcher calls exactly \<open>handleRead\<close>, which resets the event descriptor, and leaves the
  channel out of event handling.
\<close>

lemma wakeup_event_handled:
  assumes "pl_heap (el_poller l) c = Some ch" and "ch_revents ch = POLLIN"
    and "ch_readCallback ch = Some HandleRead"
  shows "handleEvent (loop_chan c) (loop_chan_upd c) call_loop call_read_loop t l
    = Inr (loop_chan_upd c (ch\<lparr>ch_eventHandling := False\<rparr>) (handleRead_loop l))"
proof -
  have "event_calls ch = [ReadCall HandleRead]"
    using assms(2,3)
    by (simp add: event_calls_def selected_def close_ready_def error_ready_def read_ready_def write_ready_def
        has_bits_or has_bits_iff bit_POLLIN)
  moreover have "loop_chan c l = Inr ch" using assms(1) by (simp add: loop_chan_def)
  ultimately show ?thesis
    by (simp add: wakech.handleEvent_calls loop_chan_upd_def set_handling_def loop_chan_def handleRead_loop_def store_def)
qed

end
