(* ===== verification/ByteBuffer.thy ===== *)
theory ByteBuffer
  imports Prelude
begin

text \<open>
  The network buffer of \<open>src/net/Buffer.h\<close> and \<open>src/net/Buffer.cpp\<close>, with the byte order
  conversions of \<open>src/net/Endian.h\<close>. A buffer is a vector of bytes with a reader and a writer
  index; the readable bytes are those between the two. Pointers into the buffer
  (\<open>peek()\<close>, \<open>beginWrite()\<close>, what \<open>findCRLF\<close> returns) are offsets from \<open>begin()\<close>; a null
  pointer is \<open>None\<close>. Indices are \<open>size_t\<close> values, so every subtraction and addition of the
  source is written with its wrap-around.

  The abstract view of a buffer is its string of readable bytes. The locale \<open>byte_queue\<close>
  states what the users of the class rely on, and the interpretation at the end of the theory
  proves it for the class.
\<close>

section \<open>The class\<close>

definition kCheapPrepend :: nat where
  "kCheapPrepend = 8"

definition kInitialSize :: nat where
  "kInitialSize = 1024"

record buffer =
  buf_data :: string
  readerIndex :: nat
  writerIndex :: nat

definition new_Buffer :: "nat \<Rightarrow> buffer" where
  "new_Buffer initialSize =
     \<lparr>buf_data = replicate (size_add kCheapPrepend initialSize) NUL,
      readerIndex = kCheapPrepend, writerIndex = kCheapPrepend\<rparr>"

definition readableBytes :: "buffer \<Rightarrow> nat" where
  "readableBytes b = size_sub (writerIndex b) (readerIndex b)"

definition writableBytes :: "buffer \<Rightarrow> nat" where
  "writableBytes b = size_sub (length (buf_data b)) (writerIndex b)"

definition prependableBytes :: "buffer \<Rightarrow> nat" where
  "prependableBytes b = readerIndex b"

definition peek :: "buffer \<Rightarrow> nat" where
  "peek b = readerIndex b"

definition beginWrite :: "buffer \<Rightarrow> nat" where
  "beginWrite b = writerIndex b"

text \<open>The constructor with the assertions of its body.\<close>

definition Buffer_ctor :: "nat \<Rightarrow> buffer outcome" where
  "Buffer_ctor initialSize =
     (if size_add kCheapPrepend initialSize > max_size then Inl LengthError
      else let b = new_Buffer initialSize in
        asserting (readableBytes b = 0)
        (asserting (writableBytes b = initialSize)
        (asserting (prependableBytes b = kCheapPrepend) (Inr b))))"

text \<open>The characters between two offsets, as a pair of pointers denotes them.\<close>

definition span_of :: "buffer \<Rightarrow> nat \<Rightarrow> nat \<Rightarrow> string" where
  "span_of b i j = take (j - i) (drop i (buf_data b))"

definition findCRLF_from :: "nat \<Rightarrow> buffer \<Rightarrow> nat option" where
  "findCRLF_from start b =
     (let crlf = start + std_search CRLF (span_of b start (beginWrite b))
      in if crlf = beginWrite b then None else Some crlf)"

definition findCRLF :: "buffer \<Rightarrow> nat option" where
  "findCRLF b = findCRLF_from (peek b) b"

definition findCRLF_at :: "nat \<Rightarrow> buffer \<Rightarrow> nat option outcome" where
  "findCRLF_at start b =
     asserting (peek b \<le> start) (asserting (start \<le> beginWrite b) (Inr (findCRLF_from start b)))"

text \<open>\<open>memchr\<close> returns null when the byte does not occur.\<close>

definition memchr_from :: "nat \<Rightarrow> char \<Rightarrow> nat \<Rightarrow> buffer \<Rightarrow> nat option" where
  "memchr_from start c len b =
     (let s = take len (drop start (buf_data b)); i = std_find c s
      in if i = length s then None else Some (start + i))"

definition findEOL :: "buffer \<Rightarrow> nat option" where
  "findEOL b = memchr_from (peek b) LF (readableBytes b) b"

definition findEOL_at :: "nat \<Rightarrow> buffer \<Rightarrow> nat option outcome" where
  "findEOL_at start b =
     asserting (peek b \<le> start) (asserting (start \<le> beginWrite b)
       (Inr (memchr_from start LF (beginWrite b - start) b)))"

definition retrieveAll :: "buffer \<Rightarrow> buffer" where
  "retrieveAll b = b\<lparr>readerIndex := kCheapPrepend, writerIndex := kCheapPrepend\<rparr>"

definition retrieve :: "nat \<Rightarrow> buffer \<Rightarrow> buffer outcome" where
  "retrieve len b =
     asserting (len \<le> readableBytes b)
       (Inr (if len < readableBytes b
             then b\<lparr>readerIndex := size_add (readerIndex b) len\<rparr>
             else retrieveAll b))"

definition retrieveUntil :: "nat \<Rightarrow> buffer \<Rightarrow> buffer outcome" where
  "retrieveUntil end' b =
     asserting (peek b \<le> end') (asserting (end' \<le> beginWrite b)
       (retrieve (end' - peek b) b))"

definition retrieveInt64 :: "buffer \<Rightarrow> buffer outcome" where
  "retrieveInt64 b = retrieve 8 b"

definition retrieveInt32 :: "buffer \<Rightarrow> buffer outcome" where
  "retrieveInt32 b = retrieve 4 b"

definition retrieveInt16 :: "buffer \<Rightarrow> buffer outcome" where
  "retrieveInt16 b = retrieve 2 b"

definition retrieveInt8 :: "buffer \<Rightarrow> buffer outcome" where
  "retrieveInt8 b = retrieve 1 b"

definition swap_Buffer :: "buffer \<Rightarrow> buffer \<Rightarrow> buffer \<times> buffer" where
  "swap_Buffer b rhs =
     (b\<lparr>buf_data := buf_data rhs, readerIndex := readerIndex rhs, writerIndex := writerIndex rhs\<rparr>,
      rhs\<lparr>buf_data := buf_data b, readerIndex := readerIndex b, writerIndex := writerIndex b\<rparr>)"

text \<open>Constructing a string from \<open>len\<close> bytes at \<open>peek()\<close> needs them to be inside the vector.\<close>

definition read_bytes :: "nat \<Rightarrow> nat \<Rightarrow> buffer \<Rightarrow> string outcome" where
  "read_bytes start len b =
     defined_if (start + len \<le> length (buf_data b)) (Inr (take len (drop start (buf_data b))))"

definition retrieveAsString :: "nat \<Rightarrow> buffer \<Rightarrow> (string \<times> buffer) outcome" where
  "retrieveAsString len b =
     asserting (len \<le> readableBytes b)
       (bind_out (read_bytes (peek b) len b) (\<lambda>result.
        bind_out (retrieve len b) (\<lambda>b'. Inr (result, b'))))"

definition retrieveAllAsString :: "buffer \<Rightarrow> (string \<times> buffer) outcome" where
  "retrieveAllAsString b = retrieveAsString (readableBytes b) b"

text \<open>\<open>std::vector::resize\<close> cuts the vector or fills it up with zero bytes.\<close>

definition resize :: "nat \<Rightarrow> string \<Rightarrow> string outcome" where
  "resize n xs = (if n > max_size then Inl LengthError
                  else Inr (take n xs @ replicate (n - length xs) NUL))"

definition makeSpace :: "nat \<Rightarrow> buffer \<Rightarrow> buffer outcome" where
  "makeSpace len b =
     (if size_add (writableBytes b) (prependableBytes b) < size_add len kCheapPrepend
      then bind_out (resize (size_add (writerIndex b) len) (buf_data b))
             (\<lambda>d. Inr (b\<lparr>buf_data := d\<rparr>))
      else asserting (kCheapPrepend < readerIndex b)
        (let readable = readableBytes b in
         bind_out (copy_into (buf_data b) kCheapPrepend (span_of b (readerIndex b) (writerIndex b)))
           (\<lambda>d. let b' = b\<lparr>buf_data := d, readerIndex := kCheapPrepend,
                           writerIndex := size_add kCheapPrepend readable\<rparr>
                in asserting (readable = readableBytes b') (Inr b'))))"

definition ensureWritableBytes :: "nat \<Rightarrow> buffer \<Rightarrow> buffer outcome" where
  "ensureWritableBytes len b =
     bind_out (if writableBytes b < len then makeSpace len b else Inr b)
       (\<lambda>b'. asserting (writableBytes b' \<ge> len) (Inr b'))"

definition hasWritten :: "nat \<Rightarrow> buffer \<Rightarrow> buffer outcome" where
  "hasWritten len b =
     asserting (len \<le> writableBytes b) (Inr (b\<lparr>writerIndex := size_add (writerIndex b) len\<rparr>))"

definition unwrite :: "nat \<Rightarrow> buffer \<Rightarrow> buffer outcome" where
  "unwrite len b =
     asserting (len \<le> readableBytes b) (Inr (b\<lparr>writerIndex := size_sub (writerIndex b) len\<rparr>))"

definition append_data :: "string \<Rightarrow> buffer \<Rightarrow> buffer outcome" where
  "append_data data b =
     bind_out (ensureWritableBytes (length data) b) (\<lambda>b1.
     bind_out (copy_into (buf_data b1) (beginWrite b1) data) (\<lambda>d.
     hasWritten (length data) (b1\<lparr>buf_data := d\<rparr>)))"

definition prepend_data :: "string \<Rightarrow> buffer \<Rightarrow> buffer outcome" where
  "prepend_data data b =
     asserting (length data \<le> prependableBytes b)
       (let r = size_sub (readerIndex b) (length data) in
        bind_out (copy_into (buf_data b) r data) (\<lambda>d.
        Inr (b\<lparr>buf_data := d, readerIndex := r\<rparr>)))"

definition shrink :: "nat \<Rightarrow> buffer \<Rightarrow> buffer outcome" where
  "shrink reserve b =
     bind_out (Buffer_ctor kInitialSize) (\<lambda>other.
     bind_out (ensureWritableBytes (size_add (readableBytes b) reserve) other) (\<lambda>other.
     Inr (fst (swap_Buffer b other))))"

definition getbuffer :: "buffer \<Rightarrow> string" where
  "getbuffer b = foldl (\<lambda>ret it. ret @ [it]) [] (buf_data b)"

section \<open>Integers in network byte order\<close>

text \<open>
  The bytes of an object in memory on the little-endian target, and the object read back from
  them. \<open>htobe64\<close> and its relatives reverse the bytes. An \<open>int64_t\<close> is its bit pattern.
\<close>

definition le_bytes :: "nat \<Rightarrow> nat \<Rightarrow> string" where
  "le_bytes n v = map (\<lambda>i. char_of (v div 256 ^ i)) [0..<n]"

fun of_le_bytes :: "string \<Rightarrow> nat" where
  "of_le_bytes [] = 0"
| "of_le_bytes (c # cs) = of_char c + 256 * of_le_bytes cs"

definition bswap :: "nat \<Rightarrow> 'a::len word \<Rightarrow> 'a word" where
  "bswap n x = word_of_nat (of_le_bytes (rev (le_bytes n (unat x))))"

definition hostToNetwork64 :: "64 word \<Rightarrow> 64 word" where
  "hostToNetwork64 host64 = bswap 8 host64"

definition hostToNetwork32 :: "32 word \<Rightarrow> 32 word" where
  "hostToNetwork32 host32 = bswap 4 host32"

definition hostToNetwork16 :: "16 word \<Rightarrow> 16 word" where
  "hostToNetwork16 host16 = bswap 2 host16"

definition networkToHost64 :: "64 word \<Rightarrow> 64 word" where
  "networkToHost64 net64 = bswap 8 net64"

definition networkToHost32 :: "32 word \<Rightarrow> 32 word" where
  "networkToHost32 net32 = bswap 4 net32"

definition networkToHost16 :: "16 word \<Rightarrow> 16 word" where
  "networkToHost16 net16 = bswap 2 net16"

definition appendInt64 :: "64 word \<Rightarrow> buffer \<Rightarrow> buffer outcome" where
  "appendInt64 x b = append_data (le_bytes 8 (unat (hostToNetwork64 x))) b"

definition appendInt32 :: "32 word \<Rightarrow> buffer \<Rightarrow> buffer outcome" where
  "appendInt32 x b = append_data (le_bytes 4 (unat (hostToNetwork32 x))) b"

definition appendInt16 :: "16 word \<Rightarrow> buffer \<Rightarrow> buffer outcome" where
  "appendInt16 x b = append_data (le_bytes 2 (unat (hostToNetwork16 x))) b"

definition appendInt8 :: "8 word \<Rightarrow> buffer \<Rightarrow> buffer outcome" where
  "appendInt8 x b = append_data (le_bytes 1 (unat x)) b"

definition peekInt64 :: "buffer \<Rightarrow> 64 word outcome" where
  "peekInt64 b = asserting (readableBytes b \<ge> 8)
     (bind_out (read_bytes (peek b) 8 b) (\<lambda>m. Inr (networkToHost64 (word_of_nat (of_le_bytes m)))))"

definition peekInt32 :: "buffer \<Rightarrow> 32 word outcome" where
  "peekInt32 b = asserting (readableBytes b \<ge> 4)
     (bind_out (read_bytes (peek b) 4 b) (\<lambda>m. Inr (networkToHost32 (word_of_nat (of_le_bytes m)))))"

definition peekInt16 :: "buffer \<Rightarrow> 16 word outcome" where
  "peekInt16 b = asserting (readableBytes b \<ge> 2)
     (bind_out (read_bytes (peek b) 2 b) (\<lambda>m. Inr (networkToHost16 (word_of_nat (of_le_bytes m)))))"

definition peekInt8 :: "buffer \<Rightarrow> 8 word outcome" where
  "peekInt8 b = asserting (readableBytes b \<ge> 1)
     (bind_out (read_bytes (peek b) 1 b) (\<lambda>m. Inr (word_of_nat (of_le_bytes m))))"

definition readInt64 :: "buffer \<Rightarrow> (64 word \<times> buffer) outcome" where
  "readInt64 b = bind_out (peekInt64 b) (\<lambda>result. bind_out (retrieveInt64 b) (\<lambda>b'. Inr (result, b')))"

definition readInt32 :: "buffer \<Rightarrow> (32 word \<times> buffer) outcome" where
  "readInt32 b = bind_out (peekInt32 b) (\<lambda>result. bind_out (retrieveInt32 b) (\<lambda>b'. Inr (result, b')))"

definition readInt16 :: "buffer \<Rightarrow> (16 word \<times> buffer) outcome" where
  "readInt16 b = bind_out (peekInt16 b) (\<lambda>result. bind_out (retrieveInt16 b) (\<lambda>b'. Inr (result, b')))"

definition readInt8 :: "buffer \<Rightarrow> (8 word \<times> buffer) outcome" where
  "readInt8 b = bind_out (peekInt8 b) (\<lambda>result. bind_out (retrieveInt8 b) (\<lambda>b'. Inr (result, b')))"

definition prependInt64 :: "64 word \<Rightarrow> buffer \<Rightarrow> buffer outcome" where
  "prependInt64 x b = prepend_data (le_bytes 8 (unat (hostToNetwork64 x))) b"

definition prependInt32 :: "32 word \<Rightarrow> buffer \<Rightarrow> buffer outcome" where
  "prependInt32 x b = prepend_data (le_bytes 4 (unat (hostToNetwork32 x))) b"

definition prependInt16 :: "16 word \<Rightarrow> buffer \<Rightarrow> buffer outcome" where
  "prependInt16 x b = prepend_data (le_bytes 2 (unat (hostToNetwork16 x))) b"

definition prependInt8 :: "8 word \<Rightarrow> buffer \<Rightarrow> buffer outcome" where
  "prependInt8 x b = prepend_data (le_bytes 1 (unat x)) b"

section \<open>Reading from a descriptor\<close>

text \<open>
  The result of \<open>readv\<close>: an error number, or the bytes the kernel stored. It fills the free part
  of the vector first and the 65536 bytes on the stack after it.
\<close>

datatype read_result = ReadError int | ReadBytes string

definition kExtraBuf :: nat where
  "kExtraBuf = 65536"

definition readv_capacity :: "buffer \<Rightarrow> nat" where
  "readv_capacity b =
     (if writableBytes b < kExtraBuf then writableBytes b + kExtraBuf else writableBytes b)"

definition readFd :: "read_result \<Rightarrow> buffer \<Rightarrow> (int \<times> int option \<times> buffer) outcome" where
  "readFd res b =
     (case res of
        ReadError e \<Rightarrow> Inr (-1, Some e, b)
      | ReadBytes bs \<Rightarrow>
          let writable = writableBytes b in
          bind_out (copy_into (buf_data b) (writerIndex b) (take writable bs)) (\<lambda>d.
          if length bs \<le> writable
          then Inr (int (length bs), None,
                    b\<lparr>buf_data := d, writerIndex := size_add (writerIndex b) (length bs)\<rparr>)
          else bind_out (append_data (drop writable bs)
                           (b\<lparr>buf_data := d, writerIndex := length (buf_data b)\<rparr>))
                 (\<lambda>b'. Inr (int (length bs), None, b'))))"

section \<open>Abstraction and invariant\<close>

definition bytes_of :: "buffer \<Rightarrow> string" where
  "bytes_of b = span_of b (readerIndex b) (writerIndex b)"

definition buffer_inv :: "buffer \<Rightarrow> bool" where
  "buffer_inv b \<longleftrightarrow> readerIndex b \<le> writerIndex b \<and> writerIndex b \<le> length (buf_data b)
     \<and> kCheapPrepend \<le> length (buf_data b) \<and> length (buf_data b) \<le> max_size"

text \<open>An object in memory is no larger than \<open>max_size\<close>; the vector can still take it.\<close>

definition room_for :: "nat \<Rightarrow> buffer \<Rightarrow> bool" where
  "room_for n b \<longleftrightarrow> writerIndex b + n \<le> max_size"

text \<open>A sequence of appends, as the code that formats a message issues them.\<close>

fun put_all :: "(string \<Rightarrow> 'b \<Rightarrow> 'b outcome) \<Rightarrow> string list \<Rightarrow> 'b \<Rightarrow> 'b outcome" where
  "put_all put [] b = Inr b"
| "put_all put (d # ds) b = bind_out (put d b) (put_all put ds)"

text \<open>The operations of the class that change it, as events of a run.\<close>

datatype buffer_op =
    OpAppend string | OpPrepend string | OpRetrieve nat | OpRetrieveAll | OpUnwrite nat
  | OpEnsure nat | OpReadFd read_result

fun buffer_step :: "buffer \<Rightarrow> buffer_op \<Rightarrow> buffer outcome" where
  "buffer_step b (OpAppend d) = append_data d b"
| "buffer_step b (OpPrepend d) = prepend_data d b"
| "buffer_step b (OpRetrieve n) = retrieve n b"
| "buffer_step b OpRetrieveAll = Inr (retrieveAll b)"
| "buffer_step b (OpUnwrite n) = unwrite n b"
| "buffer_step b (OpEnsure n) = ensureWritableBytes n b"
| "buffer_step b (OpReadFd r) = bind_out (readFd r b) (\<lambda>(_, _, b'). Inr b')"

text \<open>What a caller has to respect: the assertions on its arguments, and memory that exists.\<close>

fun buffer_env :: "buffer \<Rightarrow> buffer_op \<Rightarrow> bool" where
  "buffer_env b (OpAppend d) = room_for (length d) b"
| "buffer_env b (OpPrepend d) = (length d \<le> prependableBytes b)"
| "buffer_env b (OpRetrieve n) = (n \<le> readableBytes b)"
| "buffer_env b OpRetrieveAll = True"
| "buffer_env b (OpUnwrite n) = (n \<le> readableBytes b)"
| "buffer_env b (OpEnsure n) = room_for n b"
| "buffer_env b (OpReadFd (ReadError e)) = True"
| "buffer_env b (OpReadFd (ReadBytes bs)) =
     (length bs \<le> readv_capacity b \<and> room_for (writableBytes b + kExtraBuf) b)"

text \<open>The effect of the same operations on the abstract string.\<close>

fun queue_step :: "string \<Rightarrow> buffer_op \<Rightarrow> string" where
  "queue_step s (OpAppend d) = s @ d"
| "queue_step s (OpPrepend d) = d @ s"
| "queue_step s (OpRetrieve n) = drop n s"
| "queue_step s OpRetrieveAll = []"
| "queue_step s (OpUnwrite n) = take (length s - n) s"
| "queue_step s (OpEnsure n) = s"
| "queue_step s (OpReadFd (ReadError e)) = s"
| "queue_step s (OpReadFd (ReadBytes bs)) = s @ bs"

section \<open>What the operations do to the readable bytes\<close>

lemmas buffer_sizes = readableBytes_def writableBytes_def prependableBytes_def peek_def beginWrite_def

lemma buffer_invD:
  assumes "buffer_inv b"
  shows "readerIndex b \<le> writerIndex b" "writerIndex b \<le> length (buf_data b)"
    "kCheapPrepend \<le> length (buf_data b)"
    "length (buf_data b) \<le> max_size" "readerIndex b \<le> max_size" "writerIndex b \<le> max_size"
  using assms by (auto simp: buffer_inv_def)

lemma readableBytes_inv: "buffer_inv b \<Longrightarrow> readableBytes b = writerIndex b - readerIndex b"
  by (simp add: readableBytes_def size_sub_le buffer_invD)

lemma writableBytes_inv: "buffer_inv b \<Longrightarrow> writableBytes b = length (buf_data b) - writerIndex b"
  by (simp add: writableBytes_def size_sub_le buffer_invD)

lemma length_bytes_of: "buffer_inv b \<Longrightarrow> length (bytes_of b) = readableBytes b"
  by (auto simp: readableBytes_inv bytes_of_def span_of_def buffer_inv_def)

lemma readableBytes_length: "buffer_inv b \<Longrightarrow> readableBytes b = length (bytes_of b)"
  by (simp add: length_bytes_of)

lemma span_of_bytes:
  "readerIndex b \<le> i \<Longrightarrow> j \<le> writerIndex b \<Longrightarrow>
   span_of b i j = take (j - i) (drop (i - readerIndex b) (bytes_of b))"
  by (simp add: span_of_def bytes_of_def drop_take min_def)

lemma buffer_inv_new: "size_add kCheapPrepend n \<le> max_size \<Longrightarrow> kCheapPrepend \<le> size_add kCheapPrepend n
   \<Longrightarrow> buffer_inv (new_Buffer n) \<and> bytes_of (new_Buffer n) = []"
  by (simp add: buffer_inv_def new_Buffer_def bytes_of_def span_of_def)

lemma Buffer_ctor_ok:
  assumes "kCheapPrepend + n \<le> max_size"
  shows "Buffer_ctor n = Inr (new_Buffer n)" "buffer_inv (new_Buffer n)" "bytes_of (new_Buffer n) = []"
proof -
  have add: "size_add kCheapPrepend n = kCheapPrepend + n"
    using assms by (intro size_add_le) simp_all
  then show inv: "buffer_inv (new_Buffer n)" and "bytes_of (new_Buffer n) = []"
    using buffer_inv_new [of n] assms by simp_all
  then show "Buffer_ctor n = Inr (new_Buffer n)"
    using assms
    by (simp add: Buffer_ctor_def add Let_def readableBytes_inv writableBytes_inv prependableBytes_def)
       (simp add: new_Buffer_def add)
qed

lemma bytes_of_retrieveAll: "bytes_of (retrieveAll b) = []"
  by (simp add: bytes_of_def retrieveAll_def span_of_def)

lemma buffer_inv_retrieveAll:
  "buffer_inv b \<Longrightarrow> buffer_inv (retrieveAll b)"
  by (simp add: buffer_inv_def retrieveAll_def)

lemma retrieve_spec:
  assumes "buffer_inv b" and "n \<le> length (bytes_of b)"
  shows "\<exists>b'. retrieve n b = Inr b' \<and> buffer_inv b' \<and> bytes_of b' = drop n (bytes_of b)"
proof (cases "n < readableBytes b")
  case True
  with assms have "readerIndex b + n < writerIndex b"
    by (simp add: readableBytes_inv)
  moreover from this have "size_add (readerIndex b) n = readerIndex b + n"
    using buffer_invD [OF assms(1)] by (intro size_add_le) simp_all
  ultimately show ?thesis
    using assms True
    by (simp add: retrieve_def length_bytes_of buffer_inv_def bytes_of_def span_of_def
        drop_take add.commute [of n])
next
  case False
  then show ?thesis
    using assms
    by (simp add: retrieve_def length_bytes_of buffer_inv_retrieveAll bytes_of_retrieveAll)
qed

lemma retrieve_fails:
  "buffer_inv b \<Longrightarrow> length (bytes_of b) < n \<Longrightarrow> retrieve n b = Inl AssertionFailed"
  by (simp add: retrieve_def readableBytes_length)

lemma read_bytes_prefix:
  assumes "buffer_inv b" and "n \<le> length (bytes_of b)"
  shows "read_bytes (peek b) n b = Inr (take n (bytes_of b))"
proof -
  have "readerIndex b + n \<le> writerIndex b"
    using assms buffer_invD [OF assms(1)] by (simp add: length_bytes_of readableBytes_inv)
  then show ?thesis
    using buffer_invD [OF assms(1)]
    by (simp add: read_bytes_def peek_def bytes_of_def span_of_def min_def)
qed

lemma retrieveAsString_spec:
  assumes "buffer_inv b" and "n \<le> length (bytes_of b)"
  shows "\<exists>b'. retrieveAsString n b = Inr (take n (bytes_of b), b') \<and> buffer_inv b'
    \<and> bytes_of b' = drop n (bytes_of b)"
  using retrieve_spec [OF assms] assms
  by (auto simp: retrieveAsString_def readableBytes_length read_bytes_prefix)

lemma retrieveAllAsString_spec:
  assumes "buffer_inv b"
  shows "\<exists>b'. retrieveAllAsString b = Inr (bytes_of b, b') \<and> buffer_inv b' \<and> bytes_of b' = []"
  using retrieveAsString_spec [OF assms, of "length (bytes_of b)"] assms
  by (simp add: retrieveAllAsString_def readableBytes_length)

lemma retrieveUntil_spec:
  assumes "buffer_inv b" and "n \<le> length (bytes_of b)"
  shows "\<exists>b'. retrieveUntil (peek b + n) b = Inr b' \<and> buffer_inv b'
    \<and> bytes_of b' = drop n (bytes_of b)"
proof -
  have "peek b + n \<le> beginWrite b"
    using assms buffer_invD [OF assms(1)]
    by (simp add: buffer_sizes(4,5) length_bytes_of readableBytes_inv)
  then show ?thesis
    using retrieve_spec [OF assms] by (simp add: retrieveUntil_def)
qed

lemma bytes_of_resize:
  "writerIndex b \<le> length (buf_data b) \<Longrightarrow> length (buf_data b) \<le> n \<Longrightarrow>
   bytes_of (b\<lparr>buf_data := take n (buf_data b) @ replicate m NUL\<rparr>) = bytes_of b"
  by (simp add: bytes_of_def span_of_def)

lemma makeSpace_cases:
  assumes inv: "buffer_inv b" and need: "writableBytes b < len" and len: "len \<le> max_size"
  shows "makeSpace len b = Inl LengthError \<and> \<not> room_for len b \<or>
    (\<exists>b'. makeSpace len b = Inr b' \<and> buffer_inv b' \<and> bytes_of b' = bytes_of b
      \<and> len \<le> writableBytes b' \<and> writerIndex b' \<le> writerIndex b)"
proof -
  note bounds = buffer_invD [OF inv]
  have sizes: "size_add (writerIndex b) len = writerIndex b + len"
    "size_add len kCheapPrepend = len + kCheapPrepend"
    "size_add (writableBytes b) (prependableBytes b) = writableBytes b + prependableBytes b"
    using bounds len unfolding writableBytes_inv [OF inv] prependableBytes_def
    by (intro size_add_le; linarith)+
  show ?thesis
  proof (cases "writableBytes b + prependableBytes b < len + kCheapPrepend")
    case True
    show ?thesis
    proof (cases "writerIndex b + len \<le> max_size")
      case room: True
    let ?d = "take (writerIndex b + len) (buf_data b) @ replicate (writerIndex b + len - length (buf_data b)) NUL"
    have grow: "length (buf_data b) < writerIndex b + len"
      using need bounds by (simp add: writableBytes_inv [OF inv])
    then have inv': "buffer_inv (b\<lparr>buf_data := ?d\<rparr>)"
      using inv room by (simp add: buffer_inv_def)
    then have "len \<le> writableBytes (b\<lparr>buf_data := ?d\<rparr>)"
      using grow unfolding writableBytes_inv [OF inv'] by simp
    then show ?thesis
      using True room inv' bytes_of_resize [of b "writerIndex b + len"] bounds grow
      by (simp add: makeSpace_def sizes resize_def)
    next
      case False
      then show ?thesis
        using True by (simp add: makeSpace_def sizes resize_def room_for_def)
    qed
  next
    case False
    then have front: "kCheapPrepend < readerIndex b"
      using need by (simp add: prependableBytes_def)
    let ?n = "readableBytes b"
    let ?d = "overwrite (buf_data b) kCheapPrepend (bytes_of b)"
    let ?b = "b\<lparr>buf_data := ?d, readerIndex := kCheapPrepend, writerIndex := kCheapPrepend + ?n\<rparr>"
    have n: "length (bytes_of b) = ?n" "?n = writerIndex b - readerIndex b"
      by (simp_all add: length_bytes_of readableBytes_inv inv)
    have fits: "kCheapPrepend + ?n \<le> length (buf_data b)" "kCheapPrepend + ?n \<le> writerIndex b"
      using n(2) front bounds by linarith+
    have wr: "size_add kCheapPrepend ?n = kCheapPrepend + ?n"
      using fits bounds by (intro size_add_le) linarith+
    have inv': "buffer_inv ?b"
      using fits bounds n(1) by (simp add: buffer_inv_def)
    have same: "bytes_of ?b = bytes_of b"
    proof -
      have "take (kCheapPrepend + ?n) ?d = take kCheapPrepend (buf_data b) @ bytes_of b"
        using take_overwrite_all [of kCheapPrepend "buf_data b" "bytes_of b"] n(1) bounds(3) by simp
      then have "drop kCheapPrepend (take (kCheapPrepend + ?n) ?d) = bytes_of b"
        using bounds(3) by simp
      then show ?thesis by (simp add: bytes_of_def [of ?b] span_of_def drop_take)
    qed
    have "readableBytes ?b = ?n"
      using readableBytes_inv [OF inv'] by simp
    moreover have "len \<le> writableBytes ?b"
      using False bounds n(2) front fits
      unfolding writableBytes_inv [OF inv'] writableBytes_inv [OF inv] prependableBytes_def
      by (simp add: n(1))
    ultimately show ?thesis
      using False front fits inv' same
      by (simp add: makeSpace_def sizes Let_def wr copy_into_def n(1) flip: bytes_of_def)
  qed
qed

lemma ensureWritableBytes_cases:
  assumes "buffer_inv b" and "len \<le> max_size"
  shows "ensureWritableBytes len b = Inl LengthError \<and> \<not> room_for len b \<or>
    (\<exists>b'. ensureWritableBytes len b = Inr b' \<and> buffer_inv b' \<and> bytes_of b' = bytes_of b
      \<and> len \<le> writableBytes b' \<and> writerIndex b' \<le> writerIndex b)"
  using makeSpace_cases [OF assms(1) _ assms(2)] assms(1)
  by (cases "writableBytes b < len") (auto simp: ensureWritableBytes_def)

text \<open>Storing \<open>d\<close> at the writer index of a buffer with room extends the readable bytes.\<close>

lemma store_spec:
  assumes inv: "buffer_inv b" and fits: "length d \<le> writableBytes b"
  defines "b' \<equiv> b\<lparr>buf_data := overwrite (buf_data b) (writerIndex b) d,
                  writerIndex := writerIndex b + length d\<rparr>"
  shows "copy_into (buf_data b) (writerIndex b) d = Inr (overwrite (buf_data b) (writerIndex b) d)"
    and "size_add (writerIndex b) (length d) = writerIndex b + length d"
    and "buffer_inv b'" and "bytes_of b' = bytes_of b @ d"
proof -
  note bounds = buffer_invD [OF inv]
  have len: "writerIndex b + length d \<le> length (buf_data b)"
    using fits bounds by (simp add: writableBytes_inv [OF inv])
  then show "copy_into (buf_data b) (writerIndex b) d = Inr (overwrite (buf_data b) (writerIndex b) d)"
    by (simp add: copy_into_def)
  show "size_add (writerIndex b) (length d) = writerIndex b + length d"
    using len bounds by (intro size_add_le) linarith+
  show "buffer_inv b'"
    using len bounds by (simp add: b'_def buffer_inv_def)
  have "take (writerIndex b + length d) (overwrite (buf_data b) (writerIndex b) d)
      = take (writerIndex b) (buf_data b) @ d"
    using take_overwrite_all bounds by blast
  then have "drop (readerIndex b)
      (take (writerIndex b + length d) (overwrite (buf_data b) (writerIndex b) d))
      = drop (readerIndex b) (take (writerIndex b) (buf_data b)) @ d"
    using bounds by simp
  then show "bytes_of b' = bytes_of b @ d"
    using bounds by (simp add: b'_def bytes_of_def span_of_def drop_take)
qed

text \<open>The only way an append can fail is a vector that would exceed \<open>max_size()\<close>.\<close>

lemma append_cases:
  assumes inv: "buffer_inv b" and len: "length d \<le> max_size"
  shows "append_data d b = Inl LengthError \<and> \<not> room_for (length d) b \<or>
    (\<exists>b'. append_data d b = Inr b' \<and> buffer_inv b' \<and> bytes_of b' = bytes_of b @ d
      \<and> writerIndex b' \<le> writerIndex b + length d)"
  using ensureWritableBytes_cases [OF assms]
proof (elim disjE exE conjE)
  fix b1
  assume b1: "ensureWritableBytes (length d) b = Inr b1" "buffer_inv b1"
      "bytes_of b1 = bytes_of b" "length d \<le> writableBytes b1" "writerIndex b1 \<le> writerIndex b"
  have "length (overwrite (buf_data b1) (writerIndex b1) d) = length (buf_data b1)"
    using b1(2,4) buffer_invD(1,2) [OF b1(2)] by (simp add: writableBytes_inv [OF b1(2)])
  then have "length d \<le> writableBytes (b1\<lparr>buf_data := overwrite (buf_data b1) (writerIndex b1) d\<rparr>)"
    using b1(4) by (simp add: writableBytes_def)
  then show ?thesis
    using b1 store_spec [OF b1(2,4)]
    by (simp add: append_data_def beginWrite_def hasWritten_def)
qed (simp add: append_data_def)

lemma append_spec:
  assumes "buffer_inv b" and "room_for (length d) b"
  shows "\<exists>b'. append_data d b = Inr b' \<and> buffer_inv b' \<and> bytes_of b' = bytes_of b @ d
    \<and> writerIndex b' \<le> writerIndex b + length d"
proof -
  have "length d \<le> max_size" using assms(2) by (simp add: room_for_def)
  then show ?thesis using append_cases [OF assms(1)] assms(2) by blast
qed

lemma prepend_spec:
  assumes inv: "buffer_inv b" and fits: "length d \<le> prependableBytes b"
  shows "\<exists>b'. prepend_data d b = Inr b' \<and> buffer_inv b' \<and> bytes_of b' = d @ bytes_of b
    \<and> writerIndex b' = writerIndex b"
proof -
  note bounds = buffer_invD [OF inv]
  let ?r = "readerIndex b - length d"
  let ?b = "b\<lparr>buf_data := overwrite (buf_data b) ?r d, readerIndex := ?r\<rparr>"
  have r: "size_sub (readerIndex b) (length d) = ?r" "?r + length d = readerIndex b"
    using fits bounds by (simp_all add: prependableBytes_def size_sub_le)
  have len: "?r + length d \<le> length (buf_data b)" using r bounds by linarith
  have "buffer_inv ?b" using len bounds by (simp add: buffer_inv_def)
  moreover have "bytes_of ?b = d @ bytes_of b"
  proof -
    have "drop ?r (overwrite (buf_data b) ?r d) = d @ drop (readerIndex b) (buf_data b)"
      using len r(2) by (simp add: overwrite_def)
    then show ?thesis
      using r(2) bounds by (simp add: bytes_of_def span_of_def)
  qed
  ultimately show ?thesis
    using fits r len by (simp add: prepend_data_def Let_def copy_into_def)
qed

lemma shrink_spec:
  assumes "readableBytes b + reserve \<le> max_size - kCheapPrepend"
  shows "\<exists>b'. shrink reserve b = Inr b' \<and> buffer_inv b' \<and> bytes_of b' = []"
proof -
  have ctor: "kCheapPrepend + kInitialSize \<le> max_size"
    by (simp add: kCheapPrepend_def kInitialSize_def max_size_def)
  note new = Buffer_ctor_ok [OF ctor]
  have len: "size_add (readableBytes b) reserve = readableBytes b + reserve"
    using assms by (intro size_add_le) (simp_all add: max_size_def)
  have "writerIndex (new_Buffer kInitialSize) = kCheapPrepend"
    by (simp add: new_Buffer_def)
  then have "room_for (readableBytes b + reserve) (new_Buffer kInitialSize)"
    using assms by (simp add: room_for_def kCheapPrepend_def max_size_def)
  moreover have "readableBytes b + reserve \<le> max_size" using assms by linarith
  ultimately obtain o' where "ensureWritableBytes (readableBytes b + reserve) (new_Buffer kInitialSize) = Inr o'"
      "buffer_inv o'" "bytes_of o' = []"
    using ensureWritableBytes_cases [OF new(2)] new(3) by auto
  then show ?thesis
    by (simp add: shrink_def new(1) len swap_Buffer_def buffer_inv_def bytes_of_def span_of_def)
qed

lemma readFd_spec:
  assumes inv: "buffer_inv b" and cap: "length bs \<le> readv_capacity b"
    and room: "room_for (writableBytes b + kExtraBuf) b"
  shows "\<exists>b'. readFd (ReadBytes bs) b = Inr (int (length bs), None, b') \<and> buffer_inv b'
    \<and> bytes_of b' = bytes_of b @ bs"
proof (cases "length bs \<le> writableBytes b")
  case True
  then show ?thesis
    using store_spec [OF inv True] by (simp add: readFd_def Let_def)
next
  case False
  note bounds = buffer_invD [OF inv]
  let ?bs = "take (writableBytes b) bs"
  let ?b = "b\<lparr>buf_data := overwrite (buf_data b) (writerIndex b) ?bs,
              writerIndex := writerIndex b + length ?bs\<rparr>"
  have fits: "length ?bs \<le> writableBytes b" by simp
  note st = store_spec [OF inv fits]
  have full: "writerIndex b + length ?bs = length (buf_data b)"
    using False bounds by (simp add: writableBytes_inv [OF inv])
  have "length (drop (writableBytes b) bs) \<le> kExtraBuf"
    using cap False by (simp add: readv_capacity_def split: if_splits)
  then have "room_for (length (drop (writableBytes b) bs)) ?b"
    using room False bounds by (simp add: room_for_def)
  then show ?thesis
    using append_spec [OF st(3)] st False full by (fastforce simp: readFd_def Let_def)
qed

lemma unwrite_spec:
  assumes "buffer_inv b" and "n \<le> readableBytes b"
  shows "\<exists>b'. unwrite n b = Inr b' \<and> buffer_inv b'
    \<and> bytes_of b' = take (length (bytes_of b) - n) (bytes_of b)"
proof -
  note bounds = buffer_invD [OF assms(1)]
  have n: "n \<le> writerIndex b - readerIndex b" using assms by (simp add: readableBytes_inv)
  then have "size_sub (writerIndex b) n = writerIndex b - n"
    using bounds by (intro size_sub_le) linarith+
  moreover have "take (writerIndex b - readerIndex b - n) (bytes_of b)
      = bytes_of (b\<lparr>writerIndex := writerIndex b - n\<rparr>)"
    by (simp add: bytes_of_def span_of_def min_absorb1 add.commute)
  moreover have "buffer_inv (b\<lparr>writerIndex := writerIndex b - n\<rparr>)"
    using n bounds unfolding buffer_inv_def by simp linarith
  ultimately show ?thesis
    using assms by (simp add: unwrite_def length_bytes_of readableBytes_inv)
qed

section \<open>The interface\<close>

locale byte_queue =
  fixes inv :: "'b \<Rightarrow> bool"
    and bytes :: "'b \<Rightarrow> string"
    and room :: "nat \<Rightarrow> 'b \<Rightarrow> bool"
    and put :: "string \<Rightarrow> 'b \<Rightarrow> 'b outcome"
    and get :: "nat \<Rightarrow> 'b \<Rightarrow> 'b outcome"
  assumes put_ok: "inv b \<Longrightarrow> room (length d + n) b \<Longrightarrow>
      \<exists>b'. put d b = Inr b' \<and> inv b' \<and> bytes b' = bytes b @ d \<and> room n b'"
    and get_ok: "inv b \<Longrightarrow> n \<le> length (bytes b) \<Longrightarrow>
      \<exists>b'. get n b = Inr b' \<and> inv b' \<and> bytes b' = drop n (bytes b)"
    and get_too_many: "inv b \<Longrightarrow> length (bytes b) < n \<Longrightarrow> get n b = Inl AssertionFailed"
begin

lemma put_all_ok:
  "inv b \<Longrightarrow> room (length (concat ds) + n) b \<Longrightarrow>
   \<exists>b'. put_all put ds b = Inr b' \<and> inv b' \<and> bytes b' = bytes b @ concat ds \<and> room n b'"
proof (induction ds arbitrary: b)
  case (Cons d ds)
  from Cons.prems have "room (length d + (length (concat ds) + n)) b" by (simp add: add.assoc)
  with Cons.prems(1) obtain b1 where b1: "put d b = Inr b1" "inv b1" "bytes b1 = bytes b @ d"
      "room (length (concat ds) + n) b1"
    using put_ok by blast
  then show ?case using Cons.IH [OF b1(2,4)] by auto
qed simp

lemma fifo:
  assumes "inv b" and "room (length d) b"
  shows "\<exists>b1 b2. put d b = Inr b1 \<and> get (length (bytes b)) b1 = Inr b2 \<and> inv b2 \<and> bytes b2 = d"
proof -
  obtain b1 where b1: "put d b = Inr b1" "inv b1" "bytes b1 = bytes b @ d"
    using put_ok [OF assms(1), of d 0] assms(2) by auto
  then show ?thesis using get_ok [OF b1(2), of "length (bytes b)"] by auto
qed

end

lemma room_for_after_append:
  "writerIndex b' \<le> writerIndex b + m \<Longrightarrow> room_for (m + n) b \<Longrightarrow> room_for n b'"
  by (simp add: room_for_def)

interpretation buf: byte_queue buffer_inv bytes_of room_for append_data retrieve
proof unfold_locales
  fix b :: buffer and d :: string and n :: nat
  assume b: "buffer_inv b" and room: "room_for (length d + n) b"
  then have "room_for (length d) b" by (simp add: room_for_def)
  from append_spec [OF b this] room
  show "\<exists>b'. append_data d b = Inr b' \<and> buffer_inv b' \<and> bytes_of b' = bytes_of b @ d \<and> room_for n b'"
    using room_for_after_append by blast
qed (simp_all add: retrieve_spec retrieve_fails)

lemma buffer_step_refines:
  assumes "buffer_inv b" and "buffer_env b e"
  shows "\<exists>b'. buffer_step b e = Inr b' \<and> buffer_inv b' \<and> bytes_of b' = queue_step (bytes_of b) e"
proof (cases e)
  case (OpAppend d)
  then show ?thesis using assms append_spec by fastforce
next
  case (OpPrepend d)
  then show ?thesis using assms prepend_spec by fastforce
next
  case (OpRetrieve n)
  then show ?thesis using assms retrieve_spec [of b n] by (simp add: readableBytes_length)
next
  case OpRetrieveAll
  then show ?thesis using assms by (simp add: buffer_inv_retrieveAll bytes_of_retrieveAll)
next
  case (OpUnwrite n)
  then show ?thesis using assms unwrite_spec by simp
next
  case (OpEnsure n)
  then show ?thesis using assms ensureWritableBytes_cases [of b n] by (auto simp: room_for_def)
next
  case (OpReadFd r)
  then show ?thesis
  proof (cases r)
    case (ReadError x)
    then show ?thesis using OpReadFd assms by (simp add: readFd_def)
  next
    case (ReadBytes bs)
    then show ?thesis using OpReadFd assms readFd_spec [of b bs] by fastforce
  qed
qed

interpretation bufsys: refined_system buffer_step buffer_env buffer_inv bytes_of queue_step
  using buffer_step_refines by unfold_locales fastforce+

section \<open>Byte order\<close>

lemma length_le_bytes [simp]: "length (le_bytes n v) = n"
  by (simp add: le_bytes_def)

lemma le_bytes_Suc: "le_bytes (Suc n) v = char_of v # le_bytes n (v div 256)"
proof -
  have "[0..<Suc n] = 0 # map Suc [0..<n]" by (simp add: upt_conv_Cons map_Suc_upt)
  then show ?thesis by (simp add: le_bytes_def div_mult2_eq)
qed

lemma of_le_bytes_bound: "of_le_bytes cs < 256 ^ length cs"
proof (induction cs)
  case (Cons c cs)
  have "of_char c + 256 * of_le_bytes cs < 256 * Suc (of_le_bytes cs)" by simp
  also have "\<dots> \<le> 256 * 256 ^ length cs" using Cons by (intro mult_le_mono2) simp
  finally show ?case by simp
qed simp

lemma of_le_bytes_le_bytes: "of_le_bytes (le_bytes n v) = v mod 256 ^ n"
proof (induction n arbitrary: v)
  case 0
  then show ?case by (simp add: le_bytes_def)
next
  case (Suc n)
  then show ?case by (simp add: le_bytes_Suc mod_mult2_eq)
qed

lemma le_bytes_of_le_bytes: "length cs = n \<Longrightarrow> le_bytes n (of_le_bytes cs) = cs"
proof (induction cs arbitrary: n)
  case (Cons c cs)
  have "(of_char c + 256 * of_le_bytes cs) div 256 = of_le_bytes cs"
    and "(of_char c + 256 * of_le_bytes cs) mod 256 = (of_char c :: nat)"
    by simp_all
  then have "char_of (of_char c + 256 * of_le_bytes cs) = c"
    by (metis char_of_mod_256 char_of_char)
  then show ?case using Cons by (auto simp: le_bytes_Suc)
qed (simp add: le_bytes_def)

text \<open>Swapping the bytes of a word of \<open>n\<close> bytes reverses them in memory.\<close>

lemma le_bytes_bswap:
  fixes x :: "'a::len word"
  assumes "LENGTH('a) = 8 * n"
  shows "le_bytes n (unat (bswap n x)) = rev (le_bytes n (unat x))"
proof -
  have "of_le_bytes (rev (le_bytes n (unat x))) < 256 ^ n"
    using of_le_bytes_bound [of "rev (le_bytes n (unat x))"] by simp
  also have "(256 :: nat) ^ n = 2 ^ LENGTH('a)" by (simp add: assms power_mult)
  finally have "unat (bswap n x) = of_le_bytes (rev (le_bytes n (unat x)))"
    by (simp add: bswap_def unat_of_nat take_bit_nat_eq_self_iff)
  then show ?thesis by (simp add: le_bytes_of_le_bytes)
qed

lemma word_of_le_bytes:
  fixes x :: "'a::len word"
  assumes "LENGTH('a) = 8 * n"
  shows "word_of_nat (of_le_bytes (le_bytes n (unat x))) = x"
proof -
  have "unat x < 2 ^ LENGTH('a)" by (rule unsigned_less)
  also have "(2 :: nat) ^ LENGTH('a) = 256 ^ n" by (simp add: assms power_mult)
  finally show ?thesis by (simp add: of_le_bytes_le_bytes)
qed

lemma bswap_bswap:
  fixes x :: "'a::len word"
  assumes "LENGTH('a) = 8 * n"
  shows "bswap n (bswap n x) = x"
  by (simp add: bswap_def [of n "bswap n x"] le_bytes_bswap [OF assms] word_of_le_bytes [OF assms])

section \<open>Searching\<close>

text \<open>A line: text in which the pair CR LF does not occur, nor begins at its end.\<close>

definition is_line :: "string \<Rightarrow> bool" where
  "is_line s \<longleftrightarrow> CR \<notin> set s"

lemma std_search_CRLF: "CR \<notin> set l \<Longrightarrow> std_search CRLF (l @ CRLF @ r) = length l"
  by (induction l) (auto simp: neq_Nil_conv)

lemma std_search_CRLF_none: "CR \<notin> set l \<Longrightarrow> std_search CRLF l = length l"
  by (induction l) auto

lemma findCRLF_bytes:
  assumes "buffer_inv b"
  shows "findCRLF b = (if std_search CRLF (bytes_of b) = length (bytes_of b) then None
    else Some (peek b + std_search CRLF (bytes_of b)))"
proof -
  have "beginWrite b = peek b + length (bytes_of b)"
    using buffer_invD [OF assms] by (simp add: length_bytes_of assms readableBytes_inv beginWrite_def peek_def)
  then show ?thesis
    by (simp add: findCRLF_def findCRLF_from_def Let_def bytes_of_def peek_def beginWrite_def)
qed

lemma findCRLF_line:
  assumes "buffer_inv b" and "bytes_of b = l @ CRLF @ r" and "is_line l"
  shows "findCRLF b = Some (peek b + length l)"
  using assms by (simp add: findCRLF_bytes std_search_CRLF [simplified] is_line_def)

lemma findCRLF_none:
  "buffer_inv b \<Longrightarrow> is_line (bytes_of b) \<Longrightarrow> findCRLF b = None"
  by (simp add: findCRLF_bytes std_search_CRLF_none is_line_def)

section \<open>Properties\<close>

lemmas buffer_eval = append_data_def ensureWritableBytes_def makeSpace_def resize_def hasWritten_def
  prepend_data_def retrieve_def retrieveAll_def unwrite_def new_Buffer_def buffer_sizes size_sub_def
  size_add_def kCheapPrepend_def max_size_def copy_into_def overwrite_def bytes_of_def span_of_def
  buffer_inv_def room_for_def readFd_def readv_capacity_def kExtraBuf_def Let_def

text \<open>
  C6. The buffer implements a byte queue. For every sequence of appends, prepends, retrievals,
  unwrites, reservations and socket reads whose arguments respect the documented
  preconditions, no assertion of the class fails, no access leaves the vector, the index
  invariant holds at the end, and the readable bytes are those of the same operations on an
  abstract string.
\<close>

theorem buffer_run_refines:
  assumes "buffer_inv b" and "env_obeys buffer_step buffer_env b es"
  shows "\<exists>b'. run_events buffer_step b es = Inr b' \<and> buffer_inv b'
    \<and> bytes_of b' = foldl queue_step (bytes_of b) es"
  using assms by (rule bufsys.run_refines)

theorem buffer_run_refines_witness:
  "\<exists>b'. run_events buffer_step (new_Buffer 4)
      [OpAppend ''GET'', OpRetrieve 1, OpAppend ''XYZ'', OpPrepend ''a'', OpUnwrite 1] = Inr b'
    \<and> buffer_inv b' \<and> bytes_of b' = ''aETXY''"
proof -
  have inv: "buffer_inv (new_Buffer 4)" by (simp add: buffer_eval)
  have env: "env_obeys buffer_step buffer_env (new_Buffer 4)
      [OpAppend ''GET'', OpRetrieve 1, OpAppend ''XYZ'', OpPrepend ''a'', OpUnwrite 1]"
    by (simp add: buffer_eval)
  show ?thesis
    using buffer_run_refines [OF inv env] by (simp add: bytes_of_def span_of_def new_Buffer_def)
qed

text \<open>
  Appending any object that fits into memory either extends the readable bytes by exactly
  that object and keeps the invariant, or throws \<open>std::length_error\<close> because the vector would
  pass \<open>max_size()\<close>; the assertions inside \<open>makeSpace\<close> and \<open>hasWritten\<close> never fail.
\<close>

lemma append_total:
  assumes "buffer_inv b" and "length d \<le> max_size"
  shows "append_data d b = Inl LengthError \<and> writerIndex b + length d > max_size \<or>
    (\<exists>b'. append_data d b = Inr b' \<and> buffer_inv b' \<and> bytes_of b' = bytes_of b @ d)"
  using append_cases [OF assms] by (auto simp: room_for_def)

text \<open>
  C26. A 64-bit integer written with \<open>appendInt64\<close> behind other data is stored in network byte
  order, most significant byte first, and \<open>readInt64\<close> returns it once the data in front of it
  has been retrieved.
\<close>

theorem int64_roundtrip:
  assumes "buffer_inv b" and "room_for 8 b"
  shows "\<exists>b1 b2 b3. appendInt64 x b = Inr b1
    \<and> bytes_of b1 = bytes_of b @ rev (le_bytes 8 (unat x))
    \<and> retrieve (length (bytes_of b)) b1 = Inr b2
    \<and> readInt64 b2 = Inr (x, b3) \<and> buffer_inv b3 \<and> bytes_of b3 = []"
proof -
  let ?d = "le_bytes 8 (unat (hostToNetwork64 x))"
  have be: "?d = rev (le_bytes 8 (unat x))"
    unfolding hostToNetwork64_def by (rule le_bytes_bswap) simp
  have room: "room_for (length ?d) b" using assms(2) by simp
  obtain b1 b2 where b1: "append_data ?d b = Inr b1" and b2: "retrieve (length (bytes_of b)) b1 = Inr b2"
      and q: "buffer_inv b2" "bytes_of b2 = ?d"
    using buf.fifo [OF assms(1) room] by blast
  have len: "8 \<le> length (bytes_of b2)" by (simp add: q)
  obtain b3 where b3: "retrieve 8 b2 = Inr b3" "buffer_inv b3" "bytes_of b3 = []"
    using retrieve_spec [OF q(1) len] by (auto simp: q(2))
  have "word_of_nat (of_le_bytes ?d) = hostToNetwork64 x" by (rule word_of_le_bytes) simp
  moreover have "networkToHost64 (hostToNetwork64 x) = x"
    unfolding networkToHost64_def hostToNetwork64_def by (rule bswap_bswap) simp
  ultimately have "peekInt64 b2 = Inr x"
    using len q by (simp add: peekInt64_def readableBytes_length read_bytes_prefix [OF q(1) len])
  moreover have "bytes_of b1 = bytes_of b @ ?d"
    using append_spec [OF assms(1) room] b1 by auto
  ultimately show ?thesis
    using b1 b2 b3 be by (simp add: appendInt64_def readInt64_def retrieveInt64_def)
qed

theorem int64_roundtrip_witness:
  "\<exists>b1. appendInt64 (- 2) (new_Buffer 16) = Inr b1
    \<and> bytes_of b1 = [CHR 0xFF, CHR 0xFF, CHR 0xFF, CHR 0xFF, CHR 0xFF, CHR 0xFF, CHR 0xFF, CHR 0xFE]"
proof -
  have inv: "buffer_inv (new_Buffer 16)" and room: "room_for 8 (new_Buffer 16)"
    by (simp_all add: buffer_eval)
  have "bytes_of (new_Buffer 16) = []" by (simp add: buffer_eval)
  moreover have "rev (le_bytes 8 (unat (- 2 :: 64 word)))
      = [CHR 0xFF, CHR 0xFF, CHR 0xFF, CHR 0xFF, CHR 0xFF, CHR 0xFF, CHR 0xFF, CHR 0xFE]"
    by (simp add: le_bytes_def upt_rec char_of_def bit_numeral_rec bit_Suc_0_iff)
  ultimately show ?thesis using int64_roundtrip [OF inv room, of "- 2"] by auto
qed

text \<open>
  A message framed with a 32-bit length header: \<open>prependInt32\<close> writes into the space in
  front of the readable bytes without moving them, \<open>readInt32\<close> returns the header and leaves
  exactly the original bytes.
\<close>

lemma prepend_header_roundtrip:
  assumes "buffer_inv b" and "prependableBytes b \<ge> 4"
  shows "\<exists>b1 b2. prependInt32 x b = Inr b1 \<and> writerIndex b1 = writerIndex b
    \<and> readInt32 b1 = Inr (x, b2) \<and> buffer_inv b2 \<and> bytes_of b2 = bytes_of b"
proof -
  let ?d = "le_bytes 4 (unat (hostToNetwork32 x))"
  have fits: "length ?d \<le> prependableBytes b" using assms(2) by simp
  obtain b1 where b1: "prepend_data ?d b = Inr b1" "buffer_inv b1" "bytes_of b1 = ?d @ bytes_of b"
      "writerIndex b1 = writerIndex b"
    using prepend_spec [OF assms(1) fits] by blast
  have len: "4 \<le> length (bytes_of b1)" by (simp add: b1(3))
  obtain b2 where b2: "retrieve 4 b1 = Inr b2" "buffer_inv b2" "bytes_of b2 = bytes_of b"
    using retrieve_spec [OF b1(2) len] by (auto simp: b1(3))
  have "word_of_nat (of_le_bytes ?d) = hostToNetwork32 x" by (rule word_of_le_bytes) simp
  moreover have "networkToHost32 (hostToNetwork32 x) = x"
    unfolding networkToHost32_def hostToNetwork32_def by (rule bswap_bswap) simp
  ultimately have "peekInt32 b1 = Inr x"
    using len b1 by (simp add: peekInt32_def readableBytes_length read_bytes_prefix [OF b1(2) len])
  then show ?thesis
    using b1 b2 by (simp add: prependInt32_def readInt32_def retrieveInt32_def)
qed

text \<open>
  C22. One \<open>readFd\<close> call adds to the readable bytes all bytes the kernel delivered, in order and
  without loss, whether they fitted into the vector or spilled into the buffer on the stack;
  an error leaves the buffer unchanged and reports its number.
\<close>

theorem readFd_refines:
  assumes "buffer_inv b"
    and "\<And>bs. res = ReadBytes bs \<Longrightarrow>
      length bs \<le> readv_capacity b \<and> room_for (writableBytes b + kExtraBuf) b"
  shows "case res of
      ReadError e \<Rightarrow> readFd res b = Inr (- 1, Some e, b)
    | ReadBytes bs \<Rightarrow> \<exists>b'. readFd res b = Inr (int (length bs), None, b') \<and> buffer_inv b'
        \<and> bytes_of b' = bytes_of b @ bs"
  using assms readFd_spec [of b] by (cases res) (simp_all add: readFd_def)

theorem readFd_refines_witness:
  "\<exists>b'. readFd (ReadBytes ''hello'') (new_Buffer 2) = Inr (5, None, b') \<and> bytes_of b' = ''hello''"
proof -
  have inv: "buffer_inv (new_Buffer 2)" and empty: "bytes_of (new_Buffer 2) = []"
    by (simp_all add: buffer_eval)
  have cap: "length bs \<le> readv_capacity (new_Buffer 2)
      \<and> room_for (writableBytes (new_Buffer 2) + kExtraBuf) (new_Buffer 2)"
    if "ReadBytes ''hello'' = ReadBytes bs" for bs
    using that by (auto simp: buffer_eval)
  show ?thesis using readFd_refines [OF inv, of "ReadBytes ''hello''"] cap empty by auto
qed

text \<open>
  \<open>shrink\<close> loses the contents: the call that copied the readable bytes into the new buffer
  is commented out, so whatever was readable, nothing is afterwards.
\<close>

lemma shrink_discards_contents:
  assumes "buffer_inv b" and "length (bytes_of b) + reserve \<le> max_size - kCheapPrepend"
  shows "\<exists>b'. shrink reserve b = Inr b' \<and> buffer_inv b' \<and> bytes_of b' = []"
  using shrink_spec [of b reserve] assms by (simp add: readableBytes_length)

end
