(* ===== verification/SocketOps.thy ===== *)
theory SocketOps
  imports ByteBuffer
begin

text \<open>
  \<open>src/net/SocketsOps.h\<close>, \<open>src/net/SocketsOps.cpp\<close>, \<open>src/net/Socket.h\<close>, \<open>src/net/Socket.cpp\<close> and
  \<open>src/net/InetAddress.h\<close>: the wrappers around the socket calls and the conversion of addresses to
  and from text. An address is the memory of a \<open>sockaddr_in\<close> or \<open>sockaddr_in6\<close>, so that the casts
  between the two are the identity. The results of system calls are arguments; a failure that is
  logged with \<open>LOG_SYSERR\<close> or \<open>LOG_SYSFATAL\<close> ends the process. \<open>inet_ntop\<close> on IPv6 addresses is an
  argument; on IPv4 addresses it and \<open>inet_pton\<close> are defined.
\<close>

section \<open>Addresses in memory\<close>

definition AF_INET :: nat where "AF_INET = 2"
definition AF_INET6 :: nat where "AF_INET6 = 10"
definition INET_ADDRSTRLEN :: nat where "INET_ADDRSTRLEN = 16"
definition INET6_ADDRSTRLEN :: nat where "INET6_ADDRSTRLEN = 46"

definition sizeof_sockaddr_in :: nat where "sizeof_sockaddr_in = 16"
definition sizeof_sockaddr_in6 :: nat where "sizeof_sockaddr_in6 = 28"

definition sa_family :: "string \<Rightarrow> nat" where
  "sa_family m = of_le_bytes (take 2 m)"

definition sin_port :: "string \<Rightarrow> 16 word" where
  "sin_port m = word_of_nat (of_le_bytes (take 2 (drop 2 m)))"

definition sin_addr :: "string \<Rightarrow> string" where
  "sin_addr m = take 4 (drop 4 m)"

definition sin6_addr :: "string \<Rightarrow> string" where
  "sin6_addr m = take 16 (drop 8 m)"

text \<open>The casts of the code.\<close>

definition sockaddr_cast :: "string \<Rightarrow> string" where "sockaddr_cast addr = addr"
definition sockaddr_in_cast :: "string \<Rightarrow> string" where "sockaddr_in_cast addr = addr"
definition sockaddr_in6_cast :: "string \<Rightarrow> string" where "sockaddr_in6_cast addr = addr"

section \<open>The C library's conversions\<close>

definition inet_ntop4 :: "string \<Rightarrow> string" where
  "inet_ntop4 bs = concat (map (\<lambda>i. (if i = 0 then [] else ''.'') @ show_nat (of_char (bs ! i))) [0..<4])"

definition inet_ntop_into :: "string \<Rightarrow> string \<Rightarrow> string" where
  "inet_ntop_into buf s = (if length s < length buf then overwrite buf 0 (s @ [NUL]) else buf)"

text \<open>
  \<open>inet_pton\<close>: exactly four decimal numbers up to 255 without leading zeros, separated by points;
  the octets finished so far and the one being read.
\<close>

fun pton4 :: "string \<Rightarrow> nat list \<Rightarrow> nat option \<Rightarrow> nat list option" where
  "pton4 [] acc cur = (case cur of None \<Rightarrow> None | Some v \<Rightarrow> if length acc = 3 then Some (acc @ [v]) else None)"
| "pton4 (c # cs) acc cur =
     (if is_digit c
      then (case cur of
              None \<Rightarrow> pton4 cs acc (Some (digit_val c))
            | Some v \<Rightarrow> if v = 0 \<or> 10 * v + digit_val c > 255 then None else pton4 cs acc (Some (10 * v + digit_val c)))
      else if c = CHR ''.''
      then (case cur of
              None \<Rightarrow> None
            | Some v \<Rightarrow> if length acc = 3 then None else pton4 cs (acc @ [v]) None)
      else None)"

definition inet_pton4 :: "string \<Rightarrow> string option" where
  "inet_pton4 s = map_option (map char_of) (pton4 (c_str s) [] None)"

section \<open>SocketsOps\<close>

definition createNonblockingOrDie :: "int \<Rightarrow> int outcome" where
  "createNonblockingOrDie sockfd = (if sockfd < 0 then Inl Aborted else Inr sockfd)"

definition bindOrDie :: "int \<Rightarrow> unit outcome" where
  "bindOrDie ret = (if ret < 0 then Inl Aborted else Inr ())"

definition listenOrDie :: "int \<Rightarrow> unit outcome" where
  "listenOrDie ret = (if ret < 0 then Inl Aborted else Inr ())"

text \<open>
  \<open>accept\<close>: the kernel is given the address of the parameter \<open>addr\<close> instead of its value, so the
  caller's address keeps its zeros; that the kernel writes over the frame of the function is not
  modelled. Every failure is logged with \<open>LOG_SYSERR\<close>, before the error numbers are told apart.
\<close>

definition sockets_accept :: "int \<Rightarrow> string \<Rightarrow> (int \<times> string) outcome" where
  "sockets_accept connfd addr = (if connfd < 0 then Inl Aborted else Inr (connfd, addr))"

text \<open>
  The wrappers without checks hand their arguments to the system call, which is an argument here;
  \<open>connect\<close> gives it the length of an IPv6 address whatever the address is.
\<close>

definition sockets_connect :: "(int \<Rightarrow> string \<Rightarrow> nat \<Rightarrow> 'r) \<Rightarrow> int \<Rightarrow> string \<Rightarrow> 'r" where
  "sockets_connect sys_connect sockfd addr = sys_connect sockfd addr sizeof_sockaddr_in6"

definition sockets_read :: "(int \<Rightarrow> nat \<Rightarrow> 'r) \<Rightarrow> int \<Rightarrow> nat \<Rightarrow> 'r" where
  "sockets_read sys_read sockfd count = sys_read sockfd count"

definition sockets_readv :: "(int \<Rightarrow> nat list \<Rightarrow> 'r) \<Rightarrow> int \<Rightarrow> nat list \<Rightarrow> 'r" where
  "sockets_readv sys_readv sockfd iov = sys_readv sockfd iov"

definition sockets_close :: "int \<Rightarrow> unit outcome" where
  "sockets_close ret = (if ret < 0 then Inl Aborted else Inr ())"

definition toIp :: "(string \<Rightarrow> string) \<Rightarrow> string \<Rightarrow> string \<Rightarrow> string outcome" where
  "toIp ntop6 buf addr =
     (if sa_family addr = AF_INET
      then asserting (length buf \<ge> INET_ADDRSTRLEN)
             (Inr (inet_ntop_into buf (inet_ntop4 (sin_addr (sockaddr_in_cast addr)))))
      else if sa_family addr = AF_INET6
      then asserting (length buf \<ge> INET6_ADDRSTRLEN)
             (Inr (inet_ntop_into buf (ntop6 (sin6_addr (sockaddr_in6_cast addr)))))
      else Inr buf)"

text \<open>\<open>strlen\<close> of an array without a terminator leaves the array.\<close>

definition print_port :: "string \<Rightarrow> string \<Rightarrow> 16 word \<Rightarrow> string outcome" where
  "print_port buf sep port =
     (let end = length (c_str buf)
      in defined_if (NUL \<in> set buf)
           (asserting (length buf > end) (Inr (take end buf @ snprintf_into (drop end buf) (sep @ show_nat (unat port))))))"

definition toIpPort :: "(string \<Rightarrow> string) \<Rightarrow> string \<Rightarrow> string \<Rightarrow> string outcome" where
  "toIpPort ntop6 buf addr =
     (if sa_family addr = AF_INET6
      then defined_if (buf \<noteq> [])
             (bind_out (toIp ntop6 (drop 1 (buf[0 := CHR ''[''])) addr) (\<lambda>rest.
                print_port (CHR ''['' # rest) '']:'' (networkToHost16 (sin_port (sockaddr_in6_cast addr)))))
      else bind_out (toIp ntop6 buf addr) (\<lambda>buf.
             print_port buf '':'' (networkToHost16 (sin_port (sockaddr_in_cast addr)))))"

definition fromIpPort :: "string \<Rightarrow> 16 word \<Rightarrow> string \<Rightarrow> string outcome" where
  "fromIpPort ip port addr =
     bind_out (copy_into addr 0 (le_bytes 2 AF_INET)) (\<lambda>addr.
     bind_out (copy_into addr 2 (le_bytes 2 (unat (hostToNetwork16 port)))) (\<lambda>addr.
     case inet_pton4 ip of None \<Rightarrow> Inl Aborted | Some bs \<Rightarrow> copy_into addr 4 bs))"

text \<open>\<open>getsockopt\<close>: its result, \<open>errno\<close> and the option's value.\<close>

definition getSocketError :: "int \<Rightarrow> int \<Rightarrow> int \<Rightarrow> int" where
  "getSocketError ret errno optval = (if ret < 0 then errno else optval)"

text \<open>\<open>getsockname\<close> and \<open>getpeername\<close>: the bytes stored in the zeroed address, or a failure.\<close>

definition getLocalAddr :: "string option \<Rightarrow> string outcome" where
  "getLocalAddr res =
     (case res of None \<Rightarrow> Inl Aborted
      | Some m \<Rightarrow> Inr (overwrite (replicate sizeof_sockaddr_in6 NUL) 0 (take sizeof_sockaddr_in6 m)))"

definition getPeerAddr :: "string option \<Rightarrow> string outcome" where
  "getPeerAddr res =
     (case res of None \<Rightarrow> Inl Aborted
      | Some m \<Rightarrow> Inr (overwrite (replicate sizeof_sockaddr_in6 NUL) 0 (take sizeof_sockaddr_in6 m)))"

definition isSelfConnect :: "string option \<Rightarrow> string option \<Rightarrow> bool outcome" where
  "isSelfConnect sockname peername =
     bind_out (getLocalAddr sockname) (\<lambda>localaddr.
     bind_out (getPeerAddr peername) (\<lambda>peeraddr.
       Inr (if sa_family localaddr = AF_INET
            then sin_port localaddr = sin_port peeraddr \<and> sin_addr localaddr = sin_addr peeraddr
            else if sa_family localaddr = AF_INET6
            then sin_port localaddr = sin_port peeraddr \<and> sin6_addr localaddr = sin6_addr peeraddr
            else False)))"

section \<open>Socket and InetAddress\<close>

record sock_options =
  so_nodelay :: bool
  so_reuseaddr :: bool
  so_reuseport :: bool
  so_keepalive :: bool

text \<open>The address of a peer, as the memory of one \<open>sockaddr_in\<close>.\<close>

record inet_address = addr_ :: string

text \<open>The default constructor leaves the memory as it was.\<close>

definition InetAddress_default :: "string \<Rightarrow> inet_address" where
  "InetAddress_default stale = \<lparr>addr_ = stale\<rparr>"

definition InetAddress_ctor :: "string \<Rightarrow> inet_address" where
  "InetAddress_ctor addr = \<lparr>addr_ = addr\<rparr>"

definition setaddr :: "string \<Rightarrow> inet_address \<Rightarrow> inet_address" where
  "setaddr addr a = a\<lparr>addr_ := addr\<rparr>"

text \<open>Each setter with the result of \<open>setsockopt\<close>; only one of them looks at it.\<close>

definition setTcpNoDelay :: "int \<Rightarrow> bool \<Rightarrow> sock_options \<Rightarrow> sock_options" where
  "setTcpNoDelay ret on s = (if ret < 0 then s else s\<lparr>so_nodelay := on\<rparr>)"

definition setReuseAddr :: "int \<Rightarrow> bool \<Rightarrow> sock_options \<Rightarrow> sock_options" where
  "setReuseAddr ret on s = (if ret < 0 then s else s\<lparr>so_reuseaddr := on\<rparr>)"

definition setReusePort :: "int \<Rightarrow> bool \<Rightarrow> sock_options \<Rightarrow> sock_options outcome" where
  "setReusePort ret on s = (if ret < 0 \<and> on then Inl Aborted else Inr (if ret < 0 then s else s\<lparr>so_reuseport := on\<rparr>))"

definition setKeepAlive :: "int \<Rightarrow> bool \<Rightarrow> sock_options \<Rightarrow> sock_options" where
  "setKeepAlive ret on s = (if ret < 0 then s else s\<lparr>so_keepalive := on\<rparr>)"

text \<open>
  The fields of \<open>struct tcp_info\<close> that are printed. \<open>getTcpInfo\<close> clears the structure and turns the
  result of \<open>getsockopt\<close> into a truth value, so that true is failure; \<open>stored\<close> is what a successful
  call stores.
\<close>

record tcp_info =
  tcpi_retransmits :: nat
  tcpi_rto :: nat
  tcpi_ato :: nat
  tcpi_snd_mss :: nat
  tcpi_rcv_mss :: nat
  tcpi_lost :: nat
  tcpi_retrans :: nat
  tcpi_rtt :: nat
  tcpi_rttvar :: nat
  tcpi_snd_ssthresh :: nat
  tcpi_snd_cwnd :: nat
  tcpi_total_retrans :: nat

definition zero_tcp_info :: tcp_info where
  "zero_tcp_info = \<lparr>tcpi_retransmits = 0, tcpi_rto = 0, tcpi_ato = 0, tcpi_snd_mss = 0, tcpi_rcv_mss = 0, tcpi_lost = 0,
     tcpi_retrans = 0, tcpi_rtt = 0, tcpi_rttvar = 0, tcpi_snd_ssthresh = 0, tcpi_snd_cwnd = 0, tcpi_total_retrans = 0\<rparr>"

definition getTcpInfo :: "int \<Rightarrow> tcp_info \<Rightarrow> bool \<times> tcp_info" where
  "getTcpInfo ret stored = (ret \<noteq> 0, if ret = 0 then stored else zero_tcp_info)"

definition tcp_info_text :: "tcp_info \<Rightarrow> string" where
  "tcp_info_text tcpi =
     ''unrecovered='' @ show_nat (tcpi_retransmits tcpi) @ '' rto='' @ show_nat (tcpi_rto tcpi)
     @ '' ato='' @ show_nat (tcpi_ato tcpi) @ '' snd_mss='' @ show_nat (tcpi_snd_mss tcpi)
     @ '' rcv_mss='' @ show_nat (tcpi_rcv_mss tcpi) @ '' lost='' @ show_nat (tcpi_lost tcpi)
     @ '' retrans='' @ show_nat (tcpi_retrans tcpi) @ '' rtt='' @ show_nat (tcpi_rtt tcpi)
     @ '' rttvar='' @ show_nat (tcpi_rttvar tcpi) @ '' sshthresh='' @ show_nat (tcpi_snd_ssthresh tcpi)
     @ '' cwnd='' @ show_nat (tcpi_snd_cwnd tcpi) @ '' total_retrans='' @ show_nat (tcpi_total_retrans tcpi)"

definition getTcpInfoString :: "int \<Rightarrow> tcp_info \<Rightarrow> string \<Rightarrow> bool \<times> string" where
  "getTcpInfoString ret stored buf =
     (let (ok, tcpi) = getTcpInfo ret stored
      in (ok, if ok \<and> buf \<noteq> [] then snprintf_into buf (tcp_info_text tcpi) else buf))"

definition Socket_dtor :: "int \<Rightarrow> unit outcome" where
  "Socket_dtor closeResult = sockets_close closeResult"

definition bindAddress :: "int \<Rightarrow> unit outcome" where
  "bindAddress ret = bindOrDie ret"

definition listen_Socket :: "int \<Rightarrow> unit outcome" where
  "listen_Socket ret = listenOrDie ret"

definition accept_Socket :: "int \<Rightarrow> inet_address \<Rightarrow> (int \<times> inet_address) outcome" where
  "accept_Socket connfd peeraddr =
     bind_out (sockets_accept connfd (replicate sizeof_sockaddr_in NUL)) (\<lambda>(connfd, addr).
       Inr (connfd, if connfd \<ge> 0 then setaddr addr peeraddr else peeraddr))"

text \<open>
  An accepted socket comes with the zeros \<open>accept\<close> was given, whatever the peer's address is.
\<close>

lemma accept_Socket_address:
  "accept_Socket connfd peeraddr
     = (if connfd < 0 then Inl Aborted else Inr (connfd, InetAddress_ctor (replicate sizeof_sockaddr_in NUL)))"
  by (simp add: accept_Socket_def sockets_accept_def setaddr_def InetAddress_ctor_def)

text \<open>
  The text of \<open>getTcpInfoString\<close> never depends on what the kernel reported: it is left alone when
  the call succeeds, and the report of a cleared structure is printed when it fails.
\<close>

lemma tcp_info_string_useless:
  "getTcpInfoString ret stored buf =
     (if ret = 0 then (False, buf) else (True, if buf = [] then [] else snprintf_into buf (tcp_info_text zero_tcp_info)))"
  by (simp add: getTcpInfoString_def getTcpInfo_def)

section \<open>Text of IPv4 addresses\<close>

lemma pton4_number:
  assumes "v < 256"
  shows "pton4 (show_nat v @ rest) acc None = pton4 rest acc (Some v)"
proof -
  consider "v < 10" | "10 \<le> v" "v < 100" | "100 \<le> v" "v < 256" using assms by linarith
  then show ?thesis
  proof cases
    case 1
    then show ?thesis by (simp add: show_nat.simps is_digit_char digit_val_char)
  next
    case 2
    then have d: "v div 10 < 10" "v div 10 \<noteq> 0" "10 * (v div 10) + v mod 10 = v" by simp_all
    then have "show_nat v = [digit_char (v div 10), digit_char (v mod 10)]"
      using 2 by (simp add: show_nat.simps)
    then show ?thesis using d assms by (simp add: is_digit_char digit_val_char)
  next
    case 3
    let ?t = "v div 10"
    have d: "?t div 10 < 10" "?t div 10 \<noteq> 0" "10 * (?t div 10) + ?t mod 10 = ?t" "10 * ?t + v mod 10 = v" "?t \<noteq> 0" "?t < 26"
      using 3 by simp_all
    have "\<not> ?t < 10" using 3 by linarith
    then have "show_nat ?t = [digit_char (?t div 10), digit_char (?t mod 10)]"
      using d(1) by (simp add: show_nat.simps [of ?t] show_nat.simps [of "?t div 10"])
    then have "show_nat v = [digit_char (?t div 10), digit_char (?t mod 10), digit_char (v mod 10)]"
      using 3 by (simp add: show_nat.simps [of v])
    then show ?thesis using d 3 by (simp add: is_digit_char digit_val_char)
  qed
qed

lemma inet_ntop4_text:
  assumes "length bs = 4"
  shows "inet_ntop4 bs = show_nat (of_char (bs ! 0)) @ ''.'' @ show_nat (of_char (bs ! 1)) @ ''.''
    @ show_nat (of_char (bs ! 2)) @ ''.'' @ show_nat (of_char (bs ! 3))"
  by (simp add: inet_ntop4_def upt_rec numeral_2_eq_2 numeral_3_eq_3)

lemma NUL_notin_inet_ntop4: "NUL \<notin> set (inet_ntop4 bs)"
  using NUL_notin_show_nat by (auto simp: inet_ntop4_def)

lemma length_inet_ntop4:
  assumes "length bs = 4"
  shows "length (inet_ntop4 bs) \<le> 15"
proof -
  have "length (show_nat (of_char c)) \<le> 3" for c :: char
    using of_char_of [of "of_char c :: nat"] by (intro length_show_nat) (auto intro: less_trans [of _ 256])
  from this [of "bs ! 0"] this [of "bs ! 1"] this [of "bs ! 2"] this [of "bs ! 3"]
  show ?thesis by (simp add: inet_ntop4_text [OF assms])
qed

lemma inet_pton4_ntop4:
  assumes "length bs = 4"
  shows "inet_pton4 (inet_ntop4 bs) = Some bs"
proof -
  have c: "c_str (inet_ntop4 bs) = inet_ntop4 bs"
    using NUL_notin_inet_ntop4 by (auto simp: c_str_def takeWhile_eq_all_conv)
  have small: "of_char c < (256 :: nat)" for c :: char by simp
  have dot: "\<not> is_digit CHR ''.''" by (simp add: is_digit_def)
  have "pton4 (inet_ntop4 bs) [] None = Some (map of_char [bs ! 0, bs ! 1, bs ! 2, bs ! 3])"
    unfolding inet_ntop4_text [OF assms] pton4_number [OF small]
    by (simp add: dot pton4_number [OF small] pton4_number [OF small, of _ "[]", simplified])
  moreover have "[bs ! 0, bs ! 1, bs ! 2, bs ! 3] = bs"
    using assms by (auto simp: list_eq_iff_nth_eq less_Suc_eq numeral_eq_Suc)
  ultimately show ?thesis using c by (simp add: inet_pton4_def comp_def del: list.map)
qed

definition dotted :: "nat list \<Rightarrow> string" where
  "dotted vs = concat (map (\<lambda>v. show_nat v @ ''.'') vs)"

lemma digit_char_val: "is_digit c \<Longrightarrow> digit_char (digit_val c) = c \<and> digit_val c < 10"
  by (auto simp: is_digit_def digit_char_def digit_val_def)

lemma pton4_text:
  assumes "pton4 cs acc cur = Some os"
    and "\<forall>v \<in> set acc. v < 256" and "length acc \<le> 3" and "\<And>v. cur = Some v \<Longrightarrow> v < 256"
  shows "length os = 4 \<and> (\<forall>v \<in> set os. v < 256)
    \<and> dotted os = dotted acc @ (case cur of None \<Rightarrow> [] | Some v \<Rightarrow> show_nat v) @ cs @ ''.''"
  using assms
proof (induction cs acc cur rule: pton4.induct)
  case (1 acc cur)
  then show ?case by (auto simp: dotted_def split: option.splits if_splits)
next
  case (2 c cs acc cur)
  show ?case
  proof (cases "is_digit c")
    case digit: True
    then have c: "digit_char (digit_val c) = c" "digit_val c < 10" using digit_char_val by auto
    show ?thesis
    proof (cases cur)
      case None
      have "pton4 cs acc (Some (digit_val c)) = Some os" using "2.prems"(1) digit None by simp
      from "2.IH"(1) [OF digit None this "2.prems"(2,3)] c show ?thesis by (simp add: None show_nat.simps)
    next
      case (Some v)
      have v: "\<not> (v = 0 \<or> 10 * v + digit_val c > 255)" and rest: "pton4 cs acc (Some (10 * v + digit_val c)) = Some os"
        using "2.prems"(1) digit Some by (auto split: if_splits)
      have "show_nat (10 * v + digit_val c) = show_nat v @ [c]"
        using v c by (subst show_nat.simps) simp
      with "2.IH"(2) [OF digit Some v rest "2.prems"(2,3)] v show ?thesis by (simp add: Some)
    qed
  next
    case False
    then obtain v where v: "c = CHR ''.''" "cur = Some v" "length acc \<noteq> 3" "pton4 cs (acc @ [v]) None = Some os"
      using "2.prems"(1) by (auto split: if_splits option.splits)
    have "\<forall>u \<in> set (acc @ [v]). u < 256" "length (acc @ [v]) \<le> 3" using "2.prems"(2-4) v by auto
    from "2.IH"(3) [OF False v(1-4) this] show ?thesis by (simp add: v(1,2) dotted_def)
  qed
qed

lemma inet_pton4_text:
  assumes "inet_pton4 s = Some bs"
  shows "length bs = 4" "inet_ntop4 bs = c_str s"
proof -
  obtain os where os: "pton4 (c_str s) [] None = Some os" "bs = map char_of os"
    using assms by (auto simp: inet_pton4_def)
  have t: "length os = 4" "\<forall>v \<in> set os. v < 256" "dotted os = c_str s @ ''.''"
    using pton4_text [OF os(1)] by (simp_all add: dotted_def)
  then show "length bs = 4" using os(2) by simp
  moreover obtain a b c d where "os = [a, b, c, d]" using t(1) by (auto simp: length_Suc_conv numeral_eq_Suc)
  ultimately have "inet_ntop4 bs @ ''.'' = dotted os"
    using t(2) os(2) by (simp add: inet_ntop4_text dotted_def)
  then show "inet_ntop4 bs = c_str s" using t(3) by simp
qed

lemma fromIpPort_fields:
  assumes "length addr \<ge> sizeof_sockaddr_in" and "inet_pton4 ip = Some bs"
  shows "\<exists>addr'. fromIpPort ip port addr = Inr addr' \<and> sa_family addr' = AF_INET \<and> sin_addr addr' = bs
    \<and> networkToHost16 (sin_port addr') = port"
proof -
  let ?p = "le_bytes 2 (unat (hostToNetwork16 port))"
  have bs: "length bs = 4" using inet_pton4_text [OF assms(2)] by simp
  let ?a = "le_bytes 2 AF_INET @ ?p @ bs @ drop 8 addr"
  have "2 \<le> length addr - Suc (Suc 0)" "4 \<le> length addr - 4"
    using assms(1) unfolding sizeof_sockaddr_in_def by linarith+
  then have "fromIpPort ip port addr = Inr ?a"
    using assms bs by (simp add: fromIpPort_def copy_into_def overwrite_def sizeof_sockaddr_in_def)
  moreover have "sa_family ?a = AF_INET" by (simp add: sa_family_def of_le_bytes_le_bytes AF_INET_def)
  moreover have "sin_port ?a = hostToNetwork16 port"
    using word_of_le_bytes [of 2 "hostToNetwork16 port"] by (simp add: sin_port_def)
  then have "networkToHost16 (sin_port ?a) = port"
    using bswap_bswap [of 2 port] by (simp add: networkToHost16_def hostToNetwork16_def)
  moreover have "sin_addr ?a = bs" using bs by (simp add: sin_addr_def)
  ultimately show ?thesis by blast
qed

lemma toIpPort_text:
  assumes "sa_family addr = AF_INET" and "length (sin_addr addr) = 4" and "length buf \<ge> 22"
  shows "\<exists>buf'. toIpPort ntop6 buf addr = Inr buf'
    \<and> c_str buf' = inet_ntop4 (sin_addr addr) @ '':'' @ show_nat (unat (networkToHost16 (sin_port addr)))"
proof -
  let ?s = "inet_ntop4 (sin_addr addr)" and ?port = "networkToHost16 (sin_port addr)"
  let ?t = "'':'' @ show_nat (unat ?port)"
  define b where "b = inet_ntop_into buf ?s"
  have len: "length ?s \<le> 15" by (rule length_inet_ntop4) (rule assms(2))
  then have b: "b = ?s @ NUL # drop (Suc (length ?s)) buf"
    using assms(3) by (simp add: b_def inet_ntop_into_def overwrite_def)
  have no: "\<And>c. c \<in> set ?s \<Longrightarrow> c \<noteq> NUL" using NUL_notin_inet_ntop4 by blast
  then have c: "c_str b = ?s" by (simp add: b c_str_def takeWhile_append2)
  have "unat ?port < 2 ^ 16" using unsigned_less [of ?port] by simp
  then have port: "length (show_nat (unat ?port)) \<le> 5" by (intro length_show_nat) simp_all
  have room: "length ?t \<le> length (drop (length ?s) b) - 1" "drop (length ?s) b \<noteq> []" using port len assms(3) by (simp_all add: b)
  then have "c_str (snprintf_into (drop (length ?s) b) ?t) = ?t"
    using NUL_notin_show_nat by (subst c_str_snprintf) simp_all
  then have "c_str (?s @ snprintf_into (drop (length ?s) b) ?t) = ?s @ ?t"
    using no by (simp add: c_str_def takeWhile_append2)
  moreover have "toIpPort ntop6 buf addr = print_port b '':'' ?port"
    using assms by (simp add: toIpPort_def toIp_def AF_INET_def AF_INET6_def INET_ADDRSTRLEN_def sockaddr_in_cast_def b_def)
  moreover have "print_port b '':'' ?port = Inr (?s @ snprintf_into (drop (length ?s) b) ?t)"
    using c by (simp add: print_port_def Let_def) (simp add: b)
  ultimately show ?thesis by simp
qed

section \<open>Properties\<close>

text \<open>
  C32. Reading and printing IPv4 addresses are inverse. \<open>fromIpPort\<close> accepts a text exactly when it is
  a dotted address, and then \<open>toIpPort\<close> prints the same text again, with the port behind it, into
  any array of 22 characters; the port goes through network byte order on the way. Any other text
  ends the process.
\<close>

theorem ip_port_roundtrip:
  assumes "length addr \<ge> sizeof_sockaddr_in" and "length buf \<ge> 22"
  shows "if inet_pton4 ip = None then fromIpPort ip port addr = Inl Aborted
    else \<exists>addr' buf'. fromIpPort ip port addr = Inr addr' \<and> toIpPort ntop6 buf addr' = Inr buf'
      \<and> c_str buf' = c_str ip @ '':'' @ show_nat (unat port)"
proof (cases "inet_pton4 ip")
  case None
  then show ?thesis
    using assms(1) by (simp add: fromIpPort_def copy_into_def sizeof_sockaddr_in_def)
next
  case (Some bs)
  obtain addr' where a: "fromIpPort ip port addr = Inr addr'" "sa_family addr' = AF_INET" "sin_addr addr' = bs"
      "networkToHost16 (sin_port addr') = port"
    using fromIpPort_fields [OF assms(1) Some] by blast
  have "length (sin_addr addr') = 4" using a(3) inet_pton4_text(1) [OF Some] by simp
  from toIpPort_text [OF a(2) this assms(2), of ntop6] show ?thesis
    using a Some inet_pton4_text(2) [OF Some] by auto
qed

theorem ip_port_roundtrip_witness:
  "\<exists>addr' buf'. fromIpPort ''127.0.0.1'' 6000 (replicate 16 NUL) = Inr addr'
    \<and> toIpPort (\<lambda>_. []) (replicate 22 CHR ''x'') addr' = Inr buf' \<and> c_str buf' = ''127.0.0.1:6000''"
proof -
  obtain bs where "inet_pton4 ''127.0.0.1'' = Some bs"
    by (simp add: inet_pton4_def c_str_def is_digit_def digit_val_def)
  moreover have "show_nat (unat (6000 :: 16 word)) = ''6000''"
    by (simp add: show_nat.simps digit_char_def char_of_def bit_numeral_rec bit_Suc_0_iff)
  moreover have "c_str ''127.0.0.1'' = ''127.0.0.1''" by (simp add: c_str_def)
  ultimately show ?thesis
    using ip_port_roundtrip [of "replicate 16 NUL" "replicate 22 CHR ''x''" "''127.0.0.1''" 6000 "\<lambda>_. []"]
    by (simp add: sizeof_sockaddr_in_def)
qed

end
