(* ===== verification/HttpRequests.thy ===== *)
theory HttpRequests
  imports Timestamps
begin

text \<open>
  \<open>src/http/HttpRequest.h\<close>: the parsed request. A pair of character pointers is the string
  between them; the header fields are a \<open>std::map\<close>, an association list sorted by key.
\<close>

section \<open>The class\<close>

datatype Method = kInvalid | kGet | kPost | kHead | kPut | kDelete

datatype Version = kUnknown | kHttp10 | kHttp11

record http_request =
  req_method :: Method
  req_version :: Version
  req_path :: string
  req_query :: string
  req_receiveTime :: timestamp
  req_headers :: "(string \<times> string) list"

definition HttpRequest_ctor :: http_request where
  "HttpRequest_ctor = \<lparr>req_method = kInvalid, req_version = kUnknown, req_path = [], req_query = [],
     req_receiveTime = Timestamp_default, req_headers = []\<rparr>"

definition setVersion :: "Version \<Rightarrow> http_request \<Rightarrow> http_request" where
  "setVersion v r = r\<lparr>req_version := v\<rparr>"

definition method_of_name :: "string \<Rightarrow> Method" where
  "method_of_name m =
     (if m = ''GET'' then kGet
      else if m = ''POST'' then kPost
      else if m = ''HEAD'' then kHead
      else if m = ''PUT'' then kPut
      else if m = ''Delete'' then kDelete
      else kInvalid)"

definition setMethod :: "string \<Rightarrow> http_request \<Rightarrow> (bool \<times> http_request) outcome" where
  "setMethod m r =
     asserting (req_method r = kInvalid)
       (let r' = r\<lparr>req_method := method_of_name m\<rparr> in Inr (req_method r' \<noteq> kInvalid, r'))"

text \<open>\<open>methodString\<close> computes a name and has no return statement: using its value is undefined.\<close>

definition methodString :: "http_request \<Rightarrow> string outcome" where
  "methodString r =
     (let result = (case req_method r of kGet \<Rightarrow> ''Get'' | kPost \<Rightarrow> ''POST'' | kHead \<Rightarrow> ''HEAD''
        | kPut \<Rightarrow> ''PUT'' | kDelete \<Rightarrow> ''DELETE'' | kInvalid \<Rightarrow> ''UNKNOWN'')
      in Inl UndefinedBehaviour)"

definition setPath :: "string \<Rightarrow> http_request \<Rightarrow> http_request" where
  "setPath s r = r\<lparr>req_path := s\<rparr>"

definition setQuery :: "string \<Rightarrow> http_request \<Rightarrow> http_request" where
  "setQuery s r = r\<lparr>req_query := s\<rparr>"

definition setReceiveTime :: "timestamp \<Rightarrow> http_request \<Rightarrow> http_request" where
  "setReceiveTime t r = r\<lparr>req_receiveTime := t\<rparr>"

text \<open>\<open>isspace\<close> in the C locale: space, and the characters 9 to 13; false for bytes above 127.\<close>

definition isspace :: "char \<Rightarrow> bool" where
  "isspace c \<longleftrightarrow> c = CHR '' '' \<or> 9 \<le> (of_char c :: nat) \<and> of_char c \<le> (13 :: nat)"

text \<open>The two loops of \<open>addHeader\<close>: skip white space after the colon, cut it at the end.\<close>

fun skip_spaces :: "string \<Rightarrow> string" where
  "skip_spaces [] = []"
| "skip_spaces (c # s) = (if isspace c then skip_spaces s else c # s)"

function cut_spaces :: "string \<Rightarrow> string" where
  "cut_spaces value =
     (if value \<noteq> [] \<and> isspace (value ! (length value - 1))
      then cut_spaces (take (length value - 1) value) else value)"
  by pat_completeness auto
termination
  by (relation "measure length") (auto simp: length_greater_0_conv [symmetric] simp del: length_greater_0_conv)

declare cut_spaces.simps [simp del]

definition addHeader :: "string \<Rightarrow> nat \<Rightarrow> http_request \<Rightarrow> http_request" where
  "addHeader line colon r =
     (let field = take colon line;
          value = cut_spaces (skip_spaces (drop (colon + 1) line))
      in r\<lparr>req_headers := map_put field value (req_headers r)\<rparr>)"

definition getHeader :: "string \<Rightarrow> http_request \<Rightarrow> string" where
  "getHeader field r = (case map_of (req_headers r) field of None \<Rightarrow> [] | Some v \<Rightarrow> v)"

text \<open>\<open>swap\<close> as written: the path is exchanged with the other request's query.\<close>

definition swap_HttpRequest :: "http_request \<Rightarrow> http_request \<Rightarrow> http_request \<times> http_request" where
  "swap_HttpRequest r that =
     (r\<lparr>req_method := req_method that, req_version := req_version that, req_path := req_query that,
        req_receiveTime := req_receiveTime that, req_headers := req_headers that\<rparr>,
      that\<lparr>req_method := req_method r, req_version := req_version r, req_query := req_path r,
        req_receiveTime := req_receiveTime r, req_headers := req_headers r\<rparr>)"

section \<open>Header values\<close>

definition trimmed :: "string \<Rightarrow> bool" where
  "trimmed v \<longleftrightarrow> v = [] \<or> \<not> isspace (hd v) \<and> \<not> isspace (last v)"

lemma skip_spaces_dropWhile: "skip_spaces s = dropWhile isspace s"
  by (induction s) simp_all

lemma cut_spaces_dropWhile: "cut_spaces s = rev (dropWhile isspace (rev s))"
proof (induction s rule: rev_induct)
  case Nil
  then show ?case by (simp add: cut_spaces.simps)
next
  case (snoc c s)
  then show ?case by (subst cut_spaces.simps) (simp add: nth_append)
qed

lemma skip_spaces_trimmed: "trimmed v \<Longrightarrow> skip_spaces (CHR '' '' # v) = v"
  by (cases v) (auto simp: trimmed_def isspace_def)

lemma cut_spaces_trimmed: "trimmed v \<Longrightarrow> cut_spaces v = v"
  by (subst cut_spaces.simps) (auto simp: trimmed_def last_conv_nth)

lemma trimmed_result: "trimmed (cut_spaces (skip_spaces s))"
proof -
  let ?t = "dropWhile isspace s"
  let ?v = "rev (dropWhile isspace (rev ?t))"
  have last: "\<not> isspace (last ?v)" if "?v \<noteq> []"
    using that hd_dropWhile [of isspace "rev ?t"] by (simp add: last_rev)
  have hd: "\<not> isspace (hd ?v)" if v: "?v \<noteq> []"
  proof -
    have w: "?t = ?v @ rev (takeWhile isspace (rev ?t))"
      by (metis rev_append rev_rev_ident takeWhile_dropWhile_id)
    then have "?t \<noteq> []" and "hd ?v = hd ?t" using v by (metis append_is_Nil_conv hd_append2)+
    then show ?thesis using hd_dropWhile by metis
  qed
  show ?thesis
    using last hd by (auto simp: trimmed_def cut_spaces_dropWhile skip_spaces_dropWhile)
qed

lemma addHeader_line:
  assumes "CHR '':'' \<notin> set k" and "trimmed v"
  shows "std_find CHR '':'' (k @ '': '' @ v) = length k"
    and "addHeader (k @ '': '' @ v) (length k) r
      = r\<lparr>req_headers := map_put k v (req_headers r)\<rparr>"
  using assms std_find_append [of "CHR '':''" k "CHR '' '' # v"]
  by (simp_all add: addHeader_def skip_spaces_trimmed cut_spaces_trimmed
      del: skip_spaces.simps)

end
