(* ===== verification/HttpContexts.thy ===== *)
theory HttpContexts
  imports HttpRequests ByteBuffer
begin

text \<open>
  The request parser of \<open>src/http/HttpContext.h\<close> and \<open>src/http/HttpContext.cpp\<close>. The loop of
  \<open>parseRequest\<close> may run forever (a state it has no branch for leaves it unchanged), so it is a
  partial function: \<open>None\<close> is not returning. Logging is left out.

  \<open>parse_string\<close> is the parser as a function on text; \<open>parse_loop_refines\<close> shows that the code,
  working on the buffer through \<open>findCRLF\<close> and \<open>retrieveUntil\<close>, computes the same.
\<close>

section \<open>The parser\<close>

datatype HttpRequestParseState = kExpectRequestLine | kExpectHeaders | kExpectBody | kGotAll

record http_context =
  ctx_state :: HttpRequestParseState
  ctx_request :: http_request

definition HttpContext_ctor :: http_context where
  "HttpContext_ctor = \<lparr>ctx_state = kExpectRequestLine, ctx_request = HttpRequest_ctor\<rparr>"

definition gotAll :: "http_context \<Rightarrow> bool" where
  "gotAll c \<longleftrightarrow> ctx_state c = kGotAll"

definition reset_context :: "http_context \<Rightarrow> http_context" where
  "reset_context c =
     c\<lparr>ctx_state := kExpectRequestLine,
       ctx_request := fst (swap_HttpRequest (ctx_request c) HttpRequest_ctor)\<rparr>"

definition processRequestLine :: "string \<Rightarrow> http_request \<Rightarrow> (bool \<times> http_request) outcome" where
  "processRequestLine line r =
     (let space = std_find CHR '' '' line in
      if space = length line then Inr (False, r)
      else bind_out (setMethod (take space line) r) (\<lambda>(isMethod, r).
        if \<not> isMethod then Inr (False, r)
        else let rest = drop (space + 1) line;
                 space2 = std_find CHR '' '' rest
          in if space2 = length rest then Inr (False, r)
          else let url = take space2 rest;
                   question = std_find CHR ''?'' url;
                   r = (if question \<noteq> length url
                        then setQuery (drop question url) (setPath (take question url) r)
                        else setPath url r);
                   start = drop (space2 + 1) rest
            in if length start = 8 \<and> take 7 start = ''HTTP/1.''
               then if start ! 7 = CHR ''1'' then Inr (True, setVersion kHttp11 r)
                    else if start ! 7 = CHR ''0'' then Inr (True, setVersion kHttp10 r)
                    else Inr (False, r)
               else Inr (False, r)))"

text \<open>One round of the loop over the local variables \<open>ok\<close>, \<open>hasMore\<close>, the context and the buffer.\<close>

type_synonym parse_vars = "bool \<times> bool \<times> http_context \<times> buffer"

definition parse_step :: "timestamp \<Rightarrow> parse_vars \<Rightarrow> parse_vars outcome" where
  "parse_step receiveTime vars =
     (case vars of (ok, hasMore, ctx, buf) \<Rightarrow>
      (case ctx_state ctx of
         kExpectRequestLine \<Rightarrow>
           (case findCRLF buf of
              Some crlf \<Rightarrow>
                bind_out (processRequestLine (span_of buf (peek buf) crlf) (ctx_request ctx))
                  (\<lambda>(ok, r).
                   if ok
                   then bind_out (retrieveUntil (crlf + 2) buf) (\<lambda>buf.
                          Inr (True, hasMore, ctx\<lparr>ctx_state := kExpectHeaders,
                            ctx_request := setReceiveTime receiveTime r\<rparr>, buf))
                   else Inr (False, False, ctx\<lparr>ctx_request := r\<rparr>, buf))
            | None \<Rightarrow> Inr (ok, False, ctx, buf))
       | kExpectHeaders \<Rightarrow>
           (case findCRLF buf of
              Some crlf \<Rightarrow>
                let line = span_of buf (peek buf) crlf;
                    colon = std_find CHR '':'' line
                in if colon \<noteq> length line
                   then bind_out (retrieveUntil (crlf + 2) buf) (\<lambda>buf'.
                          Inr (ok, hasMore, ctx\<lparr>ctx_request := addHeader line colon (ctx_request ctx)\<rparr>, buf'))
                   else bind_out (retrieveUntil (crlf + 2) buf) (\<lambda>buf'.
                          Inr (ok, False, ctx\<lparr>ctx_state := kGotAll\<rparr>, buf'))
            | None \<Rightarrow> Inr (ok, False, ctx, buf))
       | kExpectBody \<Rightarrow> Inr (ok, hasMore, ctx, buf)
       | kGotAll \<Rightarrow> Inr (ok, hasMore, ctx, buf)))"

partial_function (option) parse_loop :: "timestamp \<Rightarrow> parse_vars \<Rightarrow> parse_vars outcome option" where
  "parse_loop receiveTime vars =
     (if fst (snd vars)
      then (case parse_step receiveTime vars of
              Inl e \<Rightarrow> Some (Inl e)
            | Inr vars' \<Rightarrow> parse_loop receiveTime vars')
      else Some (Inr vars))"

definition parseRequest ::
  "timestamp \<Rightarrow> http_context \<Rightarrow> buffer \<Rightarrow> (bool \<times> http_context \<times> buffer) outcome option" where
  "parseRequest receiveTime ctx buf =
     (case parse_loop receiveTime (True, True, ctx, buf) of
        None \<Rightarrow> None
      | Some (Inl e) \<Rightarrow> Some (Inl e)
      | Some (Inr (ok, _, ctx', buf')) \<Rightarrow>
          Some (bind_out (retrieveAllAsString buf') (\<lambda>(str, buf''). Inr (ok, ctx', buf''))))"

section \<open>The parser on text\<close>

definition parsing :: "http_context \<Rightarrow> bool" where
  "parsing c \<longleftrightarrow> ctx_state c = kExpectRequestLine \<or> ctx_state c = kExpectHeaders"

function parse_string ::
  "timestamp \<Rightarrow> bool \<Rightarrow> http_context \<Rightarrow> string \<Rightarrow> (bool \<times> http_context \<times> string) outcome" where
  "parse_string t ok c s =
     (let i = std_search CRLF s; line = take i s; rest = drop (i + 2) s in
      if i = length s then Inr (ok, c, s)
      else if ctx_state c = kExpectRequestLine
      then bind_out (processRequestLine line (ctx_request c)) (\<lambda>(ok', r).
             if ok' then parse_string t True
                 (c\<lparr>ctx_state := kExpectHeaders, ctx_request := setReceiveTime t r\<rparr>) rest
             else Inr (False, c\<lparr>ctx_request := r\<rparr>, s))
      else let colon = std_find CHR '':'' line in
        if colon \<noteq> length line
        then parse_string t ok (c\<lparr>ctx_request := addHeader line colon (ctx_request c)\<rparr>) rest
        else Inr (ok, c\<lparr>ctx_state := kGotAll\<rparr>, rest))"
  by pat_completeness auto
termination
proof (relation "measure (\<lambda>(_, _, _, s). length s)", goal_cases)
  case (2 t ok c s i line rest m ok' r)
  then have "s \<noteq> []" using std_search_le by (cases s) auto
  with 2 show ?case by simp
next
  case (3 t ok c s i line rest colon)
  then have "s \<noteq> []" by (cases s) auto
  with 3 show ?case by simp
qed simp

declare parse_string.simps [simp del]

section \<open>Printed requests\<close>

text \<open>The text of a request as a client sends it, to state the parser's round trip.\<close>

definition method_name :: "Method \<Rightarrow> string" where
  "method_name m = (case m of kInvalid \<Rightarrow> [] | kGet \<Rightarrow> ''GET'' | kPost \<Rightarrow> ''POST'' | kHead \<Rightarrow> ''HEAD''
     | kPut \<Rightarrow> ''PUT'' | kDelete \<Rightarrow> ''Delete'')"

definition version_name :: "Version \<Rightarrow> string" where
  "version_name v = (case v of kUnknown \<Rightarrow> [] | kHttp10 \<Rightarrow> ''HTTP/1.0'' | kHttp11 \<Rightarrow> ''HTTP/1.1'')"

definition request_line :: "Method \<Rightarrow> string \<Rightarrow> string \<Rightarrow> Version \<Rightarrow> string" where
  "request_line m p q v = method_name m @ '' '' @ (p @ q) @ '' '' @ version_name v"

fun header_text :: "(string \<times> string) list \<Rightarrow> string" where
  "header_text [] = []"
| "header_text ((k, v) # hs) = (k @ '': '' @ v) @ CRLF @ header_text hs"

definition request_text ::
  "Method \<Rightarrow> string \<Rightarrow> string \<Rightarrow> Version \<Rightarrow> (string \<times> string) list \<Rightarrow> string" where
  "request_text m p q v hs = request_line m p q v @ CRLF @ header_text hs @ CRLF"

text \<open>A path has no blank, question mark or CR; a query is empty or starts with a question mark.\<close>

definition wf_target :: "string \<Rightarrow> string \<Rightarrow> bool" where
  "wf_target p q \<longleftrightarrow> CHR '' '' \<notin> set p \<union> set q \<and> is_line (p @ q) \<and> CHR ''?'' \<notin> set p
     \<and> (q = [] \<or> hd q = CHR ''?'')"

definition wf_header :: "string \<times> string \<Rightarrow> bool" where
  "wf_header h \<longleftrightarrow> CHR '':'' \<notin> set (fst h) \<and> is_line (fst h @ snd h) \<and> trimmed (snd h)"

definition loop_agrees :: "parse_vars outcome option \<Rightarrow> (bool \<times> http_context \<times> string) outcome \<Rightarrow> bool" where
  "loop_agrees m p =
     (case p of
        Inl e \<Rightarrow> m = Some (Inl e)
      | Inr (ok, c, s) \<Rightarrow> \<exists>b. m = Some (Inr (ok, False, c, b)) \<and> buffer_inv b \<and> bytes_of b = s)"

section \<open>The loop computes the parser on text\<close>

lemma search_CRLF_room:
  assumes "std_search CRLF s \<noteq> length s"
  shows "std_search CRLF s + 2 \<le> length s"
proof -
  have "std_search CRLF s < length s" using assms std_search_le [of CRLF s] by simp
  then have "length (take (length CRLF) (drop (std_search CRLF s) s)) = length CRLF"
    using std_search_found by metis
  then show ?thesis by simp
qed

lemma line_span:
  assumes "buffer_inv b" and "i \<le> length (bytes_of b)"
  shows "span_of b (peek b) (peek b + i) = take i (bytes_of b)"
proof -
  have "readerIndex b + i \<le> writerIndex b"
    using assms buffer_invD [OF assms(1)] by (simp add: length_bytes_of readableBytes_inv)
  then show ?thesis by (simp add: span_of_bytes peek_def)
qed

lemma retrieve_line:
  assumes "buffer_inv b" and "std_search CRLF (bytes_of b) \<noteq> length (bytes_of b)"
  shows "\<exists>b'. retrieveUntil (peek b + std_search CRLF (bytes_of b) + 2) b = Inr b' \<and> buffer_inv b'
    \<and> bytes_of b' = drop (std_search CRLF (bytes_of b) + 2) (bytes_of b)"
  using retrieveUntil_spec [OF assms(1) search_CRLF_room [OF assms(2)]] by (simp add: add.assoc)

lemma parse_loop_done [simp]: "parse_loop t (ok, False, c, b) = Some (Inr (ok, False, c, b))"
  by (simp add: parse_loop.simps)

lemma parse_loop_step:
  "parse_loop t (ok, True, c, b) =
     (case parse_step t (ok, True, c, b) of
        Inl e \<Rightarrow> Some (Inl e) | Inr vars \<Rightarrow> parse_loop t vars)"
  by (simp add: parse_loop.simps [of t "(ok, True, c, b)"])

lemma parse_loop_no_line:
  assumes "buffer_inv b" and "parsing c" and "std_search CRLF (bytes_of b) = length (bytes_of b)"
  shows "parse_loop t (ok, True, c, b) = Some (Inr (ok, False, c, b))"
  using assms
  by (auto simp: parse_loop_step parse_step_def findCRLF_bytes parsing_def)

lemma parse_loop_refines:
  "buffer_inv b \<Longrightarrow> parsing c \<Longrightarrow> bytes_of b = s \<Longrightarrow>
   loop_agrees (parse_loop t (ok, True, c, b)) (parse_string t ok c s)"
proof (induction t ok c s arbitrary: b rule: parse_string.induct)
  case (1 t ok c s)
  let ?i = "std_search CRLF s"
  show ?case
  proof (cases "?i = length s")
    case True
    then show ?thesis
      using "1.prems" parse_loop_no_line [of b c t ok]
      by (simp add: parse_string.simps [of t ok c s] loop_agrees_def)
  next
    case found: False
    have line: "span_of b (peek b) (peek b + ?i) = take ?i s"
      using line_span [of b ?i] "1.prems" std_search_le [of CRLF s] by simp
    have crlf: "findCRLF b = Some (peek b + ?i)"
      using "1.prems" found by (simp add: findCRLF_bytes)
    obtain b' where b': "retrieveUntil (peek b + ?i + 2) b = Inr b'" "buffer_inv b'"
        "bytes_of b' = drop (?i + 2) s"
      using retrieve_line [of b] "1.prems" found by auto
    show ?thesis
    proof (cases "ctx_state c = kExpectRequestLine")
      case True
      show ?thesis
      proof (cases "processRequestLine (take ?i s) (ctx_request c)")
        case (Inl e)
        then show ?thesis
          using True found crlf line
          by (simp add: parse_string.simps [of t ok c s] parse_loop_step parse_step_def Let_def loop_agrees_def)
      next
        case (Inr p)
        obtain ok' r where p: "p = (ok', r)" by (cases p)
        let ?c = "c\<lparr>ctx_state := kExpectHeaders, ctx_request := setReceiveTime t r\<rparr>"
        have IH: "ok' \<Longrightarrow> loop_agrees (parse_loop t (True, True, ?c, b'))
            (parse_string t True ?c (drop (?i + 2) s))"
          using "1.IH"(1) [OF refl refl refl found True Inr] p b'(2,3) by (simp add: parsing_def)
        show ?thesis
          using True found crlf line Inr p b' IH "1.prems"
          by (cases ok')
             (simp_all add: parse_string.simps [of t ok c s] parse_loop_step parse_step_def Let_def loop_agrees_def)
      qed
    next
      case False
      then have st: "ctx_state c = kExpectHeaders" using "1.prems"(2) by (simp add: parsing_def)
      let ?colon = "std_find CHR '':'' (take ?i s)"
      let ?c = "c\<lparr>ctx_request := addHeader (take ?i s) ?colon (ctx_request c)\<rparr>"
      show ?thesis
      proof (cases "?colon = length (take ?i s)")
        case True
        then show ?thesis
          using st found crlf line b'
          by (simp add: parse_string.simps [of t ok c s] parse_loop_step parse_step_def Let_def loop_agrees_def)
      next
        case colon: False
        have "loop_agrees (parse_loop t (ok, True, ?c, b')) (parse_string t ok ?c (drop (?i + 2) s))"
          using "1.IH"(2) [OF refl refl refl found False refl colon b'(2) _ b'(3)] st
          by (simp add: parsing_def)
        then show ?thesis
          using st found crlf line b' colon
          by (simp add: parse_string.simps [of t ok c s] parse_loop_step parse_step_def Let_def)
      qed
    qed
  qed
qed

text \<open>
  \<open>parseRequest\<close> on the buffer: it returns what the parser on text returns, fails where that
  fails, and always leaves the buffer empty.
\<close>

lemma parseRequest_refines:
  assumes "buffer_inv b" and "parsing c"
  shows "case parse_string t True c (bytes_of b) of
      Inl e \<Rightarrow> parseRequest t c b = Some (Inl e)
    | Inr (ok, c', rest) \<Rightarrow>
        \<exists>b'. parseRequest t c b = Some (Inr (ok, c', b')) \<and> buffer_inv b' \<and> bytes_of b' = []"
proof (cases "parse_string t True c (bytes_of b)")
  case (Inl e)
  then show ?thesis
    using parse_loop_refines [OF assms refl, of t True] by (simp add: loop_agrees_def parseRequest_def)
next
  case (Inr p)
  obtain ok c' rest where p: "p = (ok, c', rest)" by (cases p)
  obtain b1 where b1: "parse_loop t (True, True, c, b) = Some (Inr (ok, False, c', b1))" "buffer_inv b1"
    using parse_loop_refines [OF assms refl, of t True] Inr p by (auto simp: loop_agrees_def)
  obtain b2 where "retrieveAllAsString b1 = Inr (bytes_of b1, b2)" "buffer_inv b2" "bytes_of b2 = []"
    using retrieveAllAsString_spec [OF b1(2)] by blast
  then show ?thesis using Inr p b1 by (simp add: parseRequest_def)
qed

section \<open>Single lines\<close>

lemma parse_string_none: "is_line s \<Longrightarrow> parse_string t ok c s = Inr (ok, c, s)"
  by (simp add: parse_string.simps [of t ok c s] std_search_CRLF_none is_line_def)

lemma parse_string_line:
  assumes "is_line l"
  shows "parse_string t ok c (l @ CRLF @ s) =
    (if ctx_state c = kExpectRequestLine
     then bind_out (processRequestLine l (ctx_request c)) (\<lambda>(ok', r).
            if ok' then parse_string t True
                (c\<lparr>ctx_state := kExpectHeaders, ctx_request := setReceiveTime t r\<rparr>) s
            else Inr (False, c\<lparr>ctx_request := r\<rparr>, l @ CRLF @ s))
     else let colon = std_find CHR '':'' l in
       if colon \<noteq> length l
       then parse_string t ok (c\<lparr>ctx_request := addHeader l colon (ctx_request c)\<rparr>) s
       else Inr (ok, c\<lparr>ctx_state := kGotAll\<rparr>, s))"
  using std_search_CRLF [of l s] assms
  by (subst parse_string.simps) (simp add: is_line_def)

lemma method_name_facts:
  "m \<noteq> kInvalid \<Longrightarrow> method_of_name (method_name m) = m"
  "CHR '' '' \<notin> set (method_name m)" "is_line (method_name m)"
  by (cases m; simp add: method_name_def method_of_name_def is_line_def)+

lemma version_name_facts:
  "v \<noteq> kUnknown \<Longrightarrow> length (version_name v) = 8 \<and> take 7 (version_name v) = ''HTTP/1.''"
  "version_name v ! 7 = (case v of kHttp11 \<Rightarrow> CHR ''1'' | kHttp10 \<Rightarrow> CHR ''0'' | kUnknown \<Rightarrow> [] ! 7)"
  "is_line (version_name v)"
  by (cases v; simp add: version_name_def is_line_def)+

lemma find_query: "wf_target p q \<Longrightarrow> std_find CHR ''?'' (p @ q) = length p"
  by (cases q) (auto simp: wf_target_def std_find_append std_find_notin)

lemma processRequestLine_printed:
  assumes "wf_target p q" and "m \<noteq> kInvalid" and "v \<noteq> kUnknown" and "req_method r = kInvalid"
  shows "processRequestLine (request_line m p q v) r =
    Inr (True, r\<lparr>req_method := m, req_path := p, req_query := if q = [] then req_query r else q,
      req_version := v\<rparr>)"
proof -
  let ?r = "r\<lparr>req_method := m\<rparr>"
  have sp1: "std_find CHR '' '' (method_name m @ CHR '' '' # x) = length (method_name m)" for x
    by (rule std_find_append) (rule method_name_facts)
  have sp2: "std_find CHR '' '' ((p @ q) @ CHR '' '' # x) = length (p @ q)" for x
    using assms(1) by (intro std_find_append) (simp add: wf_target_def)
  have mth: "setMethod (method_name m) r = Inr (True, ?r)"
    using assms(2,4) by (simp add: setMethod_def method_name_facts)
  note line = request_line_def processRequestLine_def Let_def
  show ?thesis
    using sp1 [of "(p @ q) @ CHR '' '' # version_name v"] sp2 [of "version_name v"] assms(3) mth
      find_query [OF assms(1)] version_name_facts(1) [OF assms(3)] version_name_facts(2) [of v]
    by (cases v) (simp_all add: line setVersion_def setPath_def setQuery_def)
qed

lemma is_line_request: "wf_target p q \<Longrightarrow> is_line (request_line m p q v)"
  using method_name_facts(3) [of m] version_name_facts(3) [of v]
  by (auto simp: request_line_def is_line_def wf_target_def)

lemma map_of_put_all:
  "map_of (foldl (\<lambda>m (k, v). map_put k v m) m hs) = map_of m ++ map_of (rev hs)"
  by (induction hs arbitrary: m) (auto simp: map_of_map_put map_add_def fun_eq_iff split: option.splits)

lemma parse_headers:
  assumes "\<forall>h \<in> set hs. wf_header h" and "ctx_state c = kExpectHeaders" and "is_line l"
    and "CHR '':'' \<notin> set l"
  shows "parse_string t ok c (header_text hs @ l @ CRLF @ rest) =
    Inr (ok, c\<lparr>ctx_state := kGotAll, ctx_request := (ctx_request c)
      \<lparr>req_headers := foldl (\<lambda>m (k, v). map_put k v m) (req_headers (ctx_request c)) hs\<rparr>\<rparr>, rest)"
  using assms
proof (induction hs arbitrary: c)
  case Nil
  then show ?case by (simp add: parse_string_line [simplified] std_find_notin)
next
  case (Cons h hs)
  obtain k v where h: "h = (k, v)" by (cases h)
  with Cons.prems have wf: "CHR '':'' \<notin> set k" "is_line (k @ v)" "trimmed v" by (auto simp: wf_header_def)
  have line: "is_line (k @ '': '' @ v)" using wf(2) by (auto simp: is_line_def)
  let ?c = "c\<lparr>ctx_request := (ctx_request c)\<lparr>req_headers := map_put k v (req_headers (ctx_request c))\<rparr>\<rparr>"
  have "parse_string t ok c (header_text (h # hs) @ l @ CRLF @ rest)
      = parse_string t ok ?c (header_text hs @ l @ CRLF @ rest)"
    using parse_string_line [OF line, of t ok c "header_text hs @ l @ CRLF @ rest"] Cons.prems(2)
      addHeader_line [OF wf(1,3)]
    by (simp add: h)
  then show ?case using Cons by (simp add: h)
qed

lemma parseRequest_printed:
  assumes "buffer_inv b" and "bytes_of b = request_text m p q v hs @ extra"
    and "ctx_state c = kExpectRequestLine" and "req_method (ctx_request c) = kInvalid"
    and "wf_target p q" and "m \<noteq> kInvalid" and "v \<noteq> kUnknown" and "\<forall>h \<in> set hs. wf_header h"
  shows "\<exists>c' b'. parseRequest t c b = Some (Inr (True, c', b')) \<and> buffer_inv b' \<and> bytes_of b' = []
    \<and> gotAll c' \<and> req_method (ctx_request c') = m \<and> req_path (ctx_request c') = p
    \<and> req_query (ctx_request c') = (if q = [] then req_query (ctx_request c) else q)
    \<and> req_version (ctx_request c') = v \<and> req_receiveTime (ctx_request c') = t
    \<and> map_of (req_headers (ctx_request c')) = map_of (req_headers (ctx_request c)) ++ map_of (rev hs)"
proof -
  have p: "parsing c" using assms(3) by (simp add: parsing_def)
  let ?r = "(ctx_request c)\<lparr>req_method := m, req_path := p,
      req_query := if q = [] then req_query (ctx_request c) else q, req_version := v\<rparr>"
  let ?c = "c\<lparr>ctx_state := kExpectHeaders, ctx_request := setReceiveTime t ?r\<rparr>"
  let ?hs = "foldl (\<lambda>m (k, v). map_put k v m) (req_headers (ctx_request c)) hs"
  have "parse_string t True c (bytes_of b) = parse_string t True ?c (header_text hs @ [] @ CRLF @ extra)"
    using parse_string_line [OF is_line_request [OF assms(5), of m v], of t True c "header_text hs @ CRLF @ extra"]
      processRequestLine_printed [OF assms(5,6,7,4)] assms(3)
    by (simp add: assms(2) request_text_def)
  also have "\<dots> = Inr (True, ?c\<lparr>ctx_state := kGotAll,
      ctx_request := setReceiveTime t ?r\<lparr>req_headers := ?hs\<rparr>\<rparr>, extra)"
    by (subst parse_headers [OF assms(8)]) (simp_all add: is_line_def setReceiveTime_def)
  finally show ?thesis
    using parseRequest_refines [OF assms(1) p, of t]
    by (auto simp: gotAll_def setReceiveTime_def map_of_put_all)
qed

section \<open>Looping forever\<close>

lemma parse_loop_stuck:
  assumes "ctx_state c = kExpectBody \<or> ctx_state c = kGotAll"
  shows "parse_loop t (ok, True, c, b) = None"
proof (rule ccontr)
  assume "parse_loop t (ok, True, c, b) \<noteq> None"
  then obtain y where "parse_loop t (ok, True, c, b) = Some y" by blast
  moreover have "vars \<noteq> (ok, True, c, b)" if "parse_loop t vars = Some y" for vars y
  proof (rule parse_loop.raw_induct [OF _ that])
    fix loop t and vars :: parse_vars and y
    assume IH: "\<And>t v y. loop t v = Some y \<Longrightarrow> v \<noteq> (ok, True, c, b)"
      and step: "(if fst (snd vars)
        then case parse_step t vars of Inl e \<Rightarrow> Some (Inl e) | Inr v \<Rightarrow> loop t v
        else Some (Inr vars)) = Some y"
    have "parse_step t (ok, True, c, b) = Inr (ok, True, c, b)" using assms by (auto simp: parse_step_def)
    then show "vars \<noteq> (ok, True, c, b)" using IH [of t "(ok, True, c, b)" y] step by force
  qed
  ultimately show False by blast
qed

section \<open>Properties\<close>

text \<open>
  C13. Parsing inverts printing. For every supported method and version, well-formed target and
  header list, \<open>parseRequest\<close> on a buffer that holds the printed request returns success with
  the context complete: method, path, version and receive time are those of the text, the
  query is the text's (with its question mark) when it has one and otherwise keeps its old
  value, and looking up a header returns the last value sent for it, or the one the context
  already had. All bytes of the buffer are consumed, also those behind the request.
\<close>

theorem parseRequest_roundtrip:
  assumes "buffer_inv b" and "bytes_of b = request_text m p q v hs @ extra"
    and "ctx_state c = kExpectRequestLine" and "req_method (ctx_request c) = kInvalid"
    and "wf_target p q" and "m \<noteq> kInvalid" and "v \<noteq> kUnknown" and "\<forall>h \<in> set hs. wf_header h"
  shows "\<exists>c' b'. parseRequest t c b = Some (Inr (True, c', b')) \<and> buffer_inv b' \<and> bytes_of b' = []
    \<and> gotAll c' \<and> req_method (ctx_request c') = m \<and> req_path (ctx_request c') = p
    \<and> req_query (ctx_request c') = (if q = [] then req_query (ctx_request c) else q)
    \<and> req_version (ctx_request c') = v \<and> req_receiveTime (ctx_request c') = t
    \<and> map_of (req_headers (ctx_request c')) = map_of (req_headers (ctx_request c)) ++ map_of (rev hs)"
  using assms by (rule parseRequest_printed)

theorem parseRequest_roundtrip_witness:
  "\<exists>b c' b'. append_data (request_text kGet ''/a'' ''?x=1'' kHttp11 [(''Host'', ''h'')] @ ''junk'') (new_Buffer 16) = Inr b
    \<and> parseRequest Timestamp_default HttpContext_ctor b = Some (Inr (True, c', b'))
    \<and> bytes_of b' = [] \<and> req_query (ctx_request c') = ''?x=1'' \<and> getHeader ''Host'' (ctx_request c') = ''h''"
proof -
  let ?text = "request_text kGet ''/a'' ''?x=1'' kHttp11 [(''Host'', ''h'')] @ ''junk''"
  have inv: "buffer_inv (new_Buffer 16)" and empty: "bytes_of (new_Buffer 16) = []"
    by (simp_all add: buffer_eval)
  have room: "room_for (length ?text) (new_Buffer 16)"
    by (simp add: buffer_eval request_text_def request_line_def method_name_def version_name_def)
  obtain b where b: "append_data ?text (new_Buffer 16) = Inr b" "buffer_inv b" "bytes_of b = ?text"
    using append_spec [OF inv room] empty by auto
  have c: "ctx_state HttpContext_ctor = kExpectRequestLine" "req_method (ctx_request HttpContext_ctor) = kInvalid"
    "req_headers (ctx_request HttpContext_ctor) = []"
    by (simp_all add: HttpContext_ctor_def HttpRequest_ctor_def)
  have wf: "wf_target ''/a'' ''?x=1''" "\<forall>h \<in> set [(''Host'', ''h'')]. wf_header h"
    by (simp_all add: wf_target_def wf_header_def is_line_def trimmed_def isspace_def)
  show ?thesis
    using parseRequest_roundtrip [OF b(2,3) c(1,2) wf(1) _ _ wf(2), of Timestamp_default] b c(3)
    by (auto simp: getHeader_def)
qed



text \<open>
  A request that arrives in two pieces is lost. When the first read holds no complete line,
  \<open>parseRequest\<close> reports success with the context unchanged and throws the bytes away, so the
  parser continues with the second piece alone: whatever the second piece is, the result is
  that of parsing it without the first.
\<close>

lemma parseRequest_fragment_lost:
  assumes "buffer_inv b" and "parsing c" and "is_line (bytes_of b)"
  shows "\<exists>b'. parseRequest t c b = Some (Inr (True, c, b')) \<and> buffer_inv b' \<and> bytes_of b' = []"
  using parseRequest_refines [OF assms(1,2), of t] parse_string_none [OF assms(3), of t True c] by simp

text \<open>
  A request line that is rejected after its method has been recognised leaves the method
  set, and the next line of that connection with a blank in it ends the process: the
  assertion at the start of \<open>setMethod\<close> fails. The two lines are whatever a client sends.
\<close>

lemma parseRequest_second_line_crashes:
  assumes "processRequestLine l (ctx_request c) = Inr (False, r)" and "req_method r \<noteq> kInvalid"
    and "ctx_state c = kExpectRequestLine" and "is_line l" and "is_line l2" and "CHR '' '' \<in> set l2"
    and "buffer_inv b1" and "bytes_of b1 = l @ CRLF @ s1" and "buffer_inv b2" and "bytes_of b2 = l2 @ CRLF @ s2"
  shows "\<exists>c' b'. parseRequest t c b1 = Some (Inr (False, c', b'))
    \<and> parseRequest t2 c' b2 = Some (Inl AssertionFailed)"
proof -
  let ?c = "c\<lparr>ctx_request := r\<rparr>"
  have p: "parsing c" "parsing ?c" using assms(3) by (simp_all add: parsing_def)
  have 1: "parse_string t True c (bytes_of b1) = Inr (False, ?c, bytes_of b1)"
    using assms(1,3,8) parse_string_line [OF assms(4), of t True c s1] by simp
  have "processRequestLine l2 r = Inl AssertionFailed"
    using assms(2,6) by (simp add: processRequestLine_def setMethod_def Let_def std_find_less_iff)
  then have 2: "parse_string t2 True ?c (bytes_of b2) = Inl AssertionFailed"
    using assms(3,10) parse_string_line [OF assms(5), of t2 True ?c s2] by simp
  show ?thesis
    using parseRequest_refines [OF assms(7) p(1), of t] parseRequest_refines [OF assms(9) p(2), of t2]
    by (auto simp: 1 2)
qed

text \<open>
  Resetting a context between two requests does not clear the query, since \<open>swap\<close> exchanges
  the path with the other request's query: a request without a query that follows, after
  \<open>reset\<close>, a request with one is reported with the query of the earlier request.
\<close>

lemma reset_leaks_query:
  assumes "buffer_inv b1" and "bytes_of b1 = request_text m p q v hs" and "wf_target p q" and "q \<noteq> []"
    and "m \<noteq> kInvalid" and "v \<noteq> kUnknown" and "\<forall>h \<in> set hs. wf_header h"
    and "buffer_inv b2" and "bytes_of b2 = request_text m2 p2 [] v2 hs2" and "wf_target p2 []"
    and "m2 \<noteq> kInvalid" and "v2 \<noteq> kUnknown" and "\<forall>h \<in> set hs2. wf_header h"
  shows "\<exists>c1 b1' c2 b2'. parseRequest t HttpContext_ctor b1 = Some (Inr (True, c1, b1'))
    \<and> parseRequest t2 (reset_context c1) b2 = Some (Inr (True, c2, b2'))
    \<and> req_path (ctx_request c2) = p2 \<and> req_query (ctx_request c2) = q
    \<and> map_of (req_headers (ctx_request c2)) = map_of (rev hs2)"
proof -
  have new: "ctx_state HttpContext_ctor = kExpectRequestLine" "req_method (ctx_request HttpContext_ctor) = kInvalid"
    by (simp_all add: HttpContext_ctor_def HttpRequest_ctor_def)
  obtain c1 b1' where c1: "parseRequest t HttpContext_ctor b1 = Some (Inr (True, c1, b1'))"
      "req_query (ctx_request c1) = q"
    using parseRequest_printed [OF assms(1) _ new assms(3,5,6,7), of "[]" t] assms(2,4) by auto
  let ?c = "reset_context c1"
  have c: "ctx_state ?c = kExpectRequestLine" "req_method (ctx_request ?c) = kInvalid"
    "req_query (ctx_request ?c) = q" "req_headers (ctx_request ?c) = []"
    by (simp_all add: reset_context_def swap_HttpRequest_def HttpRequest_ctor_def c1(2))
  show ?thesis
    using parseRequest_printed [OF assms(8) _ c(1,2) assms(10,11,12,13), of "[]" t2] assms(9) c(3,4) c1(1)
    by auto
qed

end
