(* ===== verification/TcpConnections.thy ===== *)
theory TcpConnections
  imports EventLoops SocketOps HttpContexts
begin

text \<open>
  \<open>src/net/TcpConnection.h\<close> and \<open>src/net/TcpConnection.cpp\<close>, on one event loop. The world extends the
  loop's state with a heap of connection objects: a handler bound to a connection that no
  longer exists is undefined. The callbacks a server installs are arguments (\<open>net_user\<close>).

  A connection record also holds the kernel's side of its socket: the results that \<open>readv\<close> and
  \<open>write\<close> will give, call by call, the bytes the kernel has accepted, and whether the sending
  side was shut down. \<open>LOG_SYSERR\<close> ends the process, which is the result \<open>Aborted\<close>; other log
  output is left out. \<open>assertInLoopThread\<close> has no effect and is written where the code calls it.
\<close>

section \<open>State\<close>

datatype StateE = kDisconnected | kConnecting | kConnected | kDisconnecting

datatype write_result = Wrote nat | WriteError int

definition EWOULDBLOCK :: int where "EWOULDBLOCK = 11"

record tcp_connection =
  tc_name :: string
  tc_state :: StateE
  tc_reading :: bool
  tc_channel :: nat
  tc_inputBuffer :: buffer
  tc_outputBuffer :: buffer
  tc_context :: http_context
  sk_reads :: "nat \<Rightarrow> read_result"
  sk_nreads :: nat
  sk_writes :: "nat \<Rightarrow> write_result"
  sk_nwrites :: nat
  sk_sent :: string
  sk_shutdownResult :: int
  sk_shutdownWrite :: bool

text \<open>A new connection object: its address, its channel's, stale memory, and the kernel's answers.\<close>

record new_object =
  no_conn :: nat
  no_channel :: nat
  no_logHup :: bool
  no_tied :: bool
  no_reads :: "nat \<Rightarrow> read_result"
  no_writes :: "nat \<Rightarrow> write_result"
  no_shutdown :: int

text \<open>Callbacks of channels and functors of loops, with the object they are bound to.\<close>

datatype net_callback = LoopWakeup | AcceptRead | ConnRead nat | ConnWrite nat | ConnClose nat | ConnError nat

datatype net_functor =
    ShutdownInLoop nat | ForceCloseInLoop nat | WriteComplete nat | StartReadInLoop nat | StopReadInLoop nat
  | ConnectEstablished nat | ConnectDestroyed nat | RemoveConnectionInLoop nat | ListenInLoop
  | SetCloseCallback nat

record 'w net_world = "(net_callback, net_functor) event_loop" +
  nw_conns :: "nat \<rightharpoonup> tcp_connection"
  nw_rest :: 'w

record 'w net_user =
  nu_connection :: "nat \<Rightarrow> 'w net_world \<Rightarrow> 'w net_world outcome"
  nu_message :: "nat \<Rightarrow> timestamp \<Rightarrow> 'w net_world \<Rightarrow> 'w net_world outcome"
  nu_writeComplete :: "(nat \<Rightarrow> 'w net_world \<Rightarrow> 'w net_world outcome) option"
  nu_close :: "nat \<Rightarrow> 'w net_world \<Rightarrow> 'w net_world outcome"

definition with_conn :: "nat \<Rightarrow> (tcp_connection \<Rightarrow> 'a outcome) \<Rightarrow> 'w net_world \<Rightarrow> 'a outcome" where
  "with_conn i f w = (case nw_conns w i of None \<Rightarrow> Inl UndefinedBehaviour | Some c \<Rightarrow> f c)"

definition put_conn :: "nat \<Rightarrow> tcp_connection \<Rightarrow> 'w net_world \<Rightarrow> 'w net_world" where
  "put_conn i c w = w\<lparr>nw_conns := (nw_conns w)(i \<mapsto> c)\<rparr>"

definition with_channel :: "nat \<Rightarrow> (net_callback channel \<Rightarrow> 'a outcome) \<Rightarrow> 'w net_world \<Rightarrow> 'a outcome" where
  "with_channel i f w = with_conn i (\<lambda>c. bind_out (deref (el_poller w) (tc_channel c)) f) w"

text \<open>
  The constructor: a new connection object \<open>i\<close> with a new channel object \<open>ch\<close> for the descriptor.
\<close>

definition TcpConnection_ctor ::
  "nat \<Rightarrow> nat \<Rightarrow> bool \<Rightarrow> bool \<Rightarrow> string \<Rightarrow> int \<Rightarrow> (nat \<Rightarrow> read_result) \<Rightarrow> (nat \<Rightarrow> write_result) \<Rightarrow> int
   \<Rightarrow> 'w net_world \<Rightarrow> 'w net_world" where
  "TcpConnection_ctor i ch lh tied nameArg sockfd reads writes shutdownResult w =
     (let channel = setErrorCallback (ConnError i) (setCloseCallback (ConnClose i)
            (setWriteCallback (ConnWrite i) (setReadCallback (ConnRead i) (Channel_ctor lh tied sockfd))));
          w = w\<lparr>el_poller := store ch channel (el_poller w)\<rparr>
      in put_conn i \<lparr>tc_name = nameArg, tc_state = kConnecting, tc_reading = True, tc_channel = ch,
           tc_inputBuffer = new_Buffer kInitialSize, tc_outputBuffer = new_Buffer kInitialSize,
           tc_context = HttpContext_ctor, sk_reads = reads, sk_nreads = 0, sk_writes = writes, sk_nwrites = 0,
           sk_sent = [], sk_shutdownResult = shutdownResult, sk_shutdownWrite = False\<rparr> w)"

section \<open>Accessors\<close>

definition connected :: "tcp_connection \<Rightarrow> bool" where
  "connected c \<longleftrightarrow> tc_state c = kConnected"

definition disconnected :: "tcp_connection \<Rightarrow> bool" where
  "disconnected c \<longleftrightarrow> tc_state c = kConnected"

definition setState :: "StateE \<Rightarrow> nat \<Rightarrow> 'w net_world \<Rightarrow> 'w net_world outcome" where
  "setState s i w = with_conn i (\<lambda>c. Inr (put_conn i (c\<lparr>tc_state := s\<rparr>) w)) w"

definition setContext :: "http_context \<Rightarrow> nat \<Rightarrow> 'w net_world \<Rightarrow> 'w net_world outcome" where
  "setContext ctx i w = with_conn i (\<lambda>c. Inr (put_conn i (c\<lparr>tc_context := ctx\<rparr>) w)) w"

definition stateToString :: "StateE \<Rightarrow> string" where
  "stateToString s = (case s of kDisconnected \<Rightarrow> ''kDisconnected'' | kConnecting \<Rightarrow> ''kConnecting''
     | kConnected \<Rightarrow> ''kConnected'' | kDisconnecting \<Rightarrow> ''kDisconnecting'')"

definition change_channel :: "interest \<Rightarrow> nat \<Rightarrow> 'w net_world \<Rightarrow> 'w net_world outcome" where
  "change_channel k i w = with_conn i (\<lambda>c. channel_change k (tc_channel c) w) w"

text \<open>\<open>sockets::write\<close>: the next result of the kernel; accepted bytes are on their way.\<close>

definition sys_write :: "nat \<Rightarrow> string \<Rightarrow> 'w net_world \<Rightarrow> (write_result \<times> 'w net_world) outcome" where
  "sys_write i msg w = with_conn i (\<lambda>c.
     let res = sk_writes c (sk_nwrites c);
         c = c\<lparr>sk_nwrites := sk_nwrites c + 1,
               sk_sent := sk_sent c @ (case res of Wrote n \<Rightarrow> take n msg | WriteError e \<Rightarrow> [])\<rparr>
     in Inr (res, put_conn i c w)) w"

text \<open>\<open>sockets::shutdownWrite\<close>: a failing \<open>shutdown(2)\<close> is reported with \<open>LOG_SYSERR\<close>.\<close>

definition shutdownWrite :: "nat \<Rightarrow> 'w net_world \<Rightarrow> 'w net_world outcome" where
  "shutdownWrite i w = with_conn i (\<lambda>c.
     if sk_shutdownResult c < 0 then Inl Aborted else Inr (put_conn i (c\<lparr>sk_shutdownWrite := True\<rparr>) w)) w"

definition shutdownWrite_Socket :: "nat \<Rightarrow> 'w net_world \<Rightarrow> 'w net_world outcome" where
  [simp]: "shutdownWrite_Socket i w = shutdownWrite i w"

text \<open>
  The operations on socket options, with the results of the system calls. The text of the TCP state
  goes through an array of 1024 characters that starts as the empty text.
\<close>

definition getTcpInfo_TcpConnection :: "int \<Rightarrow> tcp_info \<Rightarrow> bool \<times> tcp_info" where
  "getTcpInfo_TcpConnection ret stored = getTcpInfo ret stored"

definition getTcpInfoString_TcpConnection :: "int \<Rightarrow> tcp_info \<Rightarrow> string \<Rightarrow> string" where
  "getTcpInfoString_TcpConnection ret stored stale =
     c_str (snd (getTcpInfoString ret stored ((take 1024 stale)[0 := NUL])))"

definition setTcpNoDelay_TcpConnection :: "int \<Rightarrow> bool \<Rightarrow> sock_options \<Rightarrow> sock_options" where
  "setTcpNoDelay_TcpConnection ret on s = setTcpNoDelay ret on s"

text \<open>The text is empty or describes a connection with nothing to report, whatever the kernel said.\<close>

lemma tcp_info_connection:
  assumes "length stale = 1024"
  shows "getTcpInfoString_TcpConnection ret stored stale
    = (if ret = 0 then [] else tcp_info_text zero_tcp_info)"
proof -
  have d: "digit_char 0 = CHR ''0''" by (simp add: digit_char_def char_of_def bit_Suc_0_iff bit_numeral_rec)
  have t: "tcp_info_text zero_tcp_info = ''unrecovered=0 rto=0 ato=0 snd_mss=0 rcv_mss=0 lost=0 retrans=0 rtt=0 rttvar=0 sshthresh=0 cwnd=0 total_retrans=0''"
    by (simp add: tcp_info_text_def zero_tcp_info_def show_nat.simps d)
  have "c_str (snprintf_into (stale[0 := NUL]) (tcp_info_text zero_tcp_info)) = tcp_info_text zero_tcp_info"
    unfolding t using assms by (subst c_str_snprintf) auto
  moreover have "c_str (stale[0 := NUL]) = []" using assms by (cases stale) (simp_all add: c_str_def)
  moreover have "stale \<noteq> []" using assms by auto
  ultimately show ?thesis
    using assms by (simp add: getTcpInfoString_TcpConnection_def tcp_info_string_useless)
qed

section \<open>Sending\<close>

definition run_write_complete :: "'w net_user \<Rightarrow> int \<Rightarrow> nat \<Rightarrow> 'w net_world \<Rightarrow> 'w net_world outcome" where
  "run_write_complete u tid i w =
     (case nu_writeComplete u of None \<Rightarrow> Inr w
      | Some cb \<Rightarrow> runInLoop (\<lambda>_. cb i) tid (WriteComplete i) w)"

text \<open>What the kernel does not take is not kept: the code that buffered it is commented out.\<close>

definition sendInLoop :: "'w net_user \<Rightarrow> int \<Rightarrow> string \<Rightarrow> nat \<Rightarrow> 'w net_world \<Rightarrow> 'w net_world outcome" where
  "sendInLoop u tid msg i w =
     bind_out (assertInLoopThread tid w) (\<lambda>w.
     with_conn i (\<lambda>c.
       if tc_state c = kDisconnected then Inr w
       else with_channel i (\<lambda>ch.
         if \<not> isWriting ch \<and> readableBytes (tc_outputBuffer c) = 0
         then bind_out (sys_write i msg w) (\<lambda>(res, w).
                case res of
                  Wrote nwrote \<Rightarrow>
                    let remaining = size_sub (length msg) nwrote
                    in if remaining = 0 then run_write_complete u tid i w else Inr w
                | WriteError e \<Rightarrow> if e \<noteq> EWOULDBLOCK then Inl Aborted else Inr w)
         else Inr w) w) w)"

definition send :: "'w net_user \<Rightarrow> int \<Rightarrow> string \<Rightarrow> nat \<Rightarrow> 'w net_world \<Rightarrow> 'w net_world outcome" where
  "send u tid msg i w = with_conn i (\<lambda>c.
     if tc_state c = kConnected
     then if isInLoopThread tid w then sendInLoop u tid msg i w else Inr w
     else Inr w) w"

text \<open>\<open>send(Buffer*)\<close>: the buffer is the caller's and comes back emptied when it was sent.\<close>

definition send_Buffer ::
  "'w net_user \<Rightarrow> int \<Rightarrow> buffer \<Rightarrow> nat \<Rightarrow> 'w net_world \<Rightarrow> (buffer \<times> 'w net_world) outcome" where
  "send_Buffer u tid buf i w = with_conn i (\<lambda>c.
     if tc_state c = kConnected
     then if isInLoopThread tid w
          then bind_out (read_bytes (peek buf) (readableBytes buf) buf) (\<lambda>msg.
               bind_out (sendInLoop u tid msg i w) (\<lambda>w. Inr (retrieveAll buf, w)))
          else Inr (buf, w)
     else Inr (buf, w)) w"

section \<open>Closing\<close>

definition shutdownInLoop :: "int \<Rightarrow> nat \<Rightarrow> 'w net_world \<Rightarrow> 'w net_world outcome" where
  "shutdownInLoop tid i w =
     bind_out (assertInLoopThread tid w) (\<lambda>w.
     with_channel i (\<lambda>ch. if \<not> isWriting ch then shutdownWrite_Socket i w else Inr w) w)"

definition shutdown :: "int \<Rightarrow> nat \<Rightarrow> 'w net_world \<Rightarrow> 'w net_world outcome" where
  "shutdown tid i w = with_conn i (\<lambda>c.
     if tc_state c = kConnected
     then bind_out (setState kDisconnecting i w) (\<lambda>w.
            runInLoop (\<lambda>_. shutdownInLoop tid i) tid (ShutdownInLoop i) w)
     else Inr w) w"

definition handleClose :: "'w net_user \<Rightarrow> int \<Rightarrow> nat \<Rightarrow> 'w net_world \<Rightarrow> 'w net_world outcome" where
  "handleClose u tid i w =
     bind_out (assertInLoopThread tid w) (\<lambda>w.
     with_conn i (\<lambda>c.
       asserting (tc_state c = kConnected \<or> tc_state c = kDisconnecting)
         (bind_out (setState kDisconnected i w) (\<lambda>w.
          bind_out (change_channel DisableAll i w) (\<lambda>w.
          bind_out (nu_connection u i w) (\<lambda>w.
          nu_close u i w))))) w)"

definition forceClose :: "int \<Rightarrow> nat \<Rightarrow> 'w net_world \<Rightarrow> 'w net_world outcome" where
  "forceClose tid i w = with_conn i (\<lambda>c.
     if tc_state c = kConnected \<or> tc_state c = kDisconnecting
     then bind_out (setState kDisconnecting i w) (\<lambda>w. Inr (queueInLoop tid (ForceCloseInLoop i) w))
     else Inr w) w"

definition forceCloseInLoop :: "'w net_user \<Rightarrow> int \<Rightarrow> nat \<Rightarrow> 'w net_world \<Rightarrow> 'w net_world outcome" where
  "forceCloseInLoop u tid i w =
     bind_out (assertInLoopThread tid w) (\<lambda>w.
     with_conn i (\<lambda>c.
       if tc_state c = kConnected \<or> tc_state c = kDisconnecting then handleClose u tid i w else Inr w) w)"

section \<open>Reading\<close>

definition startReadInLoop :: "int \<Rightarrow> nat \<Rightarrow> 'w net_world \<Rightarrow> 'w net_world outcome" where
  "startReadInLoop tid i w =
     bind_out (assertInLoopThread tid w) (\<lambda>w.
     with_conn i (\<lambda>c. with_channel i (\<lambda>ch.
       if \<not> tc_reading c \<or> \<not> isReading ch
       then bind_out (change_channel EnableReading i w) (\<lambda>w.
              with_conn i (\<lambda>c. Inr (put_conn i (c\<lparr>tc_reading := True\<rparr>) w)) w)
       else Inr w) w) w)"

definition startRead :: "int \<Rightarrow> nat \<Rightarrow> 'w net_world \<Rightarrow> 'w net_world outcome" where
  "startRead tid i w = runInLoop (\<lambda>_. startReadInLoop tid i) tid (StartReadInLoop i) w"

definition stopReadInLoop :: "int \<Rightarrow> nat \<Rightarrow> 'w net_world \<Rightarrow> 'w net_world outcome" where
  "stopReadInLoop tid i w =
     bind_out (assertInLoopThread tid w) (\<lambda>w.
     with_conn i (\<lambda>c. with_channel i (\<lambda>ch.
       if tc_reading c \<or> isReading ch
       then bind_out (change_channel DisableReading i w) (\<lambda>w.
              with_conn i (\<lambda>c. Inr (put_conn i (c\<lparr>tc_reading := False\<rparr>) w)) w)
       else Inr w) w) w)"

definition stopRead :: "int \<Rightarrow> nat \<Rightarrow> 'w net_world \<Rightarrow> 'w net_world outcome" where
  "stopRead tid i w = runInLoop (\<lambda>_. stopReadInLoop tid i) tid (StopReadInLoop i) w"

text \<open>\<open>handleError\<close> reads the socket's pending error and logs it.\<close>

definition handleError :: "nat \<Rightarrow> 'w net_world \<Rightarrow> 'w net_world outcome" where
  "handleError i w = with_conn i (\<lambda>c. Inr w) w"

definition handleRead :: "'w net_user \<Rightarrow> int \<Rightarrow> nat \<Rightarrow> timestamp \<Rightarrow> 'w net_world \<Rightarrow> 'w net_world outcome" where
  "handleRead u tid i receiveTime w =
     bind_out (assertInLoopThread tid w) (\<lambda>w.
     with_conn i (\<lambda>c.
       bind_out (readFd (sk_reads c (sk_nreads c)) (tc_inputBuffer c)) (\<lambda>(n, savedErrno, buf).
         let w = put_conn i (c\<lparr>tc_inputBuffer := buf, sk_nreads := sk_nreads c + 1\<rparr>) w in
         if 0 < n then nu_message u i receiveTime w
         else if n = 0 then handleClose u tid i w
         else Inl Aborted)) w)"

definition handleWrite :: "'w net_user \<Rightarrow> int \<Rightarrow> nat \<Rightarrow> 'w net_world \<Rightarrow> 'w net_world outcome" where
  "handleWrite u tid i w =
     bind_out (assertInLoopThread tid w) (\<lambda>w.
     with_conn i (\<lambda>c. with_channel i (\<lambda>ch.
       if isWriting ch
       then bind_out (read_bytes (peek (tc_outputBuffer c)) (readableBytes (tc_outputBuffer c)) (tc_outputBuffer c)) (\<lambda>msg.
            bind_out (sys_write i msg w) (\<lambda>(res, w).
              case res of
                Wrote n \<Rightarrow>
                  if 0 < n
                  then with_conn i (\<lambda>c.
                    bind_out (retrieve n (tc_outputBuffer c)) (\<lambda>buf.
                      let w = put_conn i (c\<lparr>tc_outputBuffer := buf\<rparr>) w in
                      if readableBytes buf = 0
                      then bind_out (change_channel DisableWriting i w) (\<lambda>w.
                           bind_out (run_write_complete u tid i w) (\<lambda>w.
                           with_conn i (\<lambda>c. if tc_state c = kDisconnecting then shutdownInLoop tid i w else Inr w) w))
                      else Inr w)) w
                  else Inl Aborted
              | WriteError e \<Rightarrow> Inl Aborted))
       else Inr w) w) w)"

section \<open>Life cycle\<close>

definition tie_channel :: "nat \<Rightarrow> 'w net_world \<Rightarrow> 'w net_world outcome" where
  "tie_channel i w = with_conn i (\<lambda>c. bind_out (deref (el_poller w) (tc_channel c)) (\<lambda>ch.
     Inr (w\<lparr>el_poller := store (tc_channel c) (tie ch) (el_poller w)\<rparr>))) w"

definition connectEstablished :: "'w net_user \<Rightarrow> int \<Rightarrow> nat \<Rightarrow> 'w net_world \<Rightarrow> 'w net_world outcome" where
  "connectEstablished u tid i w =
     bind_out (assertInLoopThread tid w) (\<lambda>w.
     with_conn i (\<lambda>c.
       asserting (tc_state c = kConnecting)
         (bind_out (setState kConnected i w) (\<lambda>w.
          bind_out (tie_channel i w) (\<lambda>w.
          bind_out (change_channel EnableReading i w) (\<lambda>w.
          nu_connection u i w))))) w)"

definition connectDestroyed :: "nat \<Rightarrow> 'w net_world \<Rightarrow> 'w net_world outcome" where
  "connectDestroyed i w = with_conn i (\<lambda>c. channel_remove (tc_channel c) w) w"

text \<open>The callbacks installed when the user sets none.\<close>

definition defaultConnectionCallback :: "nat \<Rightarrow> 'w net_world \<Rightarrow> 'w net_world outcome" where
  "defaultConnectionCallback i w = with_conn i (\<lambda>c. Inr w) w"

definition defaultMessageCallback :: "nat \<Rightarrow> timestamp \<Rightarrow> 'w net_world \<Rightarrow> 'w net_world outcome" where
  "defaultMessageCallback i t w = with_conn i (\<lambda>c.
     Inr (put_conn i (c\<lparr>tc_inputBuffer := retrieveAll (tc_inputBuffer c)\<rparr>) w)) w"

section \<open>Dispatch\<close>

definition call_conn :: "'w net_user \<Rightarrow> int \<Rightarrow> net_callback \<Rightarrow> 'w net_world \<Rightarrow> 'w net_world outcome" where
  "call_conn u tid cb w =
     (case cb of
        ConnWrite i \<Rightarrow> handleWrite u tid i w
      | ConnClose i \<Rightarrow> handleClose u tid i w
      | ConnError i \<Rightarrow> handleError i w
      | _ \<Rightarrow> Inl UndefinedBehaviour)"

definition call_read_conn :: "'w net_user \<Rightarrow> int \<Rightarrow> net_callback \<Rightarrow> timestamp \<Rightarrow> 'w net_world \<Rightarrow> 'w net_world outcome" where
  "call_read_conn u tid cb t w =
     (case cb of
        ConnRead i \<Rightarrow> handleRead u tid i t w
      | LoopWakeup \<Rightarrow> Inr (handleRead_loop w)
      | _ \<Rightarrow> Inl UndefinedBehaviour)"

definition run_conn :: "'w net_user \<Rightarrow> int \<Rightarrow> net_functor \<Rightarrow> 'w net_world \<Rightarrow> 'w net_world outcome" where
  "run_conn u tid f w =
     (case f of
        ShutdownInLoop i \<Rightarrow> shutdownInLoop tid i w
      | ForceCloseInLoop i \<Rightarrow> forceCloseInLoop u tid i w
      | WriteComplete i \<Rightarrow> (case nu_writeComplete u of None \<Rightarrow> Inl UndefinedBehaviour | Some cb \<Rightarrow> cb i w)
      | StartReadInLoop i \<Rightarrow> startReadInLoop tid i w
      | StopReadInLoop i \<Rightarrow> stopReadInLoop tid i w
      | ConnectEstablished i \<Rightarrow> connectEstablished u tid i w
      | ConnectDestroyed i \<Rightarrow> connectDestroyed i w
      | _ \<Rightarrow> Inl UndefinedBehaviour)"

section \<open>A connection and its environment\<close>

text \<open>
  The default callbacks, observed: the connection callback tells up from down, the message
  callback takes everything out of the input buffer, the close callback is the server's.
\<close>

datatype conn_trace = TUp | TDown | TData string | TClosed

type_synonym traced = "conn_trace list net_world"

definition add_trace :: "conn_trace \<Rightarrow> traced \<Rightarrow> traced" where
  "add_trace e w = w\<lparr>nw_rest := nw_rest w @ [e]\<rparr>"

definition trace_connection :: "nat \<Rightarrow> traced \<Rightarrow> traced outcome" where
  "trace_connection i w = with_conn i (\<lambda>c. Inr (add_trace (if connected c then TUp else TDown) w)) w"

definition trace_message :: "nat \<Rightarrow> timestamp \<Rightarrow> traced \<Rightarrow> traced outcome" where
  "trace_message i t w = with_conn i (\<lambda>c.
     bind_out (retrieveAllAsString (tc_inputBuffer c)) (\<lambda>(s, b).
       Inr (add_trace (TData s) (put_conn i (c\<lparr>tc_inputBuffer := b\<rparr>) w)))) w"

definition trace_user :: "conn_trace list net_user" where
  "trace_user = \<lparr>nu_connection = trace_connection, nu_message = trace_message, nu_writeComplete = None,
     nu_close = (\<lambda>i w. Inr (add_trace TClosed w))\<rparr>"

text \<open>What happens to a connection: reported events, calls of its user, the loop's functors.\<close>

datatype conn_event = EvEvents "32 word" timestamp | EvSend string | EvShutdown | EvForceClose | EvPending
  | EvStartRead | EvStopRead

definition conn_events :: "nat \<Rightarrow> 32 word \<Rightarrow> timestamp \<Rightarrow> traced \<Rightarrow> traced outcome" where
  "conn_events i r t w =
     with_conn i (\<lambda>c. let a = tc_channel c; tid = el_threadId w in
       bind_out (deref (el_poller w) a) (\<lambda>ch.
         handleEvent (loop_chan a) (loop_chan_upd a) (call_conn trace_user tid) (call_read_conn trace_user tid) t
           (loop_chan_upd a (set_revents r ch) w))) w"

fun conn_step :: "nat \<Rightarrow> traced \<Rightarrow> conn_event \<Rightarrow> traced outcome" where
  "conn_step i w (EvEvents r t) = conn_events i r t w"
| "conn_step i w (EvSend msg) = send trace_user (el_threadId w) msg i w"
| "conn_step i w EvShutdown = shutdown (el_threadId w) i w"
| "conn_step i w EvForceClose = forceClose (el_threadId w) i w"
| "conn_step i w EvPending = doPendingFunctors (run_conn trace_user (el_threadId w)) w"
| "conn_step i w EvStartRead = startRead (el_threadId w) i w"
| "conn_step i w EvStopRead = stopRead (el_threadId w) i w"

text \<open>
  The contract of the environment. The kernel reports readable, error, hang-up and invalid
  descriptor, and only while the channel asks for events; a read does not fail and fits; a
  write takes a prefix or would block; reading is not restarted on a closed connection.
\<close>

definition conn_env :: "nat \<Rightarrow> traced \<Rightarrow> conn_event \<Rightarrow> bool" where
  "conn_env i w e =
     (case nw_conns w i of None \<Rightarrow> False | Some c \<Rightarrow>
      (case pl_heap (el_poller w) (tc_channel c) of None \<Rightarrow> False | Some ch \<Rightarrow>
       (case e of
          EvEvents r t \<Rightarrow> isReading ch
            \<and> \<not> has_bits r POLLPRI \<and> \<not> has_bits r POLLRDHUP \<and> \<not> has_bits r POLLOUT
            \<and> (has_bits r POLLIN \<longrightarrow>
                 (case sk_reads c (sk_nreads c) of ReadError e \<Rightarrow> False
                  | ReadBytes bs \<Rightarrow> length bs \<le> readv_capacity (tc_inputBuffer c)
                      \<and> room_for (writableBytes (tc_inputBuffer c) + kExtraBuf) (tc_inputBuffer c)))
        | EvSend msg \<Rightarrow> (case sk_writes c (sk_nwrites c) of Wrote n \<Rightarrow> n \<le> length msg \<and> length msg \<le> max_size
            | WriteError e \<Rightarrow> e = EWOULDBLOCK)
        | EvStartRead \<Rightarrow> tc_state c \<noteq> kDisconnected
        | EvStopRead \<Rightarrow> tc_state c \<noteq> kDisconnected
        | _ \<Rightarrow> True)))"

definition reads_of :: "tcp_connection \<Rightarrow> string list" where
  "reads_of c = map (\<lambda>k. case sk_reads c k of ReadBytes bs \<Rightarrow> bs | ReadError e \<Rightarrow> []) [0..<sk_nreads c]"

definition trace_of :: "tcp_connection \<Rightarrow> conn_trace list" where
  "trace_of c = TUp # map TData (filter (\<lambda>b. b \<noteq> []) (reads_of c))
     @ (if tc_state c = kDisconnected then [TDown, TClosed] else [])"

definition conn_ok :: "nat \<Rightarrow> traced \<Rightarrow> tcp_connection \<Rightarrow> net_callback channel \<Rightarrow> bool" where
  "conn_ok i w c ch \<longleftrightarrow>
     poller_inv (el_poller w) \<and> nw_conns w i = Some c
     \<and> pl_heap (el_poller w) (tc_channel c) = Some ch \<and> registered (el_poller w) (tc_channel c)
     \<and> ch_readCallback ch = Some (ConnRead i) \<and> ch_writeCallback ch = Some (ConnWrite i)
     \<and> ch_closeCallback ch = Some (ConnClose i) \<and> ch_errorCallback ch = Some (ConnError i)
     \<and> \<not> isWriting ch \<and> (tc_state c = kDisconnected \<longrightarrow> \<not> isReading ch) \<and> tc_state c \<noteq> kConnecting
     \<and> buffer_inv (tc_inputBuffer c) \<and> bytes_of (tc_inputBuffer c) = []
     \<and> buffer_inv (tc_outputBuffer c) \<and> bytes_of (tc_outputBuffer c) = []
     \<and> 0 \<le> sk_shutdownResult c
     \<and> set (el_pendingFunctors w) \<subseteq> {ForceCloseInLoop i} \<and> nw_rest w = trace_of c"

definition conn_inv :: "nat \<Rightarrow> traced \<Rightarrow> bool" where
  "conn_inv i w \<longleftrightarrow> (\<exists>c ch. conn_ok i w c ch)"

section \<open>Handlers stay in place\<close>

text \<open>No operation of a connection touches the received events or the callbacks of a channel.\<close>

named_theorems keeps_intros \<open>results that keep the handlers of all channels\<close>

definition keeps_handlers :: "'w net_world \<Rightarrow> 'w net_world \<Rightarrow> bool" where
  "keeps_handlers w w' \<longleftrightarrow> (\<forall>c ch. pl_heap (el_poller w) c = Some ch \<longrightarrow>
     (\<exists>d. pl_heap (el_poller w') c = Some d \<and> same_handlers ch d))"

definition keeps :: "'w net_world \<Rightarrow> 'w net_world outcome \<Rightarrow> bool" where
  "keeps w m \<longleftrightarrow> (\<forall>w'. m = Inr w' \<longrightarrow> keeps_handlers w w')"

lemma same_handlers_refl [simp]: "same_handlers c c"
  by (simp add: same_handlers_def)

lemma keeps_handlers_refl [simp]: "keeps_handlers w w"
  by (simp add: keeps_handlers_def)

lemma keeps_handlers_trans: "keeps_handlers w w' \<Longrightarrow> keeps_handlers w' w'' \<Longrightarrow> keeps_handlers w w''"
  unfolding keeps_handlers_def same_handlers_def by fastforce

lemma keeps_handlers_poller: "el_poller w' = el_poller w \<Longrightarrow> keeps_handlers w w'"
  by (simp add: keeps_handlers_def)

lemma keeps_Inl [keeps_intros]: "keeps w (Inl e)"
  by (simp add: keeps_def)

lemma keeps_Inr [keeps_intros]: "keeps_handlers w w' \<Longrightarrow> keeps w (Inr w')"
  by (simp add: keeps_def)

lemma keeps_bind [keeps_intros]:
  assumes "keeps w m" and "\<And>w'. keeps w' (f w')"
  shows "keeps w (bind_out m f)"
  using assms by (cases m) (auto simp: keeps_def dest: keeps_handlers_trans)

lemma keeps_start: "keeps_handlers w w' \<Longrightarrow> keeps w' m \<Longrightarrow> keeps w m"
  by (auto simp: keeps_def dest: keeps_handlers_trans)

lemma keeps_if [keeps_intros]: "(b \<Longrightarrow> keeps w m) \<Longrightarrow> (\<not> b \<Longrightarrow> keeps w m') \<Longrightarrow> keeps w (if b then m else m')"
  by simp

lemma keeps_asserting [keeps_intros]: "keeps w m \<Longrightarrow> keeps w (asserting b m)"
  by (simp add: asserting_def keeps_def)

lemma keeps_with_conn [keeps_intros]: "(\<And>c. keeps w (f c)) \<Longrightarrow> keeps w (with_conn i f w)"
  by (simp add: with_conn_def keeps_def split: option.splits)

lemma keeps_with_channel [keeps_intros]: "(\<And>ch. keeps w (f ch)) \<Longrightarrow> keeps w (with_channel i f w)"
  by (auto simp: with_channel_def with_conn_def keeps_def deref_def bind_out_def split: option.splits)

lemma put_conn_poller [simp]: "el_poller (put_conn i c w) = el_poller w"
  by (simp add: put_conn_def)

lemma keeps_put_conn [keeps_intros]: "keeps_handlers w (put_conn i c w)"
  by (rule keeps_handlers_poller) simp

lemma keeps_loop_ops [keeps_intros]:
  "keeps w (assertInLoopThread tid w)" "keeps_handlers w (queueInLoop tid f w)"
  by (simp_all add: assertInLoopThread_def abortNotInLoopThread_def keeps_def keeps_handlers_def queueInLoop_def
      push_functor_def wakeup_def Let_def)

lemma keeps_runInLoop [keeps_intros]: "keeps w (run f w) \<Longrightarrow> keeps w (runInLoop run tid f w)"
  by (auto simp: runInLoop_def intro: keeps_intros)

lemma updateChannel_poller_heap:
  "updateChannel_poller c p = Inr p' \<Longrightarrow> pl_heap p d = Some ch \<Longrightarrow> \<exists>dh. pl_heap p' d = Some dh \<and> same_handlers ch dh"
  by (auto simp: updateChannel_poller_def deref_def bind_out_def Let_def set_index_def same_handlers_def
      defined_if_eq_Inr split: option.splits if_splits)

lemma keeps_change_channel [keeps_intros]: "keeps w (change_channel k i w)"
  unfolding change_channel_def
proof (rule keeps_with_conn)
  fix c
  show "keeps w (channel_change k (tc_channel c) w)"
    unfolding keeps_def
  proof (intro allI impI)
    fix w' assume "channel_change k (tc_channel c) w = Inr w'"
    then obtain ch p where ch: "pl_heap (el_poller w) (tc_channel c) = Some ch"
        and p: "updateChannel_poller (tc_channel c) (store (tc_channel c) (change k ch) (el_poller w)) = Inr p"
          "w' = w\<lparr>el_poller := p\<rparr>"
      by (auto simp: channel_change_def updateChannel_def deref_def bind_out_def split: option.splits sum.splits)
    show "keeps_handlers w w'"
      unfolding keeps_handlers_def
    proof (intro allI impI)
      fix d dh assume d: "pl_heap (el_poller w) d = Some dh"
      show "\<exists>eh. pl_heap (el_poller w') d = Some eh \<and> same_handlers dh eh"
      proof (cases "d = tc_channel c")
        case True
        then obtain eh where "pl_heap p d = Some eh" "same_handlers (change k ch) eh"
          using updateChannel_poller_heap [OF p(1), of d "change k ch"] by auto
        then show ?thesis
          using True ch d p(2) change_simps(5) [of ch k] by (auto simp: same_handlers_def)
      next
        case False
        then show ?thesis using updateChannel_poller_heap [OF p(1), of d dh] d p(2) by auto
      qed
    qed
  qed
qed

lemma keeps_setState [keeps_intros]: "keeps w (setState s i w)"
  by (auto simp: setState_def intro!: keeps_intros)

lemma keeps_sys_write [keeps_intros]:
  "(\<And>res w'. keeps_handlers w w' \<Longrightarrow> keeps w (f (res, w'))) \<Longrightarrow> keeps w (bind_out (sys_write i msg w) f)"
  by (auto simp: sys_write_def with_conn_def Let_def keeps_Inl keeps_put_conn split: option.splits)

lemma keeps_shutdownInLoop [keeps_intros]: "keeps w (shutdownInLoop tid i w)"
  by (auto simp: shutdownInLoop_def shutdownWrite_def intro!: keeps_intros)

lemma keeps_chan:
  assumes "keeps w m" and "loop_chan c w = Inr ch" and "m = Inr w'"
  shows "\<exists>d. loop_chan c w' = Inr d \<and> same_handlers ch d"
proof -
  have "pl_heap (el_poller w) c = Some ch"
    using assms(2) by (auto simp: loop_chan_def deref_def split: option.splits)
  then obtain d where "pl_heap (el_poller w') c = Some d" "same_handlers ch d"
    using assms(1,3) by (auto simp: keeps_def keeps_handlers_def)
  then show ?thesis by (simp add: loop_chan_def)
qed

text \<open>The contract of a server with its connections: its callbacks keep the handlers in place.\<close>

locale net_client =
  fixes u :: "'w net_user" and tid :: int
  assumes connection_keeps: "keeps w (nu_connection u i w)"
    and message_keeps: "keeps w (nu_message u i t w)"
    and complete_keeps: "nu_writeComplete u = Some cb \<Longrightarrow> keeps w (cb i w)"
    and close_keeps: "keeps w (nu_close u i w)"
begin

lemma keeps_write_complete: "keeps w (run_write_complete u tid i w)"
  unfolding run_write_complete_def
  by (cases "nu_writeComplete u") (simp_all add: keeps_Inr keeps_runInLoop complete_keeps)

lemma keeps_handleClose: "keeps w (handleClose u tid i w)"
  unfolding handleClose_def by (intro keeps_intros connection_keeps close_keeps)

lemma keeps_handleRead: "keeps w (handleRead u tid i t w)"
  unfolding handleRead_def
proof (intro keeps_intros)
  fix c :: tcp_connection and w :: "'w net_world"
  let ?m = "readFd (sk_reads c (sk_nreads c)) (tc_inputBuffer c)"
  let ?w = "\<lambda>buf. put_conn i (c\<lparr>tc_inputBuffer := buf, sk_nreads := sk_nreads c + 1\<rparr>) w"
  show "keeps w (bind_out ?m (\<lambda>(n, savedErrno, buf).
      let w = ?w buf in if 0 < n then nu_message u i t w else if n = 0 then handleClose u tid i w else Inl Aborted))"
  proof (cases ?m)
    case (Inl e)
    then show ?thesis by (simp add: keeps_Inl)
  next
    case (Inr r)
    obtain n e buf where r: "r = (n, e, buf)" by (cases r)
    show ?thesis
      unfolding Inr r Let_def bind_out_simps prod.case
      using keeps_start [OF keeps_put_conn message_keeps] keeps_start [OF keeps_put_conn keeps_handleClose]
      by (simp add: keeps_Inl)
  qed
qed

lemma keeps_handleWrite: "keeps w (handleWrite u tid i w)"
proof -
  have fin: "keeps w (bind_out (change_channel DisableWriting i w) (\<lambda>w.
      bind_out (run_write_complete u tid i w) (\<lambda>w.
      with_conn i (\<lambda>c. if tc_state c = kDisconnecting then shutdownInLoop tid i w else Inr w) w)))"
    for w :: "'w net_world"
    by (intro keeps_intros keeps_write_complete keeps_handlers_refl)
  have wrote: "keeps w (with_conn i (\<lambda>c. bind_out (retrieve n (tc_outputBuffer c)) (\<lambda>buf.
      let w = put_conn i (c\<lparr>tc_outputBuffer := buf\<rparr>) w in
      if readableBytes buf = 0
      then bind_out (change_channel DisableWriting i w) (\<lambda>w.
           bind_out (run_write_complete u tid i w) (\<lambda>w.
           with_conn i (\<lambda>c. if tc_state c = kDisconnecting then shutdownInLoop tid i w else Inr w) w))
      else Inr w)) w)" for n and w :: "'w net_world"
  proof (rule keeps_with_conn)
    fix c :: tcp_connection
    show "keeps w (bind_out (retrieve n (tc_outputBuffer c)) (\<lambda>buf.
      let w = put_conn i (c\<lparr>tc_outputBuffer := buf\<rparr>) w in
      if readableBytes buf = 0
      then bind_out (change_channel DisableWriting i w) (\<lambda>w.
           bind_out (run_write_complete u tid i w) (\<lambda>w.
           with_conn i (\<lambda>c. if tc_state c = kDisconnecting then shutdownInLoop tid i w else Inr w) w))
      else Inr w))"
      by (cases "retrieve n (tc_outputBuffer c)")
        (auto simp: Let_def keeps_Inl intro: keeps_start [OF keeps_put_conn] keeps_Inr keeps_put_conn fin)
  qed
  show ?thesis
    unfolding handleWrite_def
  proof (intro keeps_intros keeps_handlers_refl)
    fix c :: tcp_connection and w :: "'w net_world"
    let ?b = "tc_outputBuffer c"
    show "keeps w (bind_out (read_bytes (peek ?b) (readableBytes ?b) ?b) (\<lambda>msg.
        bind_out (sys_write i msg w) (\<lambda>(res, w). case res of
            Wrote n \<Rightarrow> if 0 < n then with_conn i (\<lambda>c. bind_out (retrieve n (tc_outputBuffer c)) (\<lambda>buf.
              let w = put_conn i (c\<lparr>tc_outputBuffer := buf\<rparr>) w in
              if readableBytes buf = 0
              then bind_out (change_channel DisableWriting i w) (\<lambda>w.
                   bind_out (run_write_complete u tid i w) (\<lambda>w.
                   with_conn i (\<lambda>c. if tc_state c = kDisconnecting then shutdownInLoop tid i w else Inr w) w))
              else Inr w)) w
              else Inl Aborted
          | WriteError e \<Rightarrow> Inl Aborted)))"
      by (cases "read_bytes (peek ?b) (readableBytes ?b) ?b")
        (auto intro!: keeps_sys_write simp: keeps_Inl split: write_result.split intro: keeps_start [OF _ wrote])
  qed
qed

lemma keeps_call: "keeps w (call_conn u tid f w)" "keeps w (call_read_conn u tid f t w)"
  by (auto simp: call_conn_def call_read_conn_def handleError_def handleRead_loop_def
      intro!: keeps_handleWrite keeps_handleClose keeps_handleRead keeps_intros keeps_handlers_poller
      split: net_callback.split)

end

sublocale net_client \<subseteq> conch: channel_world "loop_chan c" "loop_chan_upd c" "call_conn u tid" "call_read_conn u tid"
proof
  fix w w' :: "'w net_world" and ch d f t
  show "loop_chan c w = Inr ch \<Longrightarrow> loop_chan c (loop_chan_upd c d w) = Inr d"
    by (simp add: loop_chan_def loop_chan_upd_def)
  show "loop_chan c w = Inr ch \<Longrightarrow> call_conn u tid f w = Inr w' \<Longrightarrow> \<exists>d. loop_chan c w' = Inr d \<and> same_handlers ch d"
    using keeps_call(1) [of w f] by (rule keeps_chan)
  show "loop_chan c w = Inr ch \<Longrightarrow> call_read_conn u tid f t w = Inr w' \<Longrightarrow> \<exists>d. loop_chan c w' = Inr d \<and> same_handlers ch d"
    using keeps_call(2) [of w f t] by (rule keeps_chan)
qed

interpretation trc: net_client trace_user tid for tid
proof
  fix w :: traced and i t cb
  show "keeps w (nu_connection trace_user i w)"
    by (auto simp: trace_user_def trace_connection_def add_trace_def intro!: keeps_intros keeps_handlers_poller)
  show "keeps w (nu_message trace_user i t w)"
    by (auto simp: trace_user_def trace_message_def add_trace_def bind_out_def keeps_def with_conn_def
        intro!: keeps_handlers_poller split: sum.splits option.splits)
  show "nu_writeComplete trace_user = Some cb \<Longrightarrow> keeps w (cb i w)" by (simp add: trace_user_def)
  show "keeps w (nu_close trace_user i w)"
    by (auto simp: trace_user_def add_trace_def intro!: keeps_intros keeps_handlers_poller)
qed

section \<open>Every event keeps the connection consistent\<close>

lemma assertInLoopThread_id [simp]: "assertInLoopThread tid w = Inr w"
  by (simp add: assertInLoopThread_def abortNotInLoopThread_def)

lemma put_conn_simps [simp]:
  "nw_conns (put_conn i c w) = (nw_conns w)(i \<mapsto> c)" "nw_rest (put_conn i c w) = nw_rest w"
  "el_threadId (put_conn i c w) = el_threadId w" "el_pendingFunctors (put_conn i c w) = el_pendingFunctors w"
  "el_callingPendingFunctors (put_conn i c w) = el_callingPendingFunctors w" "el_quit (put_conn i c w) = el_quit w"
  by (simp_all add: put_conn_def)

lemma with_conn_Some [simp]: "nw_conns w i = Some c \<Longrightarrow> with_conn i f w = f c"
  by (simp add: with_conn_def)

lemma add_trace_simps [simp]:
  "nw_conns (add_trace e w) = nw_conns w" "nw_rest (add_trace e w) = nw_rest w @ [e]"
  "el_threadId (add_trace e w) = el_threadId w" "el_pendingFunctors (add_trace e w) = el_pendingFunctors w"
  "el_poller (add_trace e w) = el_poller w"
  by (simp_all add: add_trace_def)

lemma conn_ok_channel:
  "conn_ok i w c ch \<Longrightarrow> with_channel i f w = f ch"
  by (simp add: conn_ok_def with_channel_def)

lemma change_channel_ok:
  assumes "poller_inv (el_poller w)" and "nw_conns w i = Some c"
    and "pl_heap (el_poller w) (tc_channel c) = Some ch" and "registered (el_poller w) (tc_channel c)"
  shows "\<exists>p. change_channel k i w = Inr (w\<lparr>el_poller := p\<rparr>) \<and> poller_inv p
    \<and> pl_heap p (tc_channel c) = Some (change k ch) \<and> registered p (tc_channel c)
    \<and> pl_heap p = (pl_heap (el_poller w))(tc_channel c \<mapsto> change k ch) \<and> pl_channels p = pl_channels (el_poller w)"
proof -
  obtain p where p: "updateChannel_poller (tc_channel c) (store (tc_channel c) (change k ch) (el_poller w)) = Inr p"
      "poller_inv p" "pl_heap p = (pl_heap (el_poller w))(tc_channel c \<mapsto> change k ch)"
      "pl_channels p = pl_channels (el_poller w)"
    using update_registered [OF assms(1,3,4), of "change k ch"] by auto
  then have "registered p (tc_channel c)" using assms(3,4) by (simp add: registered_def)
  then show ?thesis
    using p assms(2,3) by (intro exI [of _ p]) (simp add: change_channel_def channel_change_def updateChannel_def)
qed

lemma handleClose_ok:
  assumes "conn_ok i w c ch" and "tc_state c = kConnected \<or> tc_state c = kDisconnecting"
  shows "\<exists>w' ch'. handleClose trace_user tid i w = Inr w' \<and> conn_ok i w' (c\<lparr>tc_state := kDisconnected\<rparr>) ch'
    \<and> el_threadId w' = el_threadId w"
proof -
  let ?c = "c\<lparr>tc_state := kDisconnected\<rparr>"
  let ?w = "put_conn i ?c w"
  have conn: "nw_conns w i = Some c" using assms(1) by (simp add: conn_ok_def)
  obtain p where p: "change_channel DisableAll i ?w = Inr (?w\<lparr>el_poller := p\<rparr>)" "poller_inv p"
      "pl_heap p (tc_channel c) = Some (change DisableAll ch)" "registered p (tc_channel c)"
    using change_channel_ok [of ?w i ?c ch DisableAll] assms(1) by (auto simp: conn_ok_def)
  let ?w' = "add_trace TClosed (add_trace TDown (?w\<lparr>el_poller := p\<rparr>))"
  have "handleClose trace_user tid i w = Inr ?w'"
    using conn assms(2) p(1)
    by (simp add: handleClose_def setState_def trace_user_def trace_connection_def connected_def)
  moreover have "trace_of ?c = trace_of c @ [TDown, TClosed]"
    using assms(2) by (auto simp: trace_of_def reads_of_def)
  ultimately show ?thesis
    using assms(1) p(2-) change_simps(5) [of ch DisableAll]
    by (intro exI [of _ ?w'] exI [of _ "change DisableAll ch"]) (auto simp: conn_ok_def same_handlers_def)
qed

text \<open>The connection record changed in ways the invariant does not see.\<close>

lemma conn_ok_put:
  assumes "conn_ok i w c ch" and "tc_channel c' = tc_channel c"
    and "tc_state c' = kDisconnected \<longrightarrow> \<not> isReading ch" and "tc_state c' \<noteq> kConnecting"
    and "tc_inputBuffer c' = tc_inputBuffer c" and "tc_outputBuffer c' = tc_outputBuffer c"
    and "sk_shutdownResult c' = sk_shutdownResult c" and "trace_of c' = trace_of c"
  shows "conn_ok i (put_conn i c' w) c' ch"
  using assms by (simp add: conn_ok_def)

lemma reads_of_next:
  "sk_reads c (sk_nreads c) = ReadBytes bs \<Longrightarrow>
   reads_of (c\<lparr>tc_inputBuffer := b, sk_nreads := sk_nreads c + 1\<rparr>) = reads_of c @ [bs]"
  by (simp add: reads_of_def)

lemma handleRead_ok:
  assumes "conn_ok i w c ch" and "tc_state c = kConnected \<or> tc_state c = kDisconnecting"
    and "sk_reads c (sk_nreads c) = ReadBytes bs" and "length bs \<le> readv_capacity (tc_inputBuffer c)"
    and "room_for (writableBytes (tc_inputBuffer c) + kExtraBuf) (tc_inputBuffer c)"
  shows "\<exists>w' c' ch'. handleRead trace_user tid i t w = Inr w' \<and> conn_ok i w' c' ch'
    \<and> el_threadId w' = el_threadId w \<and> tc_channel c' = tc_channel c"
proof -
  have conn: "nw_conns w i = Some c" and inv: "buffer_inv (tc_inputBuffer c)" and empty: "bytes_of (tc_inputBuffer c) = []"
    using assms(1) by (simp_all add: conn_ok_def)
  obtain b where b: "readFd (ReadBytes bs) (tc_inputBuffer c) = Inr (int (length bs), None, b)" "buffer_inv b" "bytes_of b = bs"
    using readFd_spec [OF inv assms(4,5)] empty by auto
  let ?c = "c\<lparr>tc_inputBuffer := b, sk_nreads := sk_nreads c + 1\<rparr>"
  have reads: "reads_of ?c = reads_of c @ [bs]" by (rule reads_of_next [OF assms(3)])
  show ?thesis
  proof (cases "bs = []")
    case True
    then have "conn_ok i (put_conn i ?c w) ?c ch"
      using assms(1) b(2,3) reads by (simp add: conn_ok_def trace_of_def)
    then obtain w' ch' where "handleClose trace_user tid i (put_conn i ?c w) = Inr w'"
        "conn_ok i w' (?c\<lparr>tc_state := kDisconnected\<rparr>) ch'" "el_threadId w' = el_threadId w"
      using handleClose_ok [of i "put_conn i ?c w" ?c ch tid] assms(2) by auto
    then show ?thesis
      using True conn b(1) assms(3)
      by (intro exI [of _ w'] exI [of _ "?c\<lparr>tc_state := kDisconnected\<rparr>"] exI [of _ ch']) (simp add: handleRead_def Let_def)
  next
    case False
    obtain b' where b': "retrieveAllAsString b = Inr (bs, b')" "buffer_inv b'" "bytes_of b' = []"
      using retrieveAllAsString_spec [OF b(2)] b(3) by auto
    let ?c' = "?c\<lparr>tc_inputBuffer := b'\<rparr>"
    let ?w' = "add_trace (TData bs) (put_conn i ?c' (put_conn i ?c w))"
    have "handleRead trace_user tid i t w = Inr ?w'"
      using False conn b(1) assms(3) b'(1)
      by (simp add: handleRead_def Let_def trace_user_def trace_message_def)
    moreover have "reads_of ?c' = reads_of c @ [bs]" using reads by (simp add: reads_of_def)
    then have "trace_of ?c' = trace_of c @ [TData bs]" using False assms(2) by (auto simp: trace_of_def)
    then have "conn_ok i ?w' ?c' ch" using assms(1) b'(2,3) by (simp add: conn_ok_def)
    ultimately show ?thesis by (intro exI [of _ ?w'] exI [of _ ?c'] exI [of _ ch]) simp
  qed
qed

text \<open>Marking the channel, as the dispatcher does before and after the callbacks.\<close>

lemma conn_ok_mark:
  assumes "conn_ok i w c ch" and "same_handlers ch ch' \<or> (\<exists>r. ch' = set_revents r ch)"
    and "ch_fd ch' = ch_fd ch" and "ch_index ch' = ch_index ch" and "ch_events ch' = ch_events ch"
  shows "conn_ok i (loop_chan_upd (tc_channel c) ch' w) c ch'"
proof -
  have "poller_inv (store (tc_channel c) ch' (el_poller w))"
    using assms(1,3-5) by (intro inv_store_same [of _ _ ch]) (simp_all add: conn_ok_def)
  then show ?thesis
    using assms
    by (auto simp: conn_ok_def loop_chan_upd_def isWriting_def isReading_def same_handlers_def set_revents_def
        registered_heap)
qed

lemma event_calls_conn:
  assumes "conn_ok i w c ch" and "\<not> has_bits (ch_revents ch) POLLPRI" and "\<not> has_bits (ch_revents ch) POLLRDHUP"
    and "\<not> has_bits (ch_revents ch) POLLOUT"
  shows "event_calls ch =
    (if has_bits (ch_revents ch) POLLHUP \<and> \<not> has_bits (ch_revents ch) POLLIN then [PlainCall (ConnClose i)] else [])
    @ (if error_ready (ch_revents ch) then [PlainCall (ConnError i)] else [])
    @ (if has_bits (ch_revents ch) POLLIN then [ReadCall (ConnRead i)] else [])"
  using assms
  by (simp add: event_calls_def selected_def close_ready_def read_ready_def write_ready_def has_bits_or conn_ok_def)

lemma handleError_id [simp]: "nw_conns w i = Some c \<Longrightarrow> handleError i w = Inr w"
  by (simp add: handleError_def)

lemma conn_ok_open: "conn_ok i w c ch \<Longrightarrow> isReading ch \<Longrightarrow> tc_state c = kConnected \<or> tc_state c = kDisconnecting"
  by (cases "tc_state c") (auto simp: conn_ok_def)

lemma run_calls_ok:
  assumes ok: "conn_ok i w c ch" and reading: "isReading ch"
    and bits: "\<not> has_bits (ch_revents ch) POLLPRI" "\<not> has_bits (ch_revents ch) POLLRDHUP" "\<not> has_bits (ch_revents ch) POLLOUT"
    and read: "has_bits (ch_revents ch) POLLIN \<Longrightarrow> sk_reads c (sk_nreads c) = ReadBytes bs
      \<and> length bs \<le> readv_capacity (tc_inputBuffer c)
      \<and> room_for (writableBytes (tc_inputBuffer c) + kExtraBuf) (tc_inputBuffer c)"
  shows "\<exists>w' c' ch'. run_events (run_call (call_conn trace_user tid) (call_read_conn trace_user tid) t) w (event_calls ch) = Inr w'
    \<and> conn_ok i w' c' ch' \<and> tc_channel c' = tc_channel c \<and> el_threadId w' = el_threadId w"
proof -
  note calls = event_calls_conn [OF ok bits]
  have conn: "nw_conns w i = Some c" using ok by (simp add: conn_ok_def)
  note st = conn_ok_open [OF ok reading]
  consider (rd) "has_bits (ch_revents ch) POLLIN"
    | (hup) "has_bits (ch_revents ch) POLLHUP" "\<not> has_bits (ch_revents ch) POLLIN"
    | (none) "\<not> has_bits (ch_revents ch) POLLHUP" "\<not> has_bits (ch_revents ch) POLLIN" by blast
  then show ?thesis
  proof cases
    case rd
    obtain w' c' ch' where w': "handleRead trace_user tid i t w = Inr w'" "conn_ok i w' c' ch'"
        "el_threadId w' = el_threadId w" "tc_channel c' = tc_channel c"
      using handleRead_ok [OF ok st, of bs tid t] read [OF rd] by blast
    have "run_events (run_call (call_conn trace_user tid) (call_read_conn trace_user tid) t) w (event_calls ch) = Inr w'"
      using rd w'(1) conn by (simp add: calls call_conn_def call_read_conn_def)
    then show ?thesis using w' by blast
  next
    case hup
    obtain w' ch' where w': "handleClose trace_user tid i w = Inr w'"
        "conn_ok i w' (c\<lparr>tc_state := kDisconnected\<rparr>) ch'" "el_threadId w' = el_threadId w"
      using handleClose_ok [OF ok st] by blast
    have "nw_conns w' i = Some (c\<lparr>tc_state := kDisconnected\<rparr>)" using w'(2) by (simp add: conn_ok_def)
    then have "run_events (run_call (call_conn trace_user tid) (call_read_conn trace_user tid) t) w (event_calls ch) = Inr w'"
      using hup w'(1) by (simp add: calls call_conn_def)
    moreover have "tc_channel (c\<lparr>tc_state := kDisconnected\<rparr>) = tc_channel c" by simp
    ultimately show ?thesis using w' by blast
  next
    case none
    then have "run_events (run_call (call_conn trace_user tid) (call_read_conn trace_user tid) t) w (event_calls ch) = Inr w"
      using conn by (simp add: calls call_conn_def)
    then show ?thesis using ok by blast
  qed
qed

lemma conn_events_ok:
  assumes ok: "conn_ok i w c ch" and env: "conn_env i w (EvEvents r t)"
  shows "\<exists>w' c' ch'. conn_events i r t w = Inr w' \<and> conn_ok i w' c' ch'"
proof -
  let ?a = "tc_channel c" and ?tid = "el_threadId w"
  let ?ch1 = "set_revents r ch"
  let ?ch2 = "?ch1\<lparr>ch_eventHandling := True\<rparr>"
  let ?w1 = "loop_chan_upd ?a ?ch1 w"
  let ?w2 = "loop_chan_upd ?a ?ch2 ?w1"
  have conn: "nw_conns w i = Some c" and heap: "pl_heap (el_poller w) ?a = Some ch"
    using ok by (simp_all add: conn_ok_def)
  have e: "isReading ch" "\<not> has_bits r POLLPRI" "\<not> has_bits r POLLRDHUP" "\<not> has_bits r POLLOUT"
    using env conn heap by (simp_all add: conn_env_def)
  have ok1: "conn_ok i ?w1 c ?ch1" using ok by (rule conn_ok_mark) (auto simp: set_revents_def)
  have ok2: "conn_ok i ?w2 c ?ch2" using ok1 by (rule conn_ok_mark) (simp_all add: same_handlers_def)
  have reading: "isReading ?ch2" using e(1) by (simp add: isReading_def set_revents_def)
  obtain bs where read: "has_bits r POLLIN \<Longrightarrow> sk_reads c (sk_nreads c) = ReadBytes bs
      \<and> length bs \<le> readv_capacity (tc_inputBuffer c)
      \<and> room_for (writableBytes (tc_inputBuffer c) + kExtraBuf) (tc_inputBuffer c)"
    using env conn heap by (cases "sk_reads c (sk_nreads c)") (auto simp: conn_env_def)
  have calls: "event_calls ?ch2 = event_calls ?ch1" by (simp add: event_calls_def)
  obtain w3 c3 ch3 where w3: "run_events (run_call (call_conn trace_user ?tid) (call_read_conn trace_user ?tid) t) ?w2 (event_calls ?ch1) = Inr w3"
      "conn_ok i w3 c3 ch3" "tc_channel c3 = ?a"
    using run_calls_ok [OF ok2 reading, of bs ?tid t] e read unfolding calls by (auto simp: set_revents_def)
  have "conn_events i r t w = set_handling (loop_chan ?a) (loop_chan_upd ?a) False w3"
    using conn heap w3(1) trc.conch.handleEvent_calls [of ?a ?w1 ?ch1 ?tid t]
    by (simp add: conn_events_def Let_def loop_chan_def loop_chan_upd_def)
  also have "\<dots> = Inr (loop_chan_upd ?a (ch3\<lparr>ch_eventHandling := False\<rparr>) w3)"
    using w3(2,3) by (simp add: set_handling_def loop_chan_def conn_ok_def)
  finally show ?thesis
    using conn_ok_mark [OF w3(2), of "ch3\<lparr>ch_eventHandling := False\<rparr>"] w3(3)
    by (auto simp: same_handlers_def)
qed

text \<open>What the state of the connection's output is, as the sending code sees it.\<close>

lemma no_write_complete [simp]: "nu_writeComplete trace_user = None"
  by (simp add: trace_user_def)

lemma conn_ok_idle: "conn_ok i w c ch \<Longrightarrow> readableBytes (tc_outputBuffer c) = 0"
  by (simp add: conn_ok_def readableBytes_length)

definition after_write :: "string \<Rightarrow> tcp_connection \<Rightarrow> tcp_connection" where
  "after_write msg c = c\<lparr>sk_nwrites := sk_nwrites c + 1,
     sk_sent := sk_sent c @ (case sk_writes c (sk_nwrites c) of Wrote n \<Rightarrow> take n msg | WriteError e \<Rightarrow> [])\<rparr>"

lemma send_result:
  assumes ok: "conn_ok i w c ch" and env: "conn_env i w (EvSend msg)"
  shows "send trace_user (el_threadId w) msg i w =
    Inr (if tc_state c = kConnected then put_conn i (after_write msg c) w else w)"
proof -
  have conn: "nw_conns w i = Some c" and heap: "pl_heap (el_poller w) (tc_channel c) = Some ch" "\<not> isWriting ch"
    using ok by (simp_all add: conn_ok_def)
  have "sys_write i msg w = Inr (sk_writes c (sk_nwrites c), put_conn i (after_write msg c) w)"
    using conn by (simp add: sys_write_def after_write_def Let_def)
  then show ?thesis
    using env conn heap conn_ok_idle [OF ok]
    by (auto simp: send_def sendInLoop_def isInLoopThread_def conn_env_def run_write_complete_def with_channel_def Let_def
        split: write_result.splits)
qed

lemma after_write_simps [simp]:
  "tc_channel (after_write msg c) = tc_channel c" "tc_state (after_write msg c) = tc_state c"
  "tc_inputBuffer (after_write msg c) = tc_inputBuffer c" "tc_outputBuffer (after_write msg c) = tc_outputBuffer c"
  "sk_shutdownResult (after_write msg c) = sk_shutdownResult c"
  by (simp_all add: after_write_def)

lemma trace_of_sk [simp]:
  "trace_of (after_write msg c) = trace_of c" "trace_of (c\<lparr>sk_shutdownWrite := b\<rparr>) = trace_of c"
  "trace_of (c\<lparr>tc_reading := b\<rparr>) = trace_of c"
  by (simp_all add: trace_of_def reads_of_def after_write_def)

lemma send_ok:
  assumes "conn_ok i w c ch" and "conn_env i w (EvSend msg)"
  shows "\<exists>w' c' ch'. conn_step i w (EvSend msg) = Inr w' \<and> conn_ok i w' c' ch'"
proof (cases "tc_state c = kConnected")
  case True
  then have "conn_ok i (put_conn i (after_write msg c) w) (after_write msg c) ch"
    by (intro conn_ok_put [OF assms(1)]) simp_all
  then show ?thesis using send_result [OF assms] True by auto
next
  case False
  then show ?thesis using send_result [OF assms] assms(1) by auto
qed

lemma shutdown_ok:
  assumes ok: "conn_ok i w c ch"
  shows "\<exists>w' c' ch'. conn_step i w EvShutdown = Inr w' \<and> conn_ok i w' c' ch'"
proof (cases "tc_state c = kConnected")
  case True
  let ?c = "c\<lparr>tc_state := kDisconnecting\<rparr>"
  have conn: "nw_conns w i = Some c" "\<not> isWriting ch" "0 \<le> sk_shutdownResult c" using ok by (simp_all add: conn_ok_def)
  have ok1: "conn_ok i (put_conn i ?c w) ?c ch"
    using True by (intro conn_ok_put [OF ok]) (auto simp: trace_of_def reads_of_def)
  have ok2: "conn_ok i (put_conn i (?c\<lparr>sk_shutdownWrite := True\<rparr>) (put_conn i ?c w)) (?c\<lparr>sk_shutdownWrite := True\<rparr>) ch"
    by (intro conn_ok_put [OF ok1]) simp_all
  have "conn_step i w EvShutdown = Inr (put_conn i (?c\<lparr>sk_shutdownWrite := True\<rparr>) (put_conn i ?c w))"
    using conn True
    by (simp add: conn_ok_channel [OF ok1] shutdown_def setState_def runInLoop_def isInLoopThread_def shutdownInLoop_def shutdownWrite_def)
  then show ?thesis using ok2 by blast
next
  case False
  then show ?thesis using ok by (auto simp: shutdown_def conn_ok_def)
qed

lemma forceClose_ok:
  assumes ok: "conn_ok i w c ch"
  shows "\<exists>w' c' ch'. conn_step i w EvForceClose = Inr w' \<and> conn_ok i w' c' ch'"
proof (cases "tc_state c = kConnected \<or> tc_state c = kDisconnecting")
  case True
  let ?c = "c\<lparr>tc_state := kDisconnecting\<rparr>"
  have ok1: "conn_ok i (put_conn i ?c w) ?c ch"
    using True by (intro conn_ok_put [OF ok]) (auto simp: trace_of_def reads_of_def)
  then have "conn_ok i (queueInLoop (el_threadId w) (ForceCloseInLoop i) (put_conn i ?c w)) ?c ch"
    by (simp add: conn_ok_def queueInLoop_def Let_def push_functor_def wakeup_def)
  moreover have "conn_step i w EvForceClose = Inr (queueInLoop (el_threadId w) (ForceCloseInLoop i) (put_conn i ?c w))"
    using True ok by (auto simp: forceClose_def setState_def conn_ok_def)
  ultimately show ?thesis by blast
next
  case False
  then show ?thesis using ok by (auto simp: forceClose_def conn_ok_def)
qed

lemma run_pending_ok:
  assumes "conn_ok i w c ch" and "set fs \<subseteq> {ForceCloseInLoop i}"
  shows "\<exists>w' c' ch'. run_functors (run_conn trace_user tid) fs w = Inr w' \<and> conn_ok i w' c' ch'"
  using assms
proof (induction fs arbitrary: w c ch)
  case Nil
  then show ?case by auto
next
  case (Cons f fs)
  then have f: "f = ForceCloseInLoop i" and fs: "set fs \<subseteq> {ForceCloseInLoop i}" by auto
  have conn: "nw_conns w i = Some c" using Cons.prems(1) by (simp add: conn_ok_def)
  show ?case
  proof (cases "tc_state c = kConnected \<or> tc_state c = kDisconnecting")
    case True
    obtain w1 ch1 where w1: "handleClose trace_user tid i w = Inr w1" "conn_ok i w1 (c\<lparr>tc_state := kDisconnected\<rparr>) ch1"
      using handleClose_ok [OF Cons.prems(1) True] by blast
    then have "run_conn trace_user tid f w = Inr w1"
      using True conn by (auto simp: run_conn_def f forceCloseInLoop_def)
    then show ?thesis using Cons.IH [OF w1(2) fs] by simp
  next
    case False
    then have "run_conn trace_user tid f w = Inr w"
      using conn by (simp add: run_conn_def f forceCloseInLoop_def)
    then show ?thesis using Cons.IH [OF Cons.prems(1) fs] by simp
  qed
qed

lemma pending_ok:
  assumes ok: "conn_ok i w c ch"
  shows "\<exists>w' c' ch'. conn_step i w EvPending = Inr w' \<and> conn_ok i w' c' ch'"
proof -
  let ?w = "w\<lparr>el_callingPendingFunctors := True, el_pendingFunctors := []\<rparr>"
  have ok1: "conn_ok i ?w c ch" using ok by (simp add: conn_ok_def)
  have fs: "set (el_pendingFunctors w) \<subseteq> {ForceCloseInLoop i}" using ok by (simp add: conn_ok_def)
  obtain w' c' ch' where w': "run_functors (run_conn trace_user (el_threadId w)) (el_pendingFunctors w) ?w = Inr w'"
      "conn_ok i w' c' ch'"
    using run_pending_ok [OF ok1 fs] by blast
  have "conn_step i w EvPending = Inr (w'\<lparr>el_callingPendingFunctors := False\<rparr>)"
    using w'(1) by (simp add: doPendingFunctors_def swap_functors_def)
  moreover have "conn_ok i (w'\<lparr>el_callingPendingFunctors := False\<rparr>) c' ch'" using w'(2) by (simp add: conn_ok_def)
  ultimately show ?thesis by blast
qed

lemma change_reading_ok:
  assumes ok: "conn_ok i w c ch" and "tc_state c \<noteq> kDisconnected" and "k = EnableReading \<or> k = DisableReading"
  shows "\<exists>w' c' ch'. bind_out (change_channel k i w) (\<lambda>w.
      with_conn i (\<lambda>c. Inr (put_conn i (c\<lparr>tc_reading := b\<rparr>) w)) w) = Inr w' \<and> conn_ok i w' c' ch'"
proof -
  have conn: "nw_conns w i = Some c" using ok by (simp add: conn_ok_def)
  obtain p where p: "change_channel k i w = Inr (w\<lparr>el_poller := p\<rparr>)" "poller_inv p"
      "pl_heap p (tc_channel c) = Some (change k ch)" "registered p (tc_channel c)"
    using change_channel_ok [of w i c ch k] ok by (auto simp: conn_ok_def)
  have "isWriting (change k ch) = isWriting ch" using assms(3) by auto
  then have "conn_ok i (w\<lparr>el_poller := p\<rparr>) c (change k ch)"
    using ok p(2-) assms(2) change_simps(5) [of ch k] by (auto simp: conn_ok_def same_handlers_def)
  then have "conn_ok i (put_conn i (c\<lparr>tc_reading := b\<rparr>) (w\<lparr>el_poller := p\<rparr>)) (c\<lparr>tc_reading := b\<rparr>) (change k ch)"
    using assms(2) by (intro conn_ok_put) (simp_all add: conn_ok_def)
  then show ?thesis using p(1) conn by (intro exI conjI) (simp, assumption)
qed

lemma startRead_ok:
  assumes ok: "conn_ok i w c ch" and "tc_state c \<noteq> kDisconnected"
  shows "\<exists>w' c' ch'. conn_step i w EvStartRead = Inr w' \<and> conn_ok i w' c' ch'"
    and "\<exists>w' c' ch'. conn_step i w EvStopRead = Inr w' \<and> conn_ok i w' c' ch'"
proof -
  have conn: "nw_conns w i = Some c" using ok by (simp add: conn_ok_def)
  note defs = startRead_def startReadInLoop_def stopRead_def stopReadInLoop_def runInLoop_def isInLoopThread_def
    conn_ok_channel [OF ok]
  show "\<exists>w' c' ch'. conn_step i w EvStartRead = Inr w' \<and> conn_ok i w' c' ch'"
    using conn ok change_reading_ok [OF ok assms(2), of EnableReading True] by (auto simp: defs)
  show "\<exists>w' c' ch'. conn_step i w EvStopRead = Inr w' \<and> conn_ok i w' c' ch'"
    using conn ok change_reading_ok [OF ok assms(2), of DisableReading False] by (auto simp: defs)
qed

lemma conn_step_ok:
  assumes "conn_inv i w" and "conn_env i w e"
  shows "\<exists>w'. conn_step i w e = Inr w' \<and> conn_inv i w'"
proof -
  obtain c ch where ok: "conn_ok i w c ch" using assms(1) by (auto simp: conn_inv_def)
  have conn: "nw_conns w i = Some c" "pl_heap (el_poller w) (tc_channel c) = Some ch" using ok by (simp_all add: conn_ok_def)
  have st: "e = EvStartRead \<or> e = EvStopRead \<Longrightarrow> tc_state c \<noteq> kDisconnected"
    using assms(2) conn by (auto simp: conn_env_def)
  have "\<exists>w' c' ch'. conn_step i w e = Inr w' \<and> conn_ok i w' c' ch'"
    using assms(2) conn_events_ok [OF ok] send_ok [OF ok] shutdown_ok [OF ok] forceClose_ok [OF ok] pending_ok [OF ok]
      startRead_ok [OF ok st]
    by (cases e) auto
  then show ?thesis by (auto simp: conn_inv_def)
qed

interpretation connsys: safe_system "conn_step i" "conn_env i" "conn_inv i" for i
proof
  fix w w' e
  assume *: "conn_inv i w" "conn_env i w e"
  show "\<exists>w'. conn_step i w e = Inr w'" using conn_step_ok [OF *] by blast
  show "conn_step i w e = Inr w' \<Longrightarrow> conn_inv i w'" using conn_step_ok [OF *] by auto
qed

section \<open>A new connection\<close>

text \<open>A new connection once it is established, and its channel.\<close>

definition established_conn :: "string \<Rightarrow> nat \<Rightarrow> (nat \<Rightarrow> read_result) \<Rightarrow> (nat \<Rightarrow> write_result) \<Rightarrow> int \<Rightarrow> tcp_connection" where
  "established_conn name a reads writes sr =
     \<lparr>tc_name = name, tc_state = kConnected, tc_reading = True, tc_channel = a,
      tc_inputBuffer = new_Buffer kInitialSize, tc_outputBuffer = new_Buffer kInitialSize,
      tc_context = HttpContext_ctor, sk_reads = reads, sk_nreads = 0, sk_writes = writes, sk_nwrites = 0,
      sk_sent = [], sk_shutdownResult = sr, sk_shutdownWrite = False\<rparr>"

definition conn_channel :: "nat \<Rightarrow> int \<Rightarrow> net_callback channel \<Rightarrow> bool" where
  "conn_channel i fd ch \<longleftrightarrow> ch_fd ch = fd \<and> ch_readCallback ch = Some (ConnRead i) \<and> ch_writeCallback ch = Some (ConnWrite i)
     \<and> ch_closeCallback ch = Some (ConnClose i) \<and> ch_errorCallback ch = Some (ConnError i) \<and> isReading ch \<and> \<not> isWriting ch"

text \<open>The channel of a connection that was constructed and not yet established.\<close>

definition new_channel :: "nat \<Rightarrow> net_callback channel \<Rightarrow> bool" where
  "new_channel i ch \<longleftrightarrow> ch_index ch = - 1 \<and> ch_events ch = 0 \<and> ch_readCallback ch = Some (ConnRead i)
     \<and> ch_writeCallback ch = Some (ConnWrite i) \<and> ch_closeCallback ch = Some (ConnClose i) \<and> ch_errorCallback ch = Some (ConnError i)"

lemma connection_established:
  assumes "poller_inv (el_poller w)" and "nw_conns w i = Some c" and "tc_state c = kConnecting"
    and "pl_heap (el_poller w) (tc_channel c) = Some ch" and "new_channel i ch" and "0 \<le> ch_fd ch"
    and "map_of (pl_channels (el_poller w)) (ch_fd ch) = None"
  shows "\<exists>p d. connectEstablished u tid i w
        = nu_connection u i (w\<lparr>el_poller := p, nw_conns := (nw_conns w)(i \<mapsto> c\<lparr>tc_state := kConnected\<rparr>)\<rparr>)
    \<and> poller_inv p \<and> pl_heap p = (pl_heap (el_poller w))(tc_channel c \<mapsto> d) \<and> registered p (tc_channel c) \<and> conn_channel i (ch_fd ch) d
    \<and> pl_channels p = map_put (ch_fd ch) (tc_channel c) (pl_channels (el_poller w))"
proof -
  define ch1 where "ch1 = change EnableReading (tie ch)"
  let ?a = "tc_channel c" and ?n = "int (length (pl_pollfds (el_poller w)))"
  have ch1: "ch_index ch1 = - 1" "conn_channel i (ch_fd ch) ch1"
    using assms(5)
    by (simp_all add: new_channel_def conn_channel_def ch1_def tie_def enableReading_def update_mark_def isReading_def isWriting_def
        has_bits_iff bit_events bit_or_iff)
  have "ch_index ch < 0" "ch_fd ch1 = ch_fd ch" "ch_index ch1 = ch_index ch"
    using assms(5) ch1 by (simp_all add: new_channel_def conn_channel_def)
  from update_new [OF assms(1,4) this(1) assms(6,7) this(2,3)] obtain p where p: "updateChannel_poller ?a (store ?a ch1 (el_poller w)) = Inr p"
      "poller_inv p" "pl_heap p = (pl_heap (el_poller w))(?a \<mapsto> set_index ?n ch1)" "pl_channels p = map_put (ch_fd ch) ?a (pl_channels (el_poller w))"
    by auto
  have fields: "w\<lparr>nw_conns := m, el_poller := p\<rparr> = w\<lparr>el_poller := p, nw_conns := m\<rparr>" for m by simp
  have "connectEstablished u tid i w = nu_connection u i (w\<lparr>el_poller := p, nw_conns := (nw_conns w)(i \<mapsto> c\<lparr>tc_state := kConnected\<rparr>)\<rparr>)"
    unfolding fields [symmetric] using p(1) assms(2-4)
    by (simp add: connectEstablished_def setState_def tie_channel_def change_channel_def channel_change_def updateChannel_def put_conn_def
        store_def ch1_def)
  moreover have "conn_channel i (ch_fd ch) (set_index ?n ch1)" using ch1(2) by (simp add: conn_channel_def set_index_def isReading_def isWriting_def)
  moreover have "registered p ?a" using p(3,4) ch1(2) by (simp add: registered_def map_of_map_put set_index_def conn_channel_def)
  ultimately show ?thesis using p by (intro exI [of _ p] exI [of _ "set_index ?n ch1"]) simp
qed

text \<open>The world after the constructor.\<close>

lemma TcpConnection_ctor_world:
  "\<exists>ch. new_channel i ch \<and> ch_fd ch = fd \<and> TcpConnection_ctor i a lh tied name fd reads writes sr w
     = w\<lparr>el_poller := store a ch (el_poller w),
         nw_conns := (nw_conns w)(i \<mapsto> (established_conn name a reads writes sr)\<lparr>tc_state := kConnecting\<rparr>)\<rparr>"
  by (rule exI [of _ "setErrorCallback (ConnError i) (setCloseCallback (ConnClose i) (setWriteCallback (ConnWrite i)
      (setReadCallback (ConnRead i) (Channel_ctor lh tied fd))))"])
    (simp add: TcpConnection_ctor_def Let_def put_conn_def established_conn_def new_channel_def setErrorCallback_def setCloseCallback_def
      setWriteCallback_def setReadCallback_def Channel_ctor_def)

lemma connection_up:
  assumes "poller_inv (el_poller w)" and "pl_heap (el_poller w) a = None" and "0 \<le> fd"
    and "map_of (pl_channels (el_poller w)) fd = None"
  shows "\<exists>p ch. connectEstablished u tid i (TcpConnection_ctor i a lh tied name fd reads writes sr w)
        = nu_connection u i (w\<lparr>el_poller := p, nw_conns := (nw_conns w)(i \<mapsto> established_conn name a reads writes sr)\<rparr>)
    \<and> poller_inv p \<and> pl_heap p = (pl_heap (el_poller w))(a \<mapsto> ch) \<and> registered p a \<and> conn_channel i fd ch
    \<and> pl_channels p = map_put fd a (pl_channels (el_poller w))"
proof -
  let ?c = "established_conn name a reads writes sr"
  obtain ch where ch: "new_channel i ch" "ch_fd ch = fd" "TcpConnection_ctor i a lh tied name fd reads writes sr w
      = w\<lparr>el_poller := store a ch (el_poller w), nw_conns := (nw_conns w)(i \<mapsto> ?c\<lparr>tc_state := kConnecting\<rparr>)\<rparr>"
    using TcpConnection_ctor_world by blast
  let ?w = "w\<lparr>el_poller := store a ch (el_poller w), nw_conns := (nw_conns w)(i \<mapsto> ?c\<lparr>tc_state := kConnecting\<rparr>)\<rparr>"
  have "poller_inv (el_poller ?w)" using inv_store_new [OF assms(1,2)] by simp
  moreover have "tc_channel ?c = a" "?c\<lparr>tc_state := kConnecting, tc_state := kConnected\<rparr> = ?c" by (simp_all add: established_conn_def)
  ultimately show ?thesis
    using connection_established [of ?w i "?c\<lparr>tc_state := kConnecting\<rparr>" ch u tid] ch(1,2) assms(3,4) unfolding ch(3) by simp
qed

lemma connection_start:
  assumes "poller_inv (el_poller w)" and "pl_heap (el_poller w) a = None" and "0 \<le> fd"
    and "map_of (pl_channels (el_poller w)) fd = None" and "0 \<le> sr"
    and "el_pendingFunctors w = []" and "nw_rest w = []"
  shows "\<exists>w' c ch. connectEstablished trace_user tid i
      (TcpConnection_ctor i a lh tied name fd reads writes sr w) = Inr w' \<and> conn_ok i w' c ch
    \<and> tc_state c = kConnected \<and> sk_reads c = reads \<and> sk_writes c = writes \<and> sk_nreads c = 0 \<and> sk_nwrites c = 0
    \<and> sk_sent c = [] \<and> tc_channel c = a \<and> el_threadId w' = el_threadId w"
proof -
  let ?c = "established_conn name a reads writes sr"
  obtain p ch where up: "connectEstablished trace_user tid i (TcpConnection_ctor i a lh tied name fd reads writes sr w)
        = nu_connection trace_user i (w\<lparr>el_poller := p, nw_conns := (nw_conns w)(i \<mapsto> ?c)\<rparr>)"
      "poller_inv p" "pl_heap p = (pl_heap (el_poller w))(a \<mapsto> ch)" "registered p a" "conn_channel i fd ch"
    using connection_up [OF assms(1-4), of trace_user tid i lh tied name reads writes sr] by blast
  let ?w' = "add_trace TUp (w\<lparr>el_poller := p, nw_conns := (nw_conns w)(i \<mapsto> ?c)\<rparr>)"
  have "connectEstablished trace_user tid i (TcpConnection_ctor i a lh tied name fd reads writes sr w) = Inr ?w'"
    unfolding up(1) by (simp add: trace_user_def trace_connection_def connected_def established_conn_def)
  moreover have "buffer_inv (new_Buffer kInitialSize)" "bytes_of (new_Buffer kInitialSize) = []"
    by (simp_all add: buffer_eval kInitialSize_def)
  then have "conn_ok i ?w' ?c ch"
    using up(2-5) assms(5-7) by (simp add: conn_ok_def conn_channel_def established_conn_def trace_of_def reads_of_def)
  ultimately show ?thesis
    by (intro exI [of _ ?w'] exI [of _ ?c] exI [of _ ch]) (simp add: established_conn_def)
qed

definition idle_world :: traced where
  "idle_world = \<lparr>el_looping = True, el_quit = False, el_eventHandling = False, el_callingPendingFunctors = False,
     el_iteration = 0, el_threadId = 1, el_pollReturnTime = Timestamp_default,
     el_poller = PollPoller_ctor Map.empty, el_wakeupFd = 3, el_wakeupChannel = 0, el_activeChannels = [],
     el_currentActiveChannel = None, el_pendingFunctors = [], el_eventfd = 0, nw_conns = Map.empty, nw_rest = []\<rparr>"

lemma idle_start:
  "\<exists>w c ch. connectEstablished trace_user 1 0
      (TcpConnection_ctor 0 7 True True ''c'' 5 reads writes 0 idle_world) = Inr w \<and> conn_ok 0 w c ch
    \<and> tc_state c = kConnected \<and> sk_reads c = reads \<and> sk_writes c = writes \<and> sk_nreads c = 0 \<and> sk_nwrites c = 0
    \<and> sk_sent c = [] \<and> tc_channel c = 7 \<and> el_threadId w = 1"
proof -
  have "poller_inv (el_poller idle_world)" "pl_heap (el_poller idle_world) 7 = None"
    "map_of (pl_channels (el_poller idle_world)) 5 = None" "el_pendingFunctors idle_world = []" "nw_rest idle_world = []"
    "el_threadId idle_world = 1"
    by (simp_all add: idle_world_def PollPoller_ctor_def poller_inv_def)
  then show ?thesis using connection_start [of idle_world 7 5 0 1 0] by simp
qed

lemma free_events:
  "conn_inv i w \<Longrightarrow> set es \<subseteq> {EvShutdown, EvForceClose, EvPending} \<Longrightarrow> env_obeys (conn_step i) (conn_env i) w es"
proof (induction es arbitrary: w)
  case (Cons e es)
  have env: "conn_env i w e"
    using Cons.prems by (auto simp: conn_inv_def conn_ok_def conn_env_def)
  obtain w' where "conn_step i w e = Inr w'" "conn_inv i w'" using conn_step_ok [OF Cons.prems(1) env] by blast
  then show ?case using env Cons.IH [of w'] Cons.prems(2) by simp
qed simp

section \<open>The end of a connection\<close>

lemma queueInLoop_simps [simp]:
  "nw_rest (queueInLoop tid f w) = nw_rest w" "nw_conns (queueInLoop tid f w) = nw_conns w"
  "el_poller (queueInLoop tid f w) = el_poller w" "el_threadId (queueInLoop tid f w) = el_threadId w"
  "el_pendingFunctors (queueInLoop tid f w) = el_pendingFunctors w @ [f]" "el_quit (queueInLoop tid f w) = el_quit w"
  by (simp_all add: queueInLoop_def push_functor_def wakeup_def Let_def)

lemma queueInLoop_handling [simp]: "el_eventHandling (queueInLoop tid f w) = el_eventHandling w"
  by (simp add: queueInLoop_def push_functor_def wakeup_def Let_def)

lemma map_of_map_erase_None: "map_of (map_erase k m) k = None"
  by (simp add: map_of_map_erase)

text \<open>\<open>connectDestroyed\<close> for a connection whose channel is registered and has no interest left.\<close>

lemma connectDestroyed_ok:
  assumes "poller_inv (el_poller w)" and "nw_conns w i = Some c" and "pl_heap (el_poller w) (tc_channel c) = Some ch"
    and "registered (el_poller w) (tc_channel c)" and "\<not> el_eventHandling w"
  shows "\<exists>p. connectDestroyed i w = Inr (w\<lparr>el_poller := p\<rparr>) \<and> poller_inv p
    \<and> map_of (pl_channels p) (ch_fd ch) = None \<and> pl_channels p = map_erase (ch_fd ch) (pl_channels (el_poller w))
    \<and> (\<forall>d. d \<noteq> tc_channel c \<longrightarrow> pl_heap p d = pl_heap (el_poller w) d
         \<or> (\<exists>dh idx. pl_heap (el_poller w) d = Some dh \<and> pl_heap p d = Some (set_index idx dh)))
    \<and> pl_heap p (tc_channel c) = Some (remove_mark ch)"
proof -
  let ?p = "store (tc_channel c) (remove_mark ch) (el_poller w)"
  have inv: "poller_inv ?p" and reg: "registered ?p (tc_channel c)"
    using inv_store_same [OF assms(1,3), of "remove_mark ch"] assms(3,4) by (simp_all add: remove_mark_def registered_heap)
  obtain p where p: "removeChannel_poller (tc_channel c) ?p = Inr p" "poller_inv p"
      "pl_channels p = map_erase (ch_fd (remove_mark ch)) (pl_channels ?p)"
      "\<forall>d. pl_heap p d = pl_heap ?p d \<or> (\<exists>dh idx. pl_heap ?p d = Some dh \<and> pl_heap p d = Some (set_index idx dh))"
      "pl_heap p (tc_channel c) = Some (remove_mark ch)"
    using remove_registered [OF inv _ reg] by auto
  have "pl_heap p d = pl_heap (el_poller w) d \<or> (\<exists>dh idx. pl_heap (el_poller w) d = Some dh \<and> pl_heap p d = Some (set_index idx dh))"
    if "d \<noteq> tc_channel c" for d
    using p(4) [rule_format, of d] that by simp
  moreover have "connectDestroyed i w = Inr (w\<lparr>el_poller := p\<rparr>)"
    using assms(2,3,5) p(1) by (simp add: connectDestroyed_def channel_remove_def removeChannel_def)
  ultimately show ?thesis using p(2,3,5) by (intro exI [of _ p]) (simp add: map_of_map_erase_None remove_mark_def)
qed

section \<open>Properties\<close>



text \<open>
  Bytes the kernel does not take are lost in the middle of the stream. When the kernel accepts
  only \<open>k\<close> bytes of a message, the rest is neither buffered nor retried, and the next message
  follows directly: the peer receives a prefix of the first message and then the second one.
\<close>

lemma send_leaves_hole:
  assumes "conn_ok i w c ch" and "tc_state c = kConnected"
    and "sk_writes c (sk_nwrites c) = Wrote k" and "k \<le> length msg"
    and "sk_writes c (Suc (sk_nwrites c)) = Wrote (length msg2)"
    and "length msg \<le> max_size" and "length msg2 \<le> max_size"
  shows "\<exists>w1 w2 c2. send trace_user (el_threadId w) msg i w = Inr w1
    \<and> send trace_user (el_threadId w) msg2 i w1 = Inr w2 \<and> nw_conns w2 i = Some c2
    \<and> sk_sent c2 = sk_sent c @ take k msg @ msg2 \<and> bytes_of (tc_outputBuffer c2) = []"
proof -
  let ?c1 = "after_write msg c"
  let ?w1 = "put_conn i ?c1 w"
  have conn: "nw_conns w i = Some c" "pl_heap (el_poller w) (tc_channel c) = Some ch" "bytes_of (tc_outputBuffer c) = []"
    using assms(1) by (simp_all add: conn_ok_def)
  have env1: "conn_env i w (EvSend msg)" using conn assms(3,4,6) by (simp add: conn_env_def)
  have ok1: "conn_ok i ?w1 ?c1 ch" by (rule conn_ok_put [OF assms(1)]) (simp_all add: assms(2))
  have env2: "conn_env i ?w1 (EvSend msg2)"
    using conn assms(5,7) by (simp add: conn_env_def after_write_def)
  have "send trace_user (el_threadId w) msg i w = Inr ?w1" using send_result [OF assms(1) env1] assms(2) by simp
  moreover have "send trace_user (el_threadId w) msg2 i ?w1 = Inr (put_conn i (after_write msg2 ?c1) ?w1)"
    using send_result [OF ok1 env2] assms(2) by simp
  moreover have "sk_sent (after_write msg2 ?c1) = sk_sent c @ take k msg @ msg2"
    using assms(3,5) by (simp add: after_write_def)
  ultimately show ?thesis using conn(3) by simp
qed

text \<open>
  Any failure of \<open>readv\<close> ends the whole process, whatever callbacks the server has: the macro
  that logs the error (\<open>LOG_SYSERR\<close>) creates a fatal message, so the call of \<open>handleError\<close> behind
  it is never reached, also for errors such as \<open>ECONNRESET\<close> or \<open>EAGAIN\<close>.
\<close>

lemma read_error_aborts:
  assumes "nw_conns w i = Some c" and "sk_reads c (sk_nreads c) = ReadError e"
  shows "handleRead u tid i t w = Inl Aborted"
  using assms by (simp add: handleRead_def readFd_def Let_def)

text \<open>
  A message sent from any thread but the loop's own is dropped: the branch that would hand it
  to the loop is commented out, so \<open>send\<close> returns without any effect.
\<close>

lemma send_other_thread:
  assumes "nw_conns w i = Some c" and "tid \<noteq> el_threadId w"
  shows "send u tid msg i w = Inr w \<and> send_Buffer u tid buf i w = Inr (buf, w)"
  using assms by (simp add: send_def send_Buffer_def isInLoopThread_def)

end
