(* ===== verification/HttpResponses.thy ===== *)
theory HttpResponses
  imports ByteBuffer
begin

text \<open>
  \<open>src/http/HttpResponse.h\<close> and \<open>src/http/HttpResponse.cpp\<close>: a response and its serialisation. The
  32 characters of the local array that \<open>appendToBuffer\<close> does not initialise are an argument.
\<close>

section \<open>The class\<close>

datatype HttpStatusCode = kUnknownStatus | k2000k | k301MovedPermanently | k400BadRequest | k404NotFound

definition status_value :: "HttpStatusCode \<Rightarrow> int" where
  "status_value s = (case s of kUnknownStatus \<Rightarrow> 0 | k2000k \<Rightarrow> 200 | k301MovedPermanently \<Rightarrow> 301
     | k400BadRequest \<Rightarrow> 400 | k404NotFound \<Rightarrow> 404)"

record http_response =
  resp_headers :: "(string \<times> string) list"
  resp_statusCode :: HttpStatusCode
  resp_statusMessage :: string
  resp_closeConnection :: bool
  resp_body :: string

definition HttpResponse_ctor :: "bool \<Rightarrow> http_response" where
  "HttpResponse_ctor close = \<lparr>resp_headers = [], resp_statusCode = kUnknownStatus, resp_statusMessage = [],
     resp_closeConnection = close, resp_body = []\<rparr>"

definition setStatusCode :: "HttpStatusCode \<Rightarrow> http_response \<Rightarrow> http_response" where
  "setStatusCode code r = r\<lparr>resp_statusCode := code\<rparr>"

definition setStatusMessage :: "string \<Rightarrow> http_response \<Rightarrow> http_response" where
  "setStatusMessage message r = r\<lparr>resp_statusMessage := message\<rparr>"

definition setCloseConnextion :: "bool \<Rightarrow> http_response \<Rightarrow> http_response" where
  "setCloseConnextion on r = r\<lparr>resp_closeConnection := on\<rparr>"

definition closeConnextion :: "http_response \<Rightarrow> bool" where
  "closeConnextion r = resp_closeConnection r"

definition addHeader_response :: "string \<Rightarrow> string \<Rightarrow> http_response \<Rightarrow> http_response" where
  "addHeader_response key v r = r\<lparr>resp_headers := map_put key v (resp_headers r)\<rparr>"

definition setContentType :: "string \<Rightarrow> http_response \<Rightarrow> http_response" where
  "setContentType contentType r = addHeader_response ''Content-Type'' contentType r"

definition setBody :: "string \<Rightarrow> http_response \<Rightarrow> http_response" where
  "setBody body r = r\<lparr>resp_body := body\<rparr>"

section \<open>Serialisation\<close>

definition status_text :: "http_response \<Rightarrow> string" where
  "status_text r = ''HTTP/1.1 '' @ show_int (status_value (resp_statusCode r)) @ '' ''"

definition length_text :: "http_response \<Rightarrow> string" where
  "length_text r = ''Content-length: '' @ show_nat (length (resp_body r)) @ CRLF"

fun header_pieces :: "(string \<times> string) list \<Rightarrow> string list" where
  "header_pieces [] = []"
| "header_pieces ((k, v) # hs) = [k, '': '', v, CRLF] @ header_pieces hs"

text \<open>The arguments of the successive calls of \<open>append\<close>; the first writes the whole array.\<close>

definition response_pieces :: "string \<Rightarrow> http_response \<Rightarrow> string list" where
  "response_pieces stack r =
     (let buf = snprintf_into stack (status_text r) in
      [buf, resp_statusMessage r, CRLF]
      @ (if resp_closeConnection r
         then [''Connection: close'' @ CRLF]
         else let buf = snprintf_into buf (length_text r)
              in [c_str buf, ''Connection: keep-Alive'' @ CRLF])
      @ header_pieces (resp_headers r)
      @ [CRLF, resp_body r])"

definition appendToBuffer :: "string \<Rightarrow> http_response \<Rightarrow> buffer \<Rightarrow> buffer outcome" where
  "appendToBuffer stack r output = put_all append_data (response_pieces stack r) output"

section \<open>What is sent\<close>

text \<open>The text a client expects, and the header block of it.\<close>

fun headers_text :: "(string \<times> string) list \<Rightarrow> string" where
  "headers_text [] = []"
| "headers_text ((k, v) # hs) = k @ '': '' @ v @ CRLF @ headers_text hs"

definition response_rest :: "http_response \<Rightarrow> string" where
  "response_rest r =
     resp_statusMessage r @ CRLF
     @ (if resp_closeConnection r then ''Connection: close'' @ CRLF
        else length_text r @ ''Connection: keep-Alive'' @ CRLF)
     @ headers_text (resp_headers r) @ CRLF @ resp_body r"

lemma concat_header_pieces: "concat (header_pieces hs) = headers_text hs"
  by (induction hs rule: header_pieces.induct) simp_all

lemma length_status_text: "length (status_text r) \<le> 13"
  by (cases "resp_statusCode r")
     (simp_all add: status_text_def status_value_def show_int_def show_nat.simps)

lemma length_status_snprintf: "length stack = 32 \<Longrightarrow> length (snprintf_into stack (status_text r)) = 32"
  using length_status_text [of r] by (simp add: snprintf_into_def)

lemma length_text_fits:
  assumes "length (resp_body r) < 10 ^ 13"
  shows "length (length_text r) \<le> 31" and "NUL \<notin> set (length_text r)"
  using length_show_nat [OF assms] NUL_notin_show_nat [of "length (resp_body r)"]
  by (auto simp: length_text_def)

lemma concat_response_pieces:
  assumes "length stack = 32" and "length (resp_body r) < 10 ^ 13"
  shows "concat (response_pieces stack r)
    = (status_text r @ [NUL] @ drop (length (status_text r) + 1) stack) @ response_rest r"
proof -
  let ?buf = "snprintf_into stack (status_text r)"
  have len: "length ?buf = 32" by (rule length_status_snprintf [OF assms(1)])
  then have "?buf \<noteq> []" by auto
  then have "c_str (snprintf_into ?buf (length_text r)) = length_text r"
    using c_str_snprintf [of "length_text r" ?buf] length_text_fits [OF assms(2)] len by simp
  moreover have "?buf = status_text r @ [NUL] @ drop (length (status_text r) + 1) stack"
    using length_status_text [of r] assms(1) by (simp add: snprintf_into_def overwrite_def)
  ultimately show ?thesis
    by (simp add: response_pieces_def response_rest_def Let_def concat_header_pieces)
qed

lemma appendToBuffer_spec:
  assumes "buffer_inv b" and "length stack = 32" and "length (resp_body r) < 10 ^ 13"
    and "room_for (length (concat (response_pieces stack r))) b"
  shows "\<exists>b'. appendToBuffer stack r b = Inr b' \<and> buffer_inv b'
    \<and> bytes_of b' = bytes_of b @ (status_text r @ [NUL] @ drop (length (status_text r) + 1) stack) @ response_rest r"
proof -
  obtain b' where "put_all append_data (response_pieces stack r) b = Inr b'" "buffer_inv b'"
      "bytes_of b' = bytes_of b @ concat (response_pieces stack r)"
    using buf.put_all_ok [OF assms(1), of "response_pieces stack r" 0] assms(4) by auto
  then show ?thesis using concat_response_pieces [OF assms(2,3)] by (simp add: appendToBuffer_def)
qed

section \<open>Properties\<close>

text \<open>
  C30. What goes over the wire for a response: the status line is followed by a NUL character and
  the bytes that happened to be on the stack, because the whole array of 32 characters is
  appended and not the text in it; after that the message, the connection and length fields, the
  header fields in the order of their keys, and the body, as they were set.
\<close>

theorem response_leaks_stack:
  assumes "buffer_inv b" and "length stack = 32" and "length (resp_body r) < 10 ^ 13"
    and "room_for (length (concat (response_pieces stack r))) b"
  shows "\<exists>b'. appendToBuffer stack r b = Inr b' \<and> buffer_inv b'
    \<and> bytes_of b' = bytes_of b @ status_text r @ [NUL] @ drop (length (status_text r) + 1) stack
        @ resp_statusMessage r @ CRLF
        @ (if resp_closeConnection r then ''Connection: close'' @ CRLF
           else length_text r @ ''Connection: keep-Alive'' @ CRLF)
        @ headers_text (resp_headers r) @ CRLF @ resp_body r"
  using appendToBuffer_spec [OF assms] by (simp add: response_rest_def)

theorem response_leaks_stack_witness:
  "\<exists>b'. appendToBuffer (replicate 32 CHR ''s'') (setStatusMessage ''ok'' (setStatusCode k2000k (HttpResponse_ctor True)))
      (new_Buffer 16) = Inr b'
    \<and> bytes_of b' = ''HTTP/1.1 200 '' @ [NUL] @ replicate 18 CHR ''s'' @ ''ok'' @ CRLF @ ''Connection: close'' @ CRLF @ CRLF"
proof -
  let ?r = "setStatusMessage ''ok'' (setStatusCode k2000k (HttpResponse_ctor True))"
  let ?s = "replicate 32 CHR ''s''"
  have inv: "buffer_inv (new_Buffer 16)" and empty: "bytes_of (new_Buffer 16) = []" and w: "writerIndex (new_Buffer 16) = 8"
    by (simp_all add: buffer_eval)
  have r: "status_text ?r = ''HTTP/1.1 200 ''" "resp_body ?r = []" "resp_headers ?r = []"
      "resp_statusMessage ?r = ''ok''" "resp_closeConnection ?r"
    by (simp_all add: status_text_def status_value_def setStatusMessage_def setStatusCode_def HttpResponse_ctor_def
        show_int_def show_nat.simps digit_char_def char_of_def bit_numeral_rec bit_Suc_0_iff)
  have len: "length ?s = 32" "length (resp_body ?r) < 10 ^ 13" by (simp_all add: r)
  have "length (concat (response_pieces ?s ?r)) \<le> 100"
    by (subst concat_response_pieces [OF len]) (simp add: r response_rest_def)
  then have room: "room_for (length (concat (response_pieces ?s ?r))) (new_Buffer 16)"
    unfolding room_for_def w max_size_def by linarith
  show ?thesis using response_leaks_stack [OF inv len room] by (auto simp: r empty)
qed

end
