(* ===== verification/HttpServers.thy ===== *)
theory HttpServers
  imports TcpConnections HttpResponses
begin

text \<open>
  \<open>src/http/HttpServer.h\<close> and \<open>src/http/HttpServer.cpp\<close>: the callbacks the HTTP server installs on its
  connections. \<open>httpCallback_\<close> and the uninitialised stack array of the response are arguments.
  The server sets no write-complete callback, so the sending code is used with a user that has
  none. A parser loop that never ends has no effect, which is undefined behaviour.
\<close>

section \<open>The callbacks\<close>

type_synonym http_callback = "http_request \<Rightarrow> http_response \<Rightarrow> http_response"

definition defaultHttpCallback :: http_callback where
  "defaultHttpCallback req resp =
     setCloseConnextion True (setStatusMessage ''Not Found'' (setStatusCode k404NotFound resp))"

definition setstatus :: http_callback where
  "setstatus req resp = setStatusMessage ''ok'' (setStatusCode k2000k resp)"

definition quiet_user :: "'w net_user" where
  "quiet_user = \<lparr>nu_connection = (\<lambda>_ w. Inr w), nu_message = (\<lambda>_ _ w. Inr w), nu_writeComplete = None,
     nu_close = (\<lambda>_ w. Inr w)\<rparr>"

definition onConnection :: "nat \<Rightarrow> 'w net_world \<Rightarrow> 'w net_world outcome" where
  "onConnection i w = with_conn i (\<lambda>c. if connected c then setContext HttpContext_ctor i w else Inr w) w"

definition wants_close :: "http_request \<Rightarrow> bool" where
  "wants_close req \<longleftrightarrow>
     (let connection = getHeader ''Connection'' req
      in connection = ''close'' \<or> req_version req = kHttp10 \<and> connection \<noteq> ''Keep-Alive'')"

definition onRequest ::
  "string \<Rightarrow> http_callback \<Rightarrow> int \<Rightarrow> nat \<Rightarrow> http_request \<Rightarrow> 'w net_world \<Rightarrow> 'w net_world outcome" where
  "onRequest stack httpCallback tid i req w =
     (let response = HttpResponse_ctor (wants_close req);
          response = (if req_method req = kInvalid then httpCallback req response else setstatus req response)
      in bind_out (Buffer_ctor kInitialSize) (\<lambda>buf.
         bind_out (appendToBuffer stack response buf) (\<lambda>buf.
         bind_out (send_Buffer quiet_user tid buf i w) (\<lambda>(buf, w).
         if closeConnextion response then shutdown tid i w else Inr w))))"

definition bad_request :: string where
  "bad_request = ''HTTP/1.1 Bad Request'' @ CRLF @ CRLF"

definition onMessage ::
  "string \<Rightarrow> http_callback \<Rightarrow> int \<Rightarrow> nat \<Rightarrow> timestamp \<Rightarrow> 'w net_world \<Rightarrow> 'w net_world outcome" where
  "onMessage stack httpCallback tid i receiveTime w =
     with_conn i (\<lambda>c.
       case parseRequest receiveTime (tc_context c) (tc_inputBuffer c) of
         None \<Rightarrow> Inl UndefinedBehaviour
       | Some m \<Rightarrow> bind_out m (\<lambda>(ok, ctx, buf).
           let w = put_conn i (c\<lparr>tc_context := ctx, tc_inputBuffer := buf\<rparr>) w in
           bind_out (if \<not> ok then bind_out (send quiet_user tid bad_request i w) (shutdown tid i) else Inr w) (\<lambda>w.
           with_conn i (\<lambda>c.
             if gotAll (tc_context c)
             then bind_out (onRequest stack httpCallback tid i (ctx_request (tc_context c)) w) (\<lambda>w.
                    with_conn i (\<lambda>c. setContext (reset_context (tc_context c)) i w) w)
             else Inr w) w))) w"

definition http_user ::
  "string \<Rightarrow> http_callback \<Rightarrow> int \<Rightarrow> (nat \<Rightarrow> 'w net_world \<Rightarrow> 'w net_world outcome) \<Rightarrow> 'w net_user" where
  "http_user stack httpCallback tid close_cb =
     \<lparr>nu_connection = onConnection, nu_message = onMessage stack httpCallback tid, nu_writeComplete = None,
      nu_close = close_cb\<rparr>"

section \<open>Sending and shutting down\<close>

text \<open>
  A connection whose output is idle, reached from its own loop; \<open>sent\<close> is the connection after a
  write that the kernel took in full.
\<close>

definition ready :: "nat \<Rightarrow> 'w net_world \<Rightarrow> tcp_connection \<Rightarrow> bool" where
  "ready i w c \<longleftrightarrow> nw_conns w i = Some c
     \<and> (case pl_heap (el_poller w) (tc_channel c) of None \<Rightarrow> False | Some ch \<Rightarrow> \<not> isWriting ch)
     \<and> readableBytes (tc_outputBuffer c) = 0 \<and> 0 \<le> sk_shutdownResult c"

definition sent :: "string \<Rightarrow> tcp_connection \<Rightarrow> tcp_connection" where
  "sent msg c = c\<lparr>sk_nwrites := sk_nwrites c + 1, sk_sent := sk_sent c @ msg\<rparr>"

lemma sent_simps [simp]:
  "tc_state (sent msg c) = tc_state c" "tc_channel (sent msg c) = tc_channel c" "tc_context (sent msg c) = tc_context c"
  "tc_inputBuffer (sent msg c) = tc_inputBuffer c" "tc_outputBuffer (sent msg c) = tc_outputBuffer c"
  "sk_shutdownResult (sent msg c) = sk_shutdownResult c" "sk_sent (sent msg c) = sk_sent c @ msg"
  "sk_shutdownWrite (sent msg c) = sk_shutdownWrite c"
  by (simp_all add: sent_def)

lemma ready_put:
  "ready i w c \<Longrightarrow> tc_channel c' = tc_channel c \<Longrightarrow> tc_outputBuffer c' = tc_outputBuffer c \<Longrightarrow>
   sk_shutdownResult c' = sk_shutdownResult c \<Longrightarrow> ready i (put_conn i c' w) c'"
  by (simp add: ready_def)

lemma sendInLoop_ready:
  assumes "ready i w c" and "tc_state c = kConnected" and "sk_writes c (sk_nwrites c) = Wrote (length msg)"
    and "length msg \<le> max_size"
  shows "sendInLoop quiet_user tid msg i w = Inr (put_conn i (sent msg c) w)"
  using assms
  by (auto simp: ready_def sendInLoop_def sys_write_def with_channel_def run_write_complete_def
      quiet_user_def sent_def Let_def split: option.splits)

lemma shutdown_ready:
  assumes "ready i w c" and "tc_state c = kConnected" and "tid = el_threadId w"
  shows "shutdown tid i w = Inr (put_conn i (c\<lparr>tc_state := kDisconnecting, sk_shutdownWrite := True\<rparr>)
    (put_conn i (c\<lparr>tc_state := kDisconnecting\<rparr>) w))"
  using assms
  by (auto simp: ready_def shutdown_def setState_def runInLoop_def isInLoopThread_def shutdownInLoop_def
      shutdownWrite_def with_channel_def split: option.splits)

section \<open>The server as a client of its connections\<close>

lemma keeps_sendInLoop: "keeps w (sendInLoop quiet_user tid msg i w)"
proof -
  have res: "keeps w (case res of Wrote n \<Rightarrow>
      let remaining = size_sub (length msg) n in if remaining = 0 then run_write_complete quiet_user tid i w' else Inr w'
    | WriteError e \<Rightarrow> if e \<noteq> EWOULDBLOCK then Inl Aborted else Inr w')"
    if "keeps_handlers w w'" for res and w w' :: "'a net_world"
    using that
    by (auto simp: run_write_complete_def quiet_user_def Let_def intro: keeps_Inl keeps_Inr split: write_result.split)
  show ?thesis
    unfolding sendInLoop_def by (intro keeps_intros keeps_handlers_refl) (simp add: res)
qed

lemma keeps_send: "keeps w (send quiet_user tid msg i w)"
  unfolding send_def by (intro keeps_intros keeps_sendInLoop keeps_handlers_refl)

lemma send_Buffer_handlers:
  assumes "send_Buffer quiet_user tid buf i w = Inr (buf', w')"
  shows "keeps_handlers w w'"
proof -
  have "keeps_handlers w x" if "sendInLoop quiet_user tid msg i w = Inr x" for msg x
    using keeps_sendInLoop [of w tid msg i] that by (simp add: keeps_def)
  then show ?thesis
    using assms by (auto simp: send_Buffer_def with_conn_def bind_out_eq_Inr split: option.splits if_splits)
qed

lemma keeps_send_Buffer:
  assumes "\<And>buf' w'. keeps_handlers w w' \<Longrightarrow> keeps w (f (buf', w'))"
  shows "keeps w (bind_out (send_Buffer quiet_user tid buf i w) f)"
proof (cases "send_Buffer quiet_user tid buf i w")
  case (Inr p)
  then show ?thesis using assms send_Buffer_handlers [of tid buf i w] by (cases p) simp
qed (simp add: keeps_Inl)

lemma keeps_shutdown: "keeps w (shutdown tid i w)"
  unfolding shutdown_def by (intro keeps_intros keeps_handlers_refl)

lemma keeps_onConnection: "keeps w (onConnection i w)"
  unfolding onConnection_def setContext_def by (intro keeps_intros keeps_handlers_refl)

lemma keeps_onRequest: "keeps w (onRequest stack cb tid i req w)"
proof -
  have *: "keeps w (bind_out m f)" if "\<And>x. keeps w (f x)" for w :: "'a net_world" and m :: "'b outcome" and f
    using that by (cases m) (simp_all add: keeps_Inl)
  show ?thesis
    unfolding onRequest_def Let_def
    by (intro * keeps_send_Buffer) (auto intro: keeps_start [OF _ keeps_shutdown] keeps_Inr)
qed

lemma keeps_onMessage: "keeps w (onMessage stack cb tid i t w)"
proof -
  have reply: "keeps w (bind_out (if \<not> ok then bind_out (send quiet_user tid bad_request i w) (shutdown tid i) else Inr w) (\<lambda>w.
      with_conn i (\<lambda>c. if gotAll (tc_context c)
        then bind_out (onRequest stack cb tid i (ctx_request (tc_context c)) w) (\<lambda>w.
               with_conn i (\<lambda>c. setContext (reset_context (tc_context c)) i w) w)
        else Inr w) w))" for ok and w :: "'a net_world"
    unfolding setContext_def
    by (intro keeps_intros keeps_send keeps_shutdown keeps_onRequest keeps_handlers_refl)
  show ?thesis
    unfolding onMessage_def
  proof (rule keeps_with_conn)
    fix c :: tcp_connection
    let ?m = "parseRequest t (tc_context c) (tc_inputBuffer c)"
    show "keeps w (case ?m of None \<Rightarrow> Inl UndefinedBehaviour | Some m \<Rightarrow> bind_out m (\<lambda>(ok, ctx, buf).
           let w = put_conn i (c\<lparr>tc_context := ctx, tc_inputBuffer := buf\<rparr>) w in
           bind_out (if \<not> ok then bind_out (send quiet_user tid bad_request i w) (shutdown tid i) else Inr w) (\<lambda>w.
           with_conn i (\<lambda>c. if gotAll (tc_context c)
             then bind_out (onRequest stack cb tid i (ctx_request (tc_context c)) w) (\<lambda>w.
                    with_conn i (\<lambda>c. setContext (reset_context (tc_context c)) i w) w)
             else Inr w) w)))"
      using keeps_start [OF keeps_put_conn reply]
      by (auto simp: keeps_Inl Let_def bind_out_def split: option.split sum.split)
  qed
qed

section \<open>Answering a request\<close>

definition http_answer :: "string \<Rightarrow> bool \<Rightarrow> string" where
  "http_answer stack close =
     (''HTTP/1.1 200 '' @ [NUL] @ drop 14 stack) @ ''ok'' @ CRLF
     @ (if close then ''Connection: close'' @ CRLF
        else ''Content-length: 0'' @ CRLF @ ''Connection: keep-Alive'' @ CRLF) @ CRLF"

lemma answer_pieces:
  assumes "length stack = 32"
  shows "concat (response_pieces stack (setstatus req (HttpResponse_ctor close))) = http_answer stack close"
proof -
  let ?r = "setstatus req (HttpResponse_ctor close)"
  have "status_text ?r = ''HTTP/1.1 200 ''"
    by (simp add: status_text_def status_value_def setstatus_def setStatusMessage_def setStatusCode_def
        show_int_def show_nat.simps digit_char_def char_of_def bit_numeral_rec bit_Suc_0_iff)
  moreover have "length_text ?r = ''Content-length: 0'' @ CRLF"
    by (simp add: length_text_def setstatus_def setStatusMessage_def setStatusCode_def HttpResponse_ctor_def
        show_nat.simps digit_char_def char_of_def bit_numeral_rec bit_Suc_0_iff)
  moreover have r: "resp_body ?r = []" "resp_headers ?r = []" "resp_statusMessage ?r = ''ok''"
      "resp_closeConnection ?r = close"
    by (simp_all add: setstatus_def setStatusMessage_def setStatusCode_def HttpResponse_ctor_def)
  moreover have "length (resp_body ?r) < 10 ^ 13" by (simp add: r)
  moreover have "length ''HTTP/1.1 200 '' + 1 = 14" by simp
  ultimately show ?thesis
    using concat_response_pieces [OF assms, of ?r] unfolding http_answer_def response_rest_def
    by (cases close) (simp_all only: r headers_text.simps if_True if_False append_assoc append_Nil append_Nil2)
qed

lemma length_http_answer: "length stack = 32 \<Longrightarrow> length (http_answer stack close) \<le> 100"
  by (simp add: http_answer_def)

lemma append_answer:
  assumes "length stack = 32"
  shows "\<exists>b. appendToBuffer stack (setstatus req (HttpResponse_ctor close)) (new_Buffer kInitialSize) = Inr b
    \<and> read_bytes (peek b) (readableBytes b) b = Inr (http_answer stack close)"
proof -
  let ?r = "setstatus req (HttpResponse_ctor close)"
  have new: "buffer_inv (new_Buffer kInitialSize)" "bytes_of (new_Buffer kInitialSize) = []"
      "writerIndex (new_Buffer kInitialSize) = 8"
    by (simp_all add: buffer_eval kInitialSize_def)
  have "room_for (length (concat (response_pieces stack ?r)) + 0) (new_Buffer kInitialSize)"
    using length_http_answer [OF assms, of close] unfolding answer_pieces [OF assms] room_for_def new(3) max_size_def by linarith
  then obtain b where b: "put_all append_data (response_pieces stack ?r) (new_Buffer kInitialSize) = Inr b"
      "buffer_inv b" "bytes_of b = http_answer stack close"
    using buf.put_all_ok [OF new(1)] answer_pieces [OF assms, of req close] new(2) by fastforce
  have "read_bytes (peek b) (readableBytes b) b = Inr (http_answer stack close)"
    using read_bytes_prefix [OF b(2), of "readableBytes b"] b(2,3) by (simp add: readableBytes_length)
  then show ?thesis using b(1) by (auto simp: appendToBuffer_def)
qed

definition finished :: "bool \<Rightarrow> tcp_connection \<Rightarrow> tcp_connection" where
  "finished close c = (if close then c\<lparr>tc_state := kDisconnecting, sk_shutdownWrite := True\<rparr> else c)"

lemma put_conn_put [simp]: "put_conn i c (put_conn i c' w) = put_conn i c w"
  by (simp add: put_conn_def)

lemma onRequest_ready:
  assumes "ready i w c" and "tc_state c = kConnected" and "tid = el_threadId w" and "length stack = 32"
    and "req_method req \<noteq> kInvalid"
    and "sk_writes c (sk_nwrites c) = Wrote (length (http_answer stack (wants_close req)))"
  shows "onRequest stack cb tid i req w =
    Inr (put_conn i (finished (wants_close req) (sent (http_answer stack (wants_close req)) c)) w)"
proof -
  let ?close = "wants_close req"
  let ?msg = "http_answer stack ?close"
  have conn: "nw_conns w i = Some c" using assms(1) by (simp add: ready_def)
  obtain b where b: "appendToBuffer stack (setstatus req (HttpResponse_ctor ?close)) (new_Buffer kInitialSize) = Inr b"
      "read_bytes (peek b) (readableBytes b) b = Inr ?msg"
    using append_answer [OF assms(4)] by blast
  have len: "length ?msg \<le> max_size"
    using length_http_answer [OF assms(4), of ?close] unfolding max_size_def by linarith
  have ctor: "Buffer_ctor kInitialSize = Inr (new_Buffer kInitialSize)"
    by (rule Buffer_ctor_ok) (simp add: kInitialSize_def max_size_def kCheapPrepend_def)
  have send: "send_Buffer quiet_user tid b i w = Inr (retrieveAll b, put_conn i (sent ?msg c) w)"
    using conn assms(2,3) b(2) sendInLoop_ready [OF assms(1,2,6) len, of tid]
    by (simp add: send_Buffer_def isInLoopThread_def)
  have rdy: "ready i (put_conn i (sent ?msg c) w) (sent ?msg c)" by (rule ready_put [OF assms(1)]) simp_all
  have close: "closeConnextion (setstatus req (HttpResponse_ctor ?close)) = ?close"
    by (simp add: closeConnextion_def setstatus_def setStatusMessage_def setStatusCode_def HttpResponse_ctor_def)
  show ?thesis
    using assms(2,3,5) ctor b(1) send close shutdown_ready [OF rdy, of tid]
    by (cases ?close) (simp_all add: onRequest_def Let_def finished_def)
qed

text \<open>
  A complete request on a connection with a fresh or reset context: the world after \<open>onMessage\<close>
  differs in the connection only, and this is how.
\<close>

definition answered :: "string \<Rightarrow> bool \<Rightarrow> http_context \<Rightarrow> buffer \<Rightarrow> tcp_connection \<Rightarrow> tcp_connection" where
  "answered stack close ctx b c =
     (finished close (sent (http_answer stack close) (c\<lparr>tc_context := ctx, tc_inputBuffer := b\<rparr>)))\<lparr>tc_context := reset_context ctx\<rparr>"

lemma answered_simps [simp]:
  "tc_channel (answered stack close ctx b c) = tc_channel c" "tc_name (answered stack close ctx b c) = tc_name c"
  "sk_reads (answered stack close ctx b c) = sk_reads c" "sk_nreads (answered stack close ctx b c) = sk_nreads c"
  "tc_inputBuffer (answered stack close ctx b c) = b" "sk_sent (answered stack close ctx b c) = sk_sent c @ http_answer stack close"
  "tc_state (answered stack close ctx b c) = (if close then kDisconnecting else tc_state c)"
  "sk_shutdownWrite (answered stack close ctx b c) = (close \<or> sk_shutdownWrite c)"
  "ctx_state (tc_context (answered stack close ctx b c)) = kExpectRequestLine"
  "req_method (ctx_request (tc_context (answered stack close ctx b c))) = kInvalid"
  "req_headers (ctx_request (tc_context (answered stack close ctx b c))) = []"
  "tc_outputBuffer (answered stack close ctx b c) = tc_outputBuffer c"
  "sk_shutdownResult (answered stack close ctx b c) = sk_shutdownResult c"
  by (simp_all add: answered_def finished_def sent_def reset_context_def swap_HttpRequest_def HttpRequest_ctor_def)

lemma onMessage_request:
  assumes "ready i w c" and "tc_state c = kConnected" and "tid = el_threadId w" and "length stack = 32"
    and "buffer_inv (tc_inputBuffer c)" and "bytes_of (tc_inputBuffer c) = request_text m p q v hs @ extra"
    and "ctx_state (tc_context c) = kExpectRequestLine" and "req_method (ctx_request (tc_context c)) = kInvalid"
    and "req_headers (ctx_request (tc_context c)) = []"
    and "wf_target p q" and "m \<noteq> kInvalid" and "v \<noteq> kUnknown" and "\<forall>h \<in> set hs. wf_header h"
    and "close \<longleftrightarrow> map_of (rev hs) ''Connection'' = Some ''close''
           \<or> v = kHttp10 \<and> map_of (rev hs) ''Connection'' \<noteq> Some ''Keep-Alive''"
    and "sk_writes c (sk_nwrites c) = Wrote (length (http_answer stack close))"
  shows "\<exists>ctx b. onMessage stack cb tid i t w = Inr (put_conn i (answered stack close ctx b c) w)
    \<and> buffer_inv b \<and> bytes_of b = []"
proof -
  have conn: "nw_conns w i = Some c" using assms(1) by (simp add: ready_def)
  obtain ctx b where ctx: "parseRequest t (tc_context c) (tc_inputBuffer c) = Some (Inr (True, ctx, b))"
      "buffer_inv b" "bytes_of b = []" "gotAll ctx" "req_method (ctx_request ctx) = m" "req_version (ctx_request ctx) = v"
      "map_of (req_headers (ctx_request ctx)) = map_of (rev hs)"
    using parseRequest_printed [OF assms(5,6,7,8,10,11,12,13), of t] assms(9) by auto
  let ?c = "c\<lparr>tc_context := ctx, tc_inputBuffer := b\<rparr>"
  let ?w = "put_conn i ?c w"
  have close: "wants_close (ctx_request ctx) = close"
    using assms(14) by (auto simp: wants_close_def getHeader_def ctx(6,7) Let_def split: option.splits)
  have rdy: "ready i ?w ?c" by (rule ready_put [OF assms(1)]) simp_all
  let ?c' = "finished close (sent (http_answer stack close) ?c)"
  have req: "onRequest stack cb tid i (ctx_request ctx) ?w = Inr (put_conn i ?c' ?w)"
    using onRequest_ready [OF rdy, of tid stack "ctx_request ctx" cb] assms(2,3,4,11,15) ctx(5) close by simp
  have "tc_context ?c' = ctx" by (simp add: finished_def)
  then have "onMessage stack cb tid i t w = Inr (put_conn i (answered stack close ctx b c) w)"
    using conn ctx(1,4) req by (simp add: onMessage_def Let_def setContext_def answered_def)
  then show ?thesis using ctx(2,3) by blast
qed

section \<open>Properties\<close>

text \<open>
  C12. The HTTP server answers a complete request. On a connected connection with a fresh or reset
  context whose input holds a well-formed request, \<open>onMessage\<close> consumes the input, hands exactly
  one response with status 200 to the kernel, resets the context for the next request, and
  shuts the connection down exactly when the request asked for it (a \<open>Connection\<close> field with
  value \<open>close\<close>, or HTTP/1.0 without \<open>Keep-Alive\<close>). The answer depends neither on the path nor on the
  installed HTTP callback.
\<close>

theorem http_request_answered:
  assumes "ready i w c" and "tc_state c = kConnected" and "tid = el_threadId w" and "length stack = 32"
    and "buffer_inv (tc_inputBuffer c)" and "bytes_of (tc_inputBuffer c) = request_text m p q v hs @ extra"
    and "ctx_state (tc_context c) = kExpectRequestLine" and "req_method (ctx_request (tc_context c)) = kInvalid"
    and "req_headers (ctx_request (tc_context c)) = []"
    and "wf_target p q" and "m \<noteq> kInvalid" and "v \<noteq> kUnknown" and "\<forall>h \<in> set hs. wf_header h"
    and "close \<longleftrightarrow> map_of (rev hs) ''Connection'' = Some ''close''
           \<or> v = kHttp10 \<and> map_of (rev hs) ''Connection'' \<noteq> Some ''Keep-Alive''"
    and "sk_writes c (sk_nwrites c) = Wrote (length (http_answer stack close))"
  shows "\<exists>w' c'. onMessage stack cb tid i t w = Inr w' \<and> nw_conns w' i = Some c'
    \<and> sk_sent c' = sk_sent c @ http_answer stack close
    \<and> tc_state c' = (if close then kDisconnecting else kConnected)
    \<and> sk_shutdownWrite c' = (close \<or> sk_shutdownWrite c)
    \<and> bytes_of (tc_inputBuffer c') = []
    \<and> ctx_state (tc_context c') = kExpectRequestLine \<and> req_method (ctx_request (tc_context c')) = kInvalid"
  using onMessage_request [OF assms, of cb t] assms(2) by auto

text \<open>
  C29. A request line the parser rejects is answered with the error text and the connection is
  shut down for writing; the error text is not a valid status line since it lacks the status
  code.
\<close>

theorem http_bad_request:
  assumes "ready i w c" and "tc_state c = kConnected" and "tid = el_threadId w"
    and "buffer_inv (tc_inputBuffer c)" and "bytes_of (tc_inputBuffer c) = l @ CRLF @ rest" and "is_line l"
    and "ctx_state (tc_context c) = kExpectRequestLine"
    and "processRequestLine l (ctx_request (tc_context c)) = Inr (False, r)"
    and "sk_writes c (sk_nwrites c) = Wrote (length bad_request)"
  shows "\<exists>w' c'. onMessage stack cb tid i t w = Inr w' \<and> nw_conns w' i = Some c'
    \<and> sk_sent c' = sk_sent c @ ''HTTP/1.1 Bad Request'' @ CRLF @ CRLF
    \<and> tc_state c' = kDisconnecting \<and> sk_shutdownWrite c' \<and> bytes_of (tc_inputBuffer c') = []"
proof -
  have conn: "nw_conns w i = Some c" using assms(1) by (simp add: ready_def)
  let ?ctx = "(tc_context c)\<lparr>ctx_request := r\<rparr>"
  have p: "parsing (tc_context c)" using assms(7) by (simp add: parsing_def)
  have "parse_string t True (tc_context c) (bytes_of (tc_inputBuffer c)) = Inr (False, ?ctx, bytes_of (tc_inputBuffer c))"
    using parse_string_line [OF assms(6), of t True "tc_context c" rest] assms(5,7,8) by simp
  then obtain b where b: "parseRequest t (tc_context c) (tc_inputBuffer c) = Some (Inr (False, ?ctx, b))" "bytes_of b = []"
    using parseRequest_refines [OF assms(4) p, of t] by auto
  let ?c = "c\<lparr>tc_context := ?ctx, tc_inputBuffer := b\<rparr>"
  let ?w = "put_conn i ?c w"
  have rdy: "ready i ?w ?c" by (rule ready_put [OF assms(1)]) simp_all
  have len: "length bad_request \<le> max_size" by (simp add: bad_request_def max_size_def)
  have send: "send quiet_user tid bad_request i ?w = Inr (put_conn i (sent bad_request ?c) ?w)"
    using sendInLoop_ready [OF rdy _ _ len, of tid] assms(2,3,9) by (simp add: send_def isInLoopThread_def)
  have rdy2: "ready i (put_conn i (sent bad_request ?c) ?w) (sent bad_request ?c)" by (rule ready_put [OF rdy]) simp_all
  have "\<not> gotAll ?ctx" using assms(7) by (simp add: gotAll_def)
  then have "onMessage stack cb tid i t w
      = Inr (put_conn i ((sent bad_request ?c)\<lparr>tc_state := kDisconnecting, sk_shutdownWrite := True\<rparr>) w)"
    using conn b(1) send shutdown_ready [OF rdy2, of tid] assms(2,3) by (simp add: onMessage_def Let_def)
  then show ?thesis using b(2) by (simp add: bad_request_def)
qed

section \<open>Witnesses\<close>

text \<open>A connected connection whose input buffer holds a given text.\<close>

definition with_input :: "buffer \<Rightarrow> (nat \<Rightarrow> write_result) \<Rightarrow> traced" where
  "with_input b writes = put_conn 0 \<lparr>tc_name = ''c'', tc_state = kConnected, tc_reading = True, tc_channel = 7,
     tc_inputBuffer = b, tc_outputBuffer = new_Buffer 16, tc_context = HttpContext_ctor, sk_reads = (\<lambda>_. ReadBytes []),
     sk_nreads = 0, sk_writes = writes, sk_nwrites = 0, sk_sent = [], sk_shutdownResult = 0, sk_shutdownWrite = False\<rparr>
     (idle_world\<lparr>el_poller := store 7 (Channel_ctor True True 5) (el_poller idle_world)\<rparr>)"

lemma with_input_ready:
  "\<exists>c. ready 0 (with_input b writes) c \<and> tc_state c = kConnected \<and> tc_inputBuffer c = b \<and> tc_context c = HttpContext_ctor
    \<and> sk_writes c = writes \<and> sk_nwrites c = 0 \<and> sk_sent c = [] \<and> el_threadId (with_input b writes) = 1"
  by (simp add: with_input_def ready_def idle_world_def Channel_ctor_def isWriting_def has_bits_iff buffer_eval)

lemma buffer_with:
  assumes "length s \<le> 1000"
  shows "\<exists>b. append_data s (new_Buffer 16) = Inr b \<and> buffer_inv b \<and> bytes_of b = s"
proof -
  have new: "buffer_inv (new_Buffer 16)" "bytes_of (new_Buffer 16) = []" "writerIndex (new_Buffer 16) = 8"
    by (simp_all add: buffer_eval)
  have "room_for (length s) (new_Buffer 16)" using assms unfolding room_for_def new(3) max_size_def by linarith
  then show ?thesis using append_spec [OF new(1)] new(2) by auto
qed

theorem http_request_answered_witness:
  "\<exists>b w' c'. append_data (request_text kGet ''/a'' [] kHttp10 []) (new_Buffer 16) = Inr b
    \<and> onMessage (replicate 32 CHR ''s'') defaultHttpCallback 1 0 Timestamp_default
        (with_input b (\<lambda>_. Wrote (length (http_answer (replicate 32 CHR ''s'') True)))) = Inr w'
    \<and> nw_conns w' 0 = Some c' \<and> sk_sent c' = http_answer (replicate 32 CHR ''s'') True \<and> tc_state c' = kDisconnecting"
proof -
  let ?text = "request_text kGet ''/a'' [] kHttp10 []"
  let ?s = "replicate 32 CHR ''s''"
  let ?wr = "\<lambda>_ :: nat. Wrote (length (http_answer ?s True))"
  have "length ?text \<le> 1000"
    by (simp add: request_text_def request_line_def method_name_def version_name_def)
  then obtain b where b: "append_data ?text (new_Buffer 16) = Inr b" "buffer_inv b" "bytes_of b = ?text @ []"
    using buffer_with by fastforce
  obtain c where c: "ready 0 (with_input b ?wr) c" "tc_state c = kConnected" "tc_inputBuffer c = b"
      "tc_context c = HttpContext_ctor" "sk_writes c = ?wr" "sk_nwrites c = 0" "sk_sent c = []"
      "el_threadId (with_input b ?wr) = 1"
    using with_input_ready [of b ?wr] by blast
  have wf: "wf_target ''/a'' []" "\<forall>h \<in> set ([] :: (string \<times> string) list). wf_header h"
    by (simp_all add: wf_target_def is_line_def)
  have cl: "True \<longleftrightarrow> map_of (rev ([] :: (string \<times> string) list)) ''Connection'' = Some ''close''
      \<or> kHttp10 = kHttp10 \<and> map_of (rev ([] :: (string \<times> string) list)) ''Connection'' \<noteq> Some ''Keep-Alive''"
    by simp
  have ctx: "ctx_state (tc_context c) = kExpectRequestLine" "req_method (ctx_request (tc_context c)) = kInvalid"
      "req_headers (ctx_request (tc_context c)) = []"
    by (simp_all add: c(4) HttpContext_ctor_def HttpRequest_ctor_def)
  have inp: "buffer_inv (tc_inputBuffer c)" "bytes_of (tc_inputBuffer c) = ?text @ []" using b c(3) by simp_all
  have wr: "sk_writes c (sk_nwrites c) = Wrote (length (http_answer ?s True))" by (simp add: c(5))
  have len: "length ?s = 32" by simp
  show ?thesis
    using http_request_answered [OF c(1,2) c(8) [symmetric] len inp ctx wf(1) _ _ wf(2) cl wr,
        of defaultHttpCallback Timestamp_default] b(1) c(7)
    by auto
qed

theorem http_bad_request_witness:
  "\<exists>b w' c'. append_data (''hello'' @ CRLF) (new_Buffer 16) = Inr b
    \<and> onMessage [] defaultHttpCallback 1 0 Timestamp_default (with_input b (\<lambda>_. Wrote (length bad_request))) = Inr w'
    \<and> nw_conns w' 0 = Some c' \<and> sk_sent c' = ''HTTP/1.1 Bad Request'' @ CRLF @ CRLF \<and> tc_state c' = kDisconnecting"
proof -
  let ?wr = "\<lambda>_ :: nat. Wrote (length bad_request)"
  obtain b where b: "append_data (''hello'' @ CRLF) (new_Buffer 16) = Inr b" "buffer_inv b" "bytes_of b = ''hello'' @ CRLF @ []"
    using buffer_with [of "''hello'' @ CRLF"] by auto
  obtain c where c: "ready 0 (with_input b ?wr) c" "tc_state c = kConnected" "tc_inputBuffer c = b"
      "tc_context c = HttpContext_ctor" "sk_writes c = ?wr" "sk_sent c = []" "el_threadId (with_input b ?wr) = 1"
    using with_input_ready [of b ?wr] by blast
  have inp: "buffer_inv (tc_inputBuffer c)" "bytes_of (tc_inputBuffer c) = ''hello'' @ CRLF @ []" using b c(3) by simp_all
  have line: "is_line ''hello''" "ctx_state (tc_context c) = kExpectRequestLine"
      "processRequestLine ''hello'' (ctx_request (tc_context c)) = Inr (False, HttpRequest_ctor)"
      "sk_writes c (sk_nwrites c) = Wrote (length bad_request)"
    by (simp_all add: is_line_def c(4,5) HttpContext_ctor_def processRequestLine_def std_find_def)
  show ?thesis
    using http_bad_request [OF c(1,2) c(7) [symmetric] inp line, of "[]" defaultHttpCallback Timestamp_default] b(1) c(6)
    by auto
qed

end
