(* ===== verification/ThreadPools.thy ===== *)
theory ThreadPools
  imports Prelude
begin

text \<open>
  \<open>src/net/EventLoopThread.h\<close>, \<open>src/net/EventLoopThread.cpp\<close>, \<open>src/net/EventLoopThreadPool.h\<close> and
  \<open>src/net/EventLoopThreadPool.cpp\<close>: the threads that run event loops, and the pool that hands the
  loops out in turn. Loops are numbers. The hand-over of the loop's address from the new thread to
  the thread that calls \<open>startLoop\<close> is a step relation: a locked section is one step, waiting on
  the condition variable releases the mutex, and a notification wakes a waiting thread only.
\<close>

section \<open>EventLoopThread\<close>

datatype starter_pc = NotStarted | Checking | Blocked | Started nat
datatype runner_pc = NoThread | Constructing | Looping | Leaving | Ended

record loop_thread =
  et_loop :: "nat option"
  et_exiting :: bool
  et_starter :: starter_pc
  et_runner :: runner_pc
  et_callbackRan :: bool

definition EventLoopThread_ctor :: loop_thread where
  "EventLoopThread_ctor =
     \<lparr>et_loop = None, et_exiting = False, et_starter = NotStarted, et_runner = NoThread, et_callbackRan = False\<rparr>"

text \<open>\<open>startLoop\<close>: start the thread, then test \<open>loop_\<close> under the mutex until it is set.\<close>

inductive starter_step :: "loop_thread \<Rightarrow> loop_thread \<Rightarrow> bool" where
  start_thread: "et_starter t = NotStarted \<Longrightarrow> et_runner t = NoThread \<Longrightarrow>
    starter_step t (t\<lparr>et_starter := Checking, et_runner := Constructing\<rparr>)"
| found: "et_starter t = Checking \<Longrightarrow> et_loop t = Some l \<Longrightarrow> starter_step t (t\<lparr>et_starter := Started l\<rparr>)"
| wait_loop: "et_starter t = Checking \<Longrightarrow> et_loop t = None \<Longrightarrow> starter_step t (t\<lparr>et_starter := Blocked\<rparr>)"

text \<open>
  \<open>threadFunc\<close> with the loop at address \<open>l\<close> on its stack: construct it and run the callback, publish
  the address and notify, run \<open>loop\<close>, and reset the address when \<open>loop\<close> has returned.
\<close>

inductive runner_step :: "nat \<Rightarrow> bool \<Rightarrow> loop_thread \<Rightarrow> loop_thread \<Rightarrow> bool" for l callback where
  construct: "et_runner t = Constructing \<Longrightarrow> \<not> et_callbackRan t \<Longrightarrow> callback \<Longrightarrow>
    runner_step l callback t (t\<lparr>et_callbackRan := True\<rparr>)"
| publish: "et_runner t = Constructing \<Longrightarrow> et_callbackRan t \<or> \<not> callback \<Longrightarrow>
    runner_step l callback t (t\<lparr>et_loop := Some l, et_runner := Looping,
      et_starter := (if et_starter t = Blocked then Checking else et_starter t)\<rparr>)"
| loop_returns: "et_runner t = Looping \<Longrightarrow> runner_step l callback t (t\<lparr>et_runner := Leaving\<rparr>)"
| unpublish: "et_runner t = Leaving \<Longrightarrow> runner_step l callback t (t\<lparr>et_loop := None, et_runner := Ended\<rparr>)"

inductive thread_reachable :: "nat \<Rightarrow> bool \<Rightarrow> loop_thread \<Rightarrow> bool" for l callback where
  initially: "thread_reachable l callback EventLoopThread_ctor"
| by_starter: "thread_reachable l callback t \<Longrightarrow> starter_step t t' \<Longrightarrow> thread_reachable l callback t'"
| by_runner: "thread_reachable l callback t \<Longrightarrow> runner_step l callback t t' \<Longrightarrow> thread_reachable l callback t'"

text \<open>Steps of the starting thread and of the new thread until its loop is published.\<close>

inductive startup_run :: "nat \<Rightarrow> bool \<Rightarrow> loop_thread \<Rightarrow> loop_thread \<Rightarrow> bool" for l callback where
  startup_done: "startup_run l callback t t"
| startup_starter: "starter_step t t' \<Longrightarrow> startup_run l callback t' t'' \<Longrightarrow> startup_run l callback t t''"
| startup_runner: "runner_step l callback t t' \<Longrightarrow> et_runner t' \<in> {Constructing, Looping} \<Longrightarrow>
    startup_run l callback t' t'' \<Longrightarrow> startup_run l callback t t''"

definition thread_inv :: "nat \<Rightarrow> bool \<Rightarrow> loop_thread \<Rightarrow> bool" where
  "thread_inv l callback t \<longleftrightarrow>
     (et_loop t = (if et_runner t \<in> {Looping, Leaving} then Some l else None))
     \<and> (et_starter t = NotStarted \<longleftrightarrow> et_runner t = NoThread)
     \<and> (et_starter t = Blocked \<longrightarrow> et_runner t \<notin> {NoThread, Looping, Leaving})
     \<and> (\<forall>k. et_starter t = Started k \<longrightarrow> k = l \<and> et_runner t \<in> {Looping, Leaving, Ended})
     \<and> (et_runner t \<in> {Looping, Leaving, Ended} \<and> callback \<longrightarrow> et_callbackRan t)"

lemma starter_step_inv: "starter_step t t' \<Longrightarrow> thread_inv l callback t \<Longrightarrow> thread_inv l callback t'"
  by (induction rule: starter_step.induct) (auto simp: thread_inv_def split: if_splits)

lemma runner_step_inv: "runner_step l callback t t' \<Longrightarrow> thread_inv l callback t \<Longrightarrow> thread_inv l callback t'"
  by (induction rule: runner_step.induct) (auto simp: thread_inv_def split: if_splits)

lemma thread_ctor_inv: "thread_inv l callback EventLoopThread_ctor"
  by (simp add: thread_inv_def EventLoopThread_ctor_def)

lemma thread_reachable_inv: "thread_reachable l callback t \<Longrightarrow> thread_inv l callback t"
  by (induction rule: thread_reachable.induct) (auto intro: thread_ctor_inv starter_step_inv runner_step_inv)

lemma startup_after_publish:
  assumes "thread_inv l callback t" and "et_runner t = Looping"
  shows "\<exists>t'. startup_run l callback t t' \<and> et_starter t' = Started l"
proof (cases "et_starter t")
  case Checking
  have "et_loop t = Some l" using assms by (simp add: thread_inv_def)
  from starter_step.found [OF Checking this] show ?thesis
    using startup_run.intros(1,2) by (metis loop_thread.select_convs(3) loop_thread.surjective loop_thread.update_convs(3))
next
  case (Started k)
  then show ?thesis using assms startup_done by (auto simp: thread_inv_def)
qed (use assms in \<open>auto simp: thread_inv_def\<close>)

lemma startup_publish:
  assumes "thread_reachable l callback t" and "et_runner t = Constructing"
  shows "\<exists>t'. startup_run l callback t t' \<and> et_starter t' = Started l"
proof -
  have pub: "\<exists>t'. startup_run l callback t t' \<and> et_starter t' = Started l"
    if "thread_reachable l callback t" "et_runner t = Constructing" "et_callbackRan t \<or> \<not> callback" for t
  proof -
    let ?t = "t\<lparr>et_loop := Some l, et_runner := Looping,
      et_starter := (if et_starter t = Blocked then Checking else et_starter t)\<rparr>"
    have step: "runner_step l callback t ?t" using publish that by blast
    have "thread_inv l callback ?t" using thread_reachable_inv by_runner [OF that(1) step] by blast
    then obtain t' where "startup_run l callback ?t t'" "et_starter t' = Started l"
      using startup_after_publish [of l callback ?t] by auto
    then show ?thesis using startup_runner [OF step] by auto
  qed
  show ?thesis
  proof (cases "et_callbackRan t \<or> \<not> callback")
    case False
    let ?t = "t\<lparr>et_callbackRan := True\<rparr>"
    have step: "runner_step l callback t ?t" using construct assms(2) False by blast
    obtain t' where "startup_run l callback ?t t'" "et_starter t' = Started l"
      using pub [OF by_runner [OF assms(1) step]] assms(2) by auto
    then show ?thesis using startup_runner [OF step] assms(2) by auto
  qed (use pub assms in blast)
qed

section \<open>EventLoopThreadPool\<close>

record thread_pool =
  tp_baseLoop :: nat
  tp_name :: string
  tp_started :: bool
  tp_numThreads :: int
  tp_next :: int
  tp_threads :: "string list"
  tp_loops :: "nat list"

text \<open>The constructor does not initialise \<open>started_\<close>.\<close>

definition EventLoopThreadPool_ctor :: "bool \<Rightarrow> nat \<Rightarrow> string \<Rightarrow> thread_pool" where
  "EventLoopThreadPool_ctor memory baseloop nameArg =
     \<lparr>tp_baseLoop = baseloop, tp_name = nameArg, tp_started = memory, tp_numThreads = 10, tp_next = 0,
      tp_threads = [], tp_loops = []\<rparr>"

definition setThreadNum_pool :: "int \<Rightarrow> thread_pool \<Rightarrow> thread_pool" where
  "setThreadNum_pool n p = p\<lparr>tp_numThreads := n\<rparr>"

definition thread_name :: "thread_pool \<Rightarrow> nat \<Rightarrow> string" where
  "thread_name p i =
     c_str (snprintf_into (replicate (length (tp_name p) + 32) NUL) (c_str (tp_name p) @ show_nat i))"

text \<open>
  \<open>start\<close>: the loops that \<open>startLoop\<close> returns are an argument. The result lists the loops on which
  the callback runs in this thread.
\<close>

fun start_threads :: "(nat \<Rightarrow> nat) \<Rightarrow> nat list \<Rightarrow> thread_pool \<Rightarrow> thread_pool" where
  "start_threads newLoop [] p = p"
| "start_threads newLoop (i # is) p =
     start_threads newLoop is
       (p\<lparr>tp_threads := tp_threads p @ [thread_name p i], tp_loops := tp_loops p @ [newLoop i]\<rparr>)"

definition start_pool :: "(nat \<Rightarrow> nat) \<Rightarrow> bool \<Rightarrow> thread_pool \<Rightarrow> thread_pool \<times> nat list" where
  "start_pool newLoop cb p =
     (let p = start_threads newLoop [0..<nat (tp_numThreads p)] (p\<lparr>tp_started := True\<rparr>)
      in (p, if tp_numThreads p = 0 \<and> cb then [tp_baseLoop p] else []))"

definition getNextLoop :: "thread_pool \<Rightarrow> (nat \<times> thread_pool) outcome" where
  "getNextLoop p =
     asserting (tp_started p)
       (if tp_loops p \<noteq> []
        then defined_if (0 \<le> tp_next p \<and> nat (tp_next p) < length (tp_loops p))
          (let loop = tp_loops p ! nat (tp_next p);
               p = p\<lparr>tp_next := tp_next p + 1\<rparr>
           in Inr (loop, if tp_next p \<ge> int (length (tp_loops p)) then p\<lparr>tp_next := 0\<rparr> else p))
        else Inr (tp_baseLoop p, p))"

definition getLoopForHash :: "nat \<Rightarrow> thread_pool \<Rightarrow> nat" where
  "getLoopForHash hashCode p =
     (if tp_loops p \<noteq> [] then tp_loops p ! (hashCode mod length (tp_loops p)) else tp_baseLoop p)"

definition getAllLoops :: "thread_pool \<Rightarrow> nat list outcome" where
  "getAllLoops p =
     asserting (tp_started p) (Inr (if tp_loops p = [] then [tp_baseLoop p] else tp_loops p))"

fun next_loops :: "nat \<Rightarrow> thread_pool \<Rightarrow> (nat list \<times> thread_pool) outcome" where
  "next_loops 0 p = Inr ([], p)"
| "next_loops (Suc k) p =
     bind_out (getNextLoop p) (\<lambda>(l, p). bind_out (next_loops k p) (\<lambda>(ls, p). Inr (l # ls, p)))"

definition pool_inv :: "thread_pool \<Rightarrow> bool" where
  "pool_inv p \<longleftrightarrow> tp_started p \<and> 0 \<le> tp_next p \<and> (tp_loops p \<noteq> [] \<longrightarrow> tp_next p < int (length (tp_loops p)))"

text \<open>The loops the pool serves, the base loop if it has no threads.\<close>

definition served :: "thread_pool \<Rightarrow> nat list" where
  "served p = (if tp_loops p = [] then [tp_baseLoop p] else tp_loops p)"

lemma getNextLoop_ok:
  assumes "pool_inv p"
  shows "\<exists>p'. getNextLoop p = Inr (served p ! (nat (tp_next p) mod length (served p)), p') \<and> pool_inv p'
    \<and> tp_loops p' = tp_loops p \<and> tp_baseLoop p' = tp_baseLoop p
    \<and> nat (tp_next p') mod length (served p) = Suc (nat (tp_next p)) mod length (served p)"
proof (cases "tp_loops p = []")
  case True
  then show ?thesis using assms by (simp add: getNextLoop_def served_def pool_inv_def)
next
  case False
  let ?n = "nat (tp_next p)"
  have n: "?n < length (tp_loops p)" "0 \<le> tp_next p" "tp_started p" using assms False by (auto simp: pool_inv_def)
  show ?thesis
  proof (cases "Suc ?n = length (tp_loops p)")
    case True
    then have "tp_next p + 1 \<ge> int (length (tp_loops p))" using n by linarith
    then show ?thesis
      using False n True by (auto simp: getNextLoop_def Let_def served_def pool_inv_def)
  next
    case last: False
    then have "\<not> tp_next p + 1 \<ge> int (length (tp_loops p))" "nat (tp_next p + 1) = Suc ?n" using n by linarith+
    then show ?thesis
      using False n last by (auto simp: getNextLoop_def Let_def served_def pool_inv_def)
  qed
qed

lemma start_threads_loops:
  "tp_loops (start_threads newLoop is p) = tp_loops p @ map newLoop is"
  "tp_started (start_threads newLoop is p) = tp_started p" "tp_next (start_threads newLoop is p) = tp_next p"
  "tp_baseLoop (start_threads newLoop is p) = tp_baseLoop p"
  by (induction newLoop "is" p rule: start_threads.induct) simp_all

section \<open>Properties\<close>

text \<open>
  C31. Starting a loop thread cannot miss its notification. From every reachable state in which the
  new thread has not yet published its loop, a finite number of steps of the two threads lets
  \<open>startLoop\<close> return, and whenever it returns, in any interleaving, it returns the address of the
  thread's own loop, after the initialisation callback has run.
\<close>

theorem start_loop_returns:
  assumes "thread_reachable l callback t"
  shows "(et_runner t = Constructing \<longrightarrow> (\<exists>t'. startup_run l callback t t' \<and> et_starter t' = Started l))
    \<and> (\<forall>k. et_starter t = Started k \<longrightarrow> k = l \<and> (callback \<longrightarrow> et_callbackRan t))"
  using startup_publish [OF assms] thread_reachable_inv [OF assms] by (auto simp: thread_inv_def)

theorem start_loop_returns_witness:
  "\<exists>t t'. thread_reachable 5 True t \<and> et_starter t = Blocked \<and> startup_run 5 True t t' \<and> et_starter t' = Started 5"
proof -
  let ?t1 = "EventLoopThread_ctor\<lparr>et_starter := Checking, et_runner := Constructing\<rparr>"
  let ?t2 = "?t1\<lparr>et_starter := Blocked\<rparr>"
  have "starter_step EventLoopThread_ctor ?t1" "starter_step ?t1 ?t2"
    by (rule start_thread wait_loop; simp add: EventLoopThread_ctor_def)+
  then have r: "thread_reachable 5 True ?t2" using initially by_starter by metis
  moreover have "et_runner ?t2 = Constructing" "et_starter ?t2 = Blocked" by simp_all
  ultimately show ?thesis using start_loop_returns [OF r] by blast
qed

text \<open>
  The pool hands out its loops in turn. After \<open>start\<close> with any number of threads, the loops
  returned by the first \<open>k\<close> calls of \<open>getNextLoop\<close> are the loops of the pool in cyclic order
  (always the base loop if there are no threads); no call fails.
\<close>

lemma next_loop_round_robin:
  assumes "start_pool newLoop cb (setThreadNum_pool n (EventLoopThreadPool_ctor memory base name)) = (p, cbs)" and "0 \<le> n"
  shows "\<exists>p'. next_loops k p = Inr (map (\<lambda>i. if n = 0 then base else newLoop (i mod nat n)) [0..<k], p')"
proof -
  have run: "\<exists>p'. next_loops k q = Inr (map (\<lambda>i. served q ! ((nat (tp_next q) + i) mod length (served q))) [0..<k], p')"
    if "pool_inv q" for q
    using that
  proof (induction k arbitrary: q)
    case (Suc k)
    obtain q' where q': "getNextLoop q = Inr (served q ! (nat (tp_next q) mod length (served q)), q')" "pool_inv q'"
        "tp_loops q' = tp_loops q" "tp_baseLoop q' = tp_baseLoop q"
        "nat (tp_next q') mod length (served q) = Suc (nat (tp_next q)) mod length (served q)"
      using getNextLoop_ok [OF Suc.prems] by blast
    have "served q' = served q" using q'(3,4) by (simp add: served_def)
    moreover have "(nat (tp_next q') + i) mod length (served q) = (nat (tp_next q) + Suc i) mod length (served q)" for i
      using q'(5) by (metis add_Suc_shift mod_add_cong)
    moreover have "[0..<Suc k] = 0 # map Suc [0..<k]" by (simp add: map_Suc_upt upt_conv_Cons del: upt_Suc)
    ultimately show ?case using Suc.IH [OF q'(2)] q'(1) by (auto simp del: upt_Suc)
  qed simp
  have p: "tp_loops p = map newLoop [0..<nat n]" "tp_started p" "tp_next p = 0" "tp_baseLoop p = base"
    using assms(1) by (auto simp: start_pool_def Let_def start_threads_loops setThreadNum_pool_def EventLoopThreadPool_ctor_def)
  have "pool_inv p" using p assms(2) by (auto simp: pool_inv_def)
  moreover have "served p ! ((nat (tp_next p) + i) mod length (served p)) = (if n = 0 then base else newLoop (i mod nat n))" for i
    using p assms(2) by (simp add: served_def)
  ultimately show ?thesis using run [of p] by simp
qed

end
