(* ===== verification/TcpServers.thy ===== *)
theory TcpServers
  imports HttpServers SocketOps ThreadPools
begin

text \<open>
  \<open>src/net/Acceptor.h\<close>, \<open>src/net/Acceptor.cpp\<close>, \<open>src/net/TcpServer.h\<close> and \<open>src/net/TcpServer.cpp\<close>. The
  server lives on its base loop, whose world is the state of the model; the rest of the world is
  the server object. A connection that the pool assigns to another loop is handed over: the
  arguments of its constructor and the functor posted to its loop are recorded. Addresses of new
  objects, uninitialised fields and the kernel's side of a new socket are arguments.
\<close>

section \<open>State\<close>

record acceptor =
  ac_socket :: int
  ac_channel :: nat
  ac_callback :: bool
  ac_listening :: bool

record tcp_server =
  ts_loop :: nat
  ts_name :: string
  ts_acceptor :: acceptor
  ts_pool :: thread_pool
  ts_nextConnId :: int
  ts_connections :: "(string \<times> nat) list"
  ts_handed :: "(nat \<times> nat \<times> string \<times> int) list"
  ts_mail :: "(nat \<times> net_functor) list"

type_synonym server_world = "tcp_server net_world"

definition put_server :: "tcp_server \<Rightarrow> server_world \<Rightarrow> server_world" where
  "put_server s w = w\<lparr>nw_rest := s\<rparr>"

section \<open>Acceptor\<close>

definition Acceptor_ctor ::
  "int \<Rightarrow> int \<Rightarrow> nat \<Rightarrow> bool \<Rightarrow> bool \<Rightarrow> 'w net_world \<Rightarrow> (acceptor \<times> 'w net_world) outcome" where
  "Acceptor_ctor sock bindResult ch lh tied w =
     bind_out (createNonblockingOrDie sock) (\<lambda>fd.
     bind_out (bindAddress bindResult) (\<lambda>_.
     Inr (\<lparr>ac_socket = fd, ac_channel = ch, ac_callback = False, ac_listening = False\<rparr>,
          w\<lparr>el_poller := store ch (setReadCallback AcceptRead (Channel_ctor lh tied fd)) (el_poller w)\<rparr>)))"

definition Acceptor_dtor :: "acceptor \<Rightarrow> 'w net_world \<Rightarrow> 'w net_world outcome" where
  "Acceptor_dtor a w =
     bind_out (channel_change DisableAll (ac_channel a) w) (channel_remove (ac_channel a))"

definition listen_Acceptor :: "int \<Rightarrow> server_world \<Rightarrow> server_world outcome" where
  "listen_Acceptor listenResult w =
     (let s = nw_rest w; w = put_server (s\<lparr>ts_acceptor := (ts_acceptor s)\<lparr>ac_listening := True\<rparr>\<rparr>) w
      in bind_out (listen_Socket listenResult) (\<lambda>_.
         channel_change EnableReading (ac_channel (ts_acceptor s)) w))"

section \<open>TcpServer\<close>

definition TcpServer_ctor ::
  "nat \<Rightarrow> string \<Rightarrow> bool \<Rightarrow> int \<Rightarrow> int \<Rightarrow> nat \<Rightarrow> bool \<Rightarrow> bool \<Rightarrow> server_world \<Rightarrow> server_world outcome" where
  "TcpServer_ctor baseLoop nameArg memory sock bindResult ch lh tied w =
     bind_out (Acceptor_ctor sock bindResult ch lh tied w) (\<lambda>(a, w).
     Inr (put_server \<lparr>ts_loop = baseLoop, ts_name = nameArg, ts_acceptor = a\<lparr>ac_callback := True\<rparr>,
            ts_pool = EventLoopThreadPool_ctor memory baseLoop nameArg, ts_nextConnId = 1, ts_connections = [],
            ts_handed = [], ts_mail = []\<rparr> w))"

definition setThreadNum :: "int \<Rightarrow> server_world \<Rightarrow> server_world outcome" where
  "setThreadNum numThreads w =
     asserting (0 \<le> numThreads)
       (let s = nw_rest w in Inr (put_server (s\<lparr>ts_pool := setThreadNum_pool numThreads (ts_pool s)\<rparr>) w))"

definition start_server :: "(nat \<Rightarrow> nat) \<Rightarrow> bool \<Rightarrow> int \<Rightarrow> int \<Rightarrow> server_world \<Rightarrow> server_world outcome" where
  "start_server newLoop cb listenResult tid w =
     (let s = nw_rest w; w = put_server (s\<lparr>ts_pool := fst (start_pool newLoop cb (ts_pool s))\<rparr>) w
      in asserting (\<not> ac_listening (ts_acceptor s))
           (runInLoop (\<lambda>_. listen_Acceptor listenResult) tid ListenInLoop w))"

text \<open>The name: \<open>snprintf\<close> with \<open>connection-%d\<close> into 64 characters, behind the server's name.\<close>

definition connName :: "string \<Rightarrow> int \<Rightarrow> string" where
  "connName name k = name @ c_str (snprintf_into (replicate 64 NUL) (''connection-'' @ show_int k))"

text \<open>The name of a connection object, here or on another loop.\<close>

definition name_of_conn :: "nat \<Rightarrow> server_world \<Rightarrow> string outcome" where
  "name_of_conn i w =
     (case nw_conns w i of
        Some c \<Rightarrow> Inr (tc_name c)
      | None \<Rightarrow> (case map_of (map (\<lambda>(l, j, nm, fd). (j, nm)) (ts_handed (nw_rest w))) i of
                   Some nm \<Rightarrow> Inr nm | None \<Rightarrow> Inl UndefinedBehaviour))"

definition removeConnectionInLoop :: "int \<Rightarrow> nat \<Rightarrow> server_world \<Rightarrow> server_world outcome" where
  "removeConnectionInLoop tid i w =
     bind_out (name_of_conn i w) (\<lambda>name.
       let s = nw_rest w;
           n = length (filter (\<lambda>(k, _). k = name) (ts_connections s));
           w = put_server (s\<lparr>ts_connections := map_erase name (ts_connections s)\<rparr>) w
       in asserting (n = 1) (Inr (queueInLoop tid (ConnectDestroyed i) w)))"

definition removeConnection :: "int \<Rightarrow> nat \<Rightarrow> server_world \<Rightarrow> server_world outcome" where
  "removeConnection tid i w = runInLoop (\<lambda>_. removeConnectionInLoop tid i) tid (RemoveConnectionInLoop i) w"

definition server_user :: "string \<Rightarrow> http_callback \<Rightarrow> int \<Rightarrow> tcp_server net_user" where
  "server_user stack httpCallback tid = http_user stack httpCallback tid (removeConnection tid)"

definition newConnection :: "tcp_server net_user \<Rightarrow> int \<Rightarrow> new_object \<Rightarrow> int \<Rightarrow> server_world \<Rightarrow> server_world outcome" where
  "newConnection u tid ob sockfd w =
     bind_out (assertInLoopThread tid w) (\<lambda>w.
     bind_out (getNextLoop (ts_pool (nw_rest w))) (\<lambda>(ioloop, pool).
       let s = nw_rest w;
           name = connName (ts_name s) (ts_nextConnId s);
           i = no_conn ob
       in defined_if (ts_nextConnId s < 2147483647)
        (let s = s\<lparr>ts_pool := pool, ts_nextConnId := ts_nextConnId s + 1,
                   ts_connections := map_put name i (ts_connections s)\<rparr>
         in if ioloop = ts_loop s
            then runInLoop (\<lambda>_. connectEstablished u tid i) tid (ConnectEstablished i)
                   (put_server s (TcpConnection_ctor i (no_channel ob) (no_logHup ob) (no_tied ob) name sockfd
                      (no_reads ob) (no_writes ob) (no_shutdown ob) w))
            else Inr (put_server (s\<lparr>ts_handed := ts_handed s @ [(ioloop, i, name, sockfd)],
                                    ts_mail := ts_mail s @ [(ioloop, ConnectEstablished i)]\<rparr>) w))))"

text \<open>
  \<open>Acceptor::handleRead\<close>: one connection is accepted; a failure ends the process. What is in the
  memory of the peer's address before does not matter: it is overwritten.
\<close>

definition handleRead_Acceptor ::
  "tcp_server net_user \<Rightarrow> int \<Rightarrow> new_object \<Rightarrow> int \<Rightarrow> int \<Rightarrow> server_world \<Rightarrow> server_world outcome" where
  "handleRead_Acceptor u tid ob acceptResult closeResult w =
     bind_out (accept_Socket acceptResult (InetAddress_default (replicate sizeof_sockaddr_in NUL))) (\<lambda>(connfd, peerAddr).
       if ac_callback (ts_acceptor (nw_rest w)) then newConnection u tid ob connfd w
       else bind_out (sockets_close closeResult) (\<lambda>_. Inr w))"

text \<open>The destructor: every connection is destroyed on its own loop.\<close>

fun destroy_all :: "(string \<times> nat) list \<Rightarrow> int \<Rightarrow> server_world \<Rightarrow> server_world outcome" where
  "destroy_all [] tid w = Inr w"
| "destroy_all ((name, i) # cs) tid w =
     bind_out (if nw_conns w i \<noteq> None
               then runInLoop (\<lambda>_. connectDestroyed i) tid (ConnectDestroyed i) w
               else (let s = nw_rest w; l = map_of (map (\<lambda>(l, j, nm, fd). (j, l)) (ts_handed s)) i
                     in case l of None \<Rightarrow> Inl UndefinedBehaviour
                        | Some l \<Rightarrow> Inr (put_server (s\<lparr>ts_mail := ts_mail s @ [(l, ConnectDestroyed i)]\<rparr>) w)))
       (destroy_all cs tid)"

definition TcpServer_dtor :: "int \<Rightarrow> server_world \<Rightarrow> server_world outcome" where
  "TcpServer_dtor tid w =
     bind_out (assertInLoopThread tid w) (\<lambda>w. destroy_all (ts_connections (nw_rest w)) tid w)"

section \<open>Dispatch on the base loop\<close>

definition run_server :: "tcp_server net_user \<Rightarrow> int \<Rightarrow> int \<Rightarrow> net_functor \<Rightarrow> server_world \<Rightarrow> server_world outcome" where
  "run_server u tid listenResult f w =
     (case f of
        RemoveConnectionInLoop i \<Rightarrow> removeConnectionInLoop tid i w
      | ListenInLoop \<Rightarrow> listen_Acceptor listenResult w
      | _ \<Rightarrow> run_conn u tid f w)"

definition call_read_server ::
  "tcp_server net_user \<Rightarrow> int \<Rightarrow> new_object \<Rightarrow> int \<Rightarrow> int \<Rightarrow> net_callback \<Rightarrow> timestamp \<Rightarrow> server_world \<Rightarrow> server_world outcome" where
  "call_read_server u tid ob acceptResult closeResult cb t w =
     (case cb of
        AcceptRead \<Rightarrow> handleRead_Acceptor u tid ob acceptResult closeResult w
      | _ \<Rightarrow> call_read_conn u tid cb t w)"

section \<open>The server keeps the contract of its connections\<close>

lemma put_server_simps [simp]:
  "nw_rest (put_server s w) = s" "nw_conns (put_server s w) = nw_conns w" "el_poller (put_server s w) = el_poller w"
  "el_threadId (put_server s w) = el_threadId w" "el_pendingFunctors (put_server s w) = el_pendingFunctors w" "el_quit (put_server s w) = el_quit w"
  by (simp_all add: put_server_def)

lemma keeps_removeConnection: "keeps w (removeConnection tid i w)"
proof -
  have put: "keeps_handlers w (put_server s w)" for s and w :: server_world by (rule keeps_handlers_poller) simp
  have "keeps w (removeConnectionInLoop tid i w)" for w :: server_world
    unfolding removeConnectionInLoop_def Let_def
  proof (cases "name_of_conn i w")
    case (Inr nm)
    then show "keeps w (bind_out (name_of_conn i w) (\<lambda>name.
        asserting (length (filter (\<lambda>(k, _). k = name) (ts_connections (nw_rest w))) = 1)
          (Inr (queueInLoop tid (ConnectDestroyed i)
             (put_server ((nw_rest w)\<lparr>ts_connections := map_erase name (ts_connections (nw_rest w))\<rparr>) w)))))"
      by (simp add: keeps_asserting keeps_Inr keeps_handlers_trans [OF put keeps_loop_ops(2)])
  qed (simp add: keeps_Inl)
  then show ?thesis unfolding removeConnection_def by (rule keeps_runInLoop)
qed

interpretation srvcl: net_client "server_user stack httpCallback tid" tid for stack httpCallback tid
  by unfold_locales
    (auto simp: server_user_def http_user_def intro: keeps_onConnection keeps_onMessage keeps_removeConnection)

section \<open>Names\<close>

lemma connName_text:
  assumes "0 \<le> k" and "k < 2147483648"
  shows "connName name k = name @ ''connection-'' @ show_nat (nat k)"
proof -
  have "length (show_nat (nat k)) \<le> 10" using assms by (intro length_show_nat) simp_all
  then show ?thesis
    using assms(1) NUL_notin_show_nat by (simp add: connName_def show_int_def c_str_snprintf)
qed

lemma connName_inj:
  assumes "0 \<le> k" "k < 2147483648" "0 \<le> k'" "k' < 2147483648" and "connName name k = connName name k'"
  shows "k = k'"
proof -
  have "show_nat (nat k) = show_nat (nat k')" using assms by (simp add: connName_text)
  then have "nat k = nat k'" by (metis read_dec_show_nat)
  then show ?thesis using assms(1,3) by simp
qed

section \<open>Specification of the connection map\<close>

datatype server_event = SvAccept new_object int | SvRemove nat

definition server_step :: "string \<Rightarrow> http_callback \<Rightarrow> server_world \<Rightarrow> server_event \<Rightarrow> server_world outcome" where
  "server_step stack cb w e =
     (let tid = el_threadId w; u = server_user stack cb tid
      in case e of
           SvAccept ob fd \<Rightarrow> handleRead_Acceptor u tid ob fd 0 w
         | SvRemove i \<Rightarrow> run_server u tid 0 (RemoveConnectionInLoop i) w)"

text \<open>
  The environment: objects are new, the descriptor is not in use, the number of connections ever
  accepted stays below the largest \<open>int\<close>; a connection is removed once, while it is in the map.
\<close>

definition handed_ids :: "tcp_server \<Rightarrow> nat set" where
  "handed_ids s = (\<lambda>(l, j, nm, fd). j) ` set (ts_handed s)"

definition server_env :: "server_world \<Rightarrow> server_event \<Rightarrow> bool" where
  "server_env w e =
     (let s = nw_rest w
      in case e of
           SvAccept ob fd \<Rightarrow> 0 \<le> fd \<and> map_of (pl_channels (el_poller w)) fd = None
             \<and> pl_heap (el_poller w) (no_channel ob) = None \<and> nw_conns w (no_conn ob) = None
             \<and> no_conn ob \<notin> handed_ids s \<and> no_conn ob \<notin> snd ` set (ts_connections s) \<and> ts_nextConnId s < 2147483647
         | SvRemove i \<Rightarrow> i \<in> snd ` set (ts_connections s))"

definition server_inv :: "server_world \<Rightarrow> bool" where
  "server_inv w \<longleftrightarrow>
     (let s = nw_rest w
      in ac_callback (ts_acceptor s) \<and> pool_inv (ts_pool s) \<and> poller_inv (el_poller w)
         \<and> 1 \<le> ts_nextConnId s \<and> ts_nextConnId s \<le> 2147483647
         \<and> sorted (map fst (ts_connections s)) \<and> distinct (map fst (ts_connections s)) \<and> distinct (map snd (ts_connections s))
         \<and> (\<forall>(nm, i) \<in> set (ts_connections s). name_of_conn i w = Inr nm
              \<and> (\<exists>k. 1 \<le> k \<and> k < ts_nextConnId s \<and> nm = connName (ts_name s) k)))"

text \<open>The abstract server: the number of the next connection, and the live ones with their numbers.\<close>

definition server_abs :: "server_world \<Rightarrow> int \<times> (int \<times> nat) set" where
  "server_abs w =
     (let s = nw_rest w
      in (ts_nextConnId s, {(k, i). 1 \<le> k \<and> k < ts_nextConnId s \<and> (connName (ts_name s) k, i) \<in> set (ts_connections s)}))"

definition live_step :: "int \<times> (int \<times> nat) set \<Rightarrow> server_event \<Rightarrow> int \<times> (int \<times> nat) set" where
  "live_step a e =
     (case e of
        SvAccept ob fd \<Rightarrow> (fst a + 1, insert (fst a, no_conn ob) (snd a))
      | SvRemove i \<Rightarrow> (fst a, {(k, j) \<in> snd a. j \<noteq> i}))"

section \<open>The connection map implements the abstract server\<close>

lemma map_put_new:
  assumes "k \<notin> fst ` set m"
  shows "set (map_put k v m) = insert (k, v) (set m)" "map snd (map_put k v m) \<in> {xs. distinct xs \<longleftrightarrow> v \<notin> snd ` set m \<and> distinct (map snd m)}"
  using assms by (induction k v m rule: map_put.induct) (auto split: if_splits)

definition added :: "tcp_server \<Rightarrow> thread_pool \<Rightarrow> nat \<Rightarrow> tcp_server" where
  "added s pool i = s\<lparr>ts_pool := pool, ts_nextConnId := ts_nextConnId s + 1,
     ts_connections := map_put (connName (ts_name s) (ts_nextConnId s)) i (ts_connections s)\<rparr>"

lemma connName_fresh:
  assumes "server_inv w" and "ts_nextConnId (nw_rest w) < 2147483647"
  shows "connName (ts_name (nw_rest w)) (ts_nextConnId (nw_rest w)) \<notin> fst ` set (ts_connections (nw_rest w))"
proof
  let ?s = "nw_rest w"
  assume "connName (ts_name ?s) (ts_nextConnId ?s) \<in> fst ` set (ts_connections ?s)"
  then obtain j where "(connName (ts_name ?s) (ts_nextConnId ?s), j) \<in> set (ts_connections ?s)" by force
  moreover have "\<forall>(nm, i) \<in> set (ts_connections ?s). \<exists>k. 1 \<le> k \<and> k < ts_nextConnId ?s \<and> nm = connName (ts_name ?s) k"
    using assms(1) by (auto simp: server_inv_def Let_def)
  ultimately obtain k where "1 \<le> k" "k < ts_nextConnId ?s" "connName (ts_name ?s) (ts_nextConnId ?s) = connName (ts_name ?s) k"
    by blast
  then show False using connName_inj [of "ts_nextConnId ?s" k "ts_name ?s"] assms(2) by simp
qed

lemma server_added:
  assumes inv: "server_inv w" and room: "ts_nextConnId (nw_rest w) < 2147483647"
    and i: "i \<notin> snd ` set (ts_connections (nw_rest w))"
    and rest: "nw_rest w' = added (nw_rest w) pool i \<or> (\<exists>h m. nw_rest w' = (added (nw_rest w) pool i)\<lparr>ts_handed := h, ts_mail := m\<rparr>)"
    and pool: "pool_inv pool" and poller: "poller_inv (el_poller w')"
    and name: "name_of_conn i w' = Inr (connName (ts_name (nw_rest w)) (ts_nextConnId (nw_rest w)))"
    and other: "\<And>j. j \<noteq> i \<Longrightarrow> name_of_conn j w' = name_of_conn j w"
  shows "server_inv w' \<and> server_abs w' = (ts_nextConnId (nw_rest w) + 1,
    insert (ts_nextConnId (nw_rest w), i) (snd (server_abs w)))"
proof -
  let ?s = "nw_rest w" and ?s' = "nw_rest w'"
  let ?n = "ts_nextConnId ?s" and ?nm = "connName (ts_name ?s) (ts_nextConnId ?s)"
  have s': "ts_name ?s' = ts_name ?s" "ts_nextConnId ?s' = ?n + 1" "ts_connections ?s' = map_put ?nm i (ts_connections ?s)"
      "ts_pool ?s' = pool" "ts_acceptor ?s' = ts_acceptor ?s"
    using rest by (auto simp: added_def)
  have s: "ac_callback (ts_acceptor ?s)" "1 \<le> ?n" "sorted (map fst (ts_connections ?s))" "distinct (map fst (ts_connections ?s))"
      "distinct (map snd (ts_connections ?s))"
    and entries: "\<And>nm j. (nm, j) \<in> set (ts_connections ?s) \<Longrightarrow> name_of_conn j w = Inr nm
        \<and> (\<exists>k. 1 \<le> k \<and> k < ?n \<and> nm = connName (ts_name ?s) k)"
    using inv by (auto simp: server_inv_def Let_def)
  have inj: "connName (ts_name ?s) k = ?nm \<longleftrightarrow> k = ?n" if "1 \<le> k" "k \<le> ?n" for k
    using connName_inj [of k ?n "ts_name ?s"] that s(2) room by auto
  have fresh: "?nm \<notin> fst ` set (ts_connections ?s)" by (rule connName_fresh [OF inv room])
  have set: "set (ts_connections ?s') = insert (?nm, i) (set (ts_connections ?s))"
    and snds: "distinct (map snd (ts_connections ?s'))"
    using map_put_new [OF fresh, of i] s(5) i by (simp_all add: s'(3))
  have keys: "sorted (map fst (ts_connections ?s'))" "distinct (map fst (ts_connections ?s'))"
    using sorted_map_put [OF s(3,4)] by (simp_all add: s'(3))
  have "name_of_conn j w' = Inr nm \<and> (\<exists>k. 1 \<le> k \<and> k < ?n + 1 \<and> nm = connName (ts_name ?s) k)"
    if "(nm, j) \<in> set (ts_connections ?s')" for nm j
  proof (cases "(nm, j) = (?nm, i)")
    case True
    then show ?thesis using name s(2) by auto
  next
    case False
    then have mem: "(nm, j) \<in> set (ts_connections ?s)" using that set by auto
    then have "j \<noteq> i" using i by force
    then show ?thesis using entries [OF mem] other by fastforce
  qed
  then have "server_inv w'"
    using s(1,2) s' keys snds pool poller room by (auto simp: server_inv_def Let_def)
  moreover have small: "k < ?n" if "k \<le> ?n" "(connName (ts_name ?s) k, j) \<in> set (ts_connections ?s)" for k j
    using fresh that by (cases "k = ?n") force+
  have "snd (server_abs w') = insert (?n, i) (snd (server_abs w))"
    using s(2) inj small by (auto simp: server_abs_def Let_def s'(1,2) set)
  ultimately show ?thesis by (simp add: server_abs_def Let_def s'(2) prod_eq_iff)
qed

lemma TcpConnection_ctor_server:
  "put_server s (TcpConnection_ctor i ch lh tied name fd reads writes sr w) =
   TcpConnection_ctor i ch lh tied name fd reads writes sr (put_server s w)"
  by (simp add: TcpConnection_ctor_def put_server_def put_conn_def Let_def)

lemma TcpConnection_ctor_thread [simp]:
  "el_threadId (TcpConnection_ctor i ch lh tied name fd reads writes sr w) = el_threadId w"
  by (simp add: TcpConnection_ctor_def Let_def)

text \<open>A new connection that the pool assigns to the base loop: the world afterwards.\<close>

lemma newConnection_base:
  assumes inv: "server_inv w" and env: "server_env w (SvAccept ob fd)"
    and base: "getNextLoop (ts_pool (nw_rest w)) = Inr (ts_loop (nw_rest w), pool)"
  defines "nm \<equiv> connName (ts_name (nw_rest w)) (ts_nextConnId (nw_rest w))"
  shows "\<exists>p ch. newConnection (server_user stack cb (el_threadId w)) (el_threadId w) ob fd w
      = Inr ((put_server (added (nw_rest w) pool (no_conn ob)) w)\<lparr>el_poller := p, nw_conns := (nw_conns w)(no_conn ob \<mapsto>
          established_conn nm (no_channel ob) (no_reads ob) (no_writes ob) (no_shutdown ob))\<rparr>)
    \<and> poller_inv p \<and> pl_heap p (no_channel ob) = Some ch \<and> registered p (no_channel ob) \<and> conn_channel (no_conn ob) fd ch
    \<and> pl_heap p = (pl_heap (el_poller w))(no_channel ob \<mapsto> ch) \<and> pl_channels p = map_put fd (no_channel ob) (pl_channels (el_poller w))"
proof -
  let ?s = "nw_rest w" and ?tid = "el_threadId w" and ?i = "no_conn ob"
  let ?u = "server_user stack cb ?tid" and ?s' = "added ?s pool ?i"
  let ?c = "established_conn nm (no_channel ob) (no_reads ob) (no_writes ob) (no_shutdown ob)"
  have e: "0 \<le> fd" "map_of (pl_channels (el_poller w)) fd = None" "pl_heap (el_poller w) (no_channel ob) = None"
      "ts_nextConnId ?s < 2147483647" "poller_inv (el_poller w)"
    using env inv by (simp_all add: server_env_def server_inv_def Let_def)
  obtain p ch where up: "connectEstablished ?u ?tid ?i (TcpConnection_ctor ?i (no_channel ob) (no_logHup ob) (no_tied ob) nm fd
        (no_reads ob) (no_writes ob) (no_shutdown ob) (put_server ?s' w))
      = nu_connection ?u ?i ((put_server ?s' w)\<lparr>el_poller := p, nw_conns := (nw_conns w)(?i \<mapsto> ?c)\<rparr>)"
      "poller_inv p" "pl_heap p = (pl_heap (el_poller w))(no_channel ob \<mapsto> ch)" "registered p (no_channel ob)" "conn_channel ?i fd ch"
      "pl_channels p = map_put fd (no_channel ob) (pl_channels (el_poller w))"
    using connection_up [of "put_server ?s' w" "no_channel ob" fd ?u ?tid ?i "no_logHup ob" "no_tied ob" nm "no_reads ob"
        "no_writes ob" "no_shutdown ob"] e by auto
  have "?c\<lparr>tc_context := HttpContext_ctor\<rparr> = ?c" by (simp add: established_conn_def)
  then have "nu_connection ?u ?i ((put_server ?s' w)\<lparr>el_poller := p, nw_conns := (nw_conns w)(?i \<mapsto> ?c)\<rparr>)
      = Inr ((put_server ?s' w)\<lparr>el_poller := p, nw_conns := (nw_conns w)(?i \<mapsto> ?c)\<rparr>)"
    by (simp add: server_user_def http_user_def onConnection_def connected_def setContext_def put_conn_def)
  moreover have "newConnection ?u ?tid ob fd w = connectEstablished ?u ?tid ?i (TcpConnection_ctor ?i (no_channel ob) (no_logHup ob)
      (no_tied ob) nm fd (no_reads ob) (no_writes ob) (no_shutdown ob) (put_server ?s' w))"
    using base e(4)
    by (simp add: newConnection_def added_def Let_def runInLoop_def isInLoopThread_def TcpConnection_ctor_server nm_def)
  ultimately show ?thesis using up by (intro exI [of _ p] exI [of _ ch]) simp
qed

lemma newConnection_ok:
  assumes inv: "server_inv w" and env: "server_env w (SvAccept ob fd)"
  shows "\<exists>w'. newConnection (server_user stack cb (el_threadId w)) (el_threadId w) ob fd w = Inr w' \<and> server_inv w'
    \<and> server_abs w' = live_step (server_abs w) (SvAccept ob fd)"
proof -
  let ?s = "nw_rest w" and ?tid = "el_threadId w" and ?i = "no_conn ob"
  let ?u = "server_user stack cb ?tid" and ?nm = "connName (ts_name ?s) (ts_nextConnId ?s)"
  have e: "0 \<le> fd" "map_of (pl_channels (el_poller w)) fd = None" "pl_heap (el_poller w) (no_channel ob) = None"
      "nw_conns w ?i = None" "?i \<notin> handed_ids ?s" "?i \<notin> snd ` set (ts_connections ?s)" "ts_nextConnId ?s < 2147483647"
    using env by (simp_all add: server_env_def Let_def)
  have p: "pool_inv (ts_pool ?s)" "poller_inv (el_poller w)" using inv by (simp_all add: server_inv_def Let_def)
  obtain io pool where next_loop: "getNextLoop (ts_pool ?s) = Inr (io, pool)" "pool_inv pool"
    using getNextLoop_ok [OF p(1)] by blast
  let ?s' = "added ?s pool ?i"
  have "\<exists>w'. newConnection ?u ?tid ob fd w = Inr w'
    \<and> (nw_rest w' = ?s' \<or> (\<exists>h m. nw_rest w' = ?s'\<lparr>ts_handed := h, ts_mail := m\<rparr>))
    \<and> poller_inv (el_poller w') \<and> name_of_conn ?i w' = Inr ?nm \<and> (\<forall>j. j \<noteq> ?i \<longrightarrow> name_of_conn j w' = name_of_conn j w)"
  proof (cases "io = ts_loop ?s")
    case True
    let ?c = "established_conn ?nm (no_channel ob) (no_reads ob) (no_writes ob) (no_shutdown ob)"
    obtain q where q: "newConnection ?u ?tid ob fd w = Inr ((put_server ?s' w)\<lparr>el_poller := q, nw_conns := (nw_conns w)(?i \<mapsto> ?c)\<rparr>)"
        "poller_inv q"
      using newConnection_base [OF inv env] next_loop(1) True by blast
    let ?w = "(put_server ?s' w)\<lparr>el_poller := q, nw_conns := (nw_conns w)(?i \<mapsto> ?c)\<rparr>"
    note q(1)
    moreover have "name_of_conn ?i ?w = Inr ?nm" by (simp add: name_of_conn_def established_conn_def)
    moreover have "name_of_conn j ?w = name_of_conn j w" if "j \<noteq> ?i" for j
      using that by (simp add: name_of_conn_def added_def cong: option.case_cong)
    ultimately show ?thesis using q(2) by (intro exI [of _ ?w]) simp
  next
    case False
    let ?h = "ts_handed ?s @ [(io, ?i, ?nm, fd)]" and ?m = "ts_mail ?s @ [(io, ConnectEstablished ?i)]"
    let ?w = "put_server (?s'\<lparr>ts_handed := ?h, ts_mail := ?m\<rparr>) w"
    have "newConnection ?u ?tid ob fd w = Inr ?w"
      using False next_loop(1) e(7) by (simp add: newConnection_def added_def Let_def)
    moreover have "map_of (map (\<lambda>(l, j, nm, fd). (j, nm)) (ts_handed ?s)) ?i = None"
      using e(5) by (auto simp: handed_ids_def map_of_eq_None_iff image_iff split: prod.splits)
    then have "name_of_conn ?i ?w = Inr ?nm"
      using e(4) by (simp add: name_of_conn_def map_add_def)
    moreover have "name_of_conn j ?w = name_of_conn j w" if "j \<noteq> ?i" for j
      using that by (simp add: name_of_conn_def map_add_def split: option.split)
    ultimately show ?thesis using p(2) by (intro exI [of _ ?w]) auto
  qed
  then obtain w' where w': "newConnection ?u ?tid ob fd w = Inr w'"
      "nw_rest w' = ?s' \<or> (\<exists>h m. nw_rest w' = ?s'\<lparr>ts_handed := h, ts_mail := m\<rparr>)" "poller_inv (el_poller w')"
      "name_of_conn ?i w' = Inr ?nm" "\<And>j. j \<noteq> ?i \<Longrightarrow> name_of_conn j w' = name_of_conn j w"
    by blast
  have "fst (server_abs w) = ts_nextConnId ?s" by (simp add: server_abs_def Let_def)
  with server_added [OF inv e(7,6) w'(2) next_loop(2) w'(3-5)] w'(1) show ?thesis by (simp add: live_step_def)
qed

lemma filter_key_single:
  assumes "distinct (map fst m)" and "(nm, i) \<in> set m"
  shows "length (filter (\<lambda>(k, _). k = nm) m) = 1"
  using assms
proof (induction m)
  case (Cons x m)
  show ?case
  proof (cases "fst x = nm")
    case True
    then have "nm \<notin> fst ` set m" using Cons.prems(1) by auto
    then have "filter (\<lambda>(k, _). k = nm) m = []" by (auto simp: filter_empty_conv image_iff)
    then show ?thesis using True by (simp add: case_prod_unfold)
  next
    case False
    then show ?thesis using Cons by (auto simp: case_prod_unfold)
  qed
qed simp

lemma removeConnectionInLoop_entry:
  assumes "server_inv w" and "(nm, i) \<in> set (ts_connections (nw_rest w))"
  shows "removeConnectionInLoop tid i w = Inr (queueInLoop tid (ConnectDestroyed i)
    (put_server ((nw_rest w)\<lparr>ts_connections := map_erase nm (ts_connections (nw_rest w))\<rparr>) w))"
proof -
  have "name_of_conn i w = Inr nm" "distinct (map fst (ts_connections (nw_rest w)))"
    using assms by (auto simp: server_inv_def Let_def)
  then show ?thesis using filter_key_single [OF _ assms(2)] by (simp add: removeConnectionInLoop_def Let_def)
qed

lemma sorted_distinct_filter:
  "sorted (map f xs) \<Longrightarrow> sorted (map f (filter P xs))" "distinct (map f xs) \<Longrightarrow> distinct (map f (filter P xs))"
  by (simp_all add: sorted_filter distinct_map_filter)

lemma erase_entry:
  assumes "server_inv w" and "(nm, i) \<in> set (ts_connections (nw_rest w))"
  shows "set (map_erase nm (ts_connections (nw_rest w))) = {(k, j) \<in> set (ts_connections (nw_rest w)). j \<noteq> i}"
proof -
  let ?m = "ts_connections (nw_rest w)"
  have keys: "distinct (map fst ?m)" "distinct (map snd ?m)" using assms(1) by (auto simp: server_inv_def Let_def)
  have "k = nm \<longleftrightarrow> j = i" if "(k, j) \<in> set ?m" for k j
    using that assms(2) keys by (metis eq_key_imp_eq_value map_of_is_SomeI distinct_map inj_on_eq_iff prod.inject snd_conv)
  then show ?thesis by (auto simp: map_erase_def)
qed

lemma server_erased:
  assumes inv: "server_inv w" and nm: "(nm, i) \<in> set (ts_connections (nw_rest w))"
    and rest: "nw_rest w' = (nw_rest w)\<lparr>ts_connections := map_erase nm (ts_connections (nw_rest w))\<rparr>"
    and same: "nw_conns w' = nw_conns w" "el_poller w' = el_poller w"
  shows "server_inv w' \<and> server_abs w' = live_step (server_abs w) (SvRemove i)"
proof -
  let ?s = "nw_rest w"
  have keys: "sorted (map fst (ts_connections ?s))" "distinct (map fst (ts_connections ?s))" "distinct (map snd (ts_connections ?s))"
    using inv by (auto simp: server_inv_def Let_def)
  note erase = erase_entry [OF inv nm]
  have "name_of_conn j w' = name_of_conn j w" for j by (simp add: name_of_conn_def same rest cong: option.case_cong)
  moreover have "sorted (map fst (map_erase nm (ts_connections ?s)))" "distinct (map fst (map_erase nm (ts_connections ?s)))"
      "distinct (map snd (map_erase nm (ts_connections ?s)))"
    unfolding map_erase_def by (intro sorted_distinct_filter keys)+
  ultimately have "server_inv w'"
    using inv by (auto simp: server_inv_def Let_def rest same erase)
  moreover have "server_abs w' = live_step (server_abs w) (SvRemove i)"
    by (auto simp: server_abs_def live_step_def Let_def rest erase)
  ultimately show ?thesis ..
qed

lemma server_step_refines:
  assumes "server_inv w" and "server_env w e"
  shows "\<exists>w'. server_step stack cb w e = Inr w' \<and> server_inv w' \<and> server_abs w' = live_step (server_abs w) e"
proof (cases e)
  case (SvAccept ob fd)
  have "0 \<le> fd" "ac_callback (ts_acceptor (nw_rest w))" using assms SvAccept by (simp_all add: server_env_def server_inv_def Let_def)
  then show ?thesis
    using newConnection_ok [OF assms(1), of ob fd stack cb] assms(2) SvAccept
    by (simp add: server_step_def handleRead_Acceptor_def accept_Socket_def sockets_accept_def Let_def)
next
  case (SvRemove i)
  then obtain nm where nm: "(nm, i) \<in> set (ts_connections (nw_rest w))" using assms(2) by (auto simp: server_env_def)
  show ?thesis
    using removeConnectionInLoop_entry [OF assms(1) nm, of "el_threadId w"] SvRemove
      server_erased [OF assms(1) nm] by (simp add: server_step_def run_server_def Let_def)
qed

interpretation srvsys: refined_system "server_step stack cb" server_env server_inv server_abs live_step for stack cb
proof
  fix w w' e
  assume *: "server_inv w" "server_env w e"
  show "\<exists>w'. server_step stack cb w e = Inr w'" using server_step_refines [OF *] by blast
  show "server_step stack cb w e = Inr w' \<Longrightarrow> server_inv w'" using server_step_refines [OF *, of stack cb] by auto
  show "server_step stack cb w e = Inr w' \<Longrightarrow> server_abs w' = live_step (server_abs w) e"
    using server_step_refines [OF *, of stack cb] by auto
qed

section \<open>A connection that closes is cleaned up\<close>

lemma server_inv_cong:
  assumes "server_inv w" and "nw_rest w' = nw_rest w" and "poller_inv (el_poller w')"
    and "\<And>j. name_of_conn j w' = name_of_conn j w"
  shows "server_inv w'" "server_abs w' = server_abs w"
  using assms by (auto simp: server_inv_def server_abs_def Let_def)

lemma name_of_conn_put:
  assumes "nw_conns w i = Some c" and "tc_name c' = tc_name c" and "nw_conns w' = (nw_conns w)(i \<mapsto> c')" and "nw_rest w' = nw_rest w"
  shows "name_of_conn j w' = name_of_conn j w"
  using assms by (auto simp: name_of_conn_def split: option.splits)

text \<open>\<open>handleClose\<close> on the base loop: the connection is out of the map and its end is queued.\<close>

lemma handleClose_server:
  assumes inv: "server_inv w" and conn: "nw_conns w i = Some c" "tc_state c = kConnected \<or> tc_state c = kDisconnecting"
    and ch: "pl_heap (el_poller w) (tc_channel c) = Some ch" "registered (el_poller w) (tc_channel c)"
    and nm: "(nm, i) \<in> set (ts_connections (nw_rest w))" and tid: "tid = el_threadId w"
  shows "\<exists>w'. handleClose (server_user stack cb tid) tid i w = Inr w' \<and> server_inv w'
    \<and> server_abs w' = live_step (server_abs w) (SvRemove i)
    \<and> nw_conns w' i = Some (c\<lparr>tc_state := kDisconnected\<rparr>) \<and> el_pendingFunctors w' = el_pendingFunctors w @ [ConnectDestroyed i]
    \<and> pl_heap (el_poller w') (tc_channel c) = Some (change DisableAll ch) \<and> registered (el_poller w') (tc_channel c)
    \<and> pl_heap (el_poller w') = (pl_heap (el_poller w))(tc_channel c \<mapsto> change DisableAll ch)
    \<and> pl_channels (el_poller w') = pl_channels (el_poller w) \<and> nw_conns w' = (nw_conns w)(i \<mapsto> c\<lparr>tc_state := kDisconnected\<rparr>)
    \<and> nw_rest w' = (nw_rest w)\<lparr>ts_connections := map_erase nm (ts_connections (nw_rest w))\<rparr>
    \<and> el_quit w' = el_quit w \<and> el_threadId w' = el_threadId w"
proof -
  let ?c = "c\<lparr>tc_state := kDisconnected\<rparr>"
  let ?w = "put_conn i ?c w"
  have "poller_inv (el_poller w)" using inv by (simp add: server_inv_def Let_def)
  then obtain p where p: "change_channel DisableAll i ?w = Inr (?w\<lparr>el_poller := p\<rparr>)" "poller_inv p"
      "pl_heap p (tc_channel c) = Some (change DisableAll ch)" "registered p (tc_channel c)"
      "pl_heap p = (pl_heap (el_poller w))(tc_channel c \<mapsto> change DisableAll ch)" "pl_channels p = pl_channels (el_poller w)"
    using change_channel_ok [of ?w i ?c ch DisableAll] ch by auto
  let ?w1 = "?w\<lparr>el_poller := p\<rparr>"
  have name: "name_of_conn j ?w1 = name_of_conn j w" for j
    using conn(1) by (rule name_of_conn_put) simp_all
  have inv1: "server_inv ?w1" and abs1: "server_abs ?w1 = server_abs w"
    using server_inv_cong [OF inv _ _ name] p(2) by simp_all
  have nm1: "(nm, i) \<in> set (ts_connections (nw_rest ?w1))" using nm by simp
  let ?w2 = "queueInLoop tid (ConnectDestroyed i)
      (put_server ((nw_rest ?w1)\<lparr>ts_connections := map_erase nm (ts_connections (nw_rest ?w1))\<rparr>) ?w1)"
  have "handleClose (server_user stack cb tid) tid i w = removeConnectionInLoop tid i ?w1"
    using conn p(1) tid
    by (simp add: handleClose_def setState_def server_user_def http_user_def onConnection_def connected_def
        removeConnection_def runInLoop_def isInLoopThread_def)
  also have "\<dots> = Inr ?w2" by (rule removeConnectionInLoop_entry [OF inv1 nm1])
  finally have run: "handleClose (server_user stack cb tid) tid i w = Inr ?w2" .
  have "server_inv ?w2 \<and> server_abs ?w2 = live_step (server_abs ?w1) (SvRemove i)"
    by (rule server_erased [OF inv1 nm1]) simp_all
  then show ?thesis using run abs1 p(3-6) by (intro exI [of _ ?w2]) simp
qed

section \<open>Properties\<close>

text \<open>
  C8. The server's book-keeping. For any sequence of accepted sockets and removals, where a
  removal is for a connection still in the map, whatever number of loop threads the pool has, no
  assertion fails (in particular each removal erases exactly one entry); the map holds exactly the
  connections accepted and not yet removed, under the pairwise different names built from the
  numbers 1, 2, 3, ... in the order of acceptance.
\<close>

theorem server_run_refines:
  assumes "server_inv w" and "env_obeys (server_step stack cb) server_env w es"
  shows "\<exists>w'. run_events (server_step stack cb) w es = Inr w' \<and> server_inv w'
    \<and> server_abs w' = foldl live_step (server_abs w) es \<and> distinct (map fst (ts_connections (nw_rest w')))"
proof -
  obtain w' where w': "run_events (server_step stack cb) w es = Inr w'" "server_inv w'"
      "server_abs w' = foldl live_step (server_abs w) es"
    using srvsys.run_refines [OF assms] by blast
  moreover have "distinct (map fst (ts_connections (nw_rest w')))" using w'(2) by (simp add: server_inv_def Let_def)
  ultimately show ?thesis by blast
qed

section \<open>Witnesses\<close>

definition sample_server :: tcp_server where
  "sample_server = \<lparr>ts_loop = 0, ts_name = ''web:'', ts_acceptor = \<lparr>ac_socket = 3, ac_channel = 50, ac_callback = True, ac_listening = True\<rparr>,
     ts_pool = fst (start_pool (\<lambda>i. i + 100) False (setThreadNum_pool 0 (EventLoopThreadPool_ctor False 0 ''web:''))),
     ts_nextConnId = 1, ts_connections = [], ts_handed = [], ts_mail = []\<rparr>"

definition sample_world :: server_world where
  "sample_world = \<lparr>el_looping = True, el_quit = False, el_eventHandling = True, el_callingPendingFunctors = False,
     el_iteration = 0, el_threadId = 1, el_pollReturnTime = Timestamp_default,
     el_poller = PollPoller_ctor Map.empty, el_wakeupFd = 4, el_wakeupChannel = 0, el_activeChannels = [],
     el_currentActiveChannel = None, el_pendingFunctors = [], el_eventfd = 0, nw_conns = Map.empty, nw_rest = sample_server\<rparr>"

definition sample_object :: new_object where
  "sample_object = \<lparr>no_conn = 1, no_channel = 7, no_logHup = True, no_tied = False, no_reads = (\<lambda>_. ReadBytes []),
     no_writes = (\<lambda>_. Wrote 0), no_shutdown = 0\<rparr>"

lemma sample_pool: "pool_inv (ts_pool sample_server)"
  by (simp add: sample_server_def start_pool_def Let_def pool_inv_def setThreadNum_pool_def EventLoopThreadPool_ctor_def)

lemma sample_inv: "server_inv sample_world" "server_env sample_world (SvAccept sample_object 5)"
  "server_abs sample_world = (1, {})"
proof -
  have "poller_inv (PollPoller_ctor Map.empty)" by (simp add: PollPoller_ctor_def poller_inv_def)
  then show "server_inv sample_world"
    using sample_pool by (simp add: server_inv_def sample_world_def) (simp add: sample_server_def)
  show "server_env sample_world (SvAccept sample_object 5)"
    by (simp add: server_env_def sample_world_def sample_server_def sample_object_def PollPoller_ctor_def handed_ids_def)
  show "server_abs sample_world = (1, {})" by (simp add: server_abs_def sample_world_def sample_server_def)
qed

theorem server_run_refines_witness:
  "\<exists>w'. run_events (server_step [] setstatus) sample_world [SvAccept sample_object 5, SvRemove 1] = Inr w' \<and> server_inv w'
    \<and> server_abs w' = (2, {})"
proof -
  obtain w1 where w1: "server_step [] setstatus sample_world (SvAccept sample_object 5) = Inr w1"
      "server_abs w1 = live_step (1, {}) (SvAccept sample_object 5)"
    using server_step_refines [OF sample_inv(1,2), of "[]" setstatus] sample_inv(3) by auto
  then have "(1, 1) \<in> snd (server_abs w1)" by (simp add: live_step_def sample_object_def)
  then have "(connName (ts_name (nw_rest w1)) 1, 1) \<in> set (ts_connections (nw_rest w1))"
    by (simp add: server_abs_def Let_def)
  then have "1 \<in> snd ` set (ts_connections (nw_rest w1))" by (rule image_eqI [rotated]) simp
  then have "env_obeys (server_step [] setstatus) server_env sample_world [SvAccept sample_object 5, SvRemove 1]"
    using w1(1) sample_inv(2) by (auto simp: server_env_def Let_def split: sum.split)
  from server_run_refines [OF sample_inv(1) this] show ?thesis
    by (auto simp: sample_inv(3) live_step_def sample_object_def)
qed

end
