(* ===== verification/HttpSessions.thy ===== *)
theory HttpSessions
  imports TcpServers
begin

text \<open>
  The parts of the HTTP server at work together, on the loop that accepts the connections: the
  constructor and \<open>start\<close> of \<open>src/http/HttpServer.cpp\<close>, and the lemmas for the reading of a request and of the end of the input through
  \<open>TcpConnection::handleRead\<close>, with the callbacks that \<open>TcpServer::newConnection\<close> installs.
\<close>

section \<open>Construction and start\<close>

text \<open>
  The constructor makes the \<open>TcpServer\<close> and gives it the callbacks of \<open>server_user\<close>; there is no
  other state. \<open>start\<close> and \<open>setThreadNum\<close> are the server's.
\<close>

definition HttpServer_ctor ::
  "nat \<Rightarrow> string \<Rightarrow> bool \<Rightarrow> int \<Rightarrow> int \<Rightarrow> nat \<Rightarrow> bool \<Rightarrow> bool \<Rightarrow> server_world \<Rightarrow> server_world outcome" where
  "HttpServer_ctor baseLoop name memory sock bindResult ch lh tied w =
     TcpServer_ctor baseLoop name memory sock bindResult ch lh tied w"

definition setThreadNum_http :: "int \<Rightarrow> server_world \<Rightarrow> server_world outcome" where
  "setThreadNum_http numThreads w = setThreadNum numThreads w"

definition start_http :: "(nat \<Rightarrow> nat) \<Rightarrow> bool \<Rightarrow> int \<Rightarrow> int \<Rightarrow> server_world \<Rightarrow> server_world outcome" where
  "start_http newLoop cb listenResult tid w = start_server newLoop cb listenResult tid w"

text \<open>A pool after \<open>start\<close>.\<close>

lemma started_pool:
  assumes "0 \<le> n"
    and "p = fst (start_pool newLoop cb (setThreadNum_pool n (EventLoopThreadPool_ctor memory base name)))"
  shows "pool_inv p" "served p = (if n = 0 then [base] else map newLoop [0..<nat n])"
  using assms by (auto simp: start_pool_def Let_def start_threads_loops pool_inv_def served_def setThreadNum_pool_def
      EventLoopThreadPool_ctor_def)

text \<open>Registering the channel of the listening socket, which is new.\<close>

lemma listen_registers:
  assumes "poller_inv (el_poller w)" and "pl_heap (el_poller w) a = None" and "0 \<le> fd"
    and "map_of (pl_channels (el_poller w)) fd = None"
    and "ch = setReadCallback AcceptRead (Channel_ctor lh tied fd)"
  shows "\<exists>p ch'. channel_change EnableReading a (w\<lparr>el_poller := store a ch (el_poller w)\<rparr>) = Inr (w\<lparr>el_poller := p\<rparr>)
    \<and> poller_inv p \<and> registered p a \<and> pl_heap p a = Some ch' \<and> ch_fd ch' = fd \<and> isReading ch'
    \<and> ch_readCallback ch' = Some AcceptRead \<and> pl_heap p = (pl_heap (el_poller w))(a \<mapsto> ch')
    \<and> pl_channels p = map_put fd a (pl_channels (el_poller w))
    \<and> map pfd_fd (pl_pollfds p) = map pfd_fd (pl_pollfds (el_poller w)) @ [fd]"
proof -
  let ?p = "store a ch (el_poller w)" and ?ch' = "change EnableReading ch"
  let ?n = "int (length (pl_pollfds (el_poller w)))"
  have ch: "ch_index ch < 0" "ch_fd ch = fd" "ch_fd ?ch' = fd" "ch_index ?ch' = ch_index ch" "isReading ?ch'"
      "ch_readCallback ?ch' = Some AcceptRead"
    by (simp_all add: assms(5) setReadCallback_def Channel_ctor_def enableReading_def update_mark_def isReading_def has_bits_iff bit_events)
  have inv: "poller_inv ?p" by (rule inv_store_new [OF assms(1,2)])
  obtain p where p: "updateChannel_poller a (store a ?ch' ?p) = Inr p" "poller_inv p"
      "pl_heap p = (pl_heap ?p)(a \<mapsto> set_index ?n ?ch')" "pl_channels p = map_put fd a (pl_channels (el_poller w))"
      "map pfd_fd (pl_pollfds p) = map pfd_fd (pl_pollfds (el_poller w)) @ [fd]"
    using update_new [OF inv, of a ch ?ch'] ch assms(3,4) by auto
  have "registered p a" using p(3,4) ch(3) by (simp add: registered_def map_of_map_put set_index_def)
  moreover have "ch_fd (set_index ?n ?ch') = fd" "isReading (set_index ?n ?ch')" "ch_readCallback (set_index ?n ?ch') = Some AcceptRead"
    using ch(3,5,6) by (simp_all add: set_index_def isReading_def)
  moreover have "channel_change EnableReading a (w\<lparr>el_poller := ?p\<rparr>) = Inr (w\<lparr>el_poller := p\<rparr>)"
    using p(1) by (simp add: channel_change_def updateChannel_def)
  ultimately show ?thesis using p(2-5) by (intro exI [of _ p] exI [of _ "set_index ?n ?ch'"]) simp
qed

text \<open>The server object when it is new, with its number of threads, and after \<open>start\<close>.\<close>

definition new_server :: "nat \<Rightarrow> string \<Rightarrow> bool \<Rightarrow> int \<Rightarrow> nat \<Rightarrow> tcp_server" where
  "new_server base name memory sock ch =
     \<lparr>ts_loop = base, ts_name = name, ts_acceptor = \<lparr>ac_socket = sock, ac_channel = ch, ac_callback = True, ac_listening = False\<rparr>,
      ts_pool = EventLoopThreadPool_ctor memory base name, ts_nextConnId = 1, ts_connections = [], ts_handed = [], ts_mail = []\<rparr>"

definition started_server :: "nat \<Rightarrow> string \<Rightarrow> bool \<Rightarrow> int \<Rightarrow> nat \<Rightarrow> (nat \<Rightarrow> nat) \<Rightarrow> bool \<Rightarrow> int \<Rightarrow> tcp_server" where
  "started_server base name memory sock ch newLoop cb n =
     (let s = new_server base name memory sock ch
      in s\<lparr>ts_pool := fst (start_pool newLoop cb (setThreadNum_pool n (ts_pool s))),
           ts_acceptor := (ts_acceptor s)\<lparr>ac_listening := True\<rparr>\<rparr>)"

definition with_threads :: "nat \<Rightarrow> string \<Rightarrow> bool \<Rightarrow> int \<Rightarrow> nat \<Rightarrow> bool \<Rightarrow> bool \<Rightarrow> int \<Rightarrow> server_world \<Rightarrow> server_world" where
  "with_threads base name memory sock ch lh tied n w =
     (let s = new_server base name memory sock ch
      in put_server (s\<lparr>ts_pool := setThreadNum_pool n (ts_pool s)\<rparr>)
           (w\<lparr>el_poller := store ch (setReadCallback AcceptRead (Channel_ctor lh tied sock)) (el_poller w)\<rparr>))"

lemma http_starts:
  assumes "poller_inv (el_poller w)" and "pl_heap (el_poller w) ch = None" and "map_of (pl_channels (el_poller w)) sock = None"
    and "0 \<le> sock" and "0 \<le> bindResult" and "0 \<le> listenResult" and "0 \<le> n" and "tid = el_threadId w"
  shows "\<exists>p c. HttpServer_ctor base name memory sock bindResult ch lh tied w
        = Inr (put_server (new_server base name memory sock ch) (w\<lparr>el_poller := store ch (setReadCallback AcceptRead (Channel_ctor lh tied sock)) (el_poller w)\<rparr>))
    \<and> setThreadNum_http n (put_server (new_server base name memory sock ch)
          (w\<lparr>el_poller := store ch (setReadCallback AcceptRead (Channel_ctor lh tied sock)) (el_poller w)\<rparr>))
        = Inr (with_threads base name memory sock ch lh tied n w)
    \<and> start_http newLoop cb listenResult tid (with_threads base name memory sock ch lh tied n w)
        = Inr ((put_server (started_server base name memory sock ch newLoop cb n) w)\<lparr>el_poller := p\<rparr>)
    \<and> poller_inv p \<and> registered p ch \<and> pl_heap p ch = Some c \<and> ch_fd c = sock \<and> isReading c \<and> ch_readCallback c = Some AcceptRead
    \<and> pl_heap p = (pl_heap (el_poller w))(ch \<mapsto> c) \<and> pl_channels p = map_put sock ch (pl_channels (el_poller w))
    \<and> map pfd_fd (pl_pollfds p) = map pfd_fd (pl_pollfds (el_poller w)) @ [sock]"
proof -
  let ?ch = "setReadCallback AcceptRead (Channel_ctor lh tied sock)"
  let ?s = "new_server base name memory sock ch" and ?s3 = "started_server base name memory sock ch newLoop cb n"
  let ?w1 = "put_server ?s (w\<lparr>el_poller := store ch ?ch (el_poller w)\<rparr>)"
  let ?w2 = "with_threads base name memory sock ch lh tied n w"
  have ctor: "HttpServer_ctor base name memory sock bindResult ch lh tied w = Inr ?w1" "setThreadNum_http n ?w1 = Inr ?w2"
    using assms(4,5,7)
    by (simp_all add: HttpServer_ctor_def TcpServer_ctor_def Acceptor_ctor_def createNonblockingOrDie_def bindAddress_def bindOrDie_def
        setThreadNum_http_def setThreadNum_def with_threads_def new_server_def put_server_def Let_def)
  obtain p c where p: "channel_change EnableReading ch ((put_server ?s3 w)\<lparr>el_poller := store ch ?ch (el_poller w)\<rparr>)
        = Inr ((put_server ?s3 w)\<lparr>el_poller := p\<rparr>)" "poller_inv p" "registered p ch" "pl_heap p ch = Some c" "ch_fd c = sock"
      "isReading c" "ch_readCallback c = Some AcceptRead" "pl_heap p = (pl_heap (el_poller w))(ch \<mapsto> c)"
      "pl_channels p = map_put sock ch (pl_channels (el_poller w))"
      "map pfd_fd (pl_pollfds p) = map pfd_fd (pl_pollfds (el_poller w)) @ [sock]"
    using listen_registers [of "put_server ?s3 w" ch sock ?ch lh tied] assms(1-4) by auto
  have swap: "w\<lparr>el_poller := q, nw_rest := s\<rparr> = w\<lparr>nw_rest := s, el_poller := q\<rparr>" for q s by simp
  have "start_http newLoop cb listenResult tid ?w2 = Inr ((put_server ?s3 w)\<lparr>el_poller := p\<rparr>)"
    using p(1) assms(6,8)
    by (simp add: start_http_def start_server_def Let_def runInLoop_def isInLoopThread_def listen_Acceptor_def listen_Socket_def
        listenOrDie_def put_server_def swap with_threads_def started_server_def new_server_def)
  then show ?thesis using ctor p(2-) by (intro exI [of _ p] exI [of _ c]) simp
qed

lemma started_inv:
  assumes "poller_inv p" and "0 \<le> n"
    and w': "w' = (put_server (started_server base name memory sock ch newLoop cb n) w)\<lparr>el_poller := p\<rparr>"
  shows "server_inv w'" and "server_abs w' = (1, {})" and "served (ts_pool (nw_rest w')) = (if n = 0 then [base] else map newLoop [0..<nat n])"
  using started_pool [OF assms(2) refl, of newLoop cb memory base name] assms(1)
  by (simp_all add: w' server_inv_def server_abs_def started_server_def new_server_def Let_def)

section \<open>Reading\<close>

lemma new_input_buffer:
  "buffer_inv (new_Buffer kInitialSize)" "bytes_of (new_Buffer kInitialSize) = []"
  "readv_capacity (new_Buffer kInitialSize) = kInitialSize + kExtraBuf"
  "room_for (writableBytes (new_Buffer kInitialSize) + kExtraBuf) (new_Buffer kInitialSize)"
  by (simp_all add: buffer_eval kInitialSize_def)

lemma readFd_eof:
  assumes "buffer_inv b"
  shows "\<exists>b'. readFd (ReadBytes []) b = Inr (0, None, b')"
  using store_spec [OF assms, of "[]"] by (auto simp: readFd_def Let_def)

text \<open>
  A request that arrives in one read is answered: the connection afterwards. The input buffer was
  empty and the context fresh or reset.
\<close>

lemma handleRead_http_answered:
  assumes conn: "nw_conns w i = Some c" "tc_state c = kConnected" "0 \<le> sk_shutdownResult c" "readableBytes (tc_outputBuffer c) = 0"
    and ch: "pl_heap (el_poller w) (tc_channel c) = Some ch" "\<not> isWriting ch" and tid: "tid = el_threadId w"
    and stack: "length stack = 32"
    and buf: "buffer_inv (tc_inputBuffer c)" "bytes_of (tc_inputBuffer c) = []"
      "room_for (writableBytes (tc_inputBuffer c) + kExtraBuf) (tc_inputBuffer c)"
    and ctx: "ctx_state (tc_context c) = kExpectRequestLine" "req_method (ctx_request (tc_context c)) = kInvalid"
      "req_headers (ctx_request (tc_context c)) = []"
    and inp: "sk_reads c (sk_nreads c) = ReadBytes (request_text m p q v hs @ extra)"
      "length (request_text m p q v hs @ extra) \<le> readv_capacity (tc_inputBuffer c)" "request_text m p q v hs @ extra \<noteq> []"
    and wf: "wf_target p q" "m \<noteq> kInvalid" "v \<noteq> kUnknown" "\<forall>h \<in> set hs. wf_header h"
    and close: "close \<longleftrightarrow> map_of (rev hs) ''Connection'' = Some ''close''
           \<or> v = kHttp10 \<and> map_of (rev hs) ''Connection'' \<noteq> Some ''Keep-Alive''"
    and kernel: "sk_writes c (sk_nwrites c) = Wrote (length (http_answer stack close))"
  shows "\<exists>b x b'. handleRead (http_user stack cb tid cl) tid i t w
      = Inr (put_conn i (answered stack close x b' (c\<lparr>tc_inputBuffer := b, sk_nreads := sk_nreads c + 1\<rparr>)) w)
    \<and> buffer_inv b' \<and> bytes_of b' = []"
proof -
  let ?text = "request_text m p q v hs @ extra"
  obtain b where b: "readFd (ReadBytes ?text) (tc_inputBuffer c) = Inr (int (length ?text), None, b)"
      "buffer_inv b" "bytes_of b = ?text"
    using readFd_spec [OF buf(1) inp(2) buf(3)] buf(2) by auto
  let ?c = "c\<lparr>tc_inputBuffer := b, sk_nreads := sk_nreads c + 1\<rparr>"
  let ?w = "put_conn i ?c w"
  have rdy: "ready i ?w ?c" using conn(3,4) ch by (simp add: ready_def)
  obtain x b' where ans: "onMessage stack cb tid i t ?w = Inr (put_conn i (answered stack close x b' ?c) ?w)" "buffer_inv b'" "bytes_of b' = []"
    using onMessage_request [OF rdy _ _ stack _ _ _ _ _ wf close, of tid extra cb t] conn(2) b(2,3) tid kernel ctx by auto
  have "0 < length ?text" using inp(3) by (simp only: length_greater_0_conv not_False_eq_True)
  then have "handleRead (http_user stack cb tid cl) tid i t w = onMessage stack cb tid i t ?w"
    using conn(1) b(1) inp(1)
    by (simp add: handleRead_def Let_def http_user_def del: length_append append_eq_append_conv)
  then show ?thesis using ans by (intro exI [of _ b] exI [of _ x] exI [of _ b']) simp
qed

lemma handleRead_answered:
  assumes conn: "nw_conns w i = Some c" "tc_state c = kConnected" "0 \<le> sk_shutdownResult c" "readableBytes (tc_outputBuffer c) = 0"
    and ch: "pl_heap (el_poller w) (tc_channel c) = Some ch" "\<not> isWriting ch" and tid: "tid = el_threadId w"
    and stack: "length stack = 32"
    and buf: "buffer_inv (tc_inputBuffer c)" "bytes_of (tc_inputBuffer c) = []"
      "room_for (writableBytes (tc_inputBuffer c) + kExtraBuf) (tc_inputBuffer c)"
    and ctx: "ctx_state (tc_context c) = kExpectRequestLine" "req_method (ctx_request (tc_context c)) = kInvalid"
      "req_headers (ctx_request (tc_context c)) = []"
    and inp: "sk_reads c (sk_nreads c) = ReadBytes (request_text m p q v hs @ extra)"
      "length (request_text m p q v hs @ extra) \<le> readv_capacity (tc_inputBuffer c)" "request_text m p q v hs @ extra \<noteq> []"
    and wf: "wf_target p q" "m \<noteq> kInvalid" "v \<noteq> kUnknown" "\<forall>h \<in> set hs. wf_header h"
    and close: "close \<longleftrightarrow> map_of (rev hs) ''Connection'' = Some ''close''
           \<or> v = kHttp10 \<and> map_of (rev hs) ''Connection'' \<noteq> Some ''Keep-Alive''"
    and kernel: "sk_writes c (sk_nwrites c) = Wrote (length (http_answer stack close))"
  shows "\<exists>b x b'. handleRead (server_user stack cb tid) tid i t w
      = Inr (put_conn i (answered stack close x b' (c\<lparr>tc_inputBuffer := b, sk_nreads := sk_nreads c + 1\<rparr>)) w)
    \<and> buffer_inv b' \<and> bytes_of b' = []"
  unfolding server_user_def by (rule handleRead_http_answered [OF assms])

lemma handleRead_eof:
  assumes "nw_conns w i = Some c" and "sk_reads c (sk_nreads c) = ReadBytes []" and "buffer_inv (tc_inputBuffer c)"
  shows "\<exists>b. handleRead u tid i t w
    = handleClose u tid i (put_conn i (c\<lparr>tc_inputBuffer := b, sk_nreads := sk_nreads c + 1\<rparr>) w)"
  using readFd_eof [OF assms(3)] assms(1,2) by (auto simp: handleRead_def Let_def)

end
