(* ===== verification/ServerRounds.thy ===== *)
theory ServerRounds
  imports HttpSessions
begin

text \<open>
  The HTTP server under its event loop. One round of \<open>EventLoop::loop\<close> is one call of \<open>poll\<close> with
  the handlers of the descriptors it reports and the functors they queued; here the rounds are
  those of a server with one loop, in which \<open>poll\<close> reports one readable descriptor at a time: the
  listening socket, a connection with a request, or a connection whose client has closed. The
  connections may be interleaved in any way, and a connection may carry many requests.

  \<open>accepts n\<close> is what the kernel and the allocator give for the \<open>n\<close>-th connection: the new objects
  with the results of their system calls, and the descriptor that \<open>accept\<close> returns.
\<close>

section \<open>One round\<close>

definition call_read_rounds ::
  "tcp_server net_user \<Rightarrow> int \<Rightarrow> (int \<Rightarrow> new_object \<times> int) \<Rightarrow> net_callback \<Rightarrow> timestamp \<Rightarrow> server_world \<Rightarrow> server_world outcome" where
  "call_read_rounds u tid accepts f t w =
     (case accepts (ts_nextConnId (nw_rest w)) of (ob, fd) \<Rightarrow> call_read_server u tid ob fd 0 f t w)"

definition server_round ::
  "string \<Rightarrow> http_callback \<Rightarrow> (int \<Rightarrow> new_object \<times> int) \<Rightarrow> poll_result \<times> timestamp \<Rightarrow> server_world \<Rightarrow> server_world outcome" where
  "server_round stack cb accepts polled w =
     (let tid = el_threadId w; u = server_user stack cb tid
      in loop_round (call_conn u tid) (call_read_rounds u tid accepts) (run_server u tid 0) polled w)"

text \<open>The world while the read callback of channel \<open>a\<close> runs, and after the dispatcher is done with it.\<close>

definition handling :: "nat \<Rightarrow> timestamp \<Rightarrow> 'cb poller \<Rightarrow> ('cb, 'f, 'z) event_loop_scheme \<Rightarrow> ('cb, 'f, 'z) event_loop_scheme" where
  "handling a t p w = w\<lparr>el_activeChannels := [a], el_poller := p, el_pollReturnTime := t, el_eventHandling := True,
     el_currentActiveChannel := Some a\<rparr>"

definition handled :: "nat \<Rightarrow> 'cb channel \<Rightarrow> ('cb, 'f, 'z) event_loop_scheme \<Rightarrow> ('cb, 'f, 'z) event_loop_scheme" where
  "handled a d w = (loop_chan_upd a (d\<lparr>ch_eventHandling := False\<rparr>) w)\<lparr>el_currentActiveChannel := None, el_eventHandling := False\<rparr>"

lemma loop_round_readable:
  assumes "poller_inv (el_poller w)" and "pl_heap (el_poller w) a = Some ch" and "registered (el_poller w) a"
    and "isReading ch" and "ch_readCallback ch = Some f"
  shows "\<exists>p. poller_inv p \<and> pl_channels p = pl_channels (el_poller w)
    \<and> pl_heap p = (pl_heap (el_poller w))(a \<mapsto> ch\<lparr>ch_revents := POLLIN, ch_eventHandling := True\<rparr>)
    \<and> map pfd_fd (pl_pollfds p) = map pfd_fd (pl_pollfds (el_poller w))
    \<and> (\<forall>w2 d. call_read f t (handling a t p w) = Inr w2 \<longrightarrow> pl_heap (el_poller w2) a = Some d \<longrightarrow> ch_revents d = POLLIN \<longrightarrow>
         loop_round call call_read run (PollEvents (report (ch_fd ch) (pl_pollfds (el_poller w))), t) w
           = doPendingFunctors run (handled a d w2))"
proof -
  have "\<not> isNoneEvent ch" using assms(4) by (auto simp: isNoneEvent_def isReading_def has_bits_def kNoneEvent_def)
  then obtain q where q: "poll_PollPoller (PollEvents (report (ch_fd ch) (pl_pollfds (el_poller w)))) [] (el_poller w) = Inr ([a], q)"
      "poller_inv q" "pl_channels q = pl_channels (el_poller w)" "pl_heap q = (pl_heap (el_poller w))(a \<mapsto> set_revents POLLIN ch)"
      "map pfd_fd (pl_pollfds q) = map pfd_fd (pl_pollfds (el_poller w))"
    using poll_one [OF assms(1-3)] by blast
  let ?c = "set_revents POLLIN ch"
  let ?p = "store a (?c\<lparr>ch_eventHandling := True\<rparr>) q"
  let ?w = "w\<lparr>el_activeChannels := [a], el_poller := q, el_pollReturnTime := t, el_eventHandling := True, el_currentActiveChannel := Some a\<rparr>"
  have upd: "loop_chan_upd a (?c\<lparr>ch_eventHandling := True\<rparr>) ?w = handling a t ?p w"
    by (simp add: loop_chan_upd_def handling_def)
  have "poller_inv ?p" by (rule inv_store_same [OF q(2), of a ?c]) (use q(4) in \<open>simp_all add: set_revents_def\<close>)
  moreover have "pl_heap ?p = (pl_heap (el_poller w))(a \<mapsto> ch\<lparr>ch_revents := POLLIN, ch_eventHandling := True\<rparr>)"
    using q(4) by (simp add: set_revents_def)
  moreover have "loop_round call call_read run (PollEvents (report (ch_fd ch) (pl_pollfds (el_poller w))), t) w
      = doPendingFunctors run (handled a d w2)"
    if "call_read f t (handling a t ?p w) = Inr w2" "pl_heap (el_poller w2) a = Some d" "ch_revents d = POLLIN" for w2 d
  proof -
    have "handleEvent (loop_chan a) (loop_chan_upd a) call call_read t ?w = Inr (loop_chan_upd a (d\<lparr>ch_eventHandling := False\<rparr>) w2)"
    proof (rule handleEvent_readable)
      show "loop_chan a ?w = Inr ?c" by (simp add: loop_chan_def q(4))
      show "call_read f t (loop_chan_upd a (?c\<lparr>ch_eventHandling := True\<rparr>) ?w) = Inr w2" unfolding upd by (rule that(1))
    qed (use that(2,3) assms(5) in \<open>simp_all add: loop_chan_def loop_chan_upd_def set_revents_def\<close>)
    then show ?thesis using q(1) by (simp add: loop_round_def handled_def)
  qed
  ultimately show ?thesis using q(3,5) by (intro exI [of _ ?p]) simp
qed

section \<open>Rounds as steps\<close>

text \<open>What \<open>poll\<close> reports in a round: the listening socket, a request on a connection, the end of one.\<close>

datatype round_event =
    RAccept timestamp
  | RRequest nat Method string string Version "(string \<times> string) list" timestamp
  | REof nat timestamp

definition ready_channel :: "server_world \<Rightarrow> round_event \<Rightarrow> nat option" where
  "ready_channel w e =
     (case e of
        RAccept t \<Rightarrow> Some (ac_channel (ts_acceptor (nw_rest w)))
      | RRequest i m p q v hs t \<Rightarrow> map_option tc_channel (nw_conns w i)
      | REof i t \<Rightarrow> map_option tc_channel (nw_conns w i))"

definition event_time :: "round_event \<Rightarrow> timestamp" where
  "event_time e = (case e of RAccept t \<Rightarrow> t | RRequest i m p q v hs t \<Rightarrow> t | REof i t \<Rightarrow> t)"

definition polled :: "server_world \<Rightarrow> round_event \<Rightarrow> poll_result \<times> timestamp" where
  "polled w e =
     (case ready_channel w e of
        None \<Rightarrow> (PollEvents (report (- 1) (pl_pollfds (el_poller w))), event_time e)
      | Some a \<Rightarrow> (PollEvents (report (case pl_heap (el_poller w) a of None \<Rightarrow> - 1 | Some ch \<Rightarrow> ch_fd ch)
                     (pl_pollfds (el_poller w))), event_time e))"

definition round_step ::
  "string \<Rightarrow> http_callback \<Rightarrow> (int \<Rightarrow> new_object \<times> int) \<Rightarrow> server_world \<Rightarrow> round_event \<Rightarrow> server_world outcome" where
  "round_step stack cb accepts w e = server_round stack cb accepts (polled w e) w"

text \<open>Whether the server closes after answering: the client asked for it, or speaks HTTP/1.0 and did not ask to go on.\<close>

definition closes_after :: "Version \<Rightarrow> (string \<times> string) list \<Rightarrow> bool" where
  "closes_after v hs \<longleftrightarrow> map_of (rev hs) ''Connection'' = Some ''close''
     \<or> v = kHttp10 \<and> map_of (rev hs) ''Connection'' \<noteq> Some ''Keep-Alive''"

text \<open>
  The contract of the kernel and the clients: new objects and descriptors are new; a request
  comes on a connection that is open in both directions, complete in one read, is well-formed, and
  its answer is taken by one \<open>write\<close>; the end of the input comes once, on a connection of the map.
\<close>

definition round_env :: "string \<Rightarrow> (int \<Rightarrow> new_object \<times> int) \<Rightarrow> server_world \<Rightarrow> round_event \<Rightarrow> bool" where
  "round_env stack accepts w e =
     (case e of
        RAccept t \<Rightarrow> (case accepts (ts_nextConnId (nw_rest w)) of (ob, fd) \<Rightarrow>
          server_env w (SvAccept ob fd) \<and> 0 \<le> no_shutdown ob)
      | RRequest i m p q v hs t \<Rightarrow> i \<in> snd ` set (ts_connections (nw_rest w))
          \<and> (case nw_conns w i of None \<Rightarrow> False | Some c \<Rightarrow>
               tc_state c = kConnected \<and> sk_reads c (sk_nreads c) = ReadBytes (request_text m p q v hs)
               \<and> length (request_text m p q v hs) \<le> readv_capacity (tc_inputBuffer c)
               \<and> room_for (writableBytes (tc_inputBuffer c) + kExtraBuf) (tc_inputBuffer c)
               \<and> wf_target p q \<and> m \<noteq> kInvalid \<and> v \<noteq> kUnknown \<and> (\<forall>h \<in> set hs. wf_header h)
               \<and> sk_writes c (sk_nwrites c) = Wrote (length (http_answer stack (closes_after v hs))))
      | REof i t \<Rightarrow> i \<in> snd ` set (ts_connections (nw_rest w))
          \<and> (case nw_conns w i of None \<Rightarrow> False | Some c \<Rightarrow> sk_reads c (sk_nreads c) = ReadBytes []))"

section \<open>The invariant between rounds\<close>

text \<open>A connection object that can serve the next request, or is waiting for the client to close.\<close>

definition serving :: "tcp_connection \<Rightarrow> bool" where
  "serving c \<longleftrightarrow> buffer_inv (tc_inputBuffer c) \<and> readableBytes (tc_outputBuffer c) = 0 \<and> 0 \<le> sk_shutdownResult c
     \<and> (tc_state c = kConnected \<and> bytes_of (tc_inputBuffer c) = [] \<and> ctx_state (tc_context c) = kExpectRequestLine
          \<and> req_method (ctx_request (tc_context c)) = kInvalid \<and> req_headers (ctx_request (tc_context c)) = []
        \<or> tc_state c = kDisconnecting)"

definition live_conn :: "'w net_world \<Rightarrow> nat \<Rightarrow> tcp_connection \<Rightarrow> net_callback channel \<Rightarrow> bool" where
  "live_conn w i c ch \<longleftrightarrow> nw_conns w i = Some c \<and> pl_heap (el_poller w) (tc_channel c) = Some ch
     \<and> registered (el_poller w) (tc_channel c) \<and> conn_channel i (ch_fd ch) ch \<and> serving c"

definition listening :: "server_world \<Rightarrow> net_callback channel \<Rightarrow> bool" where
  "listening w ch \<longleftrightarrow> pl_heap (el_poller w) (ac_channel (ts_acceptor (nw_rest w))) = Some ch
     \<and> registered (el_poller w) (ac_channel (ts_acceptor (nw_rest w))) \<and> isReading ch \<and> ch_readCallback ch = Some AcceptRead"

definition single_loop :: "server_world \<Rightarrow> bool" where
  "single_loop w \<longleftrightarrow> getNextLoop (ts_pool (nw_rest w)) = Inr (ts_loop (nw_rest w), ts_pool (nw_rest w))"

definition serving_inv :: "server_world \<Rightarrow> bool" where
  "serving_inv w \<longleftrightarrow> server_inv w \<and> \<not> el_quit w \<and> single_loop w \<and> (\<exists>ch. listening w ch)
     \<and> (\<forall>i \<in> snd ` set (ts_connections (nw_rest w)). \<exists>c ch. live_conn w i c ch)"

definition rounds_inv :: "server_world \<Rightarrow> bool" where
  "rounds_inv w \<longleftrightarrow> serving_inv w \<and> el_pendingFunctors w = []"

text \<open>The server as its clients see it: the number of the next connection, and for every open one what it was sent.\<close>

definition served_abs :: "server_world \<Rightarrow> int \<times> (nat \<rightharpoonup> string)" where
  "served_abs w = (ts_nextConnId (nw_rest w),
     \<lambda>i. if i \<in> snd ` set (ts_connections (nw_rest w)) then map_option sk_sent (nw_conns w i) else None)"

definition served_step ::
  "string \<Rightarrow> (int \<Rightarrow> new_object \<times> int) \<Rightarrow> int \<times> (nat \<rightharpoonup> string) \<Rightarrow> round_event \<Rightarrow> int \<times> (nat \<rightharpoonup> string)" where
  "served_step stack accepts a e =
     (case e of
        RAccept t \<Rightarrow> (fst a + 1, (snd a)(no_conn (fst (accepts (fst a))) \<mapsto> []))
      | RRequest i m p q v hs t \<Rightarrow>
          (fst a, (snd a)(i := map_option (\<lambda>sent. sent @ http_answer stack (closes_after v hs)) (snd a i)))
      | REof i t \<Rightarrow> (fst a, (snd a)(i := None)))"

section \<open>What the steps leave alone\<close>

text \<open>The channels outside \<open>X\<close> stay registered, with their descriptors, events and callbacks.\<close>

definition same_channel :: "'cb channel \<Rightarrow> 'cb channel \<Rightarrow> bool" where
  "same_channel ch d \<longleftrightarrow> ch_fd d = ch_fd ch \<and> ch_events d = ch_events ch \<and> ch_readCallback d = ch_readCallback ch
     \<and> ch_writeCallback d = ch_writeCallback ch \<and> ch_closeCallback d = ch_closeCallback ch \<and> ch_errorCallback d = ch_errorCallback ch"

definition carries :: "nat set \<Rightarrow> 'cb poller \<Rightarrow> 'cb poller \<Rightarrow> bool" where
  "carries X p p' \<longleftrightarrow> (\<forall>c ch. c \<notin> X \<longrightarrow> registered p c \<longrightarrow> pl_heap p c = Some ch \<longrightarrow>
     registered p' c \<and> (\<exists>d. pl_heap p' c = Some d \<and> same_channel ch d))"

lemma same_channel_refl [simp]: "same_channel ch ch"
  by (simp add: same_channel_def)

lemma same_channel_conn: "same_channel ch d \<Longrightarrow> conn_channel i (ch_fd ch) ch \<Longrightarrow> conn_channel i (ch_fd d) d"
  by (simp add: same_channel_def conn_channel_def isReading_def isWriting_def)

lemma live_conn_carries:
  assumes "live_conn w i c ch" and "carries X (el_poller w) (el_poller w')" and "tc_channel c \<notin> X" and "nw_conns w' i = Some c"
  shows "\<exists>d. live_conn w' i c d"
proof -
  obtain d where "registered (el_poller w') (tc_channel c)" "pl_heap (el_poller w') (tc_channel c) = Some d" "same_channel ch d"
    using assms(1-3) unfolding live_conn_def carries_def by metis
  then show ?thesis using assms(1,4) same_channel_conn by (auto simp: live_conn_def)
qed

lemma listening_carries:
  assumes "listening w ch" and "carries X (el_poller w) (el_poller w')" and "ac_channel (ts_acceptor (nw_rest w)) \<notin> X"
    and "ts_acceptor (nw_rest w') = ts_acceptor (nw_rest w)"
  shows "\<exists>d. listening w' d"
proof -
  obtain d where "registered (el_poller w') (ac_channel (ts_acceptor (nw_rest w)))"
      "pl_heap (el_poller w') (ac_channel (ts_acceptor (nw_rest w))) = Some d" "same_channel ch d"
    using assms(1-3) unfolding listening_def carries_def by metis
  then show ?thesis using assms(1,4) by (auto simp: listening_def same_channel_def isReading_def)
qed

lemma carries_heap:
  assumes "pl_channels p' = pl_channels p"
    and "\<And>c ch. pl_heap p c = Some ch \<Longrightarrow> c \<notin> X \<Longrightarrow> \<exists>d. pl_heap p' c = Some d \<and> same_channel ch d"
  shows "carries X p p'"
proof -
  have "registered p' c" if "registered p c" "pl_heap p c = Some ch" "pl_heap p' c = Some d" "same_channel ch d" for c ch d
    using that assms(1) by (simp add: registered_def same_channel_def)
  then show ?thesis unfolding carries_def using assms(2) by blast
qed

text \<open>A world that differs in the channels' received events and the loop's own fields only.\<close>

lemma serving_inv_cong:
  assumes "serving_inv w" and "nw_rest w' = nw_rest w" and "nw_conns w' = nw_conns w" and "el_quit w' = el_quit w"
    and "poller_inv (el_poller w')" and "carries {} (el_poller w) (el_poller w')"
  shows "serving_inv w'" and "served_abs w' = served_abs w"
proof -
  have "name_of_conn j w' = name_of_conn j w" for j unfolding name_of_conn_def assms(2,3) ..
  then have "server_inv w'" using server_inv_cong(1) [of w w'] assms(1,2,5) by (simp add: serving_inv_def)
  moreover have "\<exists>d. listening w' d"
    using assms(1) listening_carries [OF _ assms(6)] assms(2) by (auto simp: serving_inv_def)
  moreover have "\<exists>c d. live_conn w' i c d" if i: "i \<in> snd ` set (ts_connections (nw_rest w'))" for i
  proof -
    obtain c ch where c: "live_conn w i c ch" using assms(1) i unfolding serving_inv_def assms(2) by blast
    then have "nw_conns w' i = Some c" using assms(3) by (simp add: live_conn_def)
    then show ?thesis using live_conn_carries [OF c assms(6)] by blast
  qed
  ultimately show "serving_inv w'" using assms(1,2,4) by (simp add: serving_inv_def single_loop_def)
  show "served_abs w' = served_abs w" unfolding served_abs_def assms(2,3) ..
qed

section \<open>The handlers keep it\<close>

lemma carries_new:
  assumes "pl_heap p a = None" and "map_of (pl_channels p) fd = None"
    and "pl_heap p' = (pl_heap p)(a \<mapsto> ch)" and "pl_channels p' = map_put fd a (pl_channels p)"
  shows "carries {} p p'"
  unfolding carries_def
proof (intro allI impI)
  fix c d assume "registered p c" "pl_heap p c = Some d"
  moreover from this have "c \<noteq> a" "ch_fd d \<noteq> fd" using assms(1,2) by (auto simp: registered_def)
  ultimately show "registered p' c \<and> (\<exists>e. pl_heap p' c = Some e \<and> same_channel d e)"
    using assms(3,4) by (simp add: registered_def map_of_map_put)
qed

lemma established_serving: "0 \<le> sr \<Longrightarrow> serving (established_conn nm a reads writes sr)"
  using new_input_buffer(1,2)
  by (simp add: serving_def established_conn_def HttpContext_ctor_def HttpRequest_ctor_def)
    (simp add: buffer_eval kInitialSize_def)

lemma accept_serving:
  assumes inv: "serving_inv w" and env: "server_env w (SvAccept ob fd)" and sr: "0 \<le> no_shutdown ob" and tid: "tid = el_threadId w"
  shows "\<exists>w'. handleRead_Acceptor (server_user stack cb tid) tid ob fd 0 w = Inr w' \<and> serving_inv w'
    \<and> served_abs w' = (fst (served_abs w) + 1, (snd (served_abs w))(no_conn ob \<mapsto> []))
    \<and> el_pendingFunctors w' = el_pendingFunctors w \<and> el_threadId w' = el_threadId w
    \<and> (\<forall>a. a \<noteq> no_channel ob \<longrightarrow> pl_heap (el_poller w') a = pl_heap (el_poller w) a)
    \<and> nw_conns w' (no_conn ob) = Some (established_conn (connName (ts_name (nw_rest w)) (ts_nextConnId (nw_rest w))) (no_channel ob)
          (no_reads ob) (no_writes ob) (no_shutdown ob))"
proof -
  let ?u = "server_user stack cb tid" and ?s = "nw_rest w" and ?i = "no_conn ob"
  let ?nm = "connName (ts_name ?s) (ts_nextConnId ?s)"
  let ?c = "established_conn ?nm (no_channel ob) (no_reads ob) (no_writes ob) (no_shutdown ob)"
  have srv: "server_inv w" "single_loop w" "\<not> el_quit w" using inv by (simp_all add: serving_inv_def)
  have base: "getNextLoop (ts_pool ?s) = Inr (ts_loop ?s, ts_pool ?s)" using srv(2) by (simp add: single_loop_def)
  have e: "0 \<le> fd" "map_of (pl_channels (el_poller w)) fd = None" "pl_heap (el_poller w) (no_channel ob) = None"
      "ts_nextConnId ?s < 2147483647" "?i \<notin> snd ` set (ts_connections ?s)"
    using env by (simp_all add: server_env_def Let_def)
  obtain p ch where p: "newConnection ?u tid ob fd w = Inr ((put_server (added ?s (ts_pool ?s) ?i) w)\<lparr>el_poller := p,
        nw_conns := (nw_conns w)(?i \<mapsto> ?c)\<rparr>)" "poller_inv p" "registered p (no_channel ob)" "conn_channel ?i fd ch"
      "pl_heap p = (pl_heap (el_poller w))(no_channel ob \<mapsto> ch)" "pl_channels p = map_put fd (no_channel ob) (pl_channels (el_poller w))"
    using newConnection_base [OF srv(1) env base, of stack cb] unfolding tid by blast
  let ?w = "(put_server (added ?s (ts_pool ?s) ?i) w)\<lparr>el_poller := p, nw_conns := (nw_conns w)(?i \<mapsto> ?c)\<rparr>"
  have "ac_callback (ts_acceptor ?s)" using srv(1) by (simp add: server_inv_def Let_def)
  then have run: "handleRead_Acceptor ?u tid ob fd 0 w = Inr ?w"
    using p(1) e(1) by (simp add: handleRead_Acceptor_def accept_Socket_def sockets_accept_def)
  have sinv: "server_inv ?w" using newConnection_ok [OF srv(1) env, of stack cb] p(1) unfolding tid by simp
  have car: "carries {} (el_poller w) (el_poller ?w)" using carries_new [OF e(3,2) p(5,6)] by simp
  have conns: "snd ` set (ts_connections (nw_rest ?w)) = insert ?i (snd ` set (ts_connections ?s))"
    using map_put_new(1) [OF connName_fresh [OF srv(1) e(4)], of ?i] by (simp add: added_def)
  have new_conn: "live_conn ?w ?i ?c ch"
    using p(3-5) established_serving [OF sr] by (simp add: live_conn_def established_conn_def conn_channel_def)
  have "\<exists>d. listening ?w d" using inv listening_carries [OF _ car] by (auto simp: serving_inv_def added_def)
  moreover have "\<exists>c d. live_conn ?w j c d" if j: "j \<in> snd ` set (ts_connections (nw_rest ?w))" for j
  proof (cases "j = ?i")
    case True
    then show ?thesis using new_conn by blast
  next
    case False
    then obtain c d where "live_conn w j c d" using j inv unfolding conns serving_inv_def by blast
    then show ?thesis using live_conn_carries [OF _ car, of j c d] False by (auto simp: live_conn_def)
  qed
  ultimately have "serving_inv ?w" using sinv srv(2,3) by (simp add: serving_inv_def single_loop_def added_def)
  moreover have "served_abs ?w = (fst (served_abs w) + 1, (snd (served_abs w))(?i \<mapsto> []))"
    unfolding served_abs_def conns by (auto simp: added_def established_conn_def fun_eq_iff)
  ultimately show ?thesis using run p(5) by (intro exI [of _ ?w]) simp
qed

text \<open>A connection that answers a request stays in the map, open or waiting for the client to close.\<close>

lemma serving_put:
  assumes inv: "serving_inv w" and live: "live_conn w i c ch" and i: "i \<in> snd ` set (ts_connections (nw_rest w))"
    and c': "serving c'" "tc_channel c' = tc_channel c" "tc_name c' = tc_name c"
  shows "serving_inv (put_conn i c' w)" and "served_abs (put_conn i c' w) = (fst (served_abs w), (snd (served_abs w))(i \<mapsto> sk_sent c'))"
proof -
  let ?w = "put_conn i c' w"
  have conn: "nw_conns w i = Some c" using live by (simp add: live_conn_def)
  have "name_of_conn j ?w = name_of_conn j w" for j by (rule name_of_conn_put [OF conn c'(3)]) simp_all
  moreover have "poller_inv (el_poller w)" using inv by (simp add: serving_inv_def server_inv_def Let_def)
  ultimately have "server_inv ?w" using server_inv_cong(1) [of w ?w] inv by (simp add: serving_inv_def)
  moreover have "\<exists>c d. live_conn ?w j c d" if j: "j \<in> snd ` set (ts_connections (nw_rest ?w))" for j
  proof (cases "j = i")
    case True
    then show ?thesis using live c'(1,2) by (auto simp: live_conn_def)
  next
    case False
    then obtain d dh where "live_conn w j d dh" using j inv by (auto simp: serving_inv_def)
    then have "live_conn ?w j d dh" using False by (simp add: live_conn_def)
    then show ?thesis by blast
  qed
  ultimately show "serving_inv ?w" using inv by (simp add: serving_inv_def single_loop_def listening_def)
  show "served_abs ?w = (fst (served_abs w), (snd (served_abs w))(i \<mapsto> sk_sent c'))"
    using i by (auto simp: served_abs_def fun_eq_iff)
qed

lemma request_serving:
  assumes inv: "serving_inv w" and env: "round_env stack accepts w (RRequest i m p q v hs t)" and tid: "tid = el_threadId w"
    and stack: "length stack = 32"
  shows "\<exists>c'. handleRead (server_user stack cb tid) tid i t w = Inr (put_conn i c' w) \<and> serving_inv (put_conn i c' w)
    \<and> served_abs (put_conn i c' w) = served_step stack accepts (served_abs w) (RRequest i m p q v hs t)
    \<and> (\<exists>c. nw_conns w i = Some c \<and> sk_reads c' = sk_reads c \<and> sk_nreads c' = sk_nreads c + 1)"
proof -
  have i: "i \<in> snd ` set (ts_connections (nw_rest w))" using env by (simp add: round_env_def)
  then obtain c ch where live: "live_conn w i c ch" using inv unfolding serving_inv_def by blast
  then have c: "nw_conns w i = Some c" "pl_heap (el_poller w) (tc_channel c) = Some ch" "\<not> isWriting ch" "serving c"
    by (simp_all add: live_conn_def conn_channel_def)
  have e: "tc_state c = kConnected" "sk_reads c (sk_nreads c) = ReadBytes (request_text m p q v hs @ [])"
      "length (request_text m p q v hs @ []) \<le> readv_capacity (tc_inputBuffer c)"
      "room_for (writableBytes (tc_inputBuffer c) + kExtraBuf) (tc_inputBuffer c)" "wf_target p q" "m \<noteq> kInvalid" "v \<noteq> kUnknown"
      "\<forall>h \<in> set hs. wf_header h" "sk_writes c (sk_nwrites c) = Wrote (length (http_answer stack (closes_after v hs)))"
    using env c(1) by (simp_all add: round_env_def)
  have sv: "buffer_inv (tc_inputBuffer c)" "readableBytes (tc_outputBuffer c) = 0" "0 \<le> sk_shutdownResult c" "bytes_of (tc_inputBuffer c) = []"
      "ctx_state (tc_context c) = kExpectRequestLine" "req_method (ctx_request (tc_context c)) = kInvalid" "req_headers (ctx_request (tc_context c)) = []"
    using c(4) e(1) by (simp_all add: serving_def)
  have ne: "request_text m p q v hs @ [] \<noteq> []" by (simp add: request_text_def request_line_def)
  obtain b x b' where run: "handleRead (server_user stack cb tid) tid i t w
      = Inr (put_conn i (answered stack (closes_after v hs) x b' (c\<lparr>tc_inputBuffer := b, sk_nreads := sk_nreads c + 1\<rparr>)) w)"
      "buffer_inv b'" "bytes_of b' = []"
    using handleRead_answered [OF c(1) e(1) sv(3,2) c(2,3) tid stack sv(1,4) e(4) sv(5-7) e(2,3) ne e(5-8) closes_after_def e(9), of cb t]
    by blast
  let ?c = "answered stack (closes_after v hs) x b' (c\<lparr>tc_inputBuffer := b, sk_nreads := sk_nreads c + 1\<rparr>)"
  have "serving ?c" using run(2,3) sv e(1) by (simp add: serving_def)
  then have put: "serving_inv (put_conn i ?c w)" "served_abs (put_conn i ?c w) = (fst (served_abs w), (snd (served_abs w))(i \<mapsto> sk_sent ?c))"
    using serving_put [OF inv live i] by simp_all
  have "snd (served_abs w) i = Some (sk_sent c)" using i c(1) by (simp add: served_abs_def)
  then have "served_abs (put_conn i ?c w) = served_step stack accepts (served_abs w) (RRequest i m p q v hs t)"
    unfolding put(2) by (simp add: served_step_def)
  then show ?thesis using run(1) put(1) c(1) by (intro exI [of _ ?c]) simp
qed

lemma same_channel_trans: "same_channel a b \<Longrightarrow> same_channel b c \<Longrightarrow> same_channel a c"
  by (simp add: same_channel_def)

lemma carries_trans:
  assumes "carries X p q" and "carries X q r"
  shows "carries X p r"
  unfolding carries_def
proof (intro allI impI)
  fix c ch assume "c \<notin> X" "registered p c" "pl_heap p c = Some ch"
  with assms(1) obtain d where d: "registered q c" "pl_heap q c = Some d" "same_channel ch d" unfolding carries_def by blast
  with assms(2) \<open>c \<notin> X\<close> obtain e where "registered r c" "pl_heap r c = Some e" "same_channel d e" unfolding carries_def by blast
  then show "registered r c \<and> (\<exists>e. pl_heap r c = Some e \<and> same_channel ch e)" using d(3) same_channel_trans by blast
qed

lemma carries_mono: "carries X p q \<Longrightarrow> X \<subseteq> Y \<Longrightarrow> carries Y p q"
  unfolding carries_def by blast

text \<open>A connection leaves: it is out of the map, and every channel but its own is carried over.\<close>

lemma serving_without:
  assumes inv: "serving_inv w" and live: "live_conn w i c ch" and nm: "(nm, i) \<in> set (ts_connections (nw_rest w))"
    and w': "server_inv w'" "nw_rest w' = (nw_rest w)\<lparr>ts_connections := map_erase nm (ts_connections (nw_rest w))\<rparr>"
      "el_quit w' = el_quit w" "\<And>j. j \<noteq> i \<Longrightarrow> nw_conns w' j = nw_conns w j"
    and car: "carries {tc_channel c} (el_poller w) (el_poller w')"
  shows "serving_inv w'" and "served_abs w' = (fst (served_abs w), (snd (served_abs w))(i := None))"
proof -
  have srv: "server_inv w" using inv by (simp add: serving_inv_def)
  have conns: "snd ` set (ts_connections (nw_rest w')) = snd ` set (ts_connections (nw_rest w)) - {i}"
    using erase_entry [OF srv nm] w'(2) by force
  obtain l where l: "listening w l" using inv unfolding serving_inv_def by blast
  have "ac_channel (ts_acceptor (nw_rest w)) \<noteq> tc_channel c"
    using l live by (auto simp: listening_def live_conn_def conn_channel_def)
  then have "\<exists>d. listening w' d" using listening_carries [OF l car] w'(2) by simp
  moreover have "\<exists>c d. live_conn w' j c d" if j: "j \<in> snd ` set (ts_connections (nw_rest w'))" for j
  proof -
    have "j \<in> snd ` set (ts_connections (nw_rest w))" "j \<noteq> i" using j unfolding conns by simp_all
    then obtain cj d where cj: "live_conn w j cj d" using inv unfolding serving_inv_def by blast
    have "tc_channel cj \<noteq> tc_channel c"
      using cj live \<open>j \<noteq> i\<close> by (auto simp: live_conn_def conn_channel_def)
    moreover have "nw_conns w' j = Some cj" using w'(4) [OF \<open>j \<noteq> i\<close>] cj by (simp add: live_conn_def)
    ultimately show ?thesis using live_conn_carries [OF cj car] by blast
  qed
  ultimately show "serving_inv w'" using inv w'(1-3) by (simp add: serving_inv_def single_loop_def)
  show "served_abs w' = (fst (served_abs w), (snd (served_abs w))(i := None))"
    unfolding served_abs_def conns using w'(2,4) by (auto simp: fun_eq_iff)
qed

lemma eof_leaving:
  assumes inv: "serving_inv w" and live: "live_conn w i c ch" and nm: "(nm, i) \<in> set (ts_connections (nw_rest w))"
    and eof: "sk_reads c (sk_nreads c) = ReadBytes []" and tid: "tid = el_threadId w"
  shows "\<exists>w' c'. handleRead (server_user stack cb tid) tid i t w = Inr w' \<and> server_inv w'
    \<and> nw_rest w' = (nw_rest w)\<lparr>ts_connections := map_erase nm (ts_connections (nw_rest w))\<rparr>
    \<and> nw_conns w' = (nw_conns w)(i \<mapsto> c') \<and> tc_channel c' = tc_channel c
    \<and> el_pendingFunctors w' = el_pendingFunctors w @ [ConnectDestroyed i] \<and> el_quit w' = el_quit w \<and> el_threadId w' = el_threadId w
    \<and> pl_heap (el_poller w') = (pl_heap (el_poller w))(tc_channel c \<mapsto> change DisableAll ch)
    \<and> pl_channels (el_poller w') = pl_channels (el_poller w)"
proof -
  have c: "nw_conns w i = Some c" "serving c" "pl_heap (el_poller w) (tc_channel c) = Some ch" "registered (el_poller w) (tc_channel c)"
    using live by (simp_all add: live_conn_def)
  then have st: "tc_state c = kConnected \<or> tc_state c = kDisconnecting" "buffer_inv (tc_inputBuffer c)" by (auto simp: serving_def)
  obtain b where b: "handleRead (server_user stack cb tid) tid i t w
      = handleClose (server_user stack cb tid) tid i (put_conn i (c\<lparr>tc_inputBuffer := b, sk_nreads := sk_nreads c + 1\<rparr>) w)"
    using handleRead_eof [OF c(1) eof st(2)] by blast
  let ?c = "c\<lparr>tc_inputBuffer := b, sk_nreads := sk_nreads c + 1\<rparr>"
  let ?w = "put_conn i ?c w"
  have name: "name_of_conn j ?w = name_of_conn j w" for j by (rule name_of_conn_put [OF c(1)]) simp_all
  have srv: "server_inv w" using inv by (simp add: serving_inv_def)
  then have "poller_inv (el_poller w)" by (simp add: server_inv_def Let_def)
  then have "server_inv ?w" using server_inv_cong(1) [OF srv _ _ name] by simp
  from handleClose_server [OF this, of i ?c ch nm tid stack cb] st(1) c nm tid
  show ?thesis unfolding b by fastforce
qed

lemma destroy_pending:
  assumes w: "poller_inv (el_poller w)" "nw_conns w i = Some c" "pl_heap (el_poller w) (tc_channel c) = Some ch"
      "registered (el_poller w) (tc_channel c)" "\<not> el_eventHandling w" "el_pendingFunctors w = [ConnectDestroyed i]"
  shows "\<exists>p. doPendingFunctors (run_server u tid lr) w = Inr (w\<lparr>el_callingPendingFunctors := False, el_pendingFunctors := [], el_poller := p\<rparr>)
    \<and> poller_inv p \<and> carries {tc_channel c} (el_poller w) p"
proof -
  let ?w = "w\<lparr>el_callingPendingFunctors := True, el_pendingFunctors := []\<rparr>"
  obtain p where p: "connectDestroyed i ?w = Inr (?w\<lparr>el_poller := p\<rparr>)" "poller_inv p"
      "pl_channels p = map_erase (ch_fd ch) (pl_channels (el_poller w))"
      "\<forall>d. d \<noteq> tc_channel c \<longrightarrow> pl_heap p d = pl_heap (el_poller w) d
         \<or> (\<exists>dh idx. pl_heap (el_poller w) d = Some dh \<and> pl_heap p d = Some (set_index idx dh))"
    using connectDestroyed_ok [of ?w i c ch] w(1-5) by auto
  have "doPendingFunctors (run_server u tid lr) w = Inr (w\<lparr>el_callingPendingFunctors := False, el_pendingFunctors := [], el_poller := p\<rparr>)"
    using w(6) p(1) by (simp add: doPendingFunctors_def swap_functors_def run_server_def run_conn_def)
  moreover have "carries {tc_channel c} (el_poller w) p"
    unfolding carries_def
  proof (intro allI impI)
    fix a d assume a: "a \<notin> {tc_channel c}" "registered (el_poller w) a" "pl_heap (el_poller w) a = Some d"
    have "map_of (pl_channels (el_poller w)) (ch_fd d) = Some a" using a(2,3) by (simp add: registered_heap)
    moreover have "map_of (pl_channels (el_poller w)) (ch_fd ch) = Some (tc_channel c)" using w(3,4) by (simp add: registered_heap)
    ultimately have "map_of (pl_channels p) (ch_fd d) = Some a" using a(1) by (auto simp: p(3) map_of_map_erase)
    moreover obtain e where e: "pl_heap p a = Some e" "same_channel d e"
      using p(4) [rule_format, of a] a(1,3) by (auto simp: same_channel_def set_index_def)
    ultimately show "registered p a \<and> (\<exists>e. pl_heap p a = Some e \<and> same_channel d e)"
      by (simp add: registered_def same_channel_def)
  qed
  ultimately show ?thesis using p(2) by blast
qed

section \<open>Every round keeps it\<close>

lemma carries_refl: "carries X p p"
  by (auto simp: carries_def)

lemma handling_simps [simp]:
  "nw_rest (handling a t p w) = nw_rest w" "nw_conns (handling a t p w) = nw_conns w" "el_quit (handling a t p w) = el_quit w"
  "el_poller (handling a t p w) = p" "el_threadId (handling a t p w) = el_threadId w"
  "el_pendingFunctors (handling a t p w) = el_pendingFunctors w"
  by (simp_all add: handling_def)

lemma handled_simps [simp]:
  "nw_rest (handled a d w) = nw_rest w" "nw_conns (handled a d w) = nw_conns w" "el_quit (handled a d w) = el_quit w"
  "el_poller (handled a d w) = store a (d\<lparr>ch_eventHandling := False\<rparr>) (el_poller w)" "el_threadId (handled a d w) = el_threadId w"
  "el_pendingFunctors (handled a d w) = el_pendingFunctors w" "\<not> el_eventHandling (handled a d w)"
  by (simp_all add: handled_def loop_chan_upd_def)

lemma carries_store:
  assumes "pl_heap p a = Some ch" and "same_channel ch d"
  shows "carries {} p (store a d p)"
  using assms by (intro carries_heap) auto

text \<open>The world in which the handler of a readable channel starts is as good as the one before the round.\<close>

lemma round_start:
  assumes "serving_inv w" and "pl_heap (el_poller w) a = Some ch" and "registered (el_poller w) a" and "isReading ch"
    and "ch_readCallback ch = Some f"
  shows "\<exists>p. serving_inv (handling a t p w) \<and> served_abs (handling a t p w) = served_abs w
    \<and> carries {} (el_poller w) p \<and> pl_channels p = pl_channels (el_poller w)
    \<and> pl_heap p = (pl_heap (el_poller w))(a \<mapsto> ch\<lparr>ch_revents := POLLIN, ch_eventHandling := True\<rparr>)
    \<and> (\<forall>w2 d. call_read f t (handling a t p w) = Inr w2 \<longrightarrow> pl_heap (el_poller w2) a = Some d \<longrightarrow> ch_revents d = POLLIN \<longrightarrow>
         loop_round call call_read run (PollEvents (report (ch_fd ch) (pl_pollfds (el_poller w))), t) w
           = doPendingFunctors run (handled a d w2))"
proof -
  have "poller_inv (el_poller w)" using assms(1) by (simp add: serving_inv_def server_inv_def Let_def)
  from loop_round_readable [OF this assms(2-5), of call_read t call run] obtain p where
    p: "poller_inv p" "pl_channels p = pl_channels (el_poller w)"
      "pl_heap p = (pl_heap (el_poller w))(a \<mapsto> ch\<lparr>ch_revents := POLLIN, ch_eventHandling := True\<rparr>)"
    and run: "\<forall>w2 d. call_read f t (handling a t p w) = Inr w2 \<longrightarrow> pl_heap (el_poller w2) a = Some d \<longrightarrow> ch_revents d = POLLIN \<longrightarrow>
         loop_round call call_read run (PollEvents (report (ch_fd ch) (pl_pollfds (el_poller w))), t) w
           = doPendingFunctors run (handled a d w2)"
    by blast
  have car: "carries {} (el_poller w) p"
    using p(3) assms(2) by (intro carries_heap [OF p(2)]) (auto simp: same_channel_def)
  then have "serving_inv (handling a t p w)" "served_abs (handling a t p w) = served_abs w"
    using serving_inv_cong [OF assms(1), of "handling a t p w"] p(1) by simp_all
  then show ?thesis using p(2,3) run car by blast
qed

text \<open>The end of a round that has queued nothing.\<close>

lemma round_end:
  assumes "serving_inv w" and "pl_heap (el_poller w) a = Some d" and "el_pendingFunctors w = []"
  shows "\<exists>w'. doPendingFunctors run (handled a d w) = Inr w' \<and> rounds_inv w' \<and> served_abs w' = served_abs w \<and> el_threadId w' = el_threadId w
    \<and> nw_conns w' = nw_conns w"
proof -
  let ?w = "(handled a d w)\<lparr>el_callingPendingFunctors := False, el_pendingFunctors := []\<rparr>"
  have "poller_inv (el_poller w)" using assms(1) by (simp add: serving_inv_def server_inv_def Let_def)
  then have "poller_inv (el_poller ?w)" using inv_store_same [OF _ assms(2), of "d\<lparr>ch_eventHandling := False\<rparr>"] by simp
  moreover have "carries {} (el_poller w) (el_poller ?w)" using carries_store [OF assms(2)] by (simp add: same_channel_def)
  ultimately have "serving_inv ?w" "served_abs ?w = served_abs w" using serving_inv_cong [OF assms(1), of ?w] by simp_all
  moreover have "doPendingFunctors run (handled a d w) = Inr ?w"
    using assms(3) by (simp add: doPendingFunctors_def swap_functors_def)
  ultimately show ?thesis by (intro exI [of _ ?w]) (simp add: rounds_inv_def)
qed

lemma accept_round:
  assumes "rounds_inv w" and "round_env stack accepts w (RAccept t)"
  shows "\<exists>w'. round_step stack cb accepts w (RAccept t) = Inr w' \<and> rounds_inv w'
    \<and> served_abs w' = served_step stack accepts (served_abs w) (RAccept t) \<and> el_threadId w' = el_threadId w
    \<and> (case accepts (ts_nextConnId (nw_rest w)) of (ob, fd) \<Rightarrow> nw_conns w' (no_conn ob) = Some (established_conn
          (connName (ts_name (nw_rest w)) (ts_nextConnId (nw_rest w))) (no_channel ob) (no_reads ob) (no_writes ob) (no_shutdown ob)))"
proof -
  let ?a = "ac_channel (ts_acceptor (nw_rest w))" and ?tid = "el_threadId w"
  let ?u = "server_user stack cb (el_threadId w)"
  obtain ob fd where acc: "accepts (ts_nextConnId (nw_rest w)) = (ob, fd)" by (cases "accepts (ts_nextConnId (nw_rest w))")
  have env: "server_env w (SvAccept ob fd)" "0 \<le> no_shutdown ob" using assms(2) acc by (simp_all add: round_env_def)
  have inv: "serving_inv w" "el_pendingFunctors w = []" using assms(1) by (simp_all add: rounds_inv_def)
  then obtain ch where ch: "pl_heap (el_poller w) ?a = Some ch" "registered (el_poller w) ?a" "isReading ch" "ch_readCallback ch = Some AcceptRead"
    unfolding serving_inv_def listening_def by blast
  obtain p where p: "serving_inv (handling ?a t p w)" "served_abs (handling ?a t p w) = served_abs w"
      "pl_channels p = pl_channels (el_poller w)"
      "pl_heap p = (pl_heap (el_poller w))(?a \<mapsto> ch\<lparr>ch_revents := POLLIN, ch_eventHandling := True\<rparr>)"
    and run: "\<And>w2 d. call_read_rounds ?u ?tid accepts AcceptRead t (handling ?a t p w) = Inr w2 \<Longrightarrow> pl_heap (el_poller w2) ?a = Some d \<Longrightarrow>
       ch_revents d = POLLIN \<Longrightarrow> loop_round (call_conn ?u ?tid) (call_read_rounds ?u ?tid accepts) (run_server ?u ?tid 0)
           (PollEvents (report (ch_fd ch) (pl_pollfds (el_poller w))), t) w = doPendingFunctors (run_server ?u ?tid 0) (handled ?a d w2)"
    using round_start [OF inv(1) ch] by blast
  have ne: "?a \<noteq> no_channel ob" using env(1) ch(1) by (auto simp: server_env_def Let_def)
  have env1: "server_env (handling ?a t p w) (SvAccept ob fd)"
    using env(1) ne p(3,4) by (simp add: server_env_def)
  obtain w2 where w2: "handleRead_Acceptor ?u ?tid ob fd 0 (handling ?a t p w) = Inr w2" "serving_inv w2"
      "served_abs w2 = (fst (served_abs w) + 1, (snd (served_abs w))(no_conn ob \<mapsto> []))" "el_pendingFunctors w2 = []"
      "el_threadId w2 = ?tid" "pl_heap (el_poller w2) ?a = Some (ch\<lparr>ch_revents := POLLIN, ch_eventHandling := True\<rparr>)"
      "nw_conns w2 (no_conn ob) = Some (established_conn (connName (ts_name (nw_rest w)) (ts_nextConnId (nw_rest w))) (no_channel ob)
          (no_reads ob) (no_writes ob) (no_shutdown ob))"
    using accept_serving [OF p(1) env1 env(2), of ?tid stack cb] inv(2) ne unfolding p(2) by (auto simp: p(4))
  have "call_read_rounds ?u ?tid accepts AcceptRead t (handling ?a t p w) = Inr w2"
    using w2(1) acc by (simp add: call_read_rounds_def call_read_server_def)
  from run [OF this w2(6)]
  have "round_step stack cb accepts w (RAccept t) = doPendingFunctors (run_server ?u ?tid 0) (handled ?a (ch\<lparr>ch_revents := POLLIN, ch_eventHandling := True\<rparr>) w2)"
    using ch(1) by (simp add: round_step_def server_round_def polled_def ready_channel_def event_time_def Let_def)
  moreover have "served_step stack accepts (served_abs w) (RAccept t) = served_abs w2"
    using w2(3) acc by (simp add: served_step_def) (simp add: served_abs_def acc)
  ultimately show ?thesis using round_end [OF w2(2,6,4), of "run_server ?u ?tid 0"] w2(5,7) acc by auto
qed

text \<open>The handler of a live connection in a round, and how the round goes on after it.\<close>

lemma conn_round_start:
  assumes "serving_inv w" and "live_conn w i c ch"
    and u: "u = server_user stack cb (el_threadId w)" and tid: "tid = el_threadId w" and a: "a = tc_channel c"
  shows "\<exists>p. serving_inv (handling a t p w) \<and> served_abs (handling a t p w) = served_abs w
    \<and> live_conn (handling a t p w) i c (ch\<lparr>ch_revents := POLLIN, ch_eventHandling := True\<rparr>) \<and> carries {} (el_poller w) p
    \<and> (\<forall>w2 d. handleRead u tid i t (handling a t p w) = Inr w2 \<longrightarrow> pl_heap (el_poller w2) a = Some d \<longrightarrow> ch_revents d = POLLIN \<longrightarrow>
         server_round stack cb accepts (PollEvents (report (ch_fd ch) (pl_pollfds (el_poller w))), t) w
           = doPendingFunctors (run_server u tid 0) (handled a d w2))"
proof -
  have ch: "pl_heap (el_poller w) a = Some ch" "registered (el_poller w) a" "isReading ch" "ch_readCallback ch = Some (ConnRead i)"
    using assms(2) by (simp_all add: live_conn_def conn_channel_def a)
  have read: "call_read_rounds u tid accepts (ConnRead i) t v = handleRead u tid i t v" for v
    by (simp add: call_read_rounds_def call_read_server_def call_read_conn_def split: prod.split)
  obtain p where p: "serving_inv (handling a t p w)" "served_abs (handling a t p w) = served_abs w" "carries {} (el_poller w) p"
      "pl_channels p = pl_channels (el_poller w)"
      "pl_heap p = (pl_heap (el_poller w))(a \<mapsto> ch\<lparr>ch_revents := POLLIN, ch_eventHandling := True\<rparr>)"
    and run: "\<forall>w2 d. call_read_rounds u tid accepts (ConnRead i) t (handling a t p w) = Inr w2 \<longrightarrow> pl_heap (el_poller w2) a = Some d \<longrightarrow>
       ch_revents d = POLLIN \<longrightarrow> loop_round (call_conn u tid) (call_read_rounds u tid accepts) (run_server u tid 0)
           (PollEvents (report (ch_fd ch) (pl_pollfds (el_poller w))), t) w = doPendingFunctors (run_server u tid 0) (handled a d w2)"
    using round_start [OF assms(1) ch] by blast
  have "registered p a" using ch(1,2) p(4,5) by (simp add: registered_def)
  then have "live_conn (handling a t p w) i c (ch\<lparr>ch_revents := POLLIN, ch_eventHandling := True\<rparr>)"
    using assms(2) p(5) by (simp add: live_conn_def a conn_channel_def isReading_def isWriting_def)
  then show ?thesis
    using p(1-3) run [unfolded read] unfolding server_round_def Let_def u tid by blast
qed

lemma request_round:
  assumes "rounds_inv w" and "round_env stack accepts w (RRequest i m p q v hs t)" and "length stack = 32"
  shows "\<exists>w'. round_step stack cb accepts w (RRequest i m p q v hs t) = Inr w' \<and> rounds_inv w'
    \<and> served_abs w' = served_step stack accepts (served_abs w) (RRequest i m p q v hs t) \<and> el_threadId w' = el_threadId w
    \<and> (\<exists>c c'. nw_conns w i = Some c \<and> nw_conns w' i = Some c' \<and> sk_reads c' = sk_reads c \<and> sk_nreads c' = sk_nreads c + 1)"
proof -
  let ?tid = "el_threadId w" and ?e = "RRequest i m p q v hs t"
  let ?u = "server_user stack cb ?tid"
  have inv: "serving_inv w" "el_pendingFunctors w = []" using assms(1) by (simp_all add: rounds_inv_def)
  have "i \<in> snd ` set (ts_connections (nw_rest w))" using assms(2) by (simp add: round_env_def)
  then obtain c ch where live: "live_conn w i c ch" using inv(1) unfolding serving_inv_def by blast
  then have c: "nw_conns w i = Some c" "pl_heap (el_poller w) (tc_channel c) = Some ch" by (simp_all add: live_conn_def)
  let ?a = "tc_channel c" and ?d = "ch\<lparr>ch_revents := POLLIN, ch_eventHandling := True\<rparr>"
  obtain pl where p: "serving_inv (handling ?a t pl w)" "served_abs (handling ?a t pl w) = served_abs w" "live_conn (handling ?a t pl w) i c ?d"
    and run: "\<And>w2 d. handleRead ?u ?tid i t (handling ?a t pl w) = Inr w2 \<Longrightarrow> pl_heap (el_poller w2) ?a = Some d \<Longrightarrow> ch_revents d = POLLIN \<Longrightarrow>
         server_round stack cb accepts (PollEvents (report (ch_fd ch) (pl_pollfds (el_poller w))), t) w
           = doPendingFunctors (run_server ?u ?tid 0) (handled ?a d w2)"
    using conn_round_start [OF inv(1) live refl refl refl, of t stack cb accepts] by blast
  have env: "round_env stack accepts (handling ?a t pl w) ?e" using assms(2) by (simp add: round_env_def)
  obtain c' where c': "handleRead ?u ?tid i t (handling ?a t pl w) = Inr (put_conn i c' (handling ?a t pl w))"
      "serving_inv (put_conn i c' (handling ?a t pl w))"
      "served_abs (put_conn i c' (handling ?a t pl w)) = served_step stack accepts (served_abs w) ?e"
      "sk_reads c' = sk_reads c" "sk_nreads c' = sk_nreads c + 1"
    using request_serving [OF p(1) env _ assms(3), of ?tid cb] c(1) unfolding p(2) by auto
  have heap: "pl_heap (el_poller (put_conn i c' (handling ?a t pl w))) ?a = Some ?d" using p(3) by (simp add: live_conn_def)
  have "round_step stack cb accepts w ?e = doPendingFunctors (run_server ?u ?tid 0) (handled ?a ?d (put_conn i c' (handling ?a t pl w)))"
    using run [OF c'(1) heap] c by (simp add: round_step_def polled_def ready_channel_def event_time_def)
  then show ?thesis using round_end [OF c'(2) heap, of "run_server ?u ?tid 0"] inv(2) c'(3-5) c(1) by auto
qed

lemma eof_round:
  assumes "rounds_inv w" and "round_env stack accepts w (REof i t)"
  shows "\<exists>w'. round_step stack cb accepts w (REof i t) = Inr w' \<and> rounds_inv w'
    \<and> served_abs w' = served_step stack accepts (served_abs w) (REof i t) \<and> el_threadId w' = el_threadId w"
proof -
  let ?tid = "el_threadId w"
  let ?u = "server_user stack cb ?tid"
  have inv: "serving_inv w" "el_pendingFunctors w = []" using assms(1) by (simp_all add: rounds_inv_def)
  have i: "i \<in> snd ` set (ts_connections (nw_rest w))" using assms(2) by (simp add: round_env_def)
  then obtain nm where nm: "(nm, i) \<in> set (ts_connections (nw_rest w))" by force
  obtain c ch where live: "live_conn w i c ch" using i inv(1) unfolding serving_inv_def by blast
  then have c: "nw_conns w i = Some c" "pl_heap (el_poller w) (tc_channel c) = Some ch" by (simp_all add: live_conn_def)
  have eof: "sk_reads c (sk_nreads c) = ReadBytes []" using assms(2) c(1) by (simp add: round_env_def)
  let ?a = "tc_channel c" and ?d = "ch\<lparr>ch_revents := POLLIN, ch_eventHandling := True\<rparr>"
  obtain p where p: "serving_inv (handling ?a t p w)" "served_abs (handling ?a t p w) = served_abs w" "live_conn (handling ?a t p w) i c ?d"
      "carries {} (el_poller w) p"
    and run: "\<And>w2 d. handleRead ?u ?tid i t (handling ?a t p w) = Inr w2 \<Longrightarrow> pl_heap (el_poller w2) ?a = Some d \<Longrightarrow> ch_revents d = POLLIN \<Longrightarrow>
         server_round stack cb accepts (PollEvents (report (ch_fd ch) (pl_pollfds (el_poller w))), t) w
           = doPendingFunctors (run_server ?u ?tid 0) (handled ?a d w2)"
    using conn_round_start [OF inv(1) live refl refl refl, of t stack cb accepts] by blast
  let ?w1 = "handling ?a t p w" and ?e = "change DisableAll ?d"
  obtain w2 c2 where w2: "handleRead ?u ?tid i t ?w1 = Inr w2" "server_inv w2"
      "nw_rest w2 = (nw_rest w)\<lparr>ts_connections := map_erase nm (ts_connections (nw_rest w))\<rparr>"
      "nw_conns w2 = (nw_conns w)(i \<mapsto> c2)" "tc_channel c2 = ?a" "el_pendingFunctors w2 = [ConnectDestroyed i]"
      "el_quit w2 = el_quit w" "el_threadId w2 = ?tid" "pl_heap (el_poller w2) = (pl_heap p)(?a \<mapsto> ?e)" "pl_channels (el_poller w2) = pl_channels p"
    using eof_leaving [OF p(1,3) _ eof, of nm ?tid stack cb t] nm inv(2) by auto
  have heap: "pl_heap (el_poller w2) ?a = Some ?e" using w2(9) by simp
  have reg: "registered (el_poller w2) ?a"
    using p(3) w2(9,10) by (auto simp: live_conn_def registered_def disableAll_def update_mark_def)
  let ?w3 = "handled ?a ?e w2"
  have inv3: "poller_inv (el_poller ?w3)"
    using w2(2) inv_store_same [OF _ heap, of "?e\<lparr>ch_eventHandling := False\<rparr>"] by (simp add: server_inv_def Let_def)
  have w3: "nw_conns ?w3 i = Some c2" "pl_heap (el_poller ?w3) (tc_channel c2) = Some (?e\<lparr>ch_eventHandling := False\<rparr>)"
      "registered (el_poller ?w3) (tc_channel c2)" "\<not> el_eventHandling ?w3" "el_pendingFunctors ?w3 = [ConnectDestroyed i]"
    using w2(4-6) heap reg by (simp_all add: registered_def)
  obtain p4 where p4: "doPendingFunctors (run_server ?u ?tid 0) ?w3 = Inr (?w3\<lparr>el_callingPendingFunctors := False, el_pendingFunctors := [], el_poller := p4\<rparr>)"
      "poller_inv p4" "carries {?a} (el_poller ?w3) p4"
    using destroy_pending [OF inv3 w3(1-5), of ?u ?tid 0] w2(5) by auto
  let ?w4 = "?w3\<lparr>el_callingPendingFunctors := False, el_pendingFunctors := [], el_poller := p4\<rparr>"
  have "carries {?a} p (el_poller w2)" using w2(9) by (intro carries_heap [OF w2(10)]) auto
  moreover have "carries {?a} (el_poller w2) (el_poller ?w3)" by (intro carries_heap) auto
  ultimately have car: "carries {?a} (el_poller w) p4"
    using carries_trans p4(3) carries_mono [OF p(4)] by (metis empty_subsetI)
  have same: "nw_rest ?w4 = nw_rest w2" "nw_conns ?w4 = nw_conns w2" by simp_all
  have "name_of_conn j ?w4 = name_of_conn j w2" for j unfolding name_of_conn_def same ..
  then have "server_inv ?w4" using server_inv_cong(1) [OF w2(2), of ?w4] p4(2) by simp
  then have "serving_inv ?w4" "served_abs ?w4 = (fst (served_abs w), (snd (served_abs w))(i := None))"
    using serving_without [OF inv(1) live nm, of ?w4] w2(3,4,7) car by simp_all
  moreover have "round_step stack cb accepts w (REof i t) = Inr ?w4"
    using run [OF w2(1) heap] c p4(1)
    by (simp add: round_step_def polled_def ready_channel_def event_time_def disableAll_def update_mark_def)
  ultimately show ?thesis using w2(8) by (intro exI [of _ ?w4]) (simp add: rounds_inv_def served_step_def)
qed

section \<open>The server implements its view\<close>

lemma round_step_refines:
  assumes "rounds_inv w" and "round_env stack accepts w e" and "length stack = 32"
  shows "\<exists>w'. round_step stack cb accepts w e = Inr w' \<and> rounds_inv w' \<and> served_abs w' = served_step stack accepts (served_abs w) e
    \<and> el_threadId w' = el_threadId w"
proof (cases e)
  case (RAccept t)
  show ?thesis unfolding RAccept using accept_round [OF assms(1) assms(2) [unfolded RAccept], of cb] by blast
next
  case (RRequest i m p q v hs t)
  show ?thesis unfolding RRequest using request_round [OF assms(1) assms(2) [unfolded RRequest] assms(3), of cb] by blast
next
  case (REof i t)
  show ?thesis unfolding REof by (rule eof_round [OF assms(1) assms(2) [unfolded REof]])
qed

text \<open>
  The system of rounds; that the stack array has 32 bytes and who the loop's thread is are part
  of the environment's contract, since neither changes.
\<close>

definition rounds_env ::
  "string \<Rightarrow> int \<Rightarrow> (int \<Rightarrow> new_object \<times> int) \<Rightarrow> server_world \<Rightarrow> round_event \<Rightarrow> bool" where
  "rounds_env stack tid accepts w e \<longleftrightarrow> length stack = 32 \<and> round_env stack accepts w e"

definition rounds_inv_at :: "int \<Rightarrow> server_world \<Rightarrow> bool" where
  "rounds_inv_at tid w \<longleftrightarrow> rounds_inv w \<and> el_threadId w = tid"

interpretation rounds: refined_system "round_step stack cb accepts" "rounds_env stack tid accepts" "rounds_inv_at tid" served_abs
  "served_step stack accepts" for stack cb accepts tid
proof
  fix w w' e
  assume "rounds_inv_at tid w" "rounds_env stack tid accepts w e"
  then have *: "rounds_inv w" "round_env stack accepts w e" "length stack = 32" "el_threadId w = tid"
    by (simp_all add: rounds_inv_at_def rounds_env_def)
  note r = round_step_refines [OF *(1-3), of cb]
  show "\<exists>w'. round_step stack cb accepts w e = Inr w'" using r by blast
  show "round_step stack cb accepts w e = Inr w' \<Longrightarrow> rounds_inv_at tid w'" using r *(4) by (auto simp: rounds_inv_at_def)
  show "round_step stack cb accepts w e = Inr w' \<Longrightarrow> served_abs w' = served_step stack accepts (served_abs w) e" using r by auto
qed

text \<open>The rounds are rounds of \<open>loop\<close>: the results of \<open>poll\<close> one after the other, then the loop waits.\<close>

fun polls_of ::
  "string \<Rightarrow> http_callback \<Rightarrow> (int \<Rightarrow> new_object \<times> int) \<Rightarrow> server_world \<Rightarrow> round_event list \<Rightarrow> (poll_result \<times> timestamp) list" where
  "polls_of stack cb accepts w [] = []"
| "polls_of stack cb accepts w (e # es) = polled w e # (case round_step stack cb accepts w e of Inl _ \<Rightarrow> [] | Inr w' \<Rightarrow> polls_of stack cb accepts w' es)"

lemma loop_rounds_run:
  assumes "rounds_inv_at tid w" and "env_obeys (round_step stack cb accepts) (rounds_env stack tid accepts) w es"
    and "run_events (round_step stack cb accepts) w es = Inr w'"
  shows "loop_rounds (call_conn (server_user stack cb tid) tid) (call_read_rounds (server_user stack cb tid) tid accepts)
    (run_server (server_user stack cb tid) tid 0) (polls_of stack cb accepts w es) w = Inr (Waiting w')"
  using assms
proof (induction es arbitrary: w)
  case Nil
  then show ?case by (simp add: rounds_inv_at_def rounds_inv_def serving_inv_def)
next
  case (Cons e es)
  then obtain w1 where w1: "round_step stack cb accepts w e = Inr w1" "run_events (round_step stack cb accepts) w1 es = Inr w'"
    by (auto simp: outcome_simps)
  have env: "rounds_env stack tid accepts w e" "env_obeys (round_step stack cb accepts) (rounds_env stack tid accepts) w1 es"
    using Cons.prems(2) w1(1) by simp_all
  have tid: "el_threadId w = tid" "\<not> el_quit w" using Cons.prems(1) by (simp_all add: rounds_inv_at_def rounds_inv_def serving_inv_def)
  have "loop_round (call_conn (server_user stack cb tid) tid) (call_read_rounds (server_user stack cb tid) tid accepts)
      (run_server (server_user stack cb tid) tid 0) (polled w e) w = Inr w1"
    using w1(1) tid(1) by (simp add: round_step_def server_round_def Let_def)
  then show ?case
    using tid(2) w1(1) Cons.IH [OF rounds.step_inv [OF Cons.prems(1) env(1) w1(1)] env(2) w1(2)] by simp
qed

section \<open>From the start of the server\<close>

lemma started_serving:
  assumes p: "poller_inv p" "registered p ch" "pl_heap p ch = Some c" "isReading c" "ch_readCallback c = Some AcceptRead"
    and w: "el_pendingFunctors w = []" "\<not> el_quit w" "tid = el_threadId w"
    and w': "w' = (put_server (started_server base name memory sock ch newLoop cb 0) w)\<lparr>el_poller := p\<rparr>"
  shows "rounds_inv_at tid w'" and "served_abs w' = (1, Map.empty)"
proof -
  have s: "ts_connections (nw_rest w') = []" "ac_channel (ts_acceptor (nw_rest w')) = ch" "ts_nextConnId (nw_rest w') = 1"
    by (simp_all add: w' started_server_def new_server_def Let_def)
  have "single_loop w'"
    by (simp add: single_loop_def w' started_server_def new_server_def Let_def getNextLoop_def start_pool_def setThreadNum_pool_def
        EventLoopThreadPool_ctor_def)
  moreover have "server_inv w'" by (rule started_inv(1) [OF p(1) _ w']) simp
  moreover have "listening w' c" using p(2-5) by (simp add: listening_def s(2)) (simp add: w')
  ultimately have "serving_inv w'" using w(2) s(1) by (auto simp: serving_inv_def w')
  then show "rounds_inv_at tid w'" using w(1,3) by (simp add: rounds_inv_at_def rounds_inv_def w')
  show "served_abs w' = (1, Map.empty)" by (simp add: served_abs_def s)
qed


text \<open>One client: it connects, sends one request and closes.\<close>

lemma served_abs_live: "snd (served_abs w) i \<noteq> None \<Longrightarrow> i \<in> snd ` set (ts_connections (nw_rest w))"
  by (auto simp: served_abs_def split: if_splits)

lemma session_obeys:
  assumes inv: "rounds_inv w" and stack: "length stack = 32" and env: "round_env stack accepts w (RAccept t1)"
    and acc: "accepts (ts_nextConnId (nw_rest w)) = (ob, fd)"
    and inp: "no_reads ob 0 = ReadBytes (request_text m p q v hs)" "no_reads ob 1 = ReadBytes []"
      "length (request_text m p q v hs) \<le> kInitialSize + kExtraBuf"
    and wf: "wf_target p q" "m \<noteq> kInvalid" "v \<noteq> kUnknown" "\<forall>h \<in> set hs. wf_header h"
    and kernel: "no_writes ob 0 = Wrote (length (http_answer stack (closes_after v hs)))"
  shows "env_obeys (round_step stack cb accepts) (rounds_env stack tid accepts) w
    [RAccept t1, RRequest (no_conn ob) m p q v hs t2, REof (no_conn ob) t3]"
proof -
  let ?i = "no_conn ob" and ?e2 = "RRequest (no_conn ob) m p q v hs t2"
  obtain w1 nm where w1: "round_step stack cb accepts w (RAccept t1) = Inr w1" "rounds_inv w1"
      "served_abs w1 = served_step stack accepts (served_abs w) (RAccept t1)"
      "nw_conns w1 ?i = Some (established_conn nm (no_channel ob) (no_reads ob) (no_writes ob) (no_shutdown ob))"
    using accept_round [OF inv env, of cb] acc by auto
  have first: "fst (served_abs w) = ts_nextConnId (nw_rest w)" by (simp add: served_abs_def)
  have sent1: "snd (served_abs w1) ?i = Some []" unfolding w1(3) served_step_def first by (simp add: acc)
  then have live1: "?i \<in> snd ` set (ts_connections (nw_rest w1))" by (intro served_abs_live) simp
  have env2: "round_env stack accepts w1 ?e2"
    using live1 w1(4) inp(1,3) wf kernel new_input_buffer(3,4) by (simp add: round_env_def established_conn_def)
  obtain w2 c where w2: "round_step stack cb accepts w1 ?e2 = Inr w2" "served_abs w2 = served_step stack accepts (served_abs w1) ?e2"
      "nw_conns w2 ?i = Some c" "sk_reads c = no_reads ob" "sk_nreads c = 1"
    using request_round [OF w1(2) env2 stack, of cb] w1(4) by (auto simp: established_conn_def)
  have "snd (served_abs w2) ?i \<noteq> None" unfolding w2(2) served_step_def by (simp add: sent1)
  then have "?i \<in> snd ` set (ts_connections (nw_rest w2))" by (rule served_abs_live)
  then have env3: "round_env stack accepts w2 (REof ?i t3)" using w2(3-5) inp(2) by (simp add: round_env_def)
  show ?thesis using env env2 env3 stack w1(1) w2(1) by (simp add: rounds_env_def split: sum.split)
qed

definition session_object :: new_object where
  "session_object = sample_object\<lparr>no_reads := (\<lambda>n. ReadBytes (if n = 0 then request_text kGet ''/a'' [] kHttp10 [] else [])),
     no_writes := (\<lambda>_. Wrote (length (http_answer (replicate 32 CHR ''s'') True)))\<rparr>"


end
