(* ===== verification/EchoServers.thy ===== *)
theory EchoServers
  imports TcpServers
begin

text \<open>
  \<open>src/test/echo.h\<close> and \<open>src/test/echo.cpp\<close>: the echo server, the smallest program on top of the
  library. It shows how the parts work together on the way of a message: the loop's read event,
  \<open>readFd\<close>, the user's callback, \<open>retrieveAllAsString\<close> and \<open>send\<close>.
\<close>

section \<open>The callbacks\<close>

definition onConnection_echo :: "nat \<Rightarrow> 'w net_world \<Rightarrow> 'w net_world outcome" where
  "onConnection_echo i w = Inr w"

definition onMessage_echo :: "int \<Rightarrow> nat \<Rightarrow> timestamp \<Rightarrow> 'w net_world \<Rightarrow> 'w net_world outcome" where
  "onMessage_echo tid i time w =
     with_conn i (\<lambda>c.
       bind_out (retrieveAllAsString (tc_inputBuffer c)) (\<lambda>(str, buf).
         send quiet_user tid str i (put_conn i (c\<lparr>tc_inputBuffer := buf\<rparr>) w))) w"

text \<open>The constructor installs the two callbacks; the close callback is the server's.\<close>

definition echo_user :: "int \<Rightarrow> tcp_server net_user" where
  "echo_user tid = \<lparr>nu_connection = onConnection_echo, nu_message = onMessage_echo tid, nu_writeComplete = None,
     nu_close = removeConnection tid\<rparr>"

definition EchoServer_ctor ::
  "nat \<Rightarrow> string \<Rightarrow> bool \<Rightarrow> int \<Rightarrow> int \<Rightarrow> nat \<Rightarrow> bool \<Rightarrow> bool \<Rightarrow> server_world \<Rightarrow> server_world outcome" where
  "EchoServer_ctor baseLoop name memory sock bindResult ch lh tied w =
     TcpServer_ctor baseLoop name memory sock bindResult ch lh tied w"

definition start_echo :: "(nat \<Rightarrow> nat) \<Rightarrow> bool \<Rightarrow> int \<Rightarrow> int \<Rightarrow> server_world \<Rightarrow> server_world outcome" where
  "start_echo newLoop cb listenResult tid w = start_server newLoop cb listenResult tid w"

section \<open>The echo server keeps the contract of its connections\<close>

interpretation echocl: net_client "echo_user tid" tid for tid
proof
  fix w :: server_world and i t cb
  show "keeps w (nu_connection (echo_user tid) i w)"
    by (simp add: echo_user_def onConnection_echo_def keeps_Inr)
  have "keeps w (send quiet_user tid str i (put_conn i c w))" for str c
    by (rule keeps_start [OF keeps_put_conn keeps_send])
  then show "keeps w (nu_message (echo_user tid) i t w)"
    by (auto simp: echo_user_def onMessage_echo_def bind_out_def intro!: keeps_with_conn keeps_Inl split: sum.split)
  show "nu_writeComplete (echo_user tid) = Some cb \<Longrightarrow> keeps w (cb i w)" by (simp add: echo_user_def)
  show "keeps w (nu_close (echo_user tid) i w)" by (simp add: echo_user_def keeps_removeConnection)
qed

section \<open>One connection over time\<close>

text \<open>A read event with the bytes that the kernel delivers.\<close>

datatype echo_event = EchoRead timestamp string

fun echo_step :: "nat \<Rightarrow> server_world \<Rightarrow> echo_event \<Rightarrow> server_world outcome" where
  "echo_step i w (EchoRead t bs) = handleRead (echo_user (el_threadId w)) (el_threadId w) i t w"

text \<open>The kernel delivers some bytes, no more than it was given room for, and takes a write in full.\<close>

fun echo_env :: "nat \<Rightarrow> server_world \<Rightarrow> echo_event \<Rightarrow> bool" where
  "echo_env i w (EchoRead t bs) \<longleftrightarrow>
     (case nw_conns w i of
        None \<Rightarrow> False
      | Some c \<Rightarrow> bs \<noteq> [] \<and> sk_reads c (sk_nreads c) = ReadBytes bs \<and> sk_writes c (sk_nwrites c) = Wrote (length bs)
          \<and> length bs \<le> readv_capacity (tc_inputBuffer c)
          \<and> room_for (writableBytes (tc_inputBuffer c) + kExtraBuf) (tc_inputBuffer c) \<and> length bs \<le> max_size)"

definition echo_inv :: "nat \<Rightarrow> server_world \<Rightarrow> bool" where
  "echo_inv i w \<longleftrightarrow>
     (case nw_conns w i of
        None \<Rightarrow> False
      | Some c \<Rightarrow> ready i w c \<and> tc_state c = kConnected \<and> buffer_inv (tc_inputBuffer c) \<and> bytes_of (tc_inputBuffer c) = [])"

definition echo_abs :: "nat \<Rightarrow> server_world \<Rightarrow> string" where
  "echo_abs i w = (case nw_conns w i of None \<Rightarrow> [] | Some c \<Rightarrow> sk_sent c)"

fun echoed :: "string \<Rightarrow> echo_event \<Rightarrow> string" where
  "echoed s (EchoRead t bs) = s @ bs"

lemma echo_step_ok:
  assumes "echo_inv i w" and "echo_env i w e"
  shows "\<exists>w'. echo_step i w e = Inr w' \<and> echo_inv i w' \<and> echo_abs i w' = echoed (echo_abs i w) e"
proof (cases e)
  case (EchoRead t bs)
  obtain c where c: "nw_conns w i = Some c" "ready i w c" "tc_state c = kConnected" "buffer_inv (tc_inputBuffer c)"
      "bytes_of (tc_inputBuffer c) = []"
    using assms(1) by (auto simp: echo_inv_def split: option.splits)
  have env: "bs \<noteq> []" "sk_reads c (sk_nreads c) = ReadBytes bs" "sk_writes c (sk_nwrites c) = Wrote (length bs)"
      "length bs \<le> readv_capacity (tc_inputBuffer c)"
      "room_for (writableBytes (tc_inputBuffer c) + kExtraBuf) (tc_inputBuffer c)" "length bs \<le> max_size"
    using assms(2) c(1) EchoRead by simp_all
  obtain b where b: "readFd (ReadBytes bs) (tc_inputBuffer c) = Inr (int (length bs), None, b)" "buffer_inv b" "bytes_of b = bs"
    using readFd_spec [OF c(4) env(4,5)] c(5) by auto
  obtain b' where b': "retrieveAllAsString b = Inr (bs, b')" "buffer_inv b'" "bytes_of b' = []"
    using retrieveAllAsString_spec [OF b(2)] b(3) by auto
  let ?c = "c\<lparr>sk_nreads := sk_nreads c + 1, tc_inputBuffer := b'\<rparr>"
  let ?w = "put_conn i ?c w"
  have rdy: "ready i ?w ?c" by (rule ready_put [OF c(2)]) simp_all
  have "send quiet_user (el_threadId w) bs i ?w = Inr (put_conn i (sent bs ?c) ?w)"
    using sendInLoop_ready [OF rdy _ _ env(6)] c(3) env(3) by (simp add: send_def isInLoopThread_def)
  then have "echo_step i w e = Inr (put_conn i (sent bs ?c) w)"
    using EchoRead c(1) env(1,2) b(1) b'(1) by (simp add: handleRead_def echo_user_def onMessage_echo_def Let_def)
  moreover have "ready i (put_conn i (sent bs ?c) w) (sent bs ?c)" by (rule ready_put [OF c(2)]) simp_all
  ultimately show ?thesis using c(1,3) b'(2,3) EchoRead by (simp add: echo_inv_def echo_abs_def)
qed

interpretation echosys: refined_system "echo_step i" "echo_env i" "echo_inv i" "echo_abs i" echoed for i
proof
  fix w e w'
  assume "echo_inv i w" and "echo_env i w e"
  from echo_step_ok [OF this] obtain v where
    v: "echo_step i w e = Inr v" "echo_inv i v" "echo_abs i v = echoed (echo_abs i w) e" by blast
  show "\<exists>w'. echo_step i w e = Inr w'" using v by blast
  show "echo_step i w e = Inr w' \<Longrightarrow> echo_inv i w'" using v by simp
  show "echo_step i w e = Inr w' \<Longrightarrow> echo_abs i w' = echoed (echo_abs i w) e" using v by simp
qed

lemma foldl_echoed: "foldl echoed s es = s @ concat (map (\<lambda>e. case e of EchoRead t bs \<Rightarrow> bs) es)"
  by (induction es arbitrary: s) (auto split: echo_event.split)

section \<open>Properties\<close>


text \<open>A connected connection that receives a message.\<close>

definition echo_world :: server_world where
  "echo_world = put_conn 0 \<lparr>tc_name = ''c'', tc_state = kConnected, tc_reading = True, tc_channel = 7,
     tc_inputBuffer = new_Buffer 16, tc_outputBuffer = new_Buffer 16, tc_context = HttpContext_ctor,
     sk_reads = (\<lambda>n. ReadBytes ''ab''), sk_nreads = 0, sk_writes = (\<lambda>n. Wrote 2), sk_nwrites = 0,
     sk_sent = [], sk_shutdownResult = 0, sk_shutdownWrite = False\<rparr>
     (sample_world\<lparr>el_poller := store 7 (Channel_ctor True True 5) (el_poller sample_world)\<rparr>)"

lemma echo_world_ok: "echo_inv 0 echo_world" "echo_env 0 echo_world (EchoRead t ''ab'')" "echo_abs 0 echo_world = []"
  by (simp_all add: echo_inv_def echo_abs_def echo_world_def ready_def Channel_ctor_def isWriting_def has_bits_iff buffer_eval)


end
