(* ===== verification/Programs.thy ===== *)
theory Programs
  imports ServerRounds EchoServers
begin

text \<open>
  The two programs of the repository: \<open>main\<close> of \<open>src/http/test.cpp\<close> and of \<open>src/test/test.cpp\<close>. Each
  reads a port, makes an event loop and a server on the address 127.0.0.1, starts the server and
  runs the loop. What the system, the allocator and uninitialised memory give is a record of
  arguments. Neither program sets a number of threads, so the pool starts its default of ten
  loops, and every connection is handed to one of them.
\<close>

section \<open>The programs\<close>

record machine =
  mc_tid :: int
  mc_eventfd :: int
  mc_wakeChannel :: nat
  mc_socket :: int
  mc_bind :: "string \<Rightarrow> int"
  mc_listen :: int
  mc_acceptChannel :: nat
  mc_logHup :: bool
  mc_tied :: bool
  mc_started :: bool
  mc_addr :: string
  mc_server :: tcp_server
  mc_newLoop :: "nat \<Rightarrow> nat"
  mc_accepts :: "int \<Rightarrow> new_object \<times> int"

text \<open>The address: \<open>addr\<close> is uninitialised, three of its fields are assigned.\<close>

definition local_address :: "string \<Rightarrow> int \<Rightarrow> string outcome" where
  "local_address addr port =
     bind_out (copy_into addr 0 (le_bytes 2 AF_INET)) (\<lambda>addr.
     bind_out (copy_into addr 2 (le_bytes 2 (unat (hostToNetwork16 (word_of_int port))))) (\<lambda>addr.
     copy_into addr 4 (map char_of [127, 0, 0, 1 :: nat])))"

text \<open>The loop object, in a world without connections; the server's memory is not yet initialised.\<close>

definition new_loop :: "machine \<Rightarrow> server_world outcome" where
  "new_loop m =
     bind_out (EventLoop_ctor (mc_tid m) (mc_eventfd m) (mc_wakeChannel m) (mc_logHup m) (mc_tied m) LoopWakeup Map.empty) (\<lambda>l.
     Inr (event_loop.extend l (net_world.fields Map.empty (mc_server m))))"

definition http_start :: "machine \<Rightarrow> int \<Rightarrow> server_world outcome" where
  "http_start m port =
     bind_out (new_loop m) (\<lambda>w.
     bind_out (local_address (mc_addr m) port) (\<lambda>address.
     bind_out (HttpServer_ctor 0 ''test'' (mc_started m) (mc_socket m) (mc_bind m address) (mc_acceptChannel m) (mc_logHup m) (mc_tied m) w)
       (start_http (mc_newLoop m) False (mc_listen m) (mc_tid m))))"

definition echo_start :: "machine \<Rightarrow> int \<Rightarrow> server_world outcome" where
  "echo_start m port =
     bind_out (new_loop m) (\<lambda>w.
     bind_out (local_address (mc_addr m) port) (\<lambda>address.
     bind_out (EchoServer_ctor 0 ''test'' (mc_started m) (mc_socket m) (mc_bind m address) (mc_acceptChannel m) (mc_logHup m) (mc_tied m) w)
       (start_echo (mc_newLoop m) False (mc_listen m) (mc_tid m))))"

text \<open>
  The call of \<open>loop\<close>, and what \<open>main\<close> does if it returns: the server is destroyed with its acceptor,
  then the loop. (Between them the threads of the pool are joined, see \<open>ThreadPools\<close>.)
\<close>

definition run_program ::
  "tcp_server net_user \<Rightarrow> machine \<Rightarrow> (poll_result \<times> timestamp) list \<Rightarrow> server_world \<Rightarrow> server_world loop_result outcome" where
  "run_program u m polls w =
     (let tid = mc_tid m in
      bind_out (loop (call_conn u tid) (call_read_rounds u tid (mc_accepts m)) (run_server u tid (mc_listen m)) tid polls w) (\<lambda>res.
        case res of
          Waiting w \<Rightarrow> Inr (Waiting w)
        | Returned w \<Rightarrow>
            bind_out (TcpServer_dtor tid w) (\<lambda>w.
            bind_out (Acceptor_dtor (ts_acceptor (nw_rest w)) w) (\<lambda>w.
            bind_out (EventLoop_dtor w) (\<lambda>w. Inr (Returned w))))))"

definition main_http :: "string \<Rightarrow> machine \<Rightarrow> int \<Rightarrow> (poll_result \<times> timestamp) list \<Rightarrow> server_world loop_result outcome" where
  "main_http stack m port polls =
     bind_out (http_start m port) (run_program (server_user stack defaultHttpCallback (mc_tid m)) m polls)"

definition main_echo :: "machine \<Rightarrow> int \<Rightarrow> (poll_result \<times> timestamp) list \<Rightarrow> server_world loop_result outcome" where
  "main_echo m port polls = bind_out (echo_start m port) (run_program (echo_user (mc_tid m)) m polls)"

section \<open>Starting\<close>

text \<open>The system calls succeed, the objects and descriptors are different.\<close>

definition machine_ok :: "machine \<Rightarrow> bool" where
  "machine_ok m \<longleftrightarrow> 0 \<le> mc_eventfd m \<and> 0 \<le> mc_socket m \<and> mc_eventfd m \<noteq> mc_socket m \<and> mc_wakeChannel m \<noteq> mc_acceptChannel m
     \<and> (\<forall>addr. 0 \<le> mc_bind m addr) \<and> 0 \<le> mc_listen m \<and> length (mc_addr m) = sizeof_sockaddr_in \<and> (\<forall>i. mc_newLoop m i \<noteq> 0)
     \<and> (\<forall>n > 0. 0 \<le> snd (mc_accepts m n))"

lemma echo_start_http: "echo_start m port = http_start m port"
  by (simp add: echo_start_def http_start_def EchoServer_ctor_def HttpServer_ctor_def start_echo_def start_http_def fun_eq_iff
      cong: bind_out_cong)

text \<open>
  The program after \<open>k\<close> connections: its loop watches the event descriptor and the listening socket
  only; the connections were handed to the ten loops in turn, each with the functor that
  establishes it.
\<close>

definition handed_at :: "machine \<Rightarrow> nat \<Rightarrow> nat \<times> nat \<times> string \<times> int" where
  "handed_at m j = (mc_newLoop m (j mod 10), no_conn (fst (mc_accepts m (int j + 1))), connName ''test'' (int j + 1),
     snd (mc_accepts m (int j + 1)))"

definition mail_at :: "machine \<Rightarrow> nat \<Rightarrow> nat \<times> net_functor" where
  "mail_at m j = (mc_newLoop m (j mod 10), ConnectEstablished (no_conn (fst (mc_accepts m (int j + 1)))))"

definition handing_server :: "machine \<Rightarrow> nat \<Rightarrow> tcp_server \<Rightarrow> bool" where
  "handing_server m k s \<longleftrightarrow> ts_loop s = 0 \<and> ts_name s = ''test'' \<and> ac_callback (ts_acceptor s) \<and> ts_nextConnId s = int k + 1
     \<and> tp_started (ts_pool s) \<and> tp_loops (ts_pool s) = map (mc_newLoop m) [0..<10] \<and> tp_next (ts_pool s) = int (k mod 10)
     \<and> ts_handed s = map (handed_at m) [0..<k] \<and> ts_mail s = map (mail_at m) [0..<k]"

definition handing :: "machine \<Rightarrow> nat \<Rightarrow> server_world \<Rightarrow> bool" where
  "handing m k w \<longleftrightarrow> poller_inv (el_poller w) \<and> (\<exists>ch. listening w ch \<and> ch_fd ch = mc_socket m)
     \<and> map pfd_fd (pl_pollfds (el_poller w)) = [mc_eventfd m, mc_socket m] \<and> el_pendingFunctors w = [] \<and> el_threadId w = mc_tid m
     \<and> handing_server m k (nw_rest w)"

text \<open>A new loop watches its event descriptor and nothing else.\<close>

lemma EventLoop_ctor_ok:
  assumes "0 \<le> fd"
  shows "\<exists>l ch. EventLoop_ctor tid fd a lh tied cb Map.empty = Inr l \<and> poller_inv (el_poller l) \<and> pl_channels (el_poller l) = [(fd, a)]
    \<and> pl_heap (el_poller l) = [a \<mapsto> ch] \<and> ch_fd ch = fd \<and> isReading ch \<and> ch_readCallback ch = Some cb
    \<and> map pfd_fd (pl_pollfds (el_poller l)) = [fd] \<and> el_threadId l = tid \<and> el_pendingFunctors l = [] \<and> \<not> el_looping l \<and> \<not> el_quit l
    \<and> el_wakeupChannel l = a"
  using assms
  by (simp add: EventLoop_ctor_def createEventfd_def PollPoller_ctor_def poller_eval setReadCallback_def poller_inv_def entry_ok_def
      registered_ok_def) (rule exI, intro conjI, rule refl, simp_all add: isReading_def has_bits_iff bit_events)

lemma new_loop_ok:
  assumes "0 \<le> mc_eventfd m"
  shows "\<exists>w ch. new_loop m = Inr w \<and> poller_inv (el_poller w) \<and> pl_channels (el_poller w) = [(mc_eventfd m, mc_wakeChannel m)]
    \<and> pl_heap (el_poller w) = [mc_wakeChannel m \<mapsto> ch] \<and> ch_fd ch = mc_eventfd m \<and> isReading ch \<and> ch_readCallback ch = Some LoopWakeup
    \<and> map pfd_fd (pl_pollfds (el_poller w)) = [mc_eventfd m] \<and> el_threadId w = mc_tid m \<and> el_pendingFunctors w = [] \<and> \<not> el_looping w
    \<and> \<not> el_quit w \<and> el_wakeupChannel w = mc_wakeChannel m \<and> nw_conns w = Map.empty"
proof -
  obtain l :: "(net_callback, net_functor) event_loop" and ch where l: "EventLoop_ctor (mc_tid m) (mc_eventfd m) (mc_wakeChannel m) (mc_logHup m) (mc_tied m) LoopWakeup Map.empty = Inr l"
      "poller_inv (el_poller l)" "pl_channels (el_poller l) = [(mc_eventfd m, mc_wakeChannel m)]" "pl_heap (el_poller l) = [mc_wakeChannel m \<mapsto> ch]"
      "ch_fd ch = mc_eventfd m" "isReading ch" "ch_readCallback ch = Some LoopWakeup" "map pfd_fd (pl_pollfds (el_poller l)) = [mc_eventfd m]"
      "el_threadId l = mc_tid m" "el_pendingFunctors l = []" "\<not> el_looping l" "\<not> el_quit l" "el_wakeupChannel l = mc_wakeChannel m"
    using EventLoop_ctor_ok [OF assms, where tid = "mc_tid m" and a = "mc_wakeChannel m" and lh = "mc_logHup m" and tied = "mc_tied m"
        and cb = LoopWakeup] by (elim exE conjE) (rule that)
  have w: "new_loop m = Inr (event_loop.extend l (net_world.fields Map.empty (mc_server m)))" using l(1) by (simp add: new_loop_def)
  show ?thesis using l(2-)
    by (intro exI [of _ "event_loop.extend l (net_world.fields Map.empty (mc_server m))"] exI [of _ ch])
      (simp add: w event_loop.extend_def net_world.fields_def)
qed

lemma local_address_ok:
  assumes "length addr = sizeof_sockaddr_in"
  shows "\<exists>a. local_address addr port = Inr a"
  using assms by (simp add: local_address_def copy_into_def sizeof_sockaddr_in_def le_bytes_def)

definition server_at_start :: "machine \<Rightarrow> tcp_server" where
  "server_at_start m = started_server 0 ''test'' (mc_started m) (mc_socket m) (mc_acceptChannel m) (mc_newLoop m) False 10"

lemma http_start_world:
  assumes "machine_ok m"
  shows "\<exists>w wch p c. http_start m port = Inr ((put_server (server_at_start m) w)\<lparr>el_poller := p\<rparr>) \<and> poller_inv p
    \<and> registered p (mc_acceptChannel m) \<and> pl_heap p = [mc_wakeChannel m \<mapsto> wch, mc_acceptChannel m \<mapsto> c] \<and> ch_fd c = mc_socket m \<and> isReading c
    \<and> ch_readCallback c = Some AcceptRead \<and> map pfd_fd (pl_pollfds p) = [mc_eventfd m, mc_socket m]
    \<and> pl_channels p = map_put (mc_socket m) (mc_acceptChannel m) [(mc_eventfd m, mc_wakeChannel m)]
    \<and> ch_fd wch = mc_eventfd m \<and> isReading wch \<and> ch_readCallback wch = Some LoopWakeup
    \<and> el_threadId w = mc_tid m \<and> el_pendingFunctors w = [] \<and> \<not> el_looping w \<and> \<not> el_quit w
    \<and> el_wakeupChannel w = mc_wakeChannel m \<and> nw_conns w = Map.empty"
proof -
  have m: "0 \<le> mc_eventfd m" "0 \<le> mc_socket m" "mc_eventfd m \<noteq> mc_socket m" "mc_wakeChannel m \<noteq> mc_acceptChannel m"
      "0 \<le> mc_bind m a" "0 \<le> mc_listen m" "length (mc_addr m) = sizeof_sockaddr_in" for a
    using assms by (simp_all add: machine_ok_def)
  obtain w wch where w: "new_loop m = Inr w" "poller_inv (el_poller w)" "pl_channels (el_poller w) = [(mc_eventfd m, mc_wakeChannel m)]"
      "pl_heap (el_poller w) = [mc_wakeChannel m \<mapsto> wch]" "map pfd_fd (pl_pollfds (el_poller w)) = [mc_eventfd m]"
      "el_threadId w = mc_tid m" "el_pendingFunctors w = []" "\<not> el_looping w" "\<not> el_quit w" "el_wakeupChannel w = mc_wakeChannel m"
      "nw_conns w = Map.empty" "ch_fd wch = mc_eventfd m" "isReading wch" "ch_readCallback wch = Some LoopWakeup"
    using new_loop_ok [OF m(1)] by (elim exE conjE) (rule that)
  obtain a where a: "local_address (mc_addr m) port = Inr a" using local_address_ok [OF m(7)] by blast
  have new: "pl_heap (el_poller w) (mc_acceptChannel m) = None" "map_of (pl_channels (el_poller w)) (mc_socket m) = None"
    using w(3,4) m(3,4) by auto
  have ten: "setThreadNum_pool 10 (EventLoopThreadPool_ctor st b nm) = EventLoopThreadPool_ctor st b nm" for st b nm
    by (simp add: setThreadNum_pool_def EventLoopThreadPool_ctor_def)
  have threads: "with_threads 0 ''test'' st sock ch lh tied 10 w
      = put_server (new_server 0 ''test'' st sock ch) (w\<lparr>el_poller := store ch (setReadCallback AcceptRead (Channel_ctor lh tied sock)) (el_poller w)\<rparr>)"
    for st sock ch lh tied by (simp add: with_threads_def new_server_def ten)
  let ?s = "started_server 0 ''test'' (mc_started m) (mc_socket m) (mc_acceptChannel m) (mc_newLoop m) False 10"
  obtain p c where p: "bind_out (HttpServer_ctor 0 ''test'' (mc_started m) (mc_socket m) (mc_bind m a) (mc_acceptChannel m) (mc_logHup m) (mc_tied m) w)
        (start_http (mc_newLoop m) False (mc_listen m) (mc_tid m)) = Inr ((put_server ?s w)\<lparr>el_poller := p\<rparr>)"
      "poller_inv p" "registered p (mc_acceptChannel m)" "pl_heap p = (pl_heap (el_poller w))(mc_acceptChannel m \<mapsto> c)" "ch_fd c = mc_socket m" "isReading c"
      "ch_readCallback c = Some AcceptRead" "map pfd_fd (pl_pollfds p) = [mc_eventfd m, mc_socket m]"
      "pl_channels p = map_put (mc_socket m) (mc_acceptChannel m) (pl_channels (el_poller w))"
    using http_starts [OF w(2) new m(2) m(5) [of a] m(6), of 10 "mc_tid m" 0 "''test''" "mc_started m" "mc_logHup m" "mc_tied m" "mc_newLoop m" False]
      w(5,6) unfolding threads by auto
  have "http_start m port = Inr ((put_server ?s w)\<lparr>el_poller := p\<rparr>)" using w(1) a p(1) by (simp add: http_start_def)
  then show ?thesis using p(2-9) w(3,4,6-14) unfolding server_at_start_def [symmetric]
    by (intro exI [of _ w] exI [of _ wch] exI [of _ p] exI [of _ c]) simp
qed

lemma http_start_ok:
  assumes "machine_ok m"
  shows "\<exists>w. http_start m port = Inr w \<and> handing m 0 w \<and> \<not> el_looping w"
proof -
  obtain w wch p c where w: "http_start m port = Inr ((put_server (server_at_start m) w)\<lparr>el_poller := p\<rparr>)" "poller_inv p"
      "registered p (mc_acceptChannel m)" "pl_heap p = [mc_wakeChannel m \<mapsto> wch, mc_acceptChannel m \<mapsto> c]" "ch_fd c = mc_socket m" "isReading c"
      "ch_readCallback c = Some AcceptRead" "map pfd_fd (pl_pollfds p) = [mc_eventfd m, mc_socket m]"
      "el_threadId w = mc_tid m" "el_pendingFunctors w = []" "\<not> el_looping w"
    using http_start_world [OF assms, of port] by (elim exE conjE) (rule that)
  let ?w = "(put_server (server_at_start m) w)\<lparr>el_poller := p\<rparr>"
  have "handing_server m 0 (server_at_start m)"
    by (simp add: handing_server_def server_at_start_def started_server_def new_server_def Let_def start_pool_def start_threads_loops
        setThreadNum_pool_def EventLoopThreadPool_ctor_def)
  moreover have "listening ?w c"
    using w(3-7) by (simp add: listening_def server_at_start_def started_server_def new_server_def Let_def)
  ultimately have "handing m 0 ?w" using w(2,5,8-10) by (auto simp: handing_def)
  then show ?thesis using w(1,11) by (auto simp: put_server_def)
qed

section \<open>Accepting\<close>

lemma report_fds: "report fd pfds = map (\<lambda>x. if x = fd then 1 else 0) (map pfd_fd pfds)"
  by (simp add: report_def)

lemma accept_hands_over:
  assumes "handing m k w" and "machine_ok m" and "k < 2147483646"
  shows "\<exists>s. handleRead_Acceptor u tid (fst (mc_accepts m (int k + 1))) (snd (mc_accepts m (int k + 1))) cr w = Inr (put_server s w)
    \<and> handing_server m (Suc k) s \<and> ts_acceptor s = ts_acceptor (nw_rest w)"
proof -
  obtain ob fd where acc: "mc_accepts m (int k + 1) = (ob, fd)" by (cases "mc_accepts m (int k + 1)")
  have "\<forall>n > 0. 0 \<le> snd (mc_accepts m n)" using assms(2) by (simp add: machine_ok_def)
  from this [rule_format, of "int k + 1"] have fd: "0 \<le> fd" by (simp add: acc)
  have s: "ts_loop (nw_rest w) = 0" "ts_name (nw_rest w) = ''test''" "ac_callback (ts_acceptor (nw_rest w))" "ts_nextConnId (nw_rest w) = int k + 1"
      "tp_started (ts_pool (nw_rest w))" "tp_loops (ts_pool (nw_rest w)) = map (mc_newLoop m) [0..<10]" "tp_next (ts_pool (nw_rest w)) = int (k mod 10)"
      "ts_handed (nw_rest w) = map (handed_at m) [0..<k]" "ts_mail (nw_rest w) = map (mail_at m) [0..<k]"
    using assms(1) by (simp_all add: handing_def handing_server_def)
  let ?io = "mc_newLoop m (k mod 10)" and ?p = "(ts_pool (nw_rest w))\<lparr>tp_next := int (Suc k mod 10)\<rparr>"
  have "Suc k mod 10 = (if k mod 10 = 9 then 0 else Suc (k mod 10))" by (simp add: mod_Suc)
  then have nextLoop: "getNextLoop (ts_pool (nw_rest w)) = Inr (?io, ?p)" "?io \<noteq> 0"
    using s(5-7) assms(2) by (auto simp: getNextLoop_def Let_def machine_ok_def)
  define s' where "s' = (added (nw_rest w) ?p (no_conn ob))
      \<lparr>ts_handed := ts_handed (nw_rest w) @ [(?io, no_conn ob, connName ''test'' (int k + 1), fd)],
       ts_mail := ts_mail (nw_rest w) @ [(?io, ConnectEstablished (no_conn ob))]\<rparr>"
  have "handleRead_Acceptor u tid ob fd cr w = Inr (put_server s' w)"
    using fd s(1-4) assms(3) nextLoop
    by (simp add: handleRead_Acceptor_def accept_Socket_def sockets_accept_def newConnection_def added_def Let_def s'_def)
  moreover have "handing_server m (Suc k) s'" "ts_acceptor s' = ts_acceptor (nw_rest w)"
    using s acc by (simp_all add: handing_server_def added_def handed_at_def mail_at_def s'_def)
  ultimately show ?thesis unfolding acc by auto
qed

lemma accept_round_hands_over:
  assumes "handing m k w" and "machine_ok m" and "k < 2147483646" and "\<not> el_quit w"
  shows "\<exists>w'. loop_round (call_conn u tid) (call_read_rounds u tid (mc_accepts m)) run (PollEvents [0, 1], t) w = Inr w'
    \<and> handing m (Suc k) w' \<and> \<not> el_quit w'"
proof -
  let ?a = "ac_channel (ts_acceptor (nw_rest w))" and ?call_read = "call_read_rounds u tid (mc_accepts m)"
  obtain ch where ch: "listening w ch" "ch_fd ch = mc_socket m" using assms(1) unfolding handing_def by blast
  have w: "poller_inv (el_poller w)" "map pfd_fd (pl_pollfds (el_poller w)) = [mc_eventfd m, mc_socket m]" "el_pendingFunctors w = []"
      "el_threadId w = mc_tid m" "handing_server m k (nw_rest w)"
    using assms(1) by (simp_all add: handing_def)
  have rep: "report (ch_fd ch) (pl_pollfds (el_poller w)) = [0, 1]"
    using assms(2) ch(2) by (simp add: report_fds w(2) machine_ok_def del: map_map)
  have c: "pl_heap (el_poller w) ?a = Some ch" "registered (el_poller w) ?a" "isReading ch" "ch_readCallback ch = Some AcceptRead"
    using ch(1) by (simp_all add: listening_def)
  let ?d = "ch\<lparr>ch_revents := POLLIN, ch_eventHandling := True\<rparr>"
  obtain p where p: "poller_inv p" "pl_channels p = pl_channels (el_poller w)" "pl_heap p = (pl_heap (el_poller w))(?a \<mapsto> ?d)"
      "map pfd_fd (pl_pollfds p) = [mc_eventfd m, mc_socket m]"
    and rnd: "\<forall>w2 d. ?call_read AcceptRead t (ServerRounds.handling ?a t p w) = Inr w2 \<longrightarrow> pl_heap (el_poller w2) ?a = Some d \<longrightarrow> ch_revents d = POLLIN \<longrightarrow>
         loop_round (call_conn u tid) ?call_read run (PollEvents [0, 1], t) w = doPendingFunctors run (handled ?a d w2)"
    using loop_round_readable [OF w(1) c, of ?call_read t "call_conn u tid" run] unfolding rep w(2) by (elim exE conjE) (rule that)
  let ?w1 = "ServerRounds.handling ?a t p w"
  have "registered p ?a" using c(1,2) p(2,3) by (simp add: registered_def)
  then have "listening ?w1 ?d" using c p(3) by (simp add: listening_def isReading_def)
  then have "handing m k ?w1" using p(1,4) w(3-5) ch(2) by (auto simp: handing_def)
  then obtain s where s: "handleRead_Acceptor u tid (fst (mc_accepts m (int k + 1))) (snd (mc_accepts m (int k + 1))) 0 ?w1 = Inr (put_server s ?w1)"
      "handing_server m (Suc k) s" "ts_acceptor s = ts_acceptor (nw_rest w)"
    using accept_hands_over [OF _ assms(2,3), of ?w1 u tid 0] by auto
  have "ts_nextConnId (nw_rest ?w1) = int k + 1" using w(5) by (simp add: handing_server_def)
  then have "?call_read AcceptRead t ?w1 = Inr (put_server s ?w1)"
    using s(1) by (simp add: call_read_rounds_def call_read_server_def case_prod_unfold)
  moreover have heap: "pl_heap (el_poller (put_server s ?w1)) ?a = Some ?d" using p(3) by simp
  ultimately have run: "loop_round (call_conn u tid) ?call_read run (PollEvents [0, 1], t) w
      = doPendingFunctors run (handled ?a ?d (put_server s ?w1))"
    using rnd by simp
  let ?e = "?d\<lparr>ch_eventHandling := False\<rparr>"
  let ?w2 = "(handled ?a ?d (put_server s ?w1))\<lparr>el_callingPendingFunctors := False, el_pendingFunctors := []\<rparr>"
  have "doPendingFunctors run (handled ?a ?d (put_server s ?w1)) = Inr ?w2"
    using w(3) by (simp add: doPendingFunctors_def swap_functors_def)
  moreover have "poller_inv (store ?a ?e p)" using inv_store_same [OF p(1), of ?a ?d ?e] p(3) by simp
  moreover have "listening ?w2 ?e"
    using c p(2,3) s(3) by (simp add: listening_def registered_def isReading_def)
  ultimately show ?thesis
    using run s(2) p(4) w(4) ch(2) assms(4) by (intro exI [of _ ?w2]) (auto simp: handing_def)
qed

lemma loop_hands_over:
  assumes "handing m k w" and "machine_ok m" and "k + length ts < 2147483647" and "\<not> el_quit w"
  shows "\<exists>w'. loop_rounds (call_conn u tid) (call_read_rounds u tid (mc_accepts m)) run (map (\<lambda>t. (PollEvents [0, 1], t)) ts) w = Inr (Waiting w')
    \<and> handing m (k + length ts) w'"
  using assms
proof (induction ts arbitrary: k w)
  case Nil
  then show ?case by auto
next
  case (Cons t ts)
  then have "k < 2147483646" by simp
  then obtain w1 where w1: "loop_round (call_conn u tid) (call_read_rounds u tid (mc_accepts m)) run (PollEvents [0, 1], t) w = Inr w1"
      "handing m (Suc k) w1" "\<not> el_quit w1"
    using accept_round_hands_over [OF Cons.prems(1,2) _ Cons.prems(4), of u tid run t] by blast
  then show ?case using Cons.IH [OF w1(2) Cons.prems(2) _ w1(3)] Cons.prems(3,4) by simp
qed

lemma run_program_hands_over:
  assumes "handing m 0 w" and "machine_ok m" and "length ts < 2147483647" and "\<not> el_looping w"
  shows "\<exists>w'. run_program u m (map (\<lambda>t. (PollEvents [0, 1], t)) ts) w = Inr (Waiting w') \<and> handing m (length ts) w'"
proof -
  let ?w = "w\<lparr>el_looping := True, el_quit := False\<rparr>"
  have "handing m 0 ?w" using assms(1) by (simp add: handing_def listening_def)
  then obtain w' where "loop_rounds (call_conn u (mc_tid m)) (call_read_rounds u (mc_tid m) (mc_accepts m)) (run_server u (mc_tid m) (mc_listen m))
        (map (\<lambda>t. (PollEvents [0, 1], t)) ts) ?w = Inr (Waiting w')" "handing m (length ts) w'"
    using loop_hands_over [of m 0 ?w ts u "mc_tid m" "run_server u (mc_tid m) (mc_listen m)"] assms(2,3) by auto
  then show ?thesis using assms(4) by (auto simp: run_program_def loop_def Let_def)
qed

text \<open>
  C3. The programs from their first statement on. On any port, with system calls that succeed, both
  programs construct and start their server and run the loop; for every number of clients
  that connect (up to the largest \<open>int\<close>), no assertion fails, the loop goes back to waiting, and the
  connections were handed to the pool's ten loops in turn: the \<open>j\<close>-th one to loop \<open>j mod 10\<close>, under the
  name \<open>testconnection-\<close> with its number, together with the functor that establishes it there.
\<close>

theorem programs_distribute_connections:
  assumes "machine_ok m" and "length ts < 2147483647"
  shows "\<exists>w v. main_http stack m port (map (\<lambda>t. (PollEvents [0, 1], t)) ts) = Inr (Waiting w)
    \<and> main_echo m port (map (\<lambda>t. (PollEvents [0, 1], t)) ts) = Inr (Waiting v)
    \<and> ts_handed (nw_rest w) = map (handed_at m) [0..<length ts] \<and> ts_mail (nw_rest w) = map (mail_at m) [0..<length ts]
    \<and> ts_handed (nw_rest v) = map (handed_at m) [0..<length ts] \<and> ts_mail (nw_rest v) = map (mail_at m) [0..<length ts]"
proof -
  obtain w where w: "http_start m port = Inr w" "handing m 0 w" "\<not> el_looping w" using http_start_ok [OF assms(1)] by blast
  have run: "\<exists>w'. run_program u m (map (\<lambda>t. (PollEvents [0, 1], t)) ts) w = Inr (Waiting w')
      \<and> ts_handed (nw_rest w') = map (handed_at m) [0..<length ts] \<and> ts_mail (nw_rest w') = map (mail_at m) [0..<length ts]" for u
    using run_program_hands_over [OF w(2) assms w(3), of u] by (auto simp: handing_def handing_server_def)
  show ?thesis
    using run [of "server_user stack defaultHttpCallback (mc_tid m)"] run [of "echo_user (mc_tid m)"] w(1)
    by (simp add: main_http_def main_echo_def echo_start_http) blast
qed

definition sample_machine :: machine where
  "sample_machine = \<lparr>mc_tid = 1, mc_eventfd = 4, mc_wakeChannel = 8, mc_socket = 5, mc_bind = (\<lambda>_. 0), mc_listen = 0,
     mc_acceptChannel = 9, mc_logHup = True, mc_tied = False, mc_started = True, mc_addr = replicate 16 NUL, mc_server = sample_server,
     mc_newLoop = (\<lambda>i. i + 100), mc_accepts = (\<lambda>n. (sample_object\<lparr>no_conn := nat n\<rparr>, n + 10))\<rparr>"

theorem programs_distribute_connections_witness:
  "\<exists>w. main_http (replicate 32 NUL) sample_machine 8080 (map (\<lambda>t. (PollEvents [0, 1], t)) (replicate 12 Timestamp_default)) = Inr (Waiting w)
    \<and> length (ts_handed (nw_rest w)) = 12 \<and> fst (ts_handed (nw_rest w) ! 11) = 101"
proof -
  have "machine_ok sample_machine" by (simp add: machine_ok_def sample_machine_def sizeof_sockaddr_in_def)
  moreover have "fst (handed_at sample_machine 11) = 101" by (simp add: handed_at_def sample_machine_def)
  ultimately show ?thesis
    using programs_distribute_connections [of sample_machine "replicate 12 Timestamp_default" "replicate 32 NUL" 8080] by fastforce
qed

end
