(* ===== verification/IoLoops.thy ===== *)
theory IoLoops
  imports ServerRounds
begin

text \<open>
  A loop of the server's thread pool at work. The server's thread constructs a connection and posts
  \<open>connectEstablished\<close> to the loop; the loop's own thread then runs the connection: requests are
  answered there, and when the client closes, \<open>TcpServer::removeConnection\<close> posts to the server's loop.
  What a round posts to the server's loop is collected in the rest of the world.

  One round of \<open>EventLoop::loop\<close> is the model of \<open>EventLoops\<close>; \<open>poll\<close> reports one readable descriptor at
  a time: the event descriptor, a connection with a request, or a connection whose client has closed.
  Every round ends with the functors that are pending, so new connections also come up in rounds
  that were started by something else.
\<close>

section \<open>Rounds\<close>

type_synonym io_world = "nat list net_world"

text \<open>The close callback, off the server's thread: the connection is to be removed.\<close>

definition post_removal :: "nat \<Rightarrow> io_world \<Rightarrow> io_world outcome" where
  "post_removal i w = Inr (w\<lparr>nw_rest := nw_rest w @ [i]\<rparr>)"

definition io_user :: "string \<Rightarrow> http_callback \<Rightarrow> int \<Rightarrow> nat list net_user" where
  "io_user stack cb tid = http_user stack cb tid post_removal"

datatype io_event = IoWake | IoRequest nat Method string string Version "(string \<times> string) list" | IoEof nat

definition io_channel :: "io_world \<Rightarrow> io_event \<Rightarrow> nat option" where
  "io_channel w e =
     (case e of
        IoWake \<Rightarrow> Some (el_wakeupChannel w)
      | IoRequest i m p q v hs \<Rightarrow> map_option tc_channel (nw_conns w i)
      | IoEof i \<Rightarrow> map_option tc_channel (nw_conns w i))"

definition io_polled :: "io_world \<Rightarrow> io_event \<Rightarrow> poll_result" where
  "io_polled w e =
     PollEvents (report (case io_channel w e of None \<Rightarrow> - 1
         | Some a \<Rightarrow> (case pl_heap (el_poller w) a of None \<Rightarrow> - 1 | Some ch \<Rightarrow> ch_fd ch))
       (pl_pollfds (el_poller w)))"

definition io_round :: "string \<Rightarrow> http_callback \<Rightarrow> io_event \<Rightarrow> timestamp \<Rightarrow> io_world \<Rightarrow> io_world outcome" where
  "io_round stack cb e t w =
     (let tid = el_threadId w; u = io_user stack cb tid
      in loop_round (call_conn u tid) (call_read_conn u tid) (run_conn u tid) (io_polled w e, t) w)"

section \<open>The view of the clients\<close>

datatype io_phase = Handed | Serving | Gone

definition phase_of :: "StateE \<Rightarrow> io_phase" where
  "phase_of s = (case s of kConnecting \<Rightarrow> Handed | kDisconnected \<Rightarrow> Gone | _ \<Rightarrow> Serving)"

definition io_abs :: "'w net_world \<Rightarrow> nat \<rightharpoonup> io_phase \<times> string" where
  "io_abs w i = map_option (\<lambda>c. (phase_of (tc_state c), sk_sent c)) (nw_conns w i)"

text \<open>What a round does: its event, then every connection that was handed over comes up.\<close>

definition come_up :: "(nat \<rightharpoonup> io_phase \<times> string) \<Rightarrow> (nat \<rightharpoonup> io_phase \<times> string)" where
  "come_up v i = map_option (\<lambda>(ph, s). (if ph = Handed then Serving else ph, s)) (v i)"

definition io_handle :: "string \<Rightarrow> (nat \<rightharpoonup> io_phase \<times> string) \<Rightarrow> io_event \<Rightarrow> (nat \<rightharpoonup> io_phase \<times> string)" where
  "io_handle stack v e =
     (case e of
        IoWake \<Rightarrow> v
      | IoRequest i m p q vs hs \<Rightarrow> v(i := map_option (\<lambda>(ph, s). (ph, s @ http_answer stack (closes_after vs hs))) (v i))
      | IoEof i \<Rightarrow> v(i := map_option (\<lambda>(ph, s). (Gone, s)) (v i)))"

definition io_step :: "string \<Rightarrow> (nat \<rightharpoonup> io_phase \<times> string) \<Rightarrow> io_event \<Rightarrow> (nat \<rightharpoonup> io_phase \<times> string)" where
  "io_step stack v e = come_up (io_handle stack v e)"

lemma io_abs_None: "io_abs w i = None \<longleftrightarrow> nw_conns w i = None"
  by (simp add: io_abs_def)

lemma io_step_dom: "io_step stack v e j = None \<longleftrightarrow> v j = None"
  by (auto simp: io_step_def come_up_def io_handle_def split: io_event.split)

lemma io_step_gone: "(\<exists>s. io_step stack v e j = Some (Gone, s)) \<longleftrightarrow> (\<exists>s. v j = Some (Gone, s)) \<or> e = IoEof j \<and> v j \<noteq> None"
  by (cases "v j") (auto simp: io_step_def come_up_def io_handle_def split: io_event.split if_splits)

text \<open>The contract of the kernel and the clients, as for a server with one loop.\<close>

definition io_env :: "string \<Rightarrow> io_world \<Rightarrow> io_event \<Rightarrow> bool" where
  "io_env stack w e =
     (case e of
        IoWake \<Rightarrow> True
      | IoRequest i m p q v hs \<Rightarrow>
          (case nw_conns w i of None \<Rightarrow> False | Some c \<Rightarrow>
             tc_state c = kConnected \<and> sk_reads c (sk_nreads c) = ReadBytes (request_text m p q v hs)
             \<and> length (request_text m p q v hs) \<le> readv_capacity (tc_inputBuffer c)
             \<and> room_for (writableBytes (tc_inputBuffer c) + kExtraBuf) (tc_inputBuffer c)
             \<and> wf_target p q \<and> m \<noteq> kInvalid \<and> v \<noteq> kUnknown \<and> (\<forall>h \<in> set hs. wf_header h)
             \<and> sk_writes c (sk_nwrites c) = Wrote (length (http_answer stack (closes_after v hs))))
      | IoEof i \<Rightarrow>
          (case nw_conns w i of None \<Rightarrow> False | Some c \<Rightarrow>
             (tc_state c = kConnected \<or> tc_state c = kDisconnecting) \<and> sk_reads c (sk_nreads c) = ReadBytes []))"

section \<open>The invariant\<close>

text \<open>
  A connection object and its channel in each state. The read callback tells the channels of
  different connections, and of the loop itself, apart.
\<close>

definition io_conn :: "'w net_world \<Rightarrow> nat \<Rightarrow> tcp_connection \<Rightarrow> net_callback channel \<Rightarrow> bool" where
  "io_conn w i c ch \<longleftrightarrow> nw_conns w i = Some c \<and> pl_heap (el_poller w) (tc_channel c) = Some ch \<and> ch_readCallback ch = Some (ConnRead i)
     \<and> (if tc_state c = kConnecting
        then new_channel i ch \<and> 0 \<le> ch_fd ch \<and> map_of (pl_channels (el_poller w)) (ch_fd ch) = None
          \<and> serving (c\<lparr>tc_state := kConnected, tc_context := HttpContext_ctor\<rparr>)
        else tc_state c \<noteq> kDisconnected \<longrightarrow> live_conn w i c ch)"

definition conn_fd :: "'w net_world \<Rightarrow> nat \<Rightarrow> int option" where
  "conn_fd w i = Option.bind (nw_conns w i) (\<lambda>c. map_option ch_fd (pl_heap (el_poller w) (tc_channel c)))"

text \<open>The invariant while \<open>connectEstablished\<close> of the connections in \<open>ids\<close> is still to run.\<close>

definition io_ok :: "nat list \<Rightarrow> 'w net_world \<Rightarrow> bool" where
  "io_ok ids w \<longleftrightarrow> poller_inv (el_poller w) \<and> \<not> el_quit w
     \<and> (\<exists>ch. pl_heap (el_poller w) (el_wakeupChannel w) = Some ch \<and> registered (el_poller w) (el_wakeupChannel w) \<and> isReading ch
          \<and> ch_readCallback ch = Some LoopWakeup)
     \<and> distinct ids \<and> (\<forall>i. i \<in> set ids \<longleftrightarrow> (\<exists>c. nw_conns w i = Some c \<and> tc_state c = kConnecting))
     \<and> (\<forall>i c. nw_conns w i = Some c \<longrightarrow> (\<exists>ch. io_conn w i c ch))
     \<and> inj_on (conn_fd w) (set ids)"

definition io_inv :: "'w net_world \<Rightarrow> bool" where
  "io_inv w \<longleftrightarrow> (\<exists>ids. el_pendingFunctors w = map ConnectEstablished ids \<and> io_ok ids w)"

lemma io_ok_conn: "io_ok ids w \<Longrightarrow> nw_conns w i = Some c \<Longrightarrow> \<exists>ch. io_conn w i c ch"
  unfolding io_ok_def by blast

lemma io_ok_new: "io_ok ids w \<Longrightarrow> i \<in> set ids \<longleftrightarrow> (\<exists>c. nw_conns w i = Some c \<and> tc_state c = kConnecting)"
  unfolding io_ok_def by blast

section \<open>Changes that keep it\<close>

text \<open>A channel that only differs in its received events and flags.\<close>

definition touched :: "'cb channel \<Rightarrow> 'cb channel \<Rightarrow> bool" where
  "touched ch d \<longleftrightarrow> same_channel ch d \<and> ch_index d = ch_index ch"

lemma touched_refl [simp]: "touched ch ch"
  by (simp add: touched_def)

lemma io_conn_kept:
  assumes "io_conn w i c ch" and "nw_conns w' i = Some c" and "pl_heap (el_poller w') (tc_channel c) = Some d" and "touched ch d"
    and "map_of (pl_channels (el_poller w')) (ch_fd ch) = map_of (pl_channels (el_poller w)) (ch_fd ch)"
  shows "io_conn w' i c d"
proof -
  have d: "ch_fd d = ch_fd ch" "ch_events d = ch_events ch" "ch_index d = ch_index ch" "ch_readCallback d = ch_readCallback ch"
      "ch_writeCallback d = ch_writeCallback ch" "ch_closeCallback d = ch_closeCallback ch" "ch_errorCallback d = ch_errorCallback ch"
    using assms(4) by (simp_all add: touched_def same_channel_def)
  show ?thesis
    using assms(1-3,5) d
    by (auto simp: io_conn_def new_channel_def live_conn_def registered_def conn_channel_def isReading_def isWriting_def)
qed

text \<open>Two connections have different channels, and none has the loop's.\<close>

lemma io_conn_channels:
  assumes "io_conn w i c ch" and "io_conn w j d dh" and "i \<noteq> j"
  shows "tc_channel c \<noteq> tc_channel d"
  using assms by (auto simp: io_conn_def)

lemma conn_fd_eq: "io_conn w i c ch \<Longrightarrow> conn_fd w i = Some (ch_fd ch)"
  by (simp add: io_conn_def conn_fd_def)

lemma io_ok_touch:
  assumes ok: "io_ok ids w" and ch: "pl_heap (el_poller w) a = Some ch" "touched ch d"
    and w': "poller_inv (el_poller w')" "pl_heap (el_poller w') = (pl_heap (el_poller w))(a \<mapsto> d)"
      "pl_channels (el_poller w') = pl_channels (el_poller w)" "nw_conns w' = nw_conns w" "el_quit w' = el_quit w"
      "el_wakeupChannel w' = el_wakeupChannel w"
  shows "io_ok ids w'"
proof -
  have kept: "\<exists>e. pl_heap (el_poller w') b = Some e \<and> touched h e" if "pl_heap (el_poller w) b = Some h" for b h
    using that ch w'(2) by auto
  obtain wh where wh: "pl_heap (el_poller w) (el_wakeupChannel w) = Some wh" "registered (el_poller w) (el_wakeupChannel w)" "isReading wh"
      "ch_readCallback wh = Some LoopWakeup"
    using ok unfolding io_ok_def by blast
  then obtain we where we: "pl_heap (el_poller w') (el_wakeupChannel w) = Some we" "touched wh we" using kept by blast
  have wake: "registered (el_poller w') (el_wakeupChannel w)" "isReading we" "ch_readCallback we = Some LoopWakeup"
    using wh we w'(3) by (simp_all add: registered_def touched_def same_channel_def isReading_def)
  have "\<exists>e. io_conn w' i c e" if i: "nw_conns w' i = Some c" for i c
  proof -
    obtain h where h: "io_conn w i c h" using io_ok_conn [OF ok] i w'(4) by auto
    then obtain e where "pl_heap (el_poller w') (tc_channel c) = Some e" "touched h e" using kept by (auto simp: io_conn_def)
    then show ?thesis using io_conn_kept [OF h i] w'(3) by auto
  qed
  moreover have "conn_fd w' i = conn_fd w i" for i
  proof (cases "nw_conns w i")
    case (Some c)
    then obtain h where "pl_heap (el_poller w) (tc_channel c) = Some h" using io_ok_conn [OF ok] unfolding io_conn_def by blast
    then show ?thesis using Some kept [of "tc_channel c" h] w'(4) by (auto simp: conn_fd_def touched_def same_channel_def)
  qed (simp add: conn_fd_def w'(4))
  then have "inj_on (conn_fd w') (set ids)" using ok by (simp add: io_ok_def inj_on_def)
  ultimately show ?thesis using ok w' we(1) wake unfolding io_ok_def by auto
qed

lemma io_ok_cong:
  assumes "io_ok ids w" and "el_poller w' = el_poller w" and "nw_conns w' = nw_conns w" and "el_quit w' = el_quit w"
    and "el_wakeupChannel w' = el_wakeupChannel w"
  shows "io_ok ids w'"
proof -
  have "conn_fd w' = conn_fd w" "io_conn w' = io_conn w" "live_conn w' = live_conn w"
    using assms by (simp_all add: conn_fd_def io_conn_def live_conn_def fun_eq_iff)
  then show ?thesis using assms unfolding io_ok_def by simp
qed

text \<open>One connection that is up changes, together with its channel: it goes on serving, or it is gone.\<close>

lemma io_ok_change:
  assumes ok: "io_ok ids w" and c: "io_conn w i c ch" "tc_state c \<noteq> kConnecting"
    and c': "tc_channel c' = tc_channel c" "ch_readCallback d = Some (ConnRead i)" "ch_fd d = ch_fd ch"
      "tc_state c' = kDisconnected \<or> serving c' \<and> touched ch d \<and> tc_state c \<noteq> kDisconnected"
    and w': "poller_inv (el_poller w')" "pl_heap (el_poller w') = (pl_heap (el_poller w))(tc_channel c \<mapsto> d)"
      "pl_channels (el_poller w') = pl_channels (el_poller w)" "nw_conns w' = (nw_conns w)(i \<mapsto> c')" "el_quit w' = el_quit w"
      "el_wakeupChannel w' = el_wakeupChannel w"
  shows "io_ok ids w'"
proof -
  let ?a = "tc_channel c"
  have st: "tc_state c' \<noteq> kConnecting" using c'(4) by (auto simp: serving_def)
  have other: "pl_heap (el_poller w') (tc_channel cj) = pl_heap (el_poller w) (tc_channel cj)" if "io_conn w j cj h" "j \<noteq> i" for j cj h
    using io_conn_channels [OF that(1) c(1) that(2)] w'(2) by simp
  have self: "io_conn w' i c' d"
  proof (cases "tc_state c' = kDisconnected")
    case True
    then show ?thesis using c' w'(2,4) by (simp add: io_conn_def)
  next
    case False
    then have up: "serving c'" "touched ch d" "tc_state c \<noteq> kDisconnected" using c'(4) by auto
    have "live_conn w i c ch" using c up(3) by (simp add: io_conn_def)
    then have "live_conn w' i c' d"
      using up(1,2) c'(1) w'(2-4)
      by (auto simp: live_conn_def registered_def conn_channel_def touched_def same_channel_def isReading_def isWriting_def)
    then show ?thesis using c' w'(2,4) st by (simp add: io_conn_def)
  qed
  have "\<exists>e. io_conn w' j cj e" if j: "nw_conns w' j = Some cj" for j cj
  proof (cases "j = i")
    case True
    then show ?thesis using j w'(4) self by auto
  next
    case False
    then obtain h where h: "io_conn w j cj h" using io_ok_conn [OF ok] j w'(4) by auto
    have "pl_heap (el_poller w') (tc_channel cj) = Some h" using other [OF h False] h by (simp add: io_conn_def)
    then show ?thesis using io_conn_kept [OF h j _ touched_refl] w'(3) by auto
  qed
  moreover have "j \<in> set ids \<longleftrightarrow> (\<exists>cj. nw_conns w' j = Some cj \<and> tc_state cj = kConnecting)" for j
    using io_ok_new [OF ok, of j] c st w'(4) by (cases "j = i") (auto simp: io_conn_def)
  moreover have "inj_on (conn_fd w') (set ids)"
  proof -
    have "conn_fd w' j = conn_fd w j" if j: "j \<in> set ids" for j
    proof (cases "j = i")
      case True
      then show ?thesis using conn_fd_eq [OF self] conn_fd_eq [OF c(1)] c'(3) by simp
    next
      case False
      obtain cj h where "io_conn w j cj h" using io_ok_new [OF ok, of j] io_ok_conn [OF ok] j by metis
      then show ?thesis using other [of j cj h] False w'(4) by (simp add: conn_fd_def io_conn_def)
    qed
    then show ?thesis using ok by (simp add: io_ok_def inj_on_def)
  qed
  moreover have "\<exists>h. pl_heap (el_poller w') (el_wakeupChannel w) = Some h \<and> registered (el_poller w') (el_wakeupChannel w) \<and> isReading h
      \<and> ch_readCallback h = Some LoopWakeup"
  proof -
    obtain h where h: "pl_heap (el_poller w) (el_wakeupChannel w) = Some h" "registered (el_poller w) (el_wakeupChannel w)" "isReading h"
        "ch_readCallback h = Some LoopWakeup"
      using ok unfolding io_ok_def by blast
    moreover have "el_wakeupChannel w \<noteq> ?a" using h(1,4) c(1) by (auto simp: io_conn_def)
    ultimately show ?thesis using w'(2,3) by (simp add: registered_def)
  qed
  ultimately show ?thesis using ok w'(1,5,6) unfolding io_ok_def by simp
qed

section \<open>Coming up\<close>

lemma http_connection_up:
  assumes "nw_conns w i = Some c" and "tc_state c = kConnected"
  shows "nu_connection (http_user stack cb tid cl) i w = Inr (put_conn i (c\<lparr>tc_context := HttpContext_ctor\<rparr>) w)"
  using assms by (simp add: http_user_def onConnection_def connected_def setContext_def)

text \<open>A descriptor is used again only after its connection has ended.\<close>

lemma same_descriptor:
  assumes ok: "io_ok (i # ids) w" and ch: "io_conn w i c ch" "tc_state c = kConnecting" and h: "io_conn w j d h" "j \<noteq> i" "ch_fd h = ch_fd ch"
  shows "tc_state d = kDisconnected"
proof -
  have inj: "inj_on (conn_fd w) (set (i # ids))" using ok unfolding io_ok_def by blast
  have free: "map_of (pl_channels (el_poller w)) (ch_fd ch) = None" using ch by (simp add: io_conn_def)
  have new: "tc_state d \<noteq> kConnecting"
  proof
    assume "tc_state d = kConnecting"
    moreover have "nw_conns w j = Some d" using h by (simp add: io_conn_def)
    ultimately have "j \<in> set (i # ids)" using io_ok_new [OF ok] by blast
    moreover have "conn_fd w j = conn_fd w i" using conn_fd_eq [OF h(1)] conn_fd_eq [OF ch(1)] h(3) by simp
    ultimately have "j = i" using inj by (meson inj_onD list.set_intros(1))
    then show False using h(2) by simp
  qed
  show ?thesis
  proof (rule ccontr)
    assume "tc_state d \<noteq> kDisconnected"
    then have "registered (el_poller w) (tc_channel d)" using h new by (simp add: io_conn_def live_conn_def)
    then show False using h free by (simp add: registered_def io_conn_def)
  qed
qed

lemma io_ok_established:
  assumes ok: "io_ok (i # ids) w" and c: "nw_conns w i = Some c" "tc_state c = kConnecting" and ch: "io_conn w i c ch"
    and p: "poller_inv p" "pl_heap p = (pl_heap (el_poller w))(tc_channel c \<mapsto> d)" "registered p (tc_channel c)" "conn_channel i (ch_fd ch) d"
      "pl_channels p = map_put (ch_fd ch) (tc_channel c) (pl_channels (el_poller w))"
  shows "io_ok ids (w\<lparr>el_poller := p, nw_conns := (nw_conns w)(i \<mapsto> c\<lparr>tc_state := kConnected, tc_context := HttpContext_ctor\<rparr>)\<rparr>)"
proof -
  let ?c = "c\<lparr>tc_state := kConnected, tc_context := HttpContext_ctor\<rparr>" and ?a = "tc_channel c"
  let ?w = "w\<lparr>el_poller := p, nw_conns := (nw_conns w)(i \<mapsto> ?c)\<rparr>"
  have st: "pl_heap (el_poller w) ?a = Some ch" "map_of (pl_channels (el_poller w)) (ch_fd ch) = None" "serving ?c"
    using ch c(2) by (simp_all add: io_conn_def)
  have inv: "\<not> el_quit w" "distinct (i # ids)" "inj_on (conn_fd w) (set (i # ids))"
    using ok unfolding io_ok_def by blast+
  have fds: "conn_fd ?w j = conn_fd w j" if "io_conn w j cj hj" for j cj hj
    using that st(1) p(2,4) by (cases "j = i") (auto simp: conn_fd_def c(1) io_conn_def conn_channel_def)
  have "\<exists>e. io_conn ?w j cj e" if j: "nw_conns ?w j = Some cj" for j cj
  proof (cases "j = i")
    case True
    have "io_conn ?w i ?c d"
      using p(2-4) st(3) by (simp add: io_conn_def live_conn_def conn_channel_def)
    then show ?thesis using True j by auto
  next
    case False
    then obtain h where h: "io_conn w j cj h" using io_ok_conn [OF ok] j by auto
    then have ne: "tc_channel cj \<noteq> ?a" using io_conn_channels [OF h ch] False by simp
    have heap: "pl_heap (el_poller ?w) (tc_channel cj) = Some h" using h ne p(2) by (simp add: io_conn_def)
    show ?thesis
    proof (cases "ch_fd h = ch_fd ch")
      case differs: False
      then have "map_of (pl_channels (el_poller ?w)) (ch_fd h) = map_of (pl_channels (el_poller w)) (ch_fd h)"
        using p(5) by (simp add: map_of_map_put)
      then show ?thesis using io_conn_kept [OF h j heap touched_refl] by blast
    next
      case True
      have "tc_state cj = kDisconnected" by (rule same_descriptor [OF ok ch c(2) h False True])
      then have "io_conn ?w j cj h" using h j heap by (simp add: io_conn_def)
      then show ?thesis by blast
    qed
  qed
  moreover have "j \<in> set ids \<longleftrightarrow> (\<exists>cj. nw_conns ?w j = Some cj \<and> tc_state cj = kConnecting)" for j
    using io_ok_new [OF ok, of j] inv(2) by (cases "j = i") auto
  moreover have "inj_on (conn_fd ?w) (set ids)"
  proof -
    have "conn_fd ?w j = conn_fd w j" if jn: "j \<in> set ids" for j
    proof -
      obtain cj h where "io_conn w j cj h" using io_ok_new [OF ok, of j] io_ok_conn [OF ok] jn by (metis list.set_intros(2))
      then show ?thesis by (rule fds)
    qed
    moreover have "inj_on (conn_fd w) (set ids)" using inv(3) by (rule inj_on_subset) auto
    ultimately show ?thesis by (simp add: inj_on_def)
  qed
  moreover have "\<exists>h. pl_heap p (el_wakeupChannel w) = Some h \<and> registered p (el_wakeupChannel w) \<and> isReading h \<and> ch_readCallback h = Some LoopWakeup"
  proof -
    obtain wh where wh: "pl_heap (el_poller w) (el_wakeupChannel w) = Some wh" "registered (el_poller w) (el_wakeupChannel w)" "isReading wh"
        "ch_readCallback wh = Some LoopWakeup"
      using ok unfolding io_ok_def by blast
    have "el_wakeupChannel w \<noteq> ?a" using wh(4) ch wh(1) by (auto simp: io_conn_def)
    moreover have "ch_fd wh \<noteq> ch_fd ch" using wh(1,2) st(2) by (auto simp: registered_def)
    ultimately show ?thesis using wh p(2,5) by (simp add: registered_def map_of_map_put)
  qed
  ultimately show ?thesis using p(1) inv(1,2) unfolding io_ok_def by simp
qed

lemma establish_one:
  assumes ok: "io_ok (i # ids) w"
  shows "\<exists>w' c. connectEstablished (io_user stack cb tid) tid i w = Inr w' \<and> io_ok ids w' \<and> nw_conns w i = Some c \<and> tc_state c = kConnecting
    \<and> nw_conns w' = (nw_conns w)(i \<mapsto> c\<lparr>tc_state := kConnected, tc_context := HttpContext_ctor\<rparr>)
    \<and> nw_rest w' = nw_rest w \<and> el_pendingFunctors w' = el_pendingFunctors w \<and> el_threadId w' = el_threadId w
    \<and> el_wakeupChannel w' = el_wakeupChannel w"
proof -
  obtain c where c: "nw_conns w i = Some c" "tc_state c = kConnecting" using io_ok_new [OF ok, of i] by auto
  then obtain ch where ch: "io_conn w i c ch" using io_ok_conn [OF ok] by blast
  have st: "pl_heap (el_poller w) (tc_channel c) = Some ch" "new_channel i ch" "0 \<le> ch_fd ch" "map_of (pl_channels (el_poller w)) (ch_fd ch) = None"
    using ch c(2) by (simp_all add: io_conn_def)
  have inv: "poller_inv (el_poller w)" using ok by (simp add: io_ok_def)
  let ?c = "c\<lparr>tc_state := kConnected, tc_context := HttpContext_ctor\<rparr>" and ?a = "tc_channel c"
  obtain p d where p: "connectEstablished (io_user stack cb tid) tid i w
        = nu_connection (io_user stack cb tid) i (w\<lparr>el_poller := p, nw_conns := (nw_conns w)(i \<mapsto> c\<lparr>tc_state := kConnected\<rparr>)\<rparr>)"
      "poller_inv p" "pl_heap p = (pl_heap (el_poller w))(?a \<mapsto> d)" "registered p ?a" "conn_channel i (ch_fd ch) d"
      "pl_channels p = map_put (ch_fd ch) ?a (pl_channels (el_poller w))"
    using connection_established [OF inv c st(1-4)] by blast
  let ?w = "w\<lparr>el_poller := p, nw_conns := (nw_conns w)(i \<mapsto> ?c)\<rparr>"
  have run: "connectEstablished (io_user stack cb tid) tid i w = Inr ?w"
    unfolding p(1) unfolding io_user_def by (subst http_connection_up [of _ i "c\<lparr>tc_state := kConnected\<rparr>"]) (simp_all add: put_conn_def)
  have "io_ok ids ?w" by (rule io_ok_established [OF ok c ch p(2-6)])
  then show ?thesis using run c by (intro exI [of _ ?w] exI [of _ c]) simp
qed

text \<open>What a round leaves of the other connections: they come up if they were handed over.\<close>

definition upgraded :: "tcp_connection \<Rightarrow> tcp_connection" where
  "upgraded c = (if tc_state c = kConnecting then c\<lparr>tc_state := kConnected, tc_context := HttpContext_ctor\<rparr> else c)"

text \<open>All functors of a round: the connections come up in the order in which they were posted.\<close>

lemma io_abs_put: "nw_conns w' = (nw_conns w)(i \<mapsto> c) \<Longrightarrow> io_abs w' = (io_abs w)(i \<mapsto> (phase_of (tc_state c), sk_sent c))"
  by (rule ext) (simp add: io_abs_def)

lemma establish_all:
  assumes "io_ok ids w"
  shows "\<exists>w'. run_functors (run_conn (io_user stack cb tid) tid) (map ConnectEstablished ids) w = Inr w' \<and> io_ok [] w'
    \<and> io_abs w' = come_up (io_abs w) \<and> (\<forall>i. nw_conns w' i = map_option upgraded (nw_conns w i))
    \<and> nw_rest w' = nw_rest w \<and> el_pendingFunctors w' = el_pendingFunctors w \<and> el_threadId w' = el_threadId w"
  using assms
proof (induction ids arbitrary: w)
  case Nil
  have "nw_conns w i = map_option upgraded (nw_conns w i)
      \<and> come_up (io_abs w) i = io_abs w i" for i
    using io_ok_new [OF Nil, of i] by (cases "nw_conns w i") (auto simp: come_up_def io_abs_def phase_of_def upgraded_def split: StateE.split)
  then show ?case using Nil by (simp add: fun_eq_iff)
next
  case (Cons i ids)
  let ?up = "\<lambda>c. c\<lparr>tc_state := kConnected, tc_context := HttpContext_ctor\<rparr>"
  obtain w1 c where w1: "connectEstablished (io_user stack cb tid) tid i w = Inr w1" "io_ok ids w1" "nw_conns w i = Some c" "tc_state c = kConnecting"
      "nw_conns w1 = (nw_conns w)(i \<mapsto> ?up c)" "nw_rest w1 = nw_rest w" "el_pendingFunctors w1 = el_pendingFunctors w" "el_threadId w1 = el_threadId w"
    using establish_one [OF Cons.prems] by blast
  obtain w' where w': "run_functors (run_conn (io_user stack cb tid) tid) (map ConnectEstablished ids) w1 = Inr w'" "io_ok [] w'"
      "io_abs w' = come_up (io_abs w1)" "\<forall>i. nw_conns w' i = map_option upgraded (nw_conns w1 i)"
      "nw_rest w' = nw_rest w1" "el_pendingFunctors w' = el_pendingFunctors w1" "el_threadId w' = el_threadId w1"
    using Cons.IH [OF w1(2)] by blast
  have "come_up (io_abs w1) = come_up (io_abs w)"
    using w1(3,4) by (auto simp: come_up_def io_abs_put [OF w1(5)] io_abs_def phase_of_def fun_eq_iff)
  moreover have "\<forall>j. nw_conns w' j = map_option upgraded (nw_conns w j)"
    using w'(4) w1(3-5) by (auto simp: upgraded_def)
  moreover have "run_functors (run_conn (io_user stack cb tid) tid) (map ConnectEstablished (i # ids)) w = Inr w'"
    using w1(1) w'(1) by (simp add: run_conn_def [of _ _ "ConnectEstablished i"])
  ultimately show ?case using w1(6-8) w'(2,3,5-7) by (intro exI [of _ w']) simp
qed

lemma io_functors:
  assumes "io_ok ids w" and "el_pendingFunctors w = map ConnectEstablished ids"
  shows "\<exists>w'. doPendingFunctors (run_conn (io_user stack cb tid) tid) w = Inr w' \<and> io_inv w' \<and> io_abs w' = come_up (io_abs w)
    \<and> (\<forall>i. nw_conns w' i = map_option upgraded (nw_conns w i))
    \<and> nw_rest w' = nw_rest w \<and> el_threadId w' = el_threadId w"
proof -
  let ?w = "w\<lparr>el_callingPendingFunctors := True, el_pendingFunctors := []\<rparr>"
  have "io_ok ids ?w" by (rule io_ok_cong [OF assms(1)]) simp_all
  from establish_all [OF this, of stack cb tid] obtain w' where
    w': "run_functors (run_conn (io_user stack cb tid) tid) (map ConnectEstablished ids) ?w = Inr w'" "io_ok [] w'" "io_abs w' = come_up (io_abs ?w)"
      "\<forall>i. nw_conns w' i = map_option upgraded (nw_conns ?w i)"
      "nw_rest w' = nw_rest ?w" "el_pendingFunctors w' = el_pendingFunctors ?w" "el_threadId w' = el_threadId ?w"
    by blast
  let ?w' = "w'\<lparr>el_callingPendingFunctors := False\<rparr>"
  have "io_ok [] ?w'" by (rule io_ok_cong [OF w'(2)]) simp_all
  then have "io_inv ?w'" using w'(6) by (auto simp: io_inv_def)
  moreover have "io_abs ?w = io_abs w" "io_abs ?w' = io_abs w'" by (simp_all add: io_abs_def fun_eq_iff)
  moreover have "doPendingFunctors (run_conn (io_user stack cb tid) tid) w = Inr ?w'"
    using assms(2) w'(1) by (simp add: doPendingFunctors_def swap_functors_def)
  ultimately show ?thesis using w'(3-7) by (intro exI [of _ ?w']) simp
qed

section \<open>Rounds keep it\<close>

lemma round_wakeup [simp]:
  "el_wakeupChannel (handling a t p w) = el_wakeupChannel w" "el_wakeupChannel (handled a d w) = el_wakeupChannel w"
  by (simp_all add: handling_def handled_def loop_chan_upd_def)

lemma io_abs_cong: "nw_conns w' = nw_conns w \<Longrightarrow> io_abs w' = io_abs w"
  by (simp add: io_abs_def fun_eq_iff)

lemma io_round_start:
  assumes ok: "io_ok ids w" and pending: "el_pendingFunctors w = map ConnectEstablished ids"
    and ch: "pl_heap (el_poller w) a = Some ch" "registered (el_poller w) a" "isReading ch" "ch_readCallback ch = Some f"
    and e: "io_channel w e = Some a" and u: "tid = el_threadId w" "u = io_user stack cb tid"
  shows "\<exists>p. io_ok ids (handling a t p w)
    \<and> pl_heap p = (pl_heap (el_poller w))(a \<mapsto> ch\<lparr>ch_revents := POLLIN, ch_eventHandling := True\<rparr>) \<and> pl_channels p = pl_channels (el_poller w)
    \<and> (\<forall>w2 d. call_read_conn u tid f t (handling a t p w) = Inr w2 \<longrightarrow> pl_heap (el_poller w2) a = Some d \<longrightarrow> ch_revents d = POLLIN \<longrightarrow>
         io_ok ids w2 \<longrightarrow> el_pendingFunctors w2 = el_pendingFunctors w \<longrightarrow>
         (\<exists>w'. io_round stack cb e t w = Inr w' \<and> io_inv w' \<and> io_abs w' = come_up (io_abs w2)
           \<and> (\<forall>i. nw_conns w' i = map_option upgraded (nw_conns w2 i))
           \<and> nw_rest w' = nw_rest w2 \<and> el_threadId w' = el_threadId w2))"
proof -
  have inv: "poller_inv (el_poller w)" using ok by (simp add: io_ok_def)
  let ?d = "ch\<lparr>ch_revents := POLLIN, ch_eventHandling := True\<rparr>"
  obtain p where p: "poller_inv p" "pl_channels p = pl_channels (el_poller w)" "pl_heap p = (pl_heap (el_poller w))(a \<mapsto> ?d)"
    and rnd: "\<And>w2 d. call_read_conn u tid f t (handling a t p w) = Inr w2 \<Longrightarrow> pl_heap (el_poller w2) a = Some d \<Longrightarrow> ch_revents d = POLLIN \<Longrightarrow>
         loop_round (call_conn u tid) (call_read_conn u tid) (run_conn u tid) (PollEvents (report (ch_fd ch) (pl_pollfds (el_poller w))), t) w
           = doPendingFunctors (run_conn u tid) (handled a d w2)"
    using loop_round_readable [OF inv ch, of "call_read_conn u tid" t "call_conn u tid" "run_conn u tid"] by blast
  have "io_ok ids (handling a t p w)"
    by (rule io_ok_touch [OF ok ch(1), of ?d]) (use p in \<open>simp_all add: touched_def same_channel_def\<close>)
  moreover have "\<exists>w'. io_round stack cb e t w = Inr w' \<and> io_inv w' \<and> io_abs w' = come_up (io_abs w2)
      \<and> (\<forall>i. nw_conns w' i = map_option upgraded (nw_conns w2 i))
      \<and> nw_rest w' = nw_rest w2 \<and> el_threadId w' = el_threadId w2"
    if w2: "call_read_conn u tid f t (handling a t p w) = Inr w2" "pl_heap (el_poller w2) a = Some d" "ch_revents d = POLLIN"
      "io_ok ids w2" "el_pendingFunctors w2 = el_pendingFunctors w" for w2 d
  proof -
    have "poller_inv (el_poller w2)" using w2(4) by (simp add: io_ok_def)
    then have "poller_inv (el_poller (handled a d w2))" using inv_store_same [OF _ w2(2), of "d\<lparr>ch_eventHandling := False\<rparr>"] by simp
    then have "io_ok ids (handled a d w2)"
      by (intro io_ok_touch [OF w2(4,2), of "d\<lparr>ch_eventHandling := False\<rparr>"]) (simp_all add: touched_def same_channel_def)
    moreover have "io_round stack cb e t w = doPendingFunctors (run_conn u tid) (handled a d w2)"
      using rnd [OF w2(1-3)] ch(1) e u by (simp add: io_round_def io_polled_def Let_def)
    moreover have "io_abs (handled a d w2) = io_abs w2" by (rule io_abs_cong) simp
    ultimately show ?thesis using io_functors [of ids "handled a d w2" stack cb tid] w2(5) pending u(2) by simp
  qed
  ultimately show ?thesis using p(2,3) by blast
qed

lemma wake_round:
  assumes "io_inv w"
  shows "\<exists>w'. io_round stack cb IoWake t w = Inr w' \<and> io_inv w' \<and> io_abs w' = io_step stack (io_abs w) IoWake
    \<and> (\<forall>i. nw_conns w' i = map_option upgraded (nw_conns w i)) \<and> nw_rest w' = nw_rest w \<and> el_threadId w' = el_threadId w"
proof -
  obtain ids where ids: "el_pendingFunctors w = map ConnectEstablished ids" "io_ok ids w" using assms by (auto simp: io_inv_def)
  let ?a = "el_wakeupChannel w" and ?tid = "el_threadId w"
  obtain ch where ch: "pl_heap (el_poller w) ?a = Some ch" "registered (el_poller w) ?a" "isReading ch" "ch_readCallback ch = Some LoopWakeup"
    using ids(2) unfolding io_ok_def by blast
  let ?d = "ch\<lparr>ch_revents := POLLIN, ch_eventHandling := True\<rparr>" and ?u = "io_user stack cb ?tid"
  have "io_channel w IoWake = Some ?a" by (simp add: io_channel_def)
  from io_round_start [OF ids(2,1) ch this refl refl, where stack = stack and cb = cb and t = t] obtain p where
    p: "io_ok ids (handling ?a t p w)" "pl_heap p = (pl_heap (el_poller w))(?a \<mapsto> ?d)"
    and rnd: "\<And>w2 d. call_read_conn ?u ?tid LoopWakeup t (handling ?a t p w) = Inr w2 \<Longrightarrow> pl_heap (el_poller w2) ?a = Some d \<Longrightarrow>
       ch_revents d = POLLIN \<Longrightarrow> io_ok ids w2 \<Longrightarrow> el_pendingFunctors w2 = el_pendingFunctors w \<Longrightarrow>
         \<exists>w'. io_round stack cb IoWake t w = Inr w' \<and> io_inv w' \<and> io_abs w' = come_up (io_abs w2)
           \<and> (\<forall>i. nw_conns w' i = map_option upgraded (nw_conns w2 i))
           \<and> nw_rest w' = nw_rest w2 \<and> el_threadId w' = el_threadId w2"
    by blast
  let ?w2 = "handleRead_loop (handling ?a t p w)"
  have w2: "io_ok ids ?w2" "nw_conns ?w2 = nw_conns w"
    by (rule io_ok_cong [OF p(1)]) (simp_all add: handleRead_loop_def)
  have "io_abs ?w2 = io_abs w" by (rule io_abs_cong) (rule w2(2))
  moreover have "call_read_conn ?u ?tid LoopWakeup t (handling ?a t p w) = Inr ?w2" by (simp add: call_read_conn_def)
  ultimately show ?thesis
    using rnd [of ?w2 ?d] w2 p(2) by (simp add: handleRead_loop_def io_step_def io_handle_def)
qed

text \<open>A connection that is up, when its channel is readable.\<close>

lemma conn_round:
  assumes "io_inv w" and "nw_conns w i = Some c" and "tc_state c = kConnected \<or> tc_state c = kDisconnecting"
    and "io_channel w e = Some (tc_channel c)" and "tid = el_threadId w" and "u = io_user stack cb tid"
  shows "\<exists>ids p d. el_pendingFunctors w = map ConnectEstablished ids \<and> io_ok ids (handling (tc_channel c) t p w)
    \<and> io_conn (handling (tc_channel c) t p w) i c d \<and> live_conn (handling (tc_channel c) t p w) i c d \<and> ch_revents d = POLLIN
    \<and> (\<forall>w2 d. handleRead u tid i t (handling (tc_channel c) t p w) = Inr w2 \<longrightarrow> pl_heap (el_poller w2) (tc_channel c) = Some d \<longrightarrow>
         ch_revents d = POLLIN \<longrightarrow> io_ok ids w2 \<longrightarrow> el_pendingFunctors w2 = el_pendingFunctors w \<longrightarrow>
         (\<exists>w'. io_round stack cb e t w = Inr w' \<and> io_inv w' \<and> io_abs w' = come_up (io_abs w2)
           \<and> (\<forall>i. nw_conns w' i = map_option upgraded (nw_conns w2 i)) \<and> nw_rest w' = nw_rest w2 \<and> el_threadId w' = el_threadId w2))"
proof -
  obtain ids where ids: "el_pendingFunctors w = map ConnectEstablished ids" "io_ok ids w" using assms(1) by (auto simp: io_inv_def)
  let ?a = "tc_channel c"
  obtain ch where c: "io_conn w i c ch" using io_ok_conn [OF ids(2) assms(2)] by blast
  then have live: "live_conn w i c ch" using assms(3) by (auto simp: io_conn_def)
  then have ch: "pl_heap (el_poller w) ?a = Some ch" "registered (el_poller w) ?a" "isReading ch" "ch_readCallback ch = Some (ConnRead i)"
    by (simp_all add: live_conn_def conn_channel_def)
  let ?d = "ch\<lparr>ch_revents := POLLIN, ch_eventHandling := True\<rparr>"
  have read: "call_read_conn u tid (ConnRead i) t v = handleRead u tid i t v" for v by (simp add: call_read_conn_def)
  obtain p where p: "io_ok ids (handling ?a t p w)" "pl_heap p = (pl_heap (el_poller w))(?a \<mapsto> ?d)" "pl_channels p = pl_channels (el_poller w)"
    and rnd: "\<forall>w2 d. handleRead u tid i t (handling ?a t p w) = Inr w2 \<longrightarrow> pl_heap (el_poller w2) ?a = Some d \<longrightarrow>
       ch_revents d = POLLIN \<longrightarrow> io_ok ids w2 \<longrightarrow> el_pendingFunctors w2 = el_pendingFunctors w \<longrightarrow>
         (\<exists>w'. io_round stack cb e t w = Inr w' \<and> io_inv w' \<and> io_abs w' = come_up (io_abs w2)
           \<and> (\<forall>i. nw_conns w' i = map_option upgraded (nw_conns w2 i)) \<and> nw_rest w' = nw_rest w2 \<and> el_threadId w' = el_threadId w2)"
    using io_round_start [OF ids(2,1) ch assms(4-6), of t] unfolding read by blast
  have conn: "io_conn (handling ?a t p w) i c ?d"
    by (rule io_conn_kept [OF c]) (use assms(2) p(2,3) in \<open>simp_all add: touched_def same_channel_def\<close>)
  then have "live_conn (handling ?a t p w) i c ?d" using assms(3) by (auto simp: io_conn_def)
  then show ?thesis using ids(1) p(1) conn rnd
    by (intro exI [of _ ids] exI [of _ p] exI [of _ ?d] conjI) simp_all
qed

lemma io_request_round:
  assumes inv: "io_inv w" and env: "io_env stack w (IoRequest i m p q v hs)" and stack: "length stack = 32"
  shows "\<exists>w'. io_round stack cb (IoRequest i m p q v hs) t w = Inr w' \<and> io_inv w'
    \<and> io_abs w' = io_step stack (io_abs w) (IoRequest i m p q v hs) \<and> nw_rest w' = nw_rest w \<and> el_threadId w' = el_threadId w
    \<and> (\<exists>c c'. nw_conns w i = Some c \<and> nw_conns w' i = Some c' \<and> sk_reads c' = sk_reads c \<and> sk_nreads c' = sk_nreads c + 1
         \<and> tc_state c' \<in> {kConnected, kDisconnecting})"
proof -
  let ?tid = "el_threadId w" and ?e = "IoRequest i m p q v hs"
  obtain c where c: "nw_conns w i = Some c" "tc_state c = kConnected" "sk_reads c (sk_nreads c) = ReadBytes (request_text m p q v hs @ [])"
      "length (request_text m p q v hs @ []) \<le> readv_capacity (tc_inputBuffer c)"
      "room_for (writableBytes (tc_inputBuffer c) + kExtraBuf) (tc_inputBuffer c)" "wf_target p q" "m \<noteq> kInvalid" "v \<noteq> kUnknown"
      "\<forall>h \<in> set hs. wf_header h" "sk_writes c (sk_nwrites c) = Wrote (length (http_answer stack (closes_after v hs)))"
    using env by (auto simp: io_env_def split: option.splits)
  have e: "io_channel w ?e = Some (tc_channel c)" using c(1) by (simp add: io_channel_def)
  let ?a = "tc_channel c" and ?u = "io_user stack cb ?tid"
  obtain ids pl d where s: "el_pendingFunctors w = map ConnectEstablished ids" "io_ok ids (handling ?a t pl w)"
      "io_conn (handling ?a t pl w) i c d" "live_conn (handling ?a t pl w) i c d" "ch_revents d = POLLIN"
    and rnd: "\<And>w2 d. handleRead ?u ?tid i t (handling ?a t pl w) = Inr w2 \<Longrightarrow> pl_heap (el_poller w2) ?a = Some d \<Longrightarrow>
         ch_revents d = POLLIN \<Longrightarrow> io_ok ids w2 \<Longrightarrow> el_pendingFunctors w2 = el_pendingFunctors w \<Longrightarrow>
         \<exists>w'. io_round stack cb ?e t w = Inr w' \<and> io_inv w' \<and> io_abs w' = come_up (io_abs w2)
           \<and> (\<forall>i. nw_conns w' i = map_option upgraded (nw_conns w2 i)) \<and> nw_rest w' = nw_rest w2 \<and> el_threadId w' = el_threadId w2"
    using conn_round [OF inv c(1) disjI1 [OF c(2)] e refl refl, where t = t and stack = stack and cb = cb] by blast
  let ?w1 = "handling ?a t pl w"
  have sv: "pl_heap (el_poller ?w1) ?a = Some d" "\<not> isWriting d" "buffer_inv (tc_inputBuffer c)" "readableBytes (tc_outputBuffer c) = 0"
      "0 \<le> sk_shutdownResult c" "bytes_of (tc_inputBuffer c) = []" "ctx_state (tc_context c) = kExpectRequestLine"
      "req_method (ctx_request (tc_context c)) = kInvalid" "req_headers (ctx_request (tc_context c)) = []"
    using s(4) c(2) by (auto simp: live_conn_def conn_channel_def serving_def)
  have conn1: "nw_conns ?w1 i = Some c" and tid: "?tid = el_threadId ?w1" using c(1) by simp_all
  have ne: "request_text m p q v hs @ [] \<noteq> []" by (simp add: request_text_def request_line_def)
  obtain b x b' where run: "handleRead ?u ?tid i t ?w1
      = Inr (put_conn i (answered stack (closes_after v hs) x b' (c\<lparr>tc_inputBuffer := b, sk_nreads := sk_nreads c + 1\<rparr>)) ?w1)"
      "buffer_inv b'" "bytes_of b' = []"
    using handleRead_http_answered [OF conn1 c(2) sv(5,4) sv(1,2) tid stack sv(3,6) c(5) sv(7-9) c(3,4) ne c(6-9) closes_after_def c(10), where cb = cb and t = t and cl = post_removal]
    unfolding io_user_def by blast
  let ?c = "answered stack (closes_after v hs) x b' (c\<lparr>tc_inputBuffer := b, sk_nreads := sk_nreads c + 1\<rparr>)"
  have new: "serving ?c" "tc_channel ?c = ?a" "sk_sent ?c = sk_sent c @ http_answer stack (closes_after v hs)" "sk_reads ?c = sk_reads c"
      "sk_nreads ?c = sk_nreads c + 1"
    using run(2,3) sv c(2) by (simp_all add: serving_def)
  have st: "tc_state ?c \<in> {kConnected, kDisconnecting}" using new(1) by (auto simp: serving_def)
  let ?w2 = "put_conn i ?c ?w1"
  have "poller_inv (el_poller ?w1)" using s(2) by (simp add: io_ok_def)
  then have ok2: "io_ok ids ?w2"
    by (intro io_ok_change [OF s(2,3), of ?c d]) (use new sv(1) s(3) c(2) in \<open>auto simp: io_conn_def fun_upd_idem put_conn_def\<close>)
  obtain w' where w': "io_round stack cb ?e t w = Inr w'" "io_inv w'" "io_abs w' = come_up (io_abs ?w2)"
      "\<And>i. nw_conns w' i = map_option upgraded (nw_conns ?w2 i)" "nw_rest w' = nw_rest ?w2" "el_threadId w' = el_threadId ?w2"
    using rnd [OF run(1) _ s(5) ok2] sv(1) by auto
  have "nw_conns ?w2 = (nw_conns w)(i \<mapsto> ?c)" by (simp add: put_conn_def)
  from io_abs_put [OF this] have "io_abs ?w2 = io_handle stack (io_abs w) ?e"
    using st c(1,2) new(3) by (auto simp: io_handle_def io_abs_def phase_of_def)
  moreover have "nw_conns w' i = Some ?c" using w'(4) [of i] st by (auto simp: put_conn_def upgraded_def)
  ultimately show ?thesis using w'(1-3,5,6) c(1) new(4,5) st by (intro exI [of _ w']) (auto simp: io_step_def)
qed

lemma io_eof_round:
  assumes inv: "io_inv w" and env: "io_env stack w (IoEof i)"
  shows "\<exists>w'. io_round stack cb (IoEof i) t w = Inr w' \<and> io_inv w' \<and> io_abs w' = io_step stack (io_abs w) (IoEof i)
    \<and> nw_rest w' = nw_rest w @ [i] \<and> el_threadId w' = el_threadId w"
proof -
  let ?tid = "el_threadId w" and ?e = "IoEof i"
  obtain c where c: "nw_conns w i = Some c" "tc_state c = kConnected \<or> tc_state c = kDisconnecting" "sk_reads c (sk_nreads c) = ReadBytes []"
    using env by (auto simp: io_env_def split: option.splits)
  have e: "io_channel w ?e = Some (tc_channel c)" using c(1) by (simp add: io_channel_def)
  let ?a = "tc_channel c" and ?u = "io_user stack cb ?tid"
  obtain ids p d where s: "el_pendingFunctors w = map ConnectEstablished ids" "io_ok ids (handling ?a t p w)"
      "io_conn (handling ?a t p w) i c d" "live_conn (handling ?a t p w) i c d" "ch_revents d = POLLIN"
    and rnd: "\<And>w2 d. handleRead ?u ?tid i t (handling ?a t p w) = Inr w2 \<Longrightarrow> pl_heap (el_poller w2) ?a = Some d \<Longrightarrow>
         ch_revents d = POLLIN \<Longrightarrow> io_ok ids w2 \<Longrightarrow> el_pendingFunctors w2 = el_pendingFunctors w \<Longrightarrow>
         \<exists>w'. io_round stack cb ?e t w = Inr w' \<and> io_inv w' \<and> io_abs w' = come_up (io_abs w2)
           \<and> (\<forall>i. nw_conns w' i = map_option upgraded (nw_conns w2 i)) \<and> nw_rest w' = nw_rest w2 \<and> el_threadId w' = el_threadId w2"
    using conn_round [OF inv c(1,2) e refl refl, where t = t and stack = stack and cb = cb] by blast
  let ?w1 = "handling ?a t p w"
  have conn1: "nw_conns ?w1 i = Some c" using c(1) by simp
  have sv: "pl_heap (el_poller ?w1) ?a = Some d" "registered (el_poller ?w1) ?a" "buffer_inv (tc_inputBuffer c)" "ch_readCallback d = Some (ConnRead i)"
    using s(4) by (simp_all add: live_conn_def conn_channel_def serving_def)
  have inv1: "poller_inv (el_poller ?w1)" using s(2) by (simp add: io_ok_def)
  obtain b where b: "handleRead ?u ?tid i t ?w1 = handleClose ?u ?tid i (put_conn i (c\<lparr>tc_inputBuffer := b, sk_nreads := sk_nreads c + 1\<rparr>) ?w1)"
    using handleRead_eof [OF conn1 c(3) sv(3)] by blast
  let ?c = "c\<lparr>tc_inputBuffer := b, sk_nreads := sk_nreads c + 1, tc_state := kDisconnected\<rparr>"
  let ?w = "put_conn i ?c ?w1"
  obtain q where q: "change_channel DisableAll i ?w = Inr (?w\<lparr>el_poller := q\<rparr>)" "poller_inv q"
      "pl_heap q = (pl_heap (el_poller ?w1))(?a \<mapsto> change DisableAll d)" "pl_channels q = pl_channels (el_poller ?w1)"
    using change_channel_ok [of ?w i ?c d DisableAll] inv1 sv(1,2) by auto
  let ?w2 = "?w\<lparr>el_poller := q, nw_rest := nw_rest w @ [i]\<rparr>" and ?d = "change DisableAll d"
  have d: "ch_readCallback ?d = Some (ConnRead i)" "ch_fd ?d = ch_fd d" "ch_revents ?d = POLLIN"
    using sv(4) s(5) by (simp_all add: disableAll_def update_mark_def)
  have run: "handleRead ?u ?tid i t ?w1 = Inr ?w2"
    unfolding b using c(2) q(1)
    by (auto simp: handleClose_def setState_def io_user_def http_user_def onConnection_def connected_def post_removal_def put_conn_def)
  have ok2: "io_ok ids ?w2"
    by (rule io_ok_change [OF s(2,3), of ?c ?d]) (use c(2) d q(2-4) in \<open>auto simp: put_conn_def\<close>)
  obtain w' where w': "io_round stack cb ?e t w = Inr w'" "io_inv w'" "io_abs w' = come_up (io_abs ?w2)"
      "nw_rest w' = nw_rest ?w2" "el_threadId w' = el_threadId ?w2"
    using rnd [OF run _ d(3) ok2] q(3) by auto
  have "nw_conns ?w2 = (nw_conns w)(i \<mapsto> ?c)" by (simp add: put_conn_def)
  from io_abs_put [OF this] have "io_abs ?w2 = io_handle stack (io_abs w) ?e"
    using c(1) by (simp add: io_handle_def io_abs_def phase_of_def)
  then show ?thesis using w' by (intro exI [of _ w']) (simp add: io_step_def)
qed

text \<open>Every round: the loop stays as it should be, and only a client that leaves is reported to the server.\<close>

lemma io_round_refines:
  assumes "io_inv w" and "io_env stack w e" and "length stack = 32"
  shows "\<exists>w'. io_round stack cb e t w = Inr w' \<and> io_inv w' \<and> io_abs w' = io_step stack (io_abs w) e
    \<and> nw_rest w' = nw_rest w @ (case e of IoEof i \<Rightarrow> [i] | _ \<Rightarrow> []) \<and> el_threadId w' = el_threadId w"
proof (cases e)
  case IoWake
  show ?thesis unfolding IoWake using wake_round [OF assms(1), of stack cb t] by auto
next
  case (IoRequest i m p q v hs)
  show ?thesis unfolding IoRequest using io_request_round [OF assms(1) assms(2) [unfolded IoRequest] assms(3), of cb t] by auto
next
  case (IoEof i)
  show ?thesis unfolding IoEof using io_eof_round [OF assms(1) assms(2) [unfolded IoEof], of cb t] by auto
qed

section \<open>A connection is handed over\<close>

lemma free_descriptor:
  assumes "poller_inv p" and "\<And>b ch. pl_heap p b = Some ch \<Longrightarrow> ch_fd ch \<noteq> fd"
  shows "map_of (pl_channels p) fd = None"
proof (rule ccontr)
  assume "map_of (pl_channels p) fd \<noteq> None"
  then obtain b where "map_of (pl_channels p) fd = Some b" by blast
  then have "(fd, b) \<in> set (pl_channels p)" by (rule map_of_SomeD)
  then obtain ch where "pl_heap p b = Some ch" "ch_fd ch = fd"
    using assms(1) by (auto simp: poller_inv_def entry_ok_def registered_ok_def split: option.splits)
  then show False using assms(2) by blast
qed

lemma descriptors_distinct:
  assumes ok: "io_ok ids w" and new: "\<And>b ch. pl_heap (el_poller w) b = Some ch \<Longrightarrow> ch_fd ch \<noteq> fd"
    and kept: "\<And>j c h. io_conn w j c h \<Longrightarrow> io_conn w' j c h" and i: "conn_fd w' i = Some fd"
  shows "inj_on (conn_fd w') (set (ids @ [i]))"
proof -
  have old: "conn_fd w' j = conn_fd w j \<and> conn_fd w j \<noteq> Some fd" if j: "j \<in> set ids" for j
  proof -
    obtain cj h where h: "io_conn w j cj h" using io_ok_new [OF ok, of j] io_ok_conn [OF ok] j by metis
    then have "ch_fd h \<noteq> fd" using new by (auto simp: io_conn_def)
    then show ?thesis using conn_fd_eq [OF h] conn_fd_eq [OF kept [OF h]] by simp
  qed
  have "Some fd \<notin> conn_fd w' ` set ids" using old by force
  moreover have "inj_on (conn_fd w) (set ids)" using ok by (simp add: io_ok_def)
  then have "inj_on (conn_fd w') (set ids)" using old by (simp add: inj_on_def)
  ultimately show ?thesis using i by auto
qed

lemma io_ok_handed:
  assumes ok: "io_ok ids w" and new: "nw_conns w i = None" "pl_heap (el_poller w) a = None" "\<And>b ch. pl_heap (el_poller w) b = Some ch \<Longrightarrow> ch_fd ch \<noteq> fd"
    and fd: "0 \<le> fd" "0 \<le> sr"
    and w': "poller_inv (el_poller w')" "el_poller w' = store a d (el_poller w)" "new_channel i d" "ch_fd d = fd"
      "nw_conns w' = (nw_conns w)(i \<mapsto> (established_conn nm a reads writes sr)\<lparr>tc_state := kConnecting\<rparr>)" "el_quit w' = el_quit w"
      "el_wakeupChannel w' = el_wakeupChannel w"
  shows "io_ok (ids @ [i]) w'"
proof -
  let ?c = "(established_conn nm a reads writes sr)\<lparr>tc_state := kConnecting\<rparr>"
  have inv: "poller_inv (el_poller w)" "\<not> el_quit w" "distinct ids" "inj_on (conn_fd w) (set ids)" using ok unfolding io_ok_def by blast+
  have heap: "pl_heap (el_poller w') = (pl_heap (el_poller w))(a \<mapsto> d)" "pl_channels (el_poller w') = pl_channels (el_poller w)"
    using w'(2) by simp_all
  have free: "map_of (pl_channels (el_poller w)) fd = None" by (rule free_descriptor [OF inv(1) new(3)])
  have up: "serving (?c\<lparr>tc_state := kConnected, tc_context := HttpContext_ctor\<rparr>)"
    using established_serving [OF fd(2), of nm a reads writes] by (simp add: established_conn_def)
  have self: "io_conn w' i ?c d"
    using w'(3-5) heap free fd(1) up by (simp add: io_conn_def new_channel_def established_conn_def)
  have kept: "io_conn w' j cj h" if "io_conn w j cj h" for j cj h
  proof (rule io_conn_kept [OF that])
    have "j \<noteq> i" "tc_channel cj \<noteq> a" using that new(1,2) by (auto simp: io_conn_def)
    then show "nw_conns w' j = Some cj" "pl_heap (el_poller w') (tc_channel cj) = Some h" using that w'(5) heap(1) by (simp_all add: io_conn_def)
  qed (use heap(2) in simp_all)
  have "\<exists>e. io_conn w' j cj e" if j: "nw_conns w' j = Some cj" for j cj
  proof (cases "j = i")
    case True
    then show ?thesis using j w'(5) self by auto
  next
    case False
    then have "nw_conns w j = Some cj" using j w'(5) by simp
    then show ?thesis using io_ok_conn [OF ok] kept by blast
  qed
  moreover have "j \<in> set (ids @ [i]) \<longleftrightarrow> (\<exists>cj. nw_conns w' j = Some cj \<and> tc_state cj = kConnecting)" for j
    using io_ok_new [OF ok, of j] w'(5) by (cases "j = i") auto
  moreover have "i \<notin> set ids" using io_ok_new [OF ok, of i] new(1) by simp
  moreover have "conn_fd w' i = Some fd" using conn_fd_eq [OF self] w'(4) by simp
  then have "inj_on (conn_fd w') (set (ids @ [i]))" using descriptors_distinct [OF ok new(3) kept] by simp
  moreover have "\<exists>h. pl_heap (el_poller w') (el_wakeupChannel w) = Some h \<and> registered (el_poller w') (el_wakeupChannel w) \<and> isReading h
      \<and> ch_readCallback h = Some LoopWakeup"
  proof -
    obtain h where h: "pl_heap (el_poller w) (el_wakeupChannel w) = Some h" "registered (el_poller w) (el_wakeupChannel w)" "isReading h"
        "ch_readCallback h = Some LoopWakeup"
      using ok unfolding io_ok_def by blast
    moreover have "el_wakeupChannel w \<noteq> a" using h(1) new(2) by auto
    ultimately show ?thesis using heap by (simp add: registered_def)
  qed
  ultimately show ?thesis using inv(2,3) w'(1,6,7) unfolding io_ok_def by simp
qed

lemma io_handed:
  assumes inv: "io_inv w" and new: "nw_conns w i = None" "pl_heap (el_poller w) a = None" "\<And>b ch. pl_heap (el_poller w) b = Some ch \<Longrightarrow> ch_fd ch \<noteq> fd"
    and fd: "0 \<le> fd" "0 \<le> sr" and tid: "tid \<noteq> el_threadId w"
  shows "\<exists>w'. runInLoop run tid (ConnectEstablished i) (TcpConnection_ctor i a lh tied nm fd reads writes sr w) = Inr w' \<and> io_inv w'
    \<and> nw_conns w' = (nw_conns w)(i \<mapsto> (established_conn nm a reads writes sr)\<lparr>tc_state := kConnecting\<rparr>)
    \<and> io_abs w' = (io_abs w)(i \<mapsto> (Handed, [])) \<and> nw_rest w' = nw_rest w \<and> el_threadId w' = el_threadId w"
proof -
  let ?c = "(established_conn nm a reads writes sr)\<lparr>tc_state := kConnecting\<rparr>"
  obtain ids where ids: "el_pendingFunctors w = map ConnectEstablished ids" "io_ok ids w" using inv by (auto simp: io_inv_def)
  obtain d where d: "new_channel i d" "ch_fd d = fd" "TcpConnection_ctor i a lh tied nm fd reads writes sr w
      = w\<lparr>el_poller := store a d (el_poller w), nw_conns := (nw_conns w)(i \<mapsto> ?c)\<rparr>"
    using TcpConnection_ctor_world by blast
  let ?w = "w\<lparr>el_poller := store a d (el_poller w), nw_conns := (nw_conns w)(i \<mapsto> ?c)\<rparr>"
  let ?w' = "queueInLoop tid (ConnectEstablished i) ?w"
  have "poller_inv (el_poller ?w')" using inv_store_new [OF _ new(2)] ids(2) by (simp add: io_ok_def)
  moreover have "el_wakeupChannel ?w' = el_wakeupChannel w" by (simp add: queueInLoop_def push_functor_def wakeup_def Let_def)
  ultimately have "io_ok (ids @ [i]) ?w'"
    using d(1,2) by (intro io_ok_handed [OF ids(2) new fd, where w' = ?w' and d = d]) simp_all
  then have "io_inv ?w'" using ids(1) by (auto simp: io_inv_def intro!: exI [of _ "ids @ [i]"])
  moreover have conns: "nw_conns ?w' = (nw_conns w)(i \<mapsto> ?c)" by simp
  moreover have "io_abs ?w' = (io_abs w)(i \<mapsto> (Handed, []))"
    using io_abs_put [OF conns] by (simp add: phase_of_def established_conn_def)
  ultimately show ?thesis unfolding d(3) using tid by (intro exI [of _ ?w']) (simp add: runInLoop_def isInLoopThread_def)
qed

end
