(* ===== verification/PoolServers.thy ===== *)
theory PoolServers
  imports Programs IoLoops
begin

text \<open>
  The HTTP program as it runs: the server's loop, which accepts, and the loops of its pool, each
  in a thread of its own. A step is one round of one loop, and the rounds of the loops may be
  interleaved in any way. The loops share the queues of functors, to which the rounds of the other
  threads append: the server's thread constructs connections and posts \<open>connectEstablished\<close>
  (\<open>TcpServer::newConnection\<close>), a pool thread posts \<open>removeConnectionInLoop\<close> (\<open>TcpServer::removeConnection\<close>).
  What a round posts is appended at its end; the loop it is posted to sees it in its next round.

  Everything else of a connection belongs to the thread of its loop. \<open>removeConnectionInLoop\<close> queues
  \<open>connectDestroyed\<close> on the server's loop, where it changes the poller of the other loop while that
  loop's thread works with it: a data race, which is undefined behaviour. The objects of the pool's
  loops are not in the heap of the server's loop, so the model has this result.
\<close>

section \<open>State and steps\<close>

record pool_world =
  pw_base :: server_world
  pw_io :: "nat \<Rightarrow> io_world"

datatype base_event = BAccept | BWake

datatype pool_event = PBase base_event timestamp | PIo nat io_event timestamp

definition base_polled :: "server_world \<Rightarrow> base_event \<Rightarrow> poll_result" where
  "base_polled b e =
     (let a = (case e of BAccept \<Rightarrow> ac_channel (ts_acceptor (nw_rest b)) | BWake \<Rightarrow> el_wakeupChannel b)
      in PollEvents (report (case pl_heap (el_poller b) a of None \<Rightarrow> - 1 | Some ch \<Rightarrow> ch_fd ch) (pl_pollfds (el_poller b))))"

text \<open>The objects that \<open>newConnection\<close> constructs for other loops, and the functors it posts to them.\<close>

fun construct_all :: "new_object \<Rightarrow> (nat \<times> nat \<times> string \<times> int) list \<Rightarrow> (nat \<Rightarrow> io_world) \<Rightarrow> (nat \<Rightarrow> io_world)" where
  "construct_all ob [] io = io"
| "construct_all ob ((l, i, name, fd) # hs) io =
     construct_all ob hs (io(l := TcpConnection_ctor i (no_channel ob) (no_logHup ob) (no_tied ob) name fd
       (no_reads ob) (no_writes ob) (no_shutdown ob) (io l)))"

fun post_all :: "string \<Rightarrow> http_callback \<Rightarrow> int \<Rightarrow> (nat \<times> net_functor) list \<Rightarrow> (nat \<Rightarrow> io_world) \<Rightarrow> (nat \<Rightarrow> io_world) outcome" where
  "post_all stack cb tid [] io = Inr io"
| "post_all stack cb tid ((l, f) # ms) io =
     bind_out (runInLoop (run_conn (io_user stack cb tid) tid) tid f (io l)) (\<lambda>w. post_all stack cb tid ms (io(l := w)))"

definition base_step ::
  "string \<Rightarrow> http_callback \<Rightarrow> (int \<Rightarrow> new_object \<times> int) \<Rightarrow> base_event \<Rightarrow> timestamp \<Rightarrow> pool_world \<Rightarrow> pool_world outcome" where
  "base_step stack cb accepts e t w =
     (let s = nw_rest (pw_base w) in
      bind_out (server_round stack cb accepts (base_polled (pw_base w) e, t) (pw_base w)) (\<lambda>b.
      bind_out (post_all stack cb (el_threadId b) (drop (length (ts_mail s)) (ts_mail (nw_rest b)))
          (construct_all (fst (accepts (ts_nextConnId s))) (drop (length (ts_handed s)) (ts_handed (nw_rest b))) (pw_io w))) (\<lambda>io.
      Inr \<lparr>pw_base = b, pw_io = io\<rparr>)))"

fun remove_all :: "int \<Rightarrow> nat list \<Rightarrow> server_world \<Rightarrow> server_world outcome" where
  "remove_all tid [] b = Inr b"
| "remove_all tid (i # ids) b = bind_out (removeConnection tid i b) (remove_all tid ids)"

definition pool_io_step :: "string \<Rightarrow> http_callback \<Rightarrow> nat \<Rightarrow> io_event \<Rightarrow> timestamp \<Rightarrow> pool_world \<Rightarrow> pool_world outcome" where
  "pool_io_step stack cb l e t w =
     bind_out (io_round stack cb e t (pw_io w l)) (\<lambda>v.
     bind_out (remove_all (el_threadId v) (nw_rest v) (pw_base w)) (\<lambda>b.
     Inr \<lparr>pw_base = b, pw_io = (pw_io w)(l := v\<lparr>nw_rest := []\<rparr>)\<rparr>))"

definition pool_step ::
  "string \<Rightarrow> http_callback \<Rightarrow> (int \<Rightarrow> new_object \<times> int) \<Rightarrow> pool_world \<Rightarrow> pool_event \<Rightarrow> pool_world outcome" where
  "pool_step stack cb accepts w ev =
     (case ev of PBase e t \<Rightarrow> base_step stack cb accepts e t w | PIo l e t \<Rightarrow> pool_io_step stack cb l e t w)"

section \<open>The view of the clients\<close>

text \<open>
  The number of the next connection, the connections that the server knows, and for every loop its
  connections with what they were sent.
\<close>

type_synonym pool_view = "int \<times> nat set \<times> (nat \<Rightarrow> nat \<rightharpoonup> io_phase \<times> string)"

definition known :: "server_world \<Rightarrow> nat set" where
  "known b = snd ` set (ts_connections (nw_rest b))"

definition gone :: "(nat \<Rightarrow> nat \<rightharpoonup> io_phase \<times> string) \<Rightarrow> nat set" where
  "gone views = {i. \<exists>l s. views l i = Some (Gone, s)}"

definition pool_abs :: "nat list \<Rightarrow> pool_world \<Rightarrow> pool_view" where
  "pool_abs ls w = (ts_nextConnId (nw_rest (pw_base w)), known (pw_base w), \<lambda>l. if l \<in> set ls then io_abs (pw_io w l) else Map.empty)"

definition loop_of :: "nat list \<Rightarrow> int \<Rightarrow> nat" where
  "loop_of ls k = ls ! (nat (k - 1) mod length ls)"

definition pool_astep :: "string \<Rightarrow> nat list \<Rightarrow> (int \<Rightarrow> new_object \<times> int) \<Rightarrow> pool_view \<Rightarrow> pool_event \<Rightarrow> pool_view" where
  "pool_astep stack ls accepts a ev =
     (case a of (k, kn, views) \<Rightarrow>
        case ev of
          PBase BAccept t \<Rightarrow> (let i = no_conn (fst (accepts k)); l = loop_of ls k
            in (k + 1, insert i (kn - gone views), views(l := (views l)(i \<mapsto> (Handed, [])))))
        | PBase BWake t \<Rightarrow> (k, kn - gone views, views)
        | PIo l e t \<Rightarrow> (k, kn, views(l := io_step stack (views l) e)))"

text \<open>The contract of the kernel, the allocator and the clients.\<close>

definition pool_contract :: "string \<Rightarrow> nat list \<Rightarrow> (int \<Rightarrow> new_object \<times> int) \<Rightarrow> pool_world \<Rightarrow> pool_event \<Rightarrow> bool" where
  "pool_contract stack ls accepts w ev =
     (case ev of
        PBase BAccept t \<Rightarrow> (case accepts (ts_nextConnId (nw_rest (pw_base w))) of (ob, fd) \<Rightarrow>
          server_env (pw_base w) (SvAccept ob fd) \<and> 0 \<le> no_shutdown ob
          \<and> (\<forall>l \<in> set ls. nw_conns (pw_io w l) (no_conn ob) = None \<and> pl_heap (el_poller (pw_io w l)) (no_channel ob) = None
               \<and> (\<forall>a ch. pl_heap (el_poller (pw_io w l)) a = Some ch \<longrightarrow> ch_fd ch \<noteq> fd)))
      | PBase BWake t \<Rightarrow> True
      | PIo l e t \<Rightarrow> l \<in> set ls \<and> io_env stack (pw_io w l) e)"

text \<open>
  The server's loop must not run again once it has taken a connection out of its map: then
  \<open>connectDestroyed\<close> is in its queue.
\<close>

definition pool_env :: "string \<Rightarrow> nat list \<Rightarrow> (int \<Rightarrow> new_object \<times> int) \<Rightarrow> pool_world \<Rightarrow> pool_event \<Rightarrow> bool" where
  "pool_env stack ls accepts w ev \<longleftrightarrow> length stack = 32 \<and> pool_contract stack ls accepts w ev
     \<and> (case ev of PBase e t \<Rightarrow> gone (snd (snd (pool_abs ls w))) \<subseteq> known (pw_base w) | PIo l e t \<Rightarrow> True)"

section \<open>The invariant\<close>

definition base_ok :: "nat list \<Rightarrow> server_world \<Rightarrow> bool" where
  "base_ok ls b \<longleftrightarrow> server_inv b \<and> nw_conns b = Map.empty \<and> \<not> el_quit b \<and> (\<exists>ch. listening b ch)
     \<and> (\<exists>ch. pl_heap (el_poller b) (el_wakeupChannel b) = Some ch \<and> registered (el_poller b) (el_wakeupChannel b) \<and> isReading ch
          \<and> ch_readCallback ch = Some LoopWakeup)
     \<and> ls \<noteq> [] \<and> tp_loops (ts_pool (nw_rest b)) = ls \<and> ts_loop (nw_rest b) \<notin> set ls
     \<and> nat (tp_next (ts_pool (nw_rest b))) mod length ls = nat (ts_nextConnId (nw_rest b) - 1) mod length ls"

text \<open>The queue of the server's loop: what is left of removed connections, then connections to remove.\<close>

definition base_queue :: "nat set \<Rightarrow> nat set \<Rightarrow> net_functor list \<Rightarrow> bool" where
  "base_queue kn gn fs \<longleftrightarrow> (\<exists>ds rs. fs = map ConnectDestroyed ds @ map RemoveConnectionInLoop rs \<and> distinct rs
     \<and> set rs = gn \<inter> kn \<and> set ds = gn - kn)"

definition pooled_inv :: "nat list \<Rightarrow> pool_world \<Rightarrow> bool" where
  "pooled_inv ls w \<longleftrightarrow> base_ok ls (pw_base w)
     \<and> (\<forall>l \<in> set ls. io_inv (pw_io w l) \<and> nw_rest (pw_io w l) = [] \<and> el_threadId (pw_io w l) \<noteq> el_threadId (pw_base w))
     \<and> (\<forall>l \<in> set ls. \<forall>l' \<in> set ls. \<forall>i. nw_conns (pw_io w l) i \<noteq> None \<longrightarrow> nw_conns (pw_io w l') i \<noteq> None \<longrightarrow> l = l')
     \<and> (\<forall>l \<in> set ls. \<forall>i ph s. io_abs (pw_io w l) i = Some (ph, s) \<longrightarrow> ph \<noteq> Gone \<longrightarrow> i \<in> known (pw_base w))
     \<and> base_queue (known (pw_base w)) (gone (snd (snd (pool_abs ls w)))) (el_pendingFunctors (pw_base w))"

section \<open>The server's loop\<close>

lemma base_ok_touch:
  assumes ok: "base_ok ls b" and ch: "pl_heap (el_poller b) a = Some ch" "same_channel ch d"
    and b': "poller_inv (el_poller b')" "pl_heap (el_poller b') = (pl_heap (el_poller b))(a \<mapsto> d)"
      "pl_channels (el_poller b') = pl_channels (el_poller b)" "nw_conns b' = nw_conns b" "el_quit b' = el_quit b"
      "el_wakeupChannel b' = el_wakeupChannel b" "nw_rest b' = nw_rest b"
  shows "base_ok ls b'"
proof -
  have car: "carries {} (el_poller b) (el_poller b')" using ch b'(2) by (intro carries_heap [OF b'(3)]) auto
  have "name_of_conn j b' = name_of_conn j b" for j unfolding name_of_conn_def b'(4,7) ..
  then have "server_inv b'" using server_inv_cong(1) [of b b'] ok b'(1,7) by (simp add: base_ok_def)
  moreover have "\<exists>d. listening b' d" using ok listening_carries [OF _ car] b'(7) by (auto simp: base_ok_def)
  moreover have "\<exists>e. pl_heap (el_poller b') (el_wakeupChannel b) = Some e \<and> registered (el_poller b') (el_wakeupChannel b) \<and> isReading e
      \<and> ch_readCallback e = Some LoopWakeup"
  proof -
    obtain h where h: "pl_heap (el_poller b) (el_wakeupChannel b) = Some h" "registered (el_poller b) (el_wakeupChannel b)" "isReading h"
        "ch_readCallback h = Some LoopWakeup"
      using ok unfolding base_ok_def by blast
    then obtain e where "registered (el_poller b') (el_wakeupChannel b)" "pl_heap (el_poller b') (el_wakeupChannel b) = Some e" "same_channel h e"
      using car unfolding carries_def by blast
    then show ?thesis using h(3,4) by (simp add: same_channel_def isReading_def)
  qed
  ultimately show ?thesis using ok b'(4-7) by (simp add: base_ok_def)
qed

text \<open>One round: its handler leaves the poller alone, and the functors follow.\<close>

lemma base_round_start:
  assumes ok: "base_ok ls b"
    and ch: "pl_heap (el_poller b) a = Some ch" "registered (el_poller b) a" "isReading ch" "ch_readCallback ch = Some f"
    and e: "base_polled b e = PollEvents (report (ch_fd ch) (pl_pollfds (el_poller b)))" and u: "tid = el_threadId b" "u = server_user stack cb tid"
  shows "\<exists>p. base_ok ls (handling a t p b) \<and> pl_channels p = pl_channels (el_poller b) \<and> dom (pl_heap p) = dom (pl_heap (el_poller b))
    \<and> (\<forall>b2. call_read_rounds u tid accepts f t (handling a t p b) = Inr b2 \<longrightarrow> el_poller b2 = p \<longrightarrow> base_ok ls b2 \<longrightarrow>
         (\<exists>b3. server_round stack cb accepts (base_polled b e, t) b = doPendingFunctors (run_server u tid 0) b3 \<and> base_ok ls b3
           \<and> nw_rest b3 = nw_rest b2 \<and> el_pendingFunctors b3 = el_pendingFunctors b2 \<and> el_threadId b3 = el_threadId b2))"
proof -
  have inv: "poller_inv (el_poller b)" using ok by (simp add: base_ok_def server_inv_def Let_def)
  let ?d = "ch\<lparr>ch_revents := POLLIN, ch_eventHandling := True\<rparr>"
  obtain p where p: "poller_inv p" "pl_channels p = pl_channels (el_poller b)" "pl_heap p = (pl_heap (el_poller b))(a \<mapsto> ?d)"
    and rnd: "\<And>w2 d. call_read_rounds u tid accepts f t (ServerRounds.handling a t p b) = Inr w2 \<Longrightarrow> pl_heap (el_poller w2) a = Some d \<Longrightarrow> ch_revents d = POLLIN \<Longrightarrow>
         loop_round (call_conn u tid) (call_read_rounds u tid accepts) (run_server u tid 0) (PollEvents (report (ch_fd ch) (pl_pollfds (el_poller b))), t) b
           = doPendingFunctors (run_server u tid 0) (handled a d w2)"
    using loop_round_readable [OF inv ch, of "call_read_rounds u tid accepts" t "call_conn u tid" "run_server u tid 0"] by blast
  have "base_ok ls (ServerRounds.handling a t p b)"
    by (rule base_ok_touch [OF ok ch(1), of ?d]) (use p in \<open>simp_all add: same_channel_def\<close>)
  moreover have "\<exists>b3. server_round stack cb accepts (base_polled b e, t) b = doPendingFunctors (run_server u tid 0) b3 \<and> base_ok ls b3
      \<and> nw_rest b3 = nw_rest b2 \<and> el_pendingFunctors b3 = el_pendingFunctors b2 \<and> el_threadId b3 = el_threadId b2"
    if b2: "call_read_rounds u tid accepts f t (ServerRounds.handling a t p b) = Inr b2" "el_poller b2 = p" "base_ok ls b2" for b2
  proof -
    have heap: "pl_heap (el_poller b2) a = Some ?d" using b2(2) p(3) by simp
    have "server_round stack cb accepts (base_polled b e, t) b = doPendingFunctors (run_server u tid 0) (handled a ?d b2)"
      using rnd [OF b2(1) heap] e u by (simp add: server_round_def Let_def)
    moreover have "poller_inv (el_poller (handled a ?d b2))"
      using inv_store_same [OF p(1), of a ?d "?d\<lparr>ch_eventHandling := False\<rparr>"] p(3) b2(2) by simp
    then have "base_ok ls (handled a ?d b2)"
      by (intro base_ok_touch [OF b2(3) heap, of "?d\<lparr>ch_eventHandling := False\<rparr>"]) (simp_all add: same_channel_def)
    ultimately show ?thesis by (intro exI [of _ "handled a ?d b2"]) simp
  qed
  ultimately show ?thesis using p(2,3) ch(1) by (intro exI [of _ p]) auto
qed

text \<open>Connections are taken out of the map, and the rest of their end is queued on this loop.\<close>

lemma remove_functors:
  assumes "server_inv b" and "distinct rs" and "set rs \<subseteq> known b"
  shows "\<exists>b'. run_functors (run_server u tid lr) (map RemoveConnectionInLoop rs) b = Inr b' \<and> server_inv b' \<and> known b' = known b - set rs
    \<and> nw_rest b' = (nw_rest b)\<lparr>ts_connections := ts_connections (nw_rest b')\<rparr> \<and> el_poller b' = el_poller b \<and> nw_conns b' = nw_conns b
    \<and> el_pendingFunctors b' = el_pendingFunctors b @ map ConnectDestroyed rs \<and> el_quit b' = el_quit b \<and> el_threadId b' = el_threadId b
    \<and> el_wakeupChannel b' = el_wakeupChannel b"
  using assms
proof (induction rs arbitrary: b)
  case (Cons i rs)
  then obtain nm where nm: "(nm, i) \<in> set (ts_connections (nw_rest b))" by (auto simp: known_def)
  let ?b = "queueInLoop tid (ConnectDestroyed i) (put_server ((nw_rest b)\<lparr>ts_connections := map_erase nm (ts_connections (nw_rest b))\<rparr>) b)"
  have run: "run_server u tid lr (RemoveConnectionInLoop i) b = Inr ?b"
    using removeConnectionInLoop_entry [OF Cons.prems(1) nm] by (simp add: run_server_def)
  have inv: "server_inv ?b" using server_erased [OF Cons.prems(1) nm, of ?b] by simp
  have kn: "known ?b = known b - {i}" using erase_entry [OF Cons.prems(1) nm] by (auto simp: known_def)
  have sub: "distinct rs" "set rs \<subseteq> known ?b" using Cons.prems(2,3) kn by auto
  have wake: "el_wakeupChannel ?b = el_wakeupChannel b"
    by (simp add: queueInLoop_def push_functor_def wakeup_def put_server_def Let_def)
  from Cons.IH [OF inv sub] obtain b' where b': "run_functors (run_server u tid lr) (map RemoveConnectionInLoop rs) ?b = Inr b'" "server_inv b'"
      "known b' = known ?b - set rs" "nw_rest b' = (nw_rest ?b)\<lparr>ts_connections := ts_connections (nw_rest b')\<rparr>" "el_poller b' = el_poller ?b"
      "nw_conns b' = nw_conns ?b" "el_pendingFunctors b' = el_pendingFunctors ?b @ map ConnectDestroyed rs" "el_quit b' = el_quit ?b"
      "el_threadId b' = el_threadId ?b" "el_wakeupChannel b' = el_wakeupChannel ?b"
    by blast
  then show ?case using run kn wake by (intro exI [of _ b']) auto
qed simp

lemma base_functors:
  assumes ok: "base_ok ls b" and rs: "el_pendingFunctors b = map RemoveConnectionInLoop rs" "distinct rs" "set rs \<subseteq> known b"
  shows "\<exists>b'. doPendingFunctors (run_server u tid lr) b = Inr b' \<and> base_ok ls b' \<and> known b' = known b - set rs
    \<and> nw_rest b' = (nw_rest b)\<lparr>ts_connections := ts_connections (nw_rest b')\<rparr>
    \<and> el_pendingFunctors b' = map ConnectDestroyed rs \<and> el_threadId b' = el_threadId b"
proof -
  let ?b = "b\<lparr>el_callingPendingFunctors := True, el_pendingFunctors := []\<rparr>"
  have same: "nw_rest ?b = nw_rest b" "nw_conns ?b = nw_conns b" by simp_all
  have "name_of_conn j ?b = name_of_conn j b" for j unfolding name_of_conn_def same ..
  moreover have "server_inv b" "poller_inv (el_poller b)" using ok by (simp_all add: base_ok_def server_inv_def Let_def)
  ultimately have inv: "server_inv ?b" using server_inv_cong(1) [of b ?b] by simp
  have kn: "known ?b = known b" by (simp add: known_def)
  obtain b1 where b1: "run_functors (run_server u tid lr) (map RemoveConnectionInLoop rs) ?b = Inr b1" "server_inv b1" "known b1 = known b - set rs"
      "nw_rest b1 = (nw_rest b)\<lparr>ts_connections := ts_connections (nw_rest b1)\<rparr>" "el_poller b1 = el_poller b"
      "nw_conns b1 = nw_conns b" "el_pendingFunctors b1 = map ConnectDestroyed rs" "el_quit b1 = el_quit b"
      "el_threadId b1 = el_threadId b" "el_wakeupChannel b1 = el_wakeupChannel b"
    using remove_functors [OF inv rs(2), of u tid lr] rs(3) kn by auto
  let ?b' = "b1\<lparr>el_callingPendingFunctors := False\<rparr>"
  have same': "nw_rest ?b' = nw_rest b1" "nw_conns ?b' = nw_conns b1" by simp_all
  have "name_of_conn j ?b' = name_of_conn j b1" for j unfolding name_of_conn_def same' ..
  moreover have "poller_inv (el_poller b1)" using b1(2) by (simp add: server_inv_def Let_def)
  ultimately have "server_inv ?b'" using server_inv_cong(1) [OF b1(2), of ?b'] by simp
  moreover have rest: "ts_acceptor (nw_rest b1) = ts_acceptor (nw_rest b)" "ts_pool (nw_rest b1) = ts_pool (nw_rest b)"
      "ts_nextConnId (nw_rest b1) = ts_nextConnId (nw_rest b)" "ts_loop (nw_rest b1) = ts_loop (nw_rest b)"
    by (subst b1(4), simp)+
  moreover have "listening ?b' = listening b" using rest(1) b1(5) by (simp add: listening_def fun_eq_iff)
  ultimately have "base_ok ls ?b'" using ok b1(5,6,8,10) by (simp add: base_ok_def)
  moreover have "doPendingFunctors (run_server u tid lr) b = Inr ?b'"
    using b1(1) rs(1) by (simp add: doPendingFunctors_def swap_functors_def)
  moreover have "known ?b' = known b - set rs" using b1(3) by (simp add: known_def)
  ultimately show ?thesis using b1(4,7,9) by (intro exI [of _ ?b']) simp
qed

lemma base_ok_cong:
  assumes "base_ok ls b" and "el_poller b' = el_poller b" and "nw_conns b' = nw_conns b" and "el_quit b' = el_quit b"
    and "el_wakeupChannel b' = el_wakeupChannel b" and "nw_rest b' = nw_rest b"
  shows "base_ok ls b'"
proof -
  obtain ch where "pl_heap (el_poller b) (el_wakeupChannel b) = Some ch" using assms(1) unfolding base_ok_def by blast
  moreover have "poller_inv (el_poller b)" using assms(1) by (simp add: base_ok_def server_inv_def Let_def)
  ultimately show ?thesis
    by (intro base_ok_touch [OF assms(1), of "el_wakeupChannel b" ch ch]) (use assms(2-6) in \<open>simp_all add: fun_upd_idem\<close>)
qed

text \<open>The hand-over: the object is the next loop's, and nothing else changes.\<close>

definition handed_server :: "tcp_server \<Rightarrow> thread_pool \<Rightarrow> nat \<Rightarrow> nat \<Rightarrow> int \<Rightarrow> tcp_server" where
  "handed_server s pool l i fd = (added s pool i)\<lparr>ts_handed := ts_handed s @ [(l, i, connName (ts_name s) (ts_nextConnId s), fd)],
     ts_mail := ts_mail s @ [(l, ConnectEstablished i)]\<rparr>"

lemma handled_over:
  assumes ok: "base_ok ls b" and env: "server_env b (SvAccept ob fd)" and tid: "tid = el_threadId b"
  shows "\<exists>pool. handleRead_Acceptor (server_user stack cb tid) tid ob fd 0 b
      = Inr (put_server (handed_server (nw_rest b) pool (loop_of ls (ts_nextConnId (nw_rest b))) (no_conn ob) fd) b)
    \<and> base_ok ls (put_server (handed_server (nw_rest b) pool (loop_of ls (ts_nextConnId (nw_rest b))) (no_conn ob) fd) b)
    \<and> known (put_server (handed_server (nw_rest b) pool (loop_of ls (ts_nextConnId (nw_rest b))) (no_conn ob) fd) b)
        = insert (no_conn ob) (known b)"
proof -
  let ?s = "nw_rest b" and ?i = "no_conn ob" and ?l = "loop_of ls (ts_nextConnId (nw_rest b))"
  have inv: "server_inv b" "ls \<noteq> []" "tp_loops (ts_pool ?s) = ls" "ts_loop ?s \<notin> set ls"
      "nat (tp_next (ts_pool ?s)) mod length ls = nat (ts_nextConnId ?s - 1) mod length ls"
    using ok by (simp_all add: base_ok_def)
  have sv: "ac_callback (ts_acceptor ?s)" "pool_inv (ts_pool ?s)" "1 \<le> ts_nextConnId ?s" using inv(1) by (simp_all add: server_inv_def Let_def)
  have e: "0 \<le> fd" "ts_nextConnId ?s < 2147483647" "?i \<notin> snd ` set (ts_connections ?s)" using env by (simp_all add: server_env_def Let_def)
  have "served (ts_pool ?s) = ls" using inv(2,3) by (simp add: served_def)
  then obtain pool where pool: "getNextLoop (ts_pool ?s) = Inr (?l, pool)" "tp_loops pool = ls"
      "nat (tp_next pool) mod length ls = Suc (nat (tp_next (ts_pool ?s))) mod length ls"
    using getNextLoop_ok [OF sv(2)] inv(3,5) by (auto simp: loop_of_def)
  have "?l \<in> set ls" using inv(2) by (simp add: loop_of_def)
  then have new: "newConnection (server_user stack cb tid) tid ob fd b = Inr (put_server (handed_server ?s pool ?l ?i fd) b)"
    using pool(1) inv(4) e(2) by (auto simp: newConnection_def handed_server_def added_def Let_def)
  let ?b = "put_server (handed_server ?s pool ?l ?i fd) b"
  have "server_inv ?b" using newConnection_ok [OF inv(1) env, of stack cb] new tid by simp
  moreover have "nat (tp_next pool) mod length ls = nat (ts_nextConnId ?s + 1 - 1) mod length ls"
  proof -
    have "Suc (nat (ts_nextConnId ?s - 1)) = nat (ts_nextConnId ?s + 1 - 1)" using sv(3) by simp
    then show ?thesis using pool(3) inv(5) by (metis mod_Suc_eq)
  qed
  moreover have "listening ?b = listening b" by (simp add: listening_def handed_server_def added_def fun_eq_iff)
  moreover have "el_wakeupChannel ?b = el_wakeupChannel b" by (simp add: put_server_def)
  ultimately have "base_ok ls ?b" using ok pool(2) by (simp add: base_ok_def handed_server_def added_def)
  moreover have "known ?b = insert ?i (known b)"
    using map_put_new(1) [OF connName_fresh [OF inv(1) e(2)], of ?i] by (simp add: known_def handed_server_def added_def)
  moreover have "handleRead_Acceptor (server_user stack cb tid) tid ob fd 0 b = Inr ?b"
    using new sv(1) e(1) by (simp add: handleRead_Acceptor_def accept_Socket_def sockets_accept_def)
  ultimately show ?thesis by blast
qed

text \<open>
  A round of the server's loop up to its functors: what it found to do is done and the queue is
  as it was.
\<close>

definition after_handler :: "nat list \<Rightarrow> (int \<Rightarrow> new_object \<times> int) \<Rightarrow> base_event \<Rightarrow> server_world \<Rightarrow> server_world \<Rightarrow> bool" where
  "after_handler ls accepts e b b3 \<longleftrightarrow> base_ok ls b3 \<and> el_pendingFunctors b3 = el_pendingFunctors b \<and> el_threadId b3 = el_threadId b
     \<and> (case e of
          BWake \<Rightarrow> nw_rest b3 = nw_rest b \<and> known b3 = known b
        | BAccept \<Rightarrow> (case accepts (ts_nextConnId (nw_rest b)) of (ob, fd) \<Rightarrow> known b3 = insert (no_conn ob) (known b)
            \<and> (\<exists>pool. nw_rest b3 = handed_server (nw_rest b) pool (loop_of ls (ts_nextConnId (nw_rest b))) (no_conn ob) fd)))"

definition accept_env :: "(int \<Rightarrow> new_object \<times> int) \<Rightarrow> base_event \<Rightarrow> server_world \<Rightarrow> bool" where
  "accept_env accepts e b = (case e of BWake \<Rightarrow> True
     | BAccept \<Rightarrow> (case accepts (ts_nextConnId (nw_rest b)) of (ob, fd) \<Rightarrow> server_env b (SvAccept ob fd)))"

lemma base_handler_wake:
  assumes ok: "base_ok ls b"
  shows "\<exists>b3. server_round stack cb accepts (base_polled b BWake, t) b
      = doPendingFunctors (run_server (server_user stack cb (el_threadId b)) (el_threadId b) 0) b3 \<and> after_handler ls accepts BWake b b3"
proof -
  let ?tid = "el_threadId b"
  let ?u = "server_user stack cb ?tid"
  let ?a = "el_wakeupChannel b"
  obtain ch where ch: "pl_heap (el_poller b) ?a = Some ch" "registered (el_poller b) ?a" "isReading ch" "ch_readCallback ch = Some LoopWakeup"
    using ok unfolding base_ok_def by blast
  have polled: "base_polled b BWake = PollEvents (report (ch_fd ch) (pl_pollfds (el_poller b)))" using ch(1) by (simp add: base_polled_def)
  obtain p where p: "base_ok ls (handling ?a t p b)"
    and rnd: "\<And>b2. call_read_rounds ?u ?tid accepts LoopWakeup t (handling ?a t p b) = Inr b2 \<Longrightarrow> el_poller b2 = p \<Longrightarrow> base_ok ls b2 \<Longrightarrow>
       \<exists>b3. server_round stack cb accepts (base_polled b BWake, t) b = doPendingFunctors (run_server ?u ?tid 0) b3 \<and> base_ok ls b3
         \<and> nw_rest b3 = nw_rest b2 \<and> el_pendingFunctors b3 = el_pendingFunctors b2 \<and> el_threadId b3 = el_threadId b2"
    using base_round_start [OF ok ch polled refl refl, where t = t and accepts = accepts and stack = stack and cb = cb] by blast
  let ?b2 = "handleRead_loop (handling ?a t p b)"
  have b2: "nw_rest ?b2 = nw_rest b" "el_pendingFunctors ?b2 = el_pendingFunctors b" "el_threadId ?b2 = ?tid" "el_poller ?b2 = p"
    by (simp_all add: handleRead_loop_def)
  have "call_read_rounds ?u ?tid accepts LoopWakeup t (handling ?a t p b) = Inr ?b2"
    by (simp add: call_read_rounds_def call_read_server_def call_read_conn_def split: prod.split)
  moreover have "base_ok ls ?b2" by (rule base_ok_cong [OF p]) (simp_all add: handleRead_loop_def)
  ultimately obtain b3 where b3: "server_round stack cb accepts (base_polled b BWake, t) b = doPendingFunctors (run_server ?u ?tid 0) b3"
      "base_ok ls b3" "nw_rest b3 = nw_rest b" "el_pendingFunctors b3 = el_pendingFunctors b" "el_threadId b3 = ?tid"
    using rnd [of ?b2] unfolding b2 by blast
  then show ?thesis by (intro exI [of _ b3]) (simp add: after_handler_def known_def)
qed

lemma base_handler_accept:
  assumes ok: "base_ok ls b" and env: "accept_env accepts BAccept b"
  shows "\<exists>b3. server_round stack cb accepts (base_polled b BAccept, t) b
      = doPendingFunctors (run_server (server_user stack cb (el_threadId b)) (el_threadId b) 0) b3 \<and> after_handler ls accepts BAccept b b3"
proof -
  let ?tid = "el_threadId b"
  let ?u = "server_user stack cb ?tid"
  let ?a = "ac_channel (ts_acceptor (nw_rest b))"
  obtain ob fd where acc: "accepts (ts_nextConnId (nw_rest b)) = (ob, fd)" by (cases "accepts (ts_nextConnId (nw_rest b))")
  have sv: "server_env b (SvAccept ob fd)" using env acc by (simp add: accept_env_def)
  obtain ch where ch: "pl_heap (el_poller b) ?a = Some ch" "registered (el_poller b) ?a" "isReading ch" "ch_readCallback ch = Some AcceptRead"
    using ok unfolding base_ok_def listening_def by blast
  have polled: "base_polled b BAccept = PollEvents (report (ch_fd ch) (pl_pollfds (el_poller b)))" using ch(1) by (simp add: base_polled_def)
  obtain p where p: "base_ok ls (handling ?a t p b)" "pl_channels p = pl_channels (el_poller b)" "dom (pl_heap p) = dom (pl_heap (el_poller b))"
    and rnd: "\<And>b2. call_read_rounds ?u ?tid accepts AcceptRead t (handling ?a t p b) = Inr b2 \<Longrightarrow> el_poller b2 = p \<Longrightarrow> base_ok ls b2 \<Longrightarrow>
       \<exists>b3. server_round stack cb accepts (base_polled b BAccept, t) b = doPendingFunctors (run_server ?u ?tid 0) b3 \<and> base_ok ls b3
         \<and> nw_rest b3 = nw_rest b2 \<and> el_pendingFunctors b3 = el_pendingFunctors b2 \<and> el_threadId b3 = el_threadId b2"
    using base_round_start [OF ok ch polled refl refl, where t = t and accepts = accepts and stack = stack and cb = cb] by blast
  let ?b1 = "handling ?a t p b"
  have "pl_heap p (no_channel ob) = None" using p(3) sv by (simp add: server_env_def Let_def) (metis domIff)
  then have sv1: "server_env ?b1 (SvAccept ob fd)" using sv p(2) by (simp add: server_env_def Let_def)
  obtain pool where pool: "handleRead_Acceptor ?u ?tid ob fd 0 ?b1
        = Inr (put_server (handed_server (nw_rest b) pool (loop_of ls (ts_nextConnId (nw_rest b))) (no_conn ob) fd) ?b1)"
      "base_ok ls (put_server (handed_server (nw_rest b) pool (loop_of ls (ts_nextConnId (nw_rest b))) (no_conn ob) fd) ?b1)"
      "known (put_server (handed_server (nw_rest b) pool (loop_of ls (ts_nextConnId (nw_rest b))) (no_conn ob) fd) ?b1) = insert (no_conn ob) (known ?b1)"
    using handled_over [OF p(1) sv1, of ?tid stack cb] by auto
  let ?b2 = "put_server (handed_server (nw_rest b) pool (loop_of ls (ts_nextConnId (nw_rest b))) (no_conn ob) fd) ?b1"
  have "call_read_rounds ?u ?tid accepts AcceptRead t ?b1 = Inr ?b2"
    using pool(1) acc by (simp add: call_read_rounds_def call_read_server_def)
  from rnd [OF this _ pool(2)] obtain b3 where b3: "server_round stack cb accepts (base_polled b BAccept, t) b = doPendingFunctors (run_server ?u ?tid 0) b3"
      "base_ok ls b3" "nw_rest b3 = nw_rest ?b2" "el_pendingFunctors b3 = el_pendingFunctors b" "el_threadId b3 = ?tid"
    by auto
  have "known b3 = insert (no_conn ob) (known b)" using pool(3) b3(3) by (simp add: known_def)
  then show ?thesis using b3 acc by (intro exI [of _ b3]) (auto simp: after_handler_def)
qed

lemma base_round_handler:
  assumes "base_ok ls b" and "accept_env accepts e b"
  shows "\<exists>b3. server_round stack cb accepts (base_polled b e, t) b
      = doPendingFunctors (run_server (server_user stack cb (el_threadId b)) (el_threadId b) 0) b3 \<and> after_handler ls accepts e b b3"
  using assms base_handler_wake base_handler_accept by (cases e) blast+

text \<open>The first \<open>connectDestroyed\<close> in the queue is the end of defined behaviour.\<close>

lemma destroy_races:
  assumes "base_ok ls b" and "accept_env accepts e b" and "el_pendingFunctors b = map ConnectDestroyed (d # ds) @ fs"
  shows "server_round stack cb accepts (base_polled b e, t) b = Inl UndefinedBehaviour"
proof -
  obtain b3 where b3: "server_round stack cb accepts (base_polled b e, t) b
      = doPendingFunctors (run_server (server_user stack cb (el_threadId b)) (el_threadId b) 0) b3" "after_handler ls accepts e b b3"
    using base_round_handler [OF assms(1,2)] by blast
  then have "nw_conns b3 = Map.empty" "el_pendingFunctors b3 = map ConnectDestroyed (d # ds) @ fs"
    using assms(3) by (simp_all add: after_handler_def base_ok_def)
  then show ?thesis
    unfolding b3(1) by (simp add: doPendingFunctors_def swap_functors_def run_server_def run_conn_def connectDestroyed_def with_conn_def)
qed

section \<open>Steps of the server's loop\<close>

lemma base_round_ok:
  assumes ok: "base_ok ls b" and env: "accept_env accepts e b"
    and rs: "el_pendingFunctors b = map RemoveConnectionInLoop rs" "distinct rs" "set rs \<subseteq> known b"
  shows "\<exists>b'. server_round stack cb accepts (base_polled b e, t) b = Inr b' \<and> base_ok ls b' \<and> el_pendingFunctors b' = map ConnectDestroyed rs
    \<and> el_threadId b' = el_threadId b
    \<and> (case e of
         BWake \<Rightarrow> known b' = known b - set rs \<and> nw_rest b' = (nw_rest b)\<lparr>ts_connections := ts_connections (nw_rest b')\<rparr>
       | BAccept \<Rightarrow> (case accepts (ts_nextConnId (nw_rest b)) of (ob, fd) \<Rightarrow> known b' = insert (no_conn ob) (known b) - set rs
           \<and> (\<exists>pool. nw_rest b' = (handed_server (nw_rest b) pool (loop_of ls (ts_nextConnId (nw_rest b))) (no_conn ob) fd)
                \<lparr>ts_connections := ts_connections (nw_rest b')\<rparr>)))"
proof -
  let ?u = "server_user stack cb (el_threadId b)"
  obtain b3 where b3: "server_round stack cb accepts (base_polled b e, t) b = doPendingFunctors (run_server ?u (el_threadId b) 0) b3"
      "after_handler ls accepts e b b3"
    using base_round_handler [OF ok env] by blast
  have h: "base_ok ls b3" "el_pendingFunctors b3 = map RemoveConnectionInLoop rs" "el_threadId b3 = el_threadId b"
    using b3(2) rs(1) by (simp_all add: after_handler_def)
  have sub: "set rs \<subseteq> known b3" using b3(2) rs(3) by (auto simp: after_handler_def split: base_event.splits prod.splits)
  obtain b' where b': "doPendingFunctors (run_server ?u (el_threadId b) 0) b3 = Inr b'" "base_ok ls b'" "known b' = known b3 - set rs"
      "nw_rest b' = (nw_rest b3)\<lparr>ts_connections := ts_connections (nw_rest b')\<rparr>" "el_pendingFunctors b' = map ConnectDestroyed rs"
      "el_threadId b' = el_threadId b3"
    using base_functors [OF h(1,2) rs(2) sub] by blast
  show ?thesis
  proof (cases e)
    case BWake
    then have "nw_rest b3 = nw_rest b" "known b3 = known b" using b3(2) by (simp_all add: after_handler_def)
    then show ?thesis using b3(1) b' h(3) BWake by (intro exI [of _ b']) simp
  next
    case BAccept
    obtain ob fd where acc: "accepts (ts_nextConnId (nw_rest b)) = (ob, fd)" by (cases "accepts (ts_nextConnId (nw_rest b))")
    obtain pool where "known b3 = insert (no_conn ob) (known b)"
        "nw_rest b3 = handed_server (nw_rest b) pool (loop_of ls (ts_nextConnId (nw_rest b))) (no_conn ob) fd"
      using b3(2) acc BAccept by (auto simp: after_handler_def)
    then show ?thesis using b3(1) b' h(3) BAccept acc by (intro exI [of _ b']) auto
  qed
qed

lemma views_gone: "gone (snd (snd (pool_abs ls w))) = {i. \<exists>l \<in> set ls. \<exists>s. io_abs (pw_io w l) i = Some (Gone, s)}"
  by (auto simp: gone_def pool_abs_def)

text \<open>A connection that has not ended is known to the server.\<close>

lemma pooled_live:
  assumes inv: "pooled_inv ls w" and l: "l \<in> set ls" "io_abs (pw_io w l) i = Some (ph, s)" "ph \<noteq> Gone"
  shows "i \<in> known (pw_base w)" and "i \<notin> gone (snd (snd (pool_abs ls w)))"
proof -
  show "i \<in> known (pw_base w)" using inv l unfolding pooled_inv_def by blast
  show "i \<notin> gone (snd (snd (pool_abs ls w)))"
  proof
    assume "i \<in> gone (snd (snd (pool_abs ls w)))"
    then obtain l' s' where l': "l' \<in> set ls" "io_abs (pw_io w l') i = Some (Gone, s')" unfolding views_gone by blast
    then have "l' = l" using inv l(1,2) unfolding pooled_inv_def io_abs_def by (metis option.simps(3) option.map_disc_iff)
    then show False using l' l by simp
  qed
qed

lemma pool_queue:
  assumes "pooled_inv ls w" and "gone (snd (snd (pool_abs ls w))) \<subseteq> known (pw_base w)"
  shows "\<exists>rs. el_pendingFunctors (pw_base w) = map RemoveConnectionInLoop rs \<and> distinct rs \<and> set rs = gone (snd (snd (pool_abs ls w)))"
proof -
  let ?gn = "gone (snd (snd (pool_abs ls w)))"
  obtain ds rs where q: "el_pendingFunctors (pw_base w) = map ConnectDestroyed ds @ map RemoveConnectionInLoop rs" "distinct rs"
      "set rs = ?gn \<inter> known (pw_base w)" "set ds = ?gn - known (pw_base w)"
    using assms(1) unfolding pooled_inv_def base_queue_def by blast
  have "set ds = {}" unfolding q(4) using assms(2) by blast
  then have "ds = []" by simp
  then show ?thesis using assms(2) q(1-3) by (intro exI [of _ rs]) auto
qed

lemma base_wake_step:
  assumes inv: "pooled_inv ls w" and safe: "gone (snd (snd (pool_abs ls w))) \<subseteq> known (pw_base w)"
  shows "\<exists>w'. base_step stack cb accepts BWake t w = Inr w' \<and> pooled_inv ls w'
    \<and> pool_abs ls w' = pool_astep stack ls accepts (pool_abs ls w) (PBase BWake t) \<and> pw_io w' = pw_io w"
proof -
  let ?b = "pw_base w" and ?gn = "gone (snd (snd (pool_abs ls w)))"
  have ok: "base_ok ls ?b" using inv by (simp add: pooled_inv_def)
  obtain rs where rs: "el_pendingFunctors ?b = map RemoveConnectionInLoop rs" "distinct rs" "set rs = ?gn" using pool_queue [OF inv safe] by blast
  have env: "accept_env accepts BWake ?b" by (simp add: accept_env_def)
  obtain b' where b': "server_round stack cb accepts (base_polled ?b BWake, t) ?b = Inr b'" "base_ok ls b'" "el_pendingFunctors b' = map ConnectDestroyed rs"
      "el_threadId b' = el_threadId ?b" "known b' = known ?b - ?gn" "nw_rest b' = (nw_rest ?b)\<lparr>ts_connections := ts_connections (nw_rest b')\<rparr>"
    using base_round_ok [OF ok env rs(1,2), of stack cb t] rs(3) safe by auto
  have rest: "ts_mail (nw_rest b') = ts_mail (nw_rest ?b)" "ts_handed (nw_rest b') = ts_handed (nw_rest ?b)"
      "ts_nextConnId (nw_rest b') = ts_nextConnId (nw_rest ?b)"
    by (subst b'(6), simp)+
  let ?w = "\<lparr>pw_base = b', pw_io = pw_io w\<rparr>"
  have gn: "gone (snd (snd (pool_abs ls ?w))) = ?gn" by (simp add: views_gone)
  have "base_queue (known b') ?gn (el_pendingFunctors b')"
    unfolding base_queue_def b'(3,5) by (intro exI [of _ rs] exI [of _ "[]"]) (use rs(3) in auto)
  moreover have "i \<in> known b'" if "l \<in> set ls" "io_abs (pw_io w l) i = Some (ph, s)" "ph \<noteq> Gone" for l i ph s
    using pooled_live [OF inv that] b'(5) by simp
  ultimately have "pooled_inv ls ?w" using inv b'(2,4) gn unfolding pooled_inv_def by simp
  moreover have "pool_abs ls ?w = pool_astep stack ls accepts (pool_abs ls w) (PBase BWake t)"
    using b'(5) rest(3) by (simp add: pool_abs_def pool_astep_def cong: if_cong)
  moreover have "base_step stack cb accepts BWake t w = Inr ?w"
    using b'(1) rest(1,2) by (simp add: base_step_def Let_def)
  ultimately show ?thesis by (intro exI [of _ ?w]) simp
qed

lemma loop_of_in: "ls \<noteq> [] \<Longrightarrow> loop_of ls k \<in> set ls"
  by (simp add: loop_of_def)

text \<open>The invariant after a connection was handed to the loop \<open>l\<close>, which is then in the state \<open>v\<close>.\<close>

lemma pooled_handed:
  assumes inv: "pooled_inv ls w" and l: "l \<in> set ls" and fresh: "\<And>m. m \<in> set ls \<Longrightarrow> nw_conns (pw_io w m) i = None"
    and v: "io_inv v" "nw_conns v = (nw_conns (pw_io w l))(i \<mapsto> c)" "io_abs v = (io_abs (pw_io w l))(i \<mapsto> (Handed, []))" "nw_rest v = []"
      "el_threadId v = el_threadId (pw_io w l)"
    and b': "base_ok ls b'" "el_threadId b' = el_threadId (pw_base w)" "known b' = insert i (known (pw_base w)) - gone (snd (snd (pool_abs ls w)))"
      "el_pendingFunctors b' = map ConnectDestroyed rs" "set rs = gone (snd (snd (pool_abs ls w)))"
    and w': "w' = \<lparr>pw_base = b', pw_io = (pw_io w)(l := v)\<rparr>"
  shows "pooled_inv ls w'" and "i \<notin> gone (snd (snd (pool_abs ls w)))"
    and "snd (snd (pool_abs ls w')) = (snd (snd (pool_abs ls w)))(l := (snd (snd (pool_abs ls w)) l)(i \<mapsto> (Handed, [])))"
proof -
  let ?gn = "gone (snd (snd (pool_abs ls w)))" and ?io = "(pw_io w)(l := v)"
  show notin: "i \<notin> ?gn" unfolding views_gone using fresh by (auto simp: io_abs_def)
  show "snd (snd (pool_abs ls w')) = (snd (snd (pool_abs ls w)))(l := (snd (snd (pool_abs ls w)) l)(i \<mapsto> (Handed, [])))"
    using l v(3) w' by (simp add: pool_abs_def fun_eq_iff)
  have "io_abs (pw_io w l) i = None" using fresh [OF l] by (simp add: io_abs_def)
  then have "(\<exists>s. io_abs (?io m) j = Some (Gone, s)) \<longleftrightarrow> (\<exists>s. io_abs (pw_io w m) j = Some (Gone, s))" for m j using v(3) by auto
  then have gn: "gone (snd (snd (pool_abs ls w'))) = ?gn" unfolding views_gone w' by simp
  have "base_queue (known b') ?gn (el_pendingFunctors b')"
    unfolding base_queue_def b'(3,4) by (intro exI [of _ rs] exI [of _ "[]"]) (use b'(5) notin in auto)
  moreover have "j \<in> known b'" if m: "m \<in> set ls" "io_abs (?io m) j = Some (ph, s)" "ph \<noteq> Gone" for m j ph s
  proof (cases "j = i")
    case True
    then show ?thesis using b'(3) notin by simp
  next
    case False
    then have "io_abs (pw_io w m) j = Some (ph, s)" using m(2) v(3) by (simp split: if_splits)
    then show ?thesis using pooled_live [OF inv m(1) _ m(3)] b'(3) by simp
  qed
  moreover have "m = m'" if m: "m \<in> set ls" "m' \<in> set ls" "nw_conns (?io m) j \<noteq> None" "nw_conns (?io m') j \<noteq> None" for m m' j
  proof (cases "j = i")
    case True
    then show ?thesis using m fresh by (auto split: if_splits)
  next
    case False
    then have "nw_conns (pw_io w m) j \<noteq> None" "nw_conns (pw_io w m') j \<noteq> None" using m(3,4) v(2) by (auto split: if_splits)
    then show ?thesis using inv m(1,2) unfolding pooled_inv_def by blast
  qed
  moreover have "io_inv (?io m) \<and> nw_rest (?io m) = [] \<and> el_threadId (?io m) \<noteq> el_threadId b'" if "m \<in> set ls" for m
    using inv that v(1,4,5) b'(2) l unfolding pooled_inv_def by auto
  ultimately show "pooled_inv ls w'" using b'(1) gn unfolding pooled_inv_def w' by simp
qed

lemma base_accept_step:
  assumes inv: "pooled_inv ls w" and safe: "gone (snd (snd (pool_abs ls w))) \<subseteq> known (pw_base w)"
    and con: "pool_contract stack ls accepts w (PBase BAccept t)" and acc: "accepts (ts_nextConnId (nw_rest (pw_base w))) = (ob, fd)"
  shows "\<exists>w'. base_step stack cb accepts BAccept t w = Inr w' \<and> pooled_inv ls w'
    \<and> pool_abs ls w' = pool_astep stack ls accepts (pool_abs ls w) (PBase BAccept t)
    \<and> (\<exists>nm. nw_conns (pw_io w' (loop_of ls (ts_nextConnId (nw_rest (pw_base w))))) (no_conn ob)
        = Some ((established_conn nm (no_channel ob) (no_reads ob) (no_writes ob) (no_shutdown ob))\<lparr>tc_state := kConnecting\<rparr>))"
proof -
  let ?b = "pw_base w" and ?gn = "gone (snd (snd (pool_abs ls w)))" and ?i = "no_conn ob"
  let ?s = "nw_rest (pw_base w)" and ?l = "loop_of ls (ts_nextConnId (nw_rest (pw_base w)))"
  have ok: "base_ok ls ?b" using inv by (simp add: pooled_inv_def)
  then have l: "?l \<in> set ls" by (intro loop_of_in) (simp add: base_ok_def)
  have c: "server_env ?b (SvAccept ob fd)" "0 \<le> no_shutdown ob"
    and fresh: "\<And>l. l \<in> set ls \<Longrightarrow> nw_conns (pw_io w l) ?i = None \<and> pl_heap (el_poller (pw_io w l)) (no_channel ob) = None
        \<and> (\<forall>a ch. pl_heap (el_poller (pw_io w l)) a = Some ch \<longrightarrow> ch_fd ch \<noteq> fd)"
    using con acc by (auto simp: pool_contract_def)
  obtain rs where rs: "el_pendingFunctors ?b = map RemoveConnectionInLoop rs" "distinct rs" "set rs = ?gn" using pool_queue [OF inv safe] by blast
  have env: "accept_env accepts BAccept ?b" using c(1) acc by (simp add: accept_env_def)
  obtain b' pool where b': "server_round stack cb accepts (base_polled ?b BAccept, t) ?b = Inr b'" "base_ok ls b'"
      "el_pendingFunctors b' = map ConnectDestroyed rs" "el_threadId b' = el_threadId ?b" "known b' = insert ?i (known ?b) - ?gn"
      "nw_rest b' = (handed_server ?s pool ?l ?i fd)\<lparr>ts_connections := ts_connections (nw_rest b')\<rparr>"
    using base_round_ok [OF ok env rs(1,2), of stack cb t] rs(3) safe acc by auto
  let ?nm = "connName (ts_name ?s) (ts_nextConnId ?s)"
  have rest: "drop (length (ts_mail ?s)) (ts_mail (nw_rest b')) = [(?l, ConnectEstablished ?i)]"
      "drop (length (ts_handed ?s)) (ts_handed (nw_rest b')) = [(?l, ?i, ?nm, fd)]" "ts_nextConnId (nw_rest b') = ts_nextConnId ?s + 1"
    by (subst b'(6), simp add: handed_server_def added_def)+
  have io: "io_inv (pw_io w ?l)" "el_threadId ?b \<noteq> el_threadId (pw_io w ?l)" "nw_rest (pw_io w ?l) = []"
    using inv l unfolding pooled_inv_def by metis+
  have "0 \<le> fd" using c(1) by (simp add: server_env_def Let_def)
  then obtain v where v: "runInLoop (run_conn (io_user stack cb (el_threadId ?b)) (el_threadId ?b)) (el_threadId ?b) (ConnectEstablished ?i)
        (TcpConnection_ctor ?i (no_channel ob) (no_logHup ob) (no_tied ob) ?nm fd (no_reads ob) (no_writes ob) (no_shutdown ob) (pw_io w ?l)) = Inr v"
      "io_inv v" "nw_conns v = (nw_conns (pw_io w ?l))(?i \<mapsto> (established_conn ?nm (no_channel ob) (no_reads ob) (no_writes ob) (no_shutdown ob))
          \<lparr>tc_state := kConnecting\<rparr>)"
      "io_abs v = (io_abs (pw_io w ?l))(?i \<mapsto> (Handed, []))" "nw_rest v = nw_rest (pw_io w ?l)" "el_threadId v = el_threadId (pw_io w ?l)"
    using io_handed [OF io(1), of ?i "no_channel ob" fd "no_shutdown ob" "el_threadId ?b"] fresh [OF l] c(2) io(2) by blast
  let ?io = "(pw_io w)(?l := v)"
  let ?w = "\<lparr>pw_base = b', pw_io = ?io\<rparr>"
  have step: "base_step stack cb accepts BAccept t w = Inr ?w"
    using b'(1,4) rest(1,2) v(1) acc by (simp add: base_step_def Let_def)
  have v5: "nw_rest v = []" using v(5) io(3) by simp
  have free: "\<And>m. m \<in> set ls \<Longrightarrow> nw_conns (pw_io w m) ?i = None" using fresh by blast
  note handed = pooled_handed [OF inv l free v(2-4) v5 v(6) b'(2,4,5,3) rs(3) refl]
  have "pool_abs ls ?w = pool_astep stack ls accepts (pool_abs ls w) (PBase BAccept t)"
  proof -
    define V where "V = snd (snd (pool_abs ls w))"
    have "insert ?i (known ?b) - ?gn = insert ?i (known ?b - ?gn)" using handed(2) by blast
    then have "known b' = insert ?i (known ?b - gone V)" using b'(5) by (simp only: V_def)
    moreover have "pool_abs ls ?w = (ts_nextConnId ?s + 1, known b', snd (snd (pool_abs ls ?w)))" using rest(3) by (simp add: pool_abs_def)
    then have "pool_abs ls ?w = (ts_nextConnId ?s + 1, known b', V(?l := (V ?l)(?i \<mapsto> (Handed, []))))"
      using handed(3) by (simp only: V_def)
    moreover have "pool_abs ls w = (ts_nextConnId ?s, known ?b, V)" by (simp add: pool_abs_def V_def)
    ultimately show ?thesis by (simp only: pool_astep_def prod.case pool_event.case base_event.case acc fst_conv Let_def)
  qed
  then show ?thesis using handed(1) step v(3) by (intro exI [of _ ?w]) auto
qed

section \<open>Steps of the pool's loops\<close>

lemma removeConnection_posts:
  assumes "tid \<noteq> el_threadId b"
  shows "removeConnection tid i b = Inr (queueInLoop tid (RemoveConnectionInLoop i) b)"
  using assms by (simp add: removeConnection_def runInLoop_def isInLoopThread_def)

lemma base_ok_queue: "base_ok ls b \<Longrightarrow> base_ok ls (queueInLoop tid f b)"
  by (erule base_ok_cong) (simp_all add: queueInLoop_def push_functor_def wakeup_def Let_def)

lemma base_queue_post:
  assumes "base_queue kn gn fs" and "i \<in> kn" and "i \<notin> gn"
  shows "base_queue kn (insert i gn) (fs @ [RemoveConnectionInLoop i])"
proof -
  obtain ds rs where q: "fs = map ConnectDestroyed ds @ map RemoveConnectionInLoop rs" "distinct rs" "set rs = gn \<inter> kn" "set ds = gn - kn"
    using assms(1) unfolding base_queue_def by blast
  have "set (rs @ [i]) = insert i gn \<inter> kn" "set ds = insert i gn - kn" using q(3,4) assms(2) by auto
  moreover have "distinct (rs @ [i])" using q(2,3) assms(3) by simp
  ultimately show ?thesis unfolding base_queue_def q(1) by (intro exI [of _ ds] exI [of _ "rs @ [i]"]) simp
qed

text \<open>The invariant after a round of the loop \<open>l\<close>, which leaves it in the state \<open>v\<close>.\<close>

lemma pooled_served:
  assumes inv: "pooled_inv ls w" and l: "l \<in> set ls" and env: "io_env stack (pw_io w l) e"
    and v: "io_inv v" "io_abs v = io_step stack (io_abs (pw_io w l)) e" "nw_rest v = []" "el_threadId v = el_threadId (pw_io w l)"
    and ends: "ends = (case e of IoEof i \<Rightarrow> [i] | _ \<Rightarrow> [])"
    and b': "base_ok ls b'" "known b' = known (pw_base w)" "el_threadId b' = el_threadId (pw_base w)"
      "el_pendingFunctors b' = el_pendingFunctors (pw_base w) @ map RemoveConnectionInLoop ends"
  shows "pooled_inv ls \<lparr>pw_base = b', pw_io = (pw_io w)(l := v)\<rparr>"
proof -
  let ?b = "pw_base w" and ?gn = "gone (snd (snd (pool_abs ls w)))" and ?io = "(pw_io w)(l := v)"
  let ?w = "\<lparr>pw_base = b', pw_io = ?io\<rparr>"
  have dom: "nw_conns (?io m) j = None \<longleftrightarrow> nw_conns (pw_io w m) j = None" for m j
    using io_step_dom [of stack "io_abs (pw_io w l)" e j] v(2) io_abs_None [of v j] io_abs_None [of "pw_io w l" j] by simp
  have phases: "(\<exists>s. io_abs (?io m) j = Some (Gone, s)) \<longleftrightarrow> (\<exists>s. io_abs (pw_io w m) j = Some (Gone, s)) \<or> m = l \<and> e = IoEof j" for m j
  proof (cases "m = l")
    case True
    have "e = IoEof j \<Longrightarrow> io_abs (pw_io w l) j \<noteq> None" using env by (auto simp: io_env_def io_abs_def split: option.splits)
    then show ?thesis using True io_step_gone [of stack "io_abs (pw_io w l)" e j] v(2) by auto
  qed simp
  have gn: "gone (snd (snd (pool_abs ls ?w))) = ?gn \<union> set ends"
    unfolding views_gone pool_world.select_convs phases ends using l by (auto split: io_event.splits)
  have kept: "i \<in> known b'" if m: "m \<in> set ls" "io_abs (?io m) i = Some (ph, s)" "ph \<noteq> Gone" for m i ph s
  proof -
    obtain ph' s' where old: "io_abs (pw_io w m) i = Some (ph', s')" using m(2) dom [of m i] by (auto simp: io_abs_def)
    then have "ph' \<noteq> Gone" using phases [of m i] m(2,3) by auto
    then show ?thesis using pooled_live(1) [OF inv m(1) old] b'(2) by simp
  qed
  have queue: "base_queue (known b') (?gn \<union> set ends) (el_pendingFunctors b')"
  proof (cases e)
    case (IoEof i)
    obtain s where s: "io_abs (pw_io w l) i = Some (Serving, s)" using env IoEof by (auto simp: io_env_def io_abs_def phase_of_def split: option.splits)
    have "base_queue (known ?b) ?gn (el_pendingFunctors ?b)" using inv by (simp add: pooled_inv_def)
    then show ?thesis using base_queue_post [OF _ pooled_live [OF inv l s]] b'(2,4) ends IoEof by simp
  qed (use inv b'(2,4) ends in \<open>simp_all add: pooled_inv_def\<close>)
  have sep: "m = m'" if "m \<in> set ls" "m' \<in> set ls" "nw_conns (?io m) j \<noteq> None" "nw_conns (?io m') j \<noteq> None" for m m' j
    using inv that unfolding dom pooled_inv_def by blast
  have "io_inv (?io m) \<and> nw_rest (?io m) = [] \<and> el_threadId (?io m) \<noteq> el_threadId b'" if "m \<in> set ls" for m
    using inv that l v(1,3,4) b'(3) unfolding pooled_inv_def by auto
  then show ?thesis using b'(1) gn kept queue sep unfolding pooled_inv_def by simp
qed

lemma pool_io_refines:
  assumes inv: "pooled_inv ls w" and l: "l \<in> set ls" and env: "io_env stack (pw_io w l) e" and stack: "length stack = 32"
  shows "\<exists>w' v. pool_io_step stack cb l e t w = Inr w' \<and> pooled_inv ls w'
    \<and> pool_abs ls w' = pool_astep stack ls accepts (pool_abs ls w) (PIo l e t)
    \<and> io_round stack cb e t (pw_io w l) = Inr v \<and> pw_io w' = (pw_io w)(l := v\<lparr>nw_rest := []\<rparr>)"
proof -
  let ?b = "pw_base w" and ?gn = "gone (snd (snd (pool_abs ls w)))"
  have io: "io_inv (pw_io w l)" "nw_rest (pw_io w l) = []" "el_threadId (pw_io w l) \<noteq> el_threadId ?b" and ok: "base_ok ls ?b"
    using inv l unfolding pooled_inv_def by metis+
  obtain v where v: "io_round stack cb e t (pw_io w l) = Inr v" "io_inv v" "io_abs v = io_step stack (io_abs (pw_io w l)) e"
      "nw_rest v = (case e of IoEof i \<Rightarrow> [i] | _ \<Rightarrow> [])" "el_threadId v = el_threadId (pw_io w l)"
    using io_round_refines [OF io(1) env stack, of cb t] io(2) by auto
  let ?v = "v\<lparr>nw_rest := []\<rparr>" and ?ends = "case e of IoEof i \<Rightarrow> [i] | _ \<Rightarrow> []"
  let ?io = "(pw_io w)(l := ?v)"
  have v': "io_inv ?v" "io_abs ?v = io_step stack (io_abs (pw_io w l)) e" "el_threadId ?v = el_threadId (pw_io w l)"
  proof -
    obtain ids where ids: "el_pendingFunctors v = map ConnectEstablished ids" "io_ok ids v" using v(2) by (auto simp: io_inv_def)
    have "io_ok ids ?v" by (rule io_ok_cong [OF ids(2)]) simp_all
    then show "io_inv ?v" using ids(1) by (auto simp: io_inv_def)
    show "io_abs ?v = io_step stack (io_abs (pw_io w l)) e" unfolding v(3) [symmetric] by (rule io_abs_cong) simp
  qed (simp add: v(5))
  let ?b' = "foldl (\<lambda>b i. queueInLoop (el_threadId v) (RemoveConnectionInLoop i) b) ?b ?ends"
  let ?w = "\<lparr>pw_base = ?b', pw_io = ?io\<rparr>"
  have b': "remove_all (el_threadId v) (nw_rest v) ?b = Inr ?b'" "base_ok ls ?b'" "known ?b' = known ?b" "el_threadId ?b' = el_threadId ?b"
      "el_pendingFunctors ?b' = el_pendingFunctors ?b @ map RemoveConnectionInLoop ?ends" "ts_nextConnId (nw_rest ?b') = ts_nextConnId (nw_rest ?b)"
    using io(3) ok v(4,5) by (cases e; simp add: removeConnection_posts base_ok_queue known_def)+
  have step: "pool_io_step stack cb l e t w = Inr ?w" using v(1) b'(1) by (simp add: pool_io_step_def)
  have v3: "nw_rest ?v = []" by simp
  have "pooled_inv ls ?w" by (rule pooled_served [OF inv l env v'(1,2) v3 v'(3) refl b'(2-5)])
  moreover have "pool_abs ls ?w = pool_astep stack ls accepts (pool_abs ls w) (PIo l e t)"
  proof -
    define V where "V = snd (snd (pool_abs ls w))"
    have "snd (snd (pool_abs ls ?w)) = V(l := io_step stack (V l) e)" using l v'(2) by (simp add: pool_abs_def V_def fun_eq_iff)
    then have "pool_abs ls ?w = (ts_nextConnId (nw_rest ?b), known ?b, V(l := io_step stack (V l) e))"
      using b'(3,6) by (simp add: pool_abs_def)
    moreover have "pool_abs ls w = (ts_nextConnId (nw_rest ?b), known ?b, V)" by (simp add: pool_abs_def V_def)
    ultimately show ?thesis by (simp only: pool_astep_def prod.case pool_event.case)
  qed
  ultimately show ?thesis using step v(1) by (intro exI [of _ ?w] exI [of _ v]) simp
qed

section \<open>The loops together\<close>

lemma pool_step_refines:
  assumes inv: "pooled_inv ls w" and env: "pool_env stack ls accepts w ev"
  shows "\<exists>w'. pool_step stack cb accepts w ev = Inr w' \<and> pooled_inv ls w' \<and> pool_abs ls w' = pool_astep stack ls accepts (pool_abs ls w) ev"
proof (cases ev)
  case (PBase e t)
  have safe: "gone (snd (snd (pool_abs ls w))) \<subseteq> known (pw_base w)" and con: "pool_contract stack ls accepts w (PBase e t)"
    using env PBase by (simp_all add: pool_env_def)
  show ?thesis
  proof (cases e)
    case BWake
    show ?thesis unfolding PBase BWake pool_step_def pool_event.case using base_wake_step [OF inv safe, of stack cb accepts t] by blast
  next
    case BAccept
    obtain ob fd where "accepts (ts_nextConnId (nw_rest (pw_base w))) = (ob, fd)" by (cases "accepts (ts_nextConnId (nw_rest (pw_base w)))")
    from base_accept_step [OF inv safe con [unfolded BAccept] this, of cb]
    show ?thesis unfolding PBase BAccept pool_step_def pool_event.case by blast
  qed
next
  case (PIo l e t)
  then have "l \<in> set ls" "io_env stack (pw_io w l) e" "length stack = 32" using env by (simp_all add: pool_env_def pool_contract_def)
  from pool_io_refines [OF inv this, of cb t accepts] show ?thesis unfolding PIo pool_step_def pool_event.case by blast
qed

interpretation pooled: refined_system "pool_step stack cb accepts" "pool_env stack ls accepts" "pooled_inv ls" "pool_abs ls" "pool_astep stack ls accepts"
  for stack cb accepts ls
proof
  fix w w' e
  assume "pooled_inv ls w" "pool_env stack ls accepts w e"
  note r = pool_step_refines [OF this, of cb]
  show "\<exists>w'. pool_step stack cb accepts w e = Inr w'" using r by blast
  show "pool_step stack cb accepts w e = Inr w' \<Longrightarrow> pooled_inv ls w'" using r by auto
  show "pool_step stack cb accepts w e = Inr w' \<Longrightarrow> pool_abs ls w' = pool_astep stack ls accepts (pool_abs ls w) e" using r by auto
qed

text \<open>A connection that left and is not in the map any more: the next round of the server's loop is the race.\<close>

lemma pool_races:
  assumes inv: "pooled_inv ls w" and con: "pool_contract stack ls accepts w (PBase e t)"
    and gone: "\<not> gone (snd (snd (pool_abs ls w))) \<subseteq> known (pw_base w)"
  shows "pool_step stack cb accepts w (PBase e t) = Inl UndefinedBehaviour"
proof -
  let ?gn = "gone (snd (snd (pool_abs ls w)))"
  obtain ds rs where q: "el_pendingFunctors (pw_base w) = map ConnectDestroyed ds @ map RemoveConnectionInLoop rs"
      "set ds = ?gn - known (pw_base w)"
    using inv unfolding pooled_inv_def base_queue_def by blast
  have "set ds \<noteq> {}" unfolding q(2) using gone by blast
  then obtain d ds' where ds: "ds = d # ds'" by (cases ds) auto
  have "base_ok ls (pw_base w)" using inv by (simp add: pooled_inv_def)
  moreover have "accept_env accepts e (pw_base w)"
    using con by (cases e) (auto simp: accept_env_def pool_contract_def split: prod.splits)
  ultimately have "server_round stack cb accepts (base_polled (pw_base w) e, t) (pw_base w) = Inl UndefinedBehaviour"
    using destroy_races q(1) unfolding ds by blast
  then show ?thesis by (simp add: pool_step_def base_step_def Let_def)
qed

section \<open>The program\<close>

text \<open>What the system gives a thread of the pool; \<open>EventLoopThread::threadFunc\<close> makes the loop and enters it.\<close>

record io_machine =
  im_tid :: int
  im_eventfd :: int
  im_channel :: nat
  im_logHup :: bool
  im_tied :: bool

definition new_io_loop :: "io_machine \<Rightarrow> io_world outcome" where
  "new_io_loop m =
     bind_out (EventLoop_ctor (im_tid m) (im_eventfd m) (im_channel m) (im_logHup m) (im_tied m) LoopWakeup Map.empty) (\<lambda>l.
     asserting (\<not> el_looping l)
       (Inr ((event_loop.extend l (net_world.fields Map.empty []))\<lparr>el_looping := True, el_quit := False\<rparr>)))"

fun start_loops :: "(nat \<Rightarrow> io_machine) \<Rightarrow> nat list \<Rightarrow> (nat \<Rightarrow> io_world) \<Rightarrow> (nat \<Rightarrow> io_world) outcome" where
  "start_loops ims [] io = Inr io"
| "start_loops ims (l # ls) io = bind_out (new_io_loop (ims l)) (\<lambda>w. start_loops ims ls (io(l := w)))"

definition pool_loops :: "machine \<Rightarrow> nat list" where
  "pool_loops m = map (mc_newLoop m) [0..<10]"

text \<open>The program up to the first round of its loop, with the threads of the pool in their loops.\<close>

definition pool_start :: "machine \<Rightarrow> (nat \<Rightarrow> io_machine) \<Rightarrow> (nat \<Rightarrow> io_world) \<Rightarrow> int \<Rightarrow> pool_world outcome" where
  "pool_start m ims memory port =
     bind_out (http_start m port) (\<lambda>b.
     bind_out (start_loops ims (pool_loops m) memory) (\<lambda>io.
     asserting (\<not> el_looping b) (Inr \<lparr>pw_base = b\<lparr>el_looping := True, el_quit := False\<rparr>, pw_io = io\<rparr>)))"

lemma new_io_loop_ok:
  assumes "0 \<le> im_eventfd m"
  shows "\<exists>w. new_io_loop m = Inr w \<and> io_inv w \<and> nw_conns w = Map.empty \<and> nw_rest w = [] \<and> el_threadId w = im_tid m
    \<and> (\<forall>a. a \<noteq> im_channel m \<longrightarrow> pl_heap (el_poller w) a = None)
    \<and> (\<forall>a ch. pl_heap (el_poller w) a = Some ch \<longrightarrow> ch_fd ch = im_eventfd m)"
proof -
  obtain l :: "(net_callback, net_functor) event_loop" and ch where
    l: "EventLoop_ctor (im_tid m) (im_eventfd m) (im_channel m) (im_logHup m) (im_tied m) LoopWakeup Map.empty = Inr l"
      "poller_inv (el_poller l)" "pl_channels (el_poller l) = [(im_eventfd m, im_channel m)]" "pl_heap (el_poller l) = [im_channel m \<mapsto> ch]"
      "ch_fd ch = im_eventfd m" "isReading ch" "ch_readCallback ch = Some LoopWakeup"
      "el_threadId l = im_tid m" "el_pendingFunctors l = []" "el_wakeupChannel l = im_channel m" "\<not> el_looping l"
    using EventLoop_ctor_ok [OF assms, where tid = "im_tid m" and a = "im_channel m" and lh = "im_logHup m" and tied = "im_tied m"
        and cb = LoopWakeup] by (elim exE conjE) (rule that)
  let ?w = "(event_loop.extend l (net_world.fields Map.empty []))\<lparr>el_looping := True, el_quit := False\<rparr> :: io_world"
  have w: "el_poller ?w = el_poller l" "nw_conns ?w = Map.empty" "nw_rest ?w = []" "\<not> el_quit ?w" "el_pendingFunctors ?w = []"
      "el_wakeupChannel ?w = im_channel m" "el_threadId ?w = im_tid m"
    using l(8-10) by (simp_all add: event_loop.extend_def net_world.fields_def)
  have "io_ok [] ?w" unfolding io_ok_def w using l(2-7) by (simp add: registered_def)
  then have "io_inv ?w" unfolding io_inv_def w by simp
  then show ?thesis using l(1,4,5,11) w by (intro exI [of _ ?w]) (simp add: new_io_loop_def asserting_def)
qed

lemma start_loops_ok:
  assumes "\<forall>l \<in> set ls. 0 \<le> im_eventfd (ims l)"
  shows "\<exists>io'. start_loops ims ls io = Inr io' \<and> (\<forall>l. if l \<in> set ls then new_io_loop (ims l) = Inr (io' l) else io' l = io l)"
  using assms
proof (induction ls arbitrary: io)
  case (Cons l ls)
  obtain w where w: "new_io_loop (ims l) = Inr w" using new_io_loop_ok [of "ims l"] Cons.prems by auto
  have "\<forall>l \<in> set ls. 0 \<le> im_eventfd (ims l)" using Cons.prems by simp
  from Cons.IH [OF this, of "io(l := w)"] obtain io' where
    io': "start_loops ims ls (io(l := w)) = Inr io'" "\<forall>m. if m \<in> set ls then new_io_loop (ims m) = Inr (io' m) else io' m = (io(l := w)) m"
    by (elim exE conjE) (rule that)
  have "if m \<in> set (l # ls) then new_io_loop (ims m) = Inr (io' m) else io' m = io m" for m
    using io'(2) [rule_format, of m] w by (auto split: if_splits)
  then show ?case using w io'(1) by (intro exI [of _ io']) simp
qed simp

lemma pool_start_base:
  assumes m: "machine_ok m"
  shows "\<exists>b. http_start m port = Inr b \<and> \<not> el_looping b \<and> el_threadId b = mc_tid m \<and> el_pendingFunctors b = [] \<and> known b = {}
    \<and> base_ok (pool_loops m) (b\<lparr>el_looping := True, el_quit := False\<rparr>) \<and> ts_nextConnId (nw_rest b) = 1 \<and> nw_rest b = server_at_start m
    \<and> dom (pl_heap (el_poller b)) = {mc_wakeChannel m, mc_acceptChannel m}
    \<and> fst ` set (pl_channels (el_poller b)) = {mc_eventfd m, mc_socket m} \<and> nw_conns b = Map.empty"
proof -
  obtain w wch p c where w: "http_start m port = Inr ((put_server (server_at_start m) w)\<lparr>el_poller := p\<rparr>)" "poller_inv p"
      "registered p (mc_acceptChannel m)" "pl_heap p = [mc_wakeChannel m \<mapsto> wch, mc_acceptChannel m \<mapsto> c]" "isReading c"
      "ch_readCallback c = Some AcceptRead"
      "pl_channels p = map_put (mc_socket m) (mc_acceptChannel m) [(mc_eventfd m, mc_wakeChannel m)]"
      "ch_fd wch = mc_eventfd m" "isReading wch" "ch_readCallback wch = Some LoopWakeup"
      "el_threadId w = mc_tid m" "el_pendingFunctors w = []" "\<not> el_looping w" "\<not> el_quit w"
      "el_wakeupChannel w = mc_wakeChannel m" "nw_conns w = Map.empty"
    using http_start_world [OF m, of port] by (elim exE conjE) (rule that)
  have ne: "mc_eventfd m \<noteq> mc_socket m" "mc_wakeChannel m \<noteq> mc_acceptChannel m" "\<And>i. mc_newLoop m i \<noteq> 0"
    using m by (simp_all add: machine_ok_def)
  let ?b = "(put_server (server_at_start m) w)\<lparr>el_poller := p\<rparr>"
  let ?b' = "?b\<lparr>el_looping := True, el_quit := False\<rparr>"
  have b': "?b' = (put_server (started_server 0 ''test'' (mc_started m) (mc_socket m) (mc_acceptChannel m) (mc_newLoop m) False 10)
      (w\<lparr>el_looping := True, el_quit := False\<rparr>))\<lparr>el_poller := p\<rparr>"
    by (simp add: put_server_def server_at_start_def)
  have server: "server_inv ?b'" by (rule started_inv(1) [OF w(2) _ b']) simp
  have s: "ts_connections (server_at_start m) = []" "ac_channel (ts_acceptor (server_at_start m)) = mc_acceptChannel m"
      "ts_nextConnId (server_at_start m) = 1" "ts_loop (server_at_start m) = 0" "tp_loops (ts_pool (server_at_start m)) = pool_loops m"
      "tp_next (ts_pool (server_at_start m)) = 0"
    by (simp_all add: server_at_start_def started_server_def new_server_def Let_def start_pool_def start_threads_loops pool_loops_def
        setThreadNum_pool_def EventLoopThreadPool_ctor_def)
  have "registered p (mc_wakeChannel m)" using w(4,7,8) ne(1,2) by (simp add: registered_def map_of_map_put)
  moreover have "\<forall>l \<in> set (pool_loops m). l \<noteq> 0" using ne(3) by (simp add: pool_loops_def)
  then have "0 \<notin> set (pool_loops m)" by blast
  moreover have "pool_loops m \<noteq> []" by (simp add: pool_loops_def)
  ultimately have "base_ok (pool_loops m) ?b'"
    using server w(3-6,9,10,15,16) ne(2) s by (simp add: base_ok_def listening_def put_server_def)
  moreover have "fst ` set (pl_channels p) = {mc_eventfd m, mc_socket m}" using w(7) ne(1) by auto
  ultimately show ?thesis using w(1,4,11-13,16) s by (intro exI [of _ ?b]) (auto simp: known_def put_server_def)
qed

text \<open>The threads of the pool are others than the server's.\<close>

definition machines_ok :: "machine \<Rightarrow> (nat \<Rightarrow> io_machine) \<Rightarrow> bool" where
  "machines_ok m ims \<longleftrightarrow> machine_ok m \<and> (\<forall>l \<in> set (pool_loops m). 0 \<le> im_eventfd (ims l) \<and> im_tid (ims l) \<noteq> mc_tid m)"

lemma pool_start_ok:
  assumes m: "machines_ok m ims"
  shows "\<exists>w b io. pool_start m ims memory port = Inr w \<and> pooled_inv (pool_loops m) w
    \<and> pool_abs (pool_loops m) w = (1, {}, \<lambda>_. Map.empty)
    \<and> http_start m port = Inr b \<and> w = \<lparr>pw_base = b\<lparr>el_looping := True, el_quit := False\<rparr>, pw_io = io\<rparr>
    \<and> (\<forall>l \<in> set (pool_loops m). new_io_loop (ims l) = Inr (io l))"
proof -
  let ?ls = "pool_loops m"
  have ok: "machine_ok m" and ims: "\<And>l. l \<in> set ?ls \<Longrightarrow> 0 \<le> im_eventfd (ims l) \<and> im_tid (ims l) \<noteq> mc_tid m"
    using m by (simp_all add: machines_ok_def)
  obtain b where b: "http_start m port = Inr b" "\<not> el_looping b" "el_threadId b = mc_tid m" "el_pendingFunctors b = []" "known b = {}"
      "base_ok ?ls (b\<lparr>el_looping := True, el_quit := False\<rparr>)" "ts_nextConnId (nw_rest b) = 1"
    using pool_start_base [OF ok, of port] by (elim exE conjE) (rule that)
  have "\<forall>l \<in> set ?ls. 0 \<le> im_eventfd (ims l)" using ims by blast
  from start_loops_ok [OF this, of memory] obtain io where io: "start_loops ims ?ls memory = Inr io"
      "\<forall>l. if l \<in> set ?ls then new_io_loop (ims l) = Inr (io l) else io l = memory l"
    by (elim exE conjE) (rule that)
  have loops: "new_io_loop (ims l) = Inr (io l)" "io_inv (io l)" "nw_conns (io l) = Map.empty" "nw_rest (io l) = []" "el_threadId (io l) = im_tid (ims l)"
    if "l \<in> set ?ls" for l
    using that io(2) [rule_format, of l] new_io_loop_ok [of "ims l"] ims [of l] by auto
  let ?w = "\<lparr>pw_base = b\<lparr>el_looping := True, el_quit := False\<rparr>, pw_io = io\<rparr>"
  have abs: "io_abs (io l) = Map.empty" if "l \<in> set ?ls" for l using loops(3) [OF that] by (simp add: io_abs_def fun_eq_iff)
  then have view: "pool_abs ?ls ?w = (1, {}, \<lambda>_. Map.empty)" using b(5,7) by (auto simp: pool_abs_def known_def)
  have kn: "known (b\<lparr>el_looping := True, el_quit := False\<rparr>) = {}" using b(5) by (simp add: known_def)
  have "base_queue {} (gone (\<lambda>_. Map.empty)) []" by (simp add: base_queue_def gone_def)
  then have "pooled_inv ?ls ?w"
    unfolding pooled_inv_def view using b(3,4,6) kn loops(2-5) ims abs by simp
  moreover have "pool_start m ims memory port = Inr ?w" using b(1,2) io(1) by (simp add: pool_start_def asserting_def)
  ultimately show ?thesis using view b(1) loops(1) by (intro exI [of _ ?w] exI [of _ b] exI [of _ io]) simp
qed

text \<open>One client of a pool: it connects, is taken up, sends one request and closes; the server removes it.\<close>

lemma pool_session_obeys:
  assumes inv: "pooled_inv ls w" "pool_abs ls w = (k, {}, \<lambda>_. Map.empty)" and stack: "length stack = 32"
    and con: "pool_contract stack ls accepts w (PBase BAccept t)" and acc: "accepts k = (ob, fd)"
    and inp: "no_reads ob 0 = ReadBytes (request_text m p q v hs)" "no_reads ob 1 = ReadBytes []"
      "length (request_text m p q v hs) \<le> kInitialSize + kExtraBuf"
    and wf: "wf_target p q" "m \<noteq> kInvalid" "v \<noteq> kUnknown" "\<forall>h \<in> set hs. wf_header h"
    and kernel: "no_writes ob 0 = Wrote (length (http_answer stack (closes_after v hs)))"
  shows "env_obeys (pool_step stack cb accepts) (pool_env stack ls accepts) w
    [PBase BAccept t, PIo (loop_of ls k) IoWake t, PIo (loop_of ls k) (IoRequest (no_conn ob) m p q v hs) t,
     PIo (loop_of ls k) (IoEof (no_conn ob)) t, PBase BWake t]"
proof -
  let ?i = "no_conn ob" and ?l = "loop_of ls k"
  let ?r = "IoRequest ?i m p q v hs"
  have k: "ts_nextConnId (nw_rest (pw_base w)) = k" using inv(2) by (simp add: pool_abs_def)
  have l: "?l \<in> set ls" using inv(1) by (intro loop_of_in) (simp add: pooled_inv_def base_ok_def)
  have gone: "gone (snd (snd (pool_abs ls w))) = {}" using inv(2) by (simp add: gone_def)
  then have env1: "pool_env stack ls accepts w (PBase BAccept t)" using stack con by (simp add: pool_env_def)
  obtain w1 nm where w1: "base_step stack cb accepts BAccept t w = Inr w1" "pooled_inv ls w1"
      "pool_abs ls w1 = pool_astep stack ls accepts (pool_abs ls w) (PBase BAccept t)"
      "nw_conns (pw_io w1 ?l) ?i = Some ((established_conn nm (no_channel ob) (no_reads ob) (no_writes ob) (no_shutdown ob))\<lparr>tc_state := kConnecting\<rparr>)"
    using base_accept_step [OF inv(1) _ con, of ob fd cb] gone acc unfolding k by auto
  have env2: "io_env stack (pw_io w1 ?l) IoWake" by (simp add: io_env_def)
  obtain w2 v2 where w2: "pool_io_step stack cb ?l IoWake t w1 = Inr w2" "pooled_inv ls w2"
      "pool_abs ls w2 = pool_astep stack ls accepts (pool_abs ls w1) (PIo ?l IoWake t)"
      "io_round stack cb IoWake t (pw_io w1 ?l) = Inr v2" "pw_io w2 = (pw_io w1)(?l := v2\<lparr>nw_rest := []\<rparr>)"
    using pool_io_refines [OF w1(2) l env2 stack, of cb t accepts] by (elim exE conjE) (rule that)
  have "io_inv (pw_io w1 ?l)" using w1(2) l by (simp add: pooled_inv_def)
  then have "nw_conns v2 ?i = map_option upgraded (nw_conns (pw_io w1 ?l) ?i)" using wake_round [of "pw_io w1 ?l" stack cb t] w2(4) by auto
  then have c2: "nw_conns (pw_io w2 ?l) ?i = Some (established_conn nm (no_channel ob) (no_reads ob) (no_writes ob) (no_shutdown ob))"
    using w1(4) w2(5) by (simp add: upgraded_def established_conn_def)
  have env3: "io_env stack (pw_io w2 ?l) ?r"
    using c2 inp(1,3) wf kernel new_input_buffer(3,4) by (simp add: io_env_def established_conn_def)
  obtain w3 v3 where w3: "pool_io_step stack cb ?l ?r t w2 = Inr w3" "pooled_inv ls w3"
      "pool_abs ls w3 = pool_astep stack ls accepts (pool_abs ls w2) (PIo ?l ?r t)"
      "io_round stack cb ?r t (pw_io w2 ?l) = Inr v3" "pw_io w3 = (pw_io w2)(?l := v3\<lparr>nw_rest := []\<rparr>)"
    using pool_io_refines [OF w2(2) l env3 stack, of cb t accepts] by (elim exE conjE) (rule that)
  have "io_inv (pw_io w2 ?l)" using w2(2) l by (simp add: pooled_inv_def)
  then obtain c where c: "nw_conns v3 ?i = Some c" "sk_reads c = no_reads ob" "sk_nreads c = 1" "tc_state c \<in> {kConnected, kDisconnecting}"
    using io_request_round [OF _ env3 stack, of cb t] w3(4) c2 by (auto simp: established_conn_def)
  then have env4: "io_env stack (pw_io w3 ?l) (IoEof ?i)" using w3(5) inp(2) by (simp add: io_env_def)
  obtain w4 where w4: "pool_io_step stack cb ?l (IoEof ?i) t w3 = Inr w4"
      "pool_abs ls w4 = pool_astep stack ls accepts (pool_abs ls w3) (PIo ?l (IoEof ?i) t)"
    using pool_io_refines [OF w3(2) l env4 stack, of cb t accepts] by (elim exE conjE) (rule that)
  have "gone (snd (snd (pool_abs ls w4))) \<subseteq> fst (snd (pool_abs ls w4))"
    unfolding w4(2) w3(3) w2(3) w1(3) inv(2)
    by (auto simp: pool_astep_def acc Let_def gone_def io_step_def come_up_def io_handle_def split: if_splits)
  then have env5: "gone (snd (snd (pool_abs ls w4))) \<subseteq> known (pw_base w4)" by (simp add: pool_abs_def)
  show ?thesis
    using env1 env2 env3 env4 env5 l stack w1(1) w2(1) w3(1) w4(1)
    by (simp add: pool_step_def pool_env_def pool_contract_def split: sum.split)
qed

definition pool_machine :: machine where
  "pool_machine = sample_machine\<lparr>mc_accepts := (\<lambda>n. (session_object\<lparr>no_conn := nat n\<rparr>, n + 10))\<rparr>"

definition pool_threads :: "nat \<Rightarrow> io_machine" where
  "pool_threads l = \<lparr>im_tid = int l, im_eventfd = int l, im_channel = 20, im_logHup = True, im_tied = False\<rparr>"

lemma pool_machine_ok: "machines_ok pool_machine pool_threads" "pool_loops pool_machine = map (\<lambda>i. i + 100) [0..<10]"
  by (auto simp: machines_ok_def machine_ok_def pool_machine_def sample_machine_def sizeof_sockaddr_in_def pool_loops_def pool_threads_def)

lemma pool_machine_session:
  assumes w: "pool_start pool_machine pool_threads memory port = Inr w"
  shows "env_obeys (pool_step (replicate 32 CHR ''s'') cb (mc_accepts pool_machine))
    (pool_env (replicate 32 CHR ''s'') (pool_loops pool_machine) (mc_accepts pool_machine)) w
    [PBase BAccept t, PIo 100 IoWake t, PIo 100 (IoRequest 1 kGet ''/a'' [] kHttp10 []) t, PIo 100 (IoEof 1) t, PBase BWake t]"
proof -
  let ?ls = "pool_loops pool_machine" and ?acc = "mc_accepts pool_machine" and ?ob = "session_object\<lparr>no_conn := 1\<rparr>"
  obtain b io where s: "pooled_inv ?ls w" "pool_abs ?ls w = (1, {}, \<lambda>_. Map.empty)" "http_start pool_machine port = Inr b"
      "w = \<lparr>pw_base = b\<lparr>el_looping := True, el_quit := False\<rparr>, pw_io = io\<rparr>" "\<forall>l \<in> set ?ls. new_io_loop (pool_threads l) = Inr (io l)"
    using pool_start_ok [OF pool_machine_ok(1), of memory port] w by auto
  have "machine_ok pool_machine" using pool_machine_ok(1) by (simp add: machines_ok_def)
  from pool_start_base [OF this, of port] have b: "ts_nextConnId (nw_rest b) = 1" "nw_rest b = server_at_start pool_machine"
      "dom (pl_heap (el_poller b)) = {8, 9}" "fst ` set (pl_channels (el_poller b)) = {4, 5}" "nw_conns b = Map.empty"
    using s(3) by (auto simp: pool_machine_def sample_machine_def)
  have "7 \<notin> dom (pl_heap (el_poller b))" using b(3) by simp
  then have "pl_heap (el_poller b) 7 = None" by blast
  moreover have "map_of (pl_channels (el_poller b)) 11 = None" using b(4) by (simp add: map_of_eq_None_iff)
  ultimately have sv: "server_env (pw_base w) (SvAccept ?ob 11)"
    using b(1,2,5) s(4) by (simp add: server_env_def handed_ids_def server_at_start_def started_server_def new_server_def Let_def
        session_object_def sample_object_def)
  have fresh: "nw_conns (io l) 1 = None \<and> pl_heap (el_poller (io l)) 7 = None \<and> (\<forall>a ch. pl_heap (el_poller (io l)) a = Some ch \<longrightarrow> ch_fd ch \<noteq> 11)"
    if l: "l \<in> set ?ls" for l
  proof -
    have "0 \<le> im_eventfd (pool_threads l)" by (simp add: pool_threads_def)
    moreover have "int l \<noteq> 11" using l unfolding pool_machine_ok(2) by auto
    ultimately show ?thesis using new_io_loop_ok [of "pool_threads l"] s(5) l by (auto simp: pool_threads_def)
  qed
  have acc: "?acc 1 = (?ob, 11)" by (simp add: pool_machine_def)
  have con: "pool_contract (replicate 32 CHR ''s'') ?ls ?acc w (PBase BAccept t)"
    using sv fresh b(1) s(4) acc by (simp add: pool_contract_def session_object_def sample_object_def)
  have "loop_of ?ls 1 = 100" by (simp add: loop_of_def pool_machine_ok(2))
  moreover have "no_conn ?ob = 1" by simp
  moreover have "env_obeys (pool_step (replicate 32 CHR ''s'') cb ?acc) (pool_env (replicate 32 CHR ''s'') ?ls ?acc) w
      [PBase BAccept t, PIo (loop_of ?ls 1) IoWake t, PIo (loop_of ?ls 1) (IoRequest (no_conn ?ob) kGet ''/a'' [] kHttp10 []) t,
       PIo (loop_of ?ls 1) (IoEof (no_conn ?ob)) t, PBase BWake t]"
    by (rule pool_session_obeys [OF s(1,2) _ con acc])
      (simp_all add: session_object_def closes_after_def wf_target_def is_line_def request_text_def request_line_def method_name_def
        version_name_def kInitialSize_def kExtraBuf_def)
  ultimately show ?thesis by simp
qed



end
