(* ===== verification/SmallFiles.thy ===== *)
theory SmallFiles
  imports Prelude
begin

text \<open>
  \<open>ReadSmallFile\<close> of \<open>src/base/FileUtil.h\<close> and \<open>src/base/FileUtil.cpp\<close>: a file opened for reading,
  read into a string or into an internal buffer. The kernel keeps an offset for the open file:
  \<open>read\<close> starts there and advances it, \<open>pread\<close> leaves it alone. The results of the system calls are
  arguments: \<open>rd off n\<close> is the result of a \<open>read\<close> of \<open>n\<close> bytes at offset \<open>off\<close>, the bytes or an error
  number.
\<close>

section \<open>The class\<close>

record small_file =
  rf_fd :: int
  rf_err :: int
  rf_buf :: string
  rf_offset :: nat
  rf_open :: bool

definition kBufferSize :: nat where "kBufferSize = 64 * 1024"

definition EISDIR :: int where "EISDIR = 21"

text \<open>The result of \<open>open\<close> and the memory of the new object; a failed \<open>open\<close> saves its error.\<close>

definition ReadSmallFile_ctor :: "int \<Rightarrow> int \<Rightarrow> string \<Rightarrow> small_file" where
  "ReadSmallFile_ctor fd errno memory =
     \<lparr>rf_fd = fd, rf_err = (if fd < 0 then errno else 0), rf_buf = memory[0 := NUL],
      rf_offset = 0, rf_open = (0 \<le> fd)\<rparr>"

definition ReadSmallFile_dtor :: "small_file \<Rightarrow> small_file" where
  "ReadSmallFile_dtor r = (if rf_fd r \<ge> 0 then r\<lparr>rf_open := False\<rparr> else r)"

text \<open>\<open>static_cast<size_t>\<close> of an \<open>int\<close>.\<close>

definition size_of_int :: "int \<Rightarrow> nat" where
  "size_of_int i = nat (i mod 18446744073709551616)"

text \<open>
  The \<open>while\<close> loop of \<open>readToString\<close>: every round reads into the internal buffer and appends what it
  got, up to \<open>maxSize\<close> bytes in all, until the end of the file or an error.
\<close>

function read_loop ::
  "(nat \<Rightarrow> nat \<Rightarrow> int + string) \<Rightarrow> nat \<Rightarrow> string \<Rightarrow> int \<Rightarrow> small_file \<Rightarrow> (int \<times> string \<times> small_file) outcome" where
  "read_loop rd maxSize content err r =
     (if length content < maxSize
      then let toRead = min (maxSize - length content) kBufferSize
           in case rd (rf_offset r) toRead of
                Inl errno \<Rightarrow> Inr (errno, content, r)
              | Inr bs \<Rightarrow>
                  if bs \<noteq> []
                  then bind_out (copy_into (rf_buf r) 0 bs) (\<lambda>b.
                         read_loop rd maxSize (content @ take (length bs) b) err
                           (r\<lparr>rf_buf := b, rf_offset := rf_offset r + length bs\<rparr>))
                  else Inr (err, content, r)
      else Inr (err, content, r))"
  by pat_completeness auto

termination
proof (relation "measure (\<lambda>(rd, maxSize, content, err, r). maxSize - length content)", goal_cases)
  case (2 rd maxSize content err r toRead bs b)
  then have "0 < length bs" and "length bs \<le> length b"
    by (auto simp: copy_into_def outcome_simps)
  then show ?case using 2(1) by (cases bs) simp_all
qed simp

declare read_loop.simps [simp del]

text \<open>
  What \<open>fstat\<close> reports. The out parameters \<open>fileSize\<close> and \<open>modifyTime\<close> may be null; the third one,
  \<open>createTime\<close>, is never assigned.
\<close>

datatype file_kind = Regular | Directory | OtherKind

record stat_buf =
  st_kind :: file_kind
  st_size :: int
  st_mtime :: int
  st_ctime :: int

record read_result =
  rr_err :: int
  rr_content :: string
  rr_fileSize :: "int option"
  rr_modifyTime :: "int option"
  rr_createTime :: "int option"

text \<open>
  The call of \<open>fstat\<close>: the error number so far and the values assigned. \<open>reserve\<close> throws when the
  requested capacity, converted to \<open>size_t\<close>, is larger than a string can be.
\<close>

definition stat_part ::
  "int + stat_buf \<Rightarrow> int \<Rightarrow> bool \<Rightarrow> bool \<Rightarrow> int \<Rightarrow> (int \<times> int option \<times> int option) outcome" where
  "stat_part fstat maxSize wantSize wantModify err =
     (if wantSize
      then case fstat of
          Inr statbuf \<Rightarrow>
            let mtime = (if wantModify then Some (st_ctime statbuf) else None)
            in (case st_kind statbuf of
                  Regular \<Rightarrow>
                    if max_size < size_of_int (min maxSize (st_size statbuf)) then Inl LengthError
                    else Inr (err, Some (st_size statbuf), mtime)
                | Directory \<Rightarrow> Inr (EISDIR, None, mtime)
                | OtherKind \<Rightarrow> Inr (err, None, mtime))
        | Inl errno \<Rightarrow> Inr (errno, None, None)
      else Inr (err, None, None))"

text \<open>\<open>content\<close> is a pointer to a string, \<open>None\<close> for the null pointer.\<close>

definition readToString ::
  "int + stat_buf \<Rightarrow> (nat \<Rightarrow> nat \<Rightarrow> int + string) \<Rightarrow> int \<Rightarrow> string option \<Rightarrow> bool \<Rightarrow> bool \<Rightarrow> small_file
   \<Rightarrow> (read_result \<times> small_file) outcome" where
  "readToString fstat rd maxSize content wantSize wantModify r =
     asserting (content \<noteq> None)
       (if rf_fd r \<ge> 0
        then bind_out (stat_part fstat maxSize wantSize wantModify (rf_err r)) (\<lambda>(err, fileSize, modifyTime).
             bind_out (read_loop rd (size_of_int maxSize) [] err r) (\<lambda>(err, content, r).
               Inr (\<lparr>rr_err = err, rr_content = content, rr_fileSize = fileSize, rr_modifyTime = modifyTime,
                     rr_createTime = None\<rparr>, r)))
        else Inr (\<lparr>rr_err = rf_err r, rr_content = the content, rr_fileSize = None, rr_modifyTime = None,
                   rr_createTime = None\<rparr>, r))"

text \<open>The result of \<open>pread\<close>: the bytes read, or an error number.\<close>

definition readToBuffer :: "int + string \<Rightarrow> small_file \<Rightarrow> (int \<times> nat option \<times> small_file) outcome" where
  "readToBuffer res r =
     (if rf_fd r \<ge> 0
      then (case res of
              Inr bs \<Rightarrow> bind_out (copy_into (rf_buf r) 0 bs) (\<lambda>b.
                         defined_if (length bs < length b) (Inr (rf_err r, Some (length bs), r\<lparr>rf_buf := b[length bs := NUL]\<rparr>)))
            | Inl e \<Rightarrow> Inr (e, None, r))
      else Inr (rf_err r, None, r))"

definition buffer_of :: "small_file \<Rightarrow> string" where
  "buffer_of r = c_str (rf_buf r)"

section \<open>Reading a file\<close>

text \<open>
  The contract of \<open>read\<close> on a regular file with the bytes \<open>data\<close>: it delivers the bytes at the
  offset, at most as many as asked for, none only at the end of the file; or it fails with an
  error number.
\<close>

definition reads_file :: "string \<Rightarrow> (nat \<Rightarrow> nat \<Rightarrow> int + string) \<Rightarrow> bool" where
  "reads_file data rd \<longleftrightarrow>
     (\<forall>off n. case rd off n of
        Inl errno \<Rightarrow> 0 < errno
      | Inr bs \<Rightarrow> length bs \<le> n \<and> bs = take (length bs) (drop off data)
          \<and> (bs = [] \<longrightarrow> n = 0 \<or> length data \<le> off))"

definition never_fails :: "(nat \<Rightarrow> nat \<Rightarrow> int + string) \<Rightarrow> bool" where
  "never_fails rd \<longleftrightarrow> (\<forall>off n. \<exists>bs. rd off n = Inr bs)"

lemma size_of_int_nonneg: "0 \<le> i \<Longrightarrow> i < 2147483648 \<Longrightarrow> size_of_int i = nat i"
  by (simp add: size_of_int_def)

lemma reads_fileD:
  assumes "reads_file data rd"
  shows "rd off n = Inl errno \<Longrightarrow> 0 < errno \<and> \<not> never_fails rd"
    and "rd off n = Inr bs \<Longrightarrow> length bs \<le> n \<and> bs = take (length bs) (drop off data)
      \<and> (bs = [] \<longrightarrow> n = 0 \<or> length data \<le> off)"
proof -
  have "case rd off n of Inl errno \<Rightarrow> 0 < errno
      | Inr bs \<Rightarrow> length bs \<le> n \<and> bs = take (length bs) (drop off data) \<and> (bs = [] \<longrightarrow> n = 0 \<or> length data \<le> off)"
    using assms by (simp add: reads_file_def)
  then show "rd off n = Inl errno \<Longrightarrow> 0 < errno \<and> \<not> never_fails rd"
    and "rd off n = Inr bs \<Longrightarrow> length bs \<le> n \<and> bs = take (length bs) (drop off data)
      \<and> (bs = [] \<longrightarrow> n = 0 \<or> length data \<le> off)"
    by (auto simp: never_fails_def split: sum.splits) (metis Inl_Inr_False)
qed

text \<open>
  What the loop owes from the offset it stands at and with \<open>k\<close> bytes still wanted: it adds the part
  of the file from there, cut at \<open>k\<close> bytes, unless a \<open>read\<close> fails.
\<close>

definition loop_result ::
  "string \<Rightarrow> (nat \<Rightarrow> nat \<Rightarrow> int + string) \<Rightarrow> nat \<Rightarrow> string \<Rightarrow> int \<Rightarrow> small_file
   \<Rightarrow> (int \<times> string \<times> small_file) outcome \<Rightarrow> bool" where
  "loop_result data rd k content err r res \<longleftrightarrow>
     (\<exists>err' added buf. res = Inr (err', content @ added, r\<lparr>rf_buf := buf, rf_offset := rf_offset r + length added\<rparr>)
        \<and> length buf = kBufferSize \<and> added = take (length added) (drop (rf_offset r) data) \<and> length added \<le> k
        \<and> (added = take k (drop (rf_offset r) data) \<and> err' = err \<or> 0 < err' \<and> \<not> never_fails rd))"

lemma loop_result_stop:
  assumes "length (rf_buf r) = kBufferSize"
    and "k = 0 \<and> err' = err \<or> length data \<le> rf_offset r \<and> err' = err \<or> 0 < err' \<and> \<not> never_fails rd"
  shows "loop_result data rd k content err r (Inr (err', content, r))"
  unfolding loop_result_def
  by (rule exI [of _ err'], rule exI [of _ "[]"], rule exI [of _ "rf_buf r"]) (use assms in auto)

lemma loop_result_chunk:
  assumes "loop_result data rd k (content @ bs) err (r\<lparr>rf_buf := b, rf_offset := rf_offset r + length bs\<rparr>) res"
    and "bs = take (length bs) (drop (rf_offset r) data)"
  shows "loop_result data rd (length bs + k) content err r res"
proof -
  let ?r = "r\<lparr>rf_buf := b, rf_offset := rf_offset r + length bs\<rparr>"
  obtain err' added buf where res: "res = Inr (err', (content @ bs) @ added,
        ?r\<lparr>rf_buf := buf, rf_offset := rf_offset ?r + length added\<rparr>)"
      "length buf = kBufferSize" "added = take (length added) (drop (rf_offset ?r) data)" "length added \<le> k"
      "added = take k (drop (rf_offset ?r) data) \<and> err' = err \<or> 0 < err' \<and> \<not> never_fails rd"
    using assms(1) unfolding loop_result_def by blast
  have split: "take (length bs + j) (drop (rf_offset r) data) = bs @ take j (drop (rf_offset ?r) data)" for j
    using assms(2) unfolding take_add by (simp add: add.commute)
  have "res = Inr (err', content @ (bs @ added), r\<lparr>rf_buf := buf, rf_offset := rf_offset r + length (bs @ added)\<rparr>)"
    using res(1) by (simp add: add.assoc)
  moreover have "bs @ added = take (length (bs @ added)) (drop (rf_offset r) data)"
    using split [of "length added"] res(3) by simp
  moreover have "bs @ added = take (length bs + k) (drop (rf_offset r) data) \<and> err' = err \<or> 0 < err' \<and> \<not> never_fails rd"
    using res(5) split [of k] by auto
  moreover have "length (bs @ added) \<le> length bs + k" using res(4) by simp
  ultimately show ?thesis unfolding loop_result_def using res(2) by blast
qed

lemma read_loop_spec:
  assumes "reads_file data rd" and "length (rf_buf r) = kBufferSize"
  shows "loop_result data rd (maxSize - length content) content err r (read_loop rd maxSize content err r)"
  using assms(2)
proof (induction "maxSize - length content" arbitrary: content r rule: less_induct)
  case less
  let ?n = "min (maxSize - length content) kBufferSize"
  consider (full) "\<not> length content < maxSize"
    | (fail) errno where "length content < maxSize" "rd (rf_offset r) ?n = Inl errno"
    | (eof) "length content < maxSize" "rd (rf_offset r) ?n = Inr []"
    | (chunk) bs where "length content < maxSize" "rd (rf_offset r) ?n = Inr bs" "bs \<noteq> []"
    by (metis sumE)
  then show ?case
  proof cases
    case full
    then show ?thesis using loop_result_stop [OF less.prems, of 0] by (simp add: read_loop.simps)
  next
    case fail
    then show ?thesis
      using loop_result_stop [OF less.prems] reads_fileD(1) [OF assms(1) fail(2)] by (simp add: read_loop.simps)
  next
    case eof
    then have "?n \<noteq> 0" by (simp add: kBufferSize_def)
    then have "length data \<le> rf_offset r" using reads_fileD(2) [OF assms(1) eof(2)] by argo
    then show ?thesis using eof loop_result_stop [OF less.prems] by (simp add: read_loop.simps)
  next
    case chunk
    let ?b = "overwrite (rf_buf r) 0 bs"
    let ?r = "r\<lparr>rf_buf := ?b, rf_offset := rf_offset r + length bs\<rparr>"
    have bs: "length bs \<le> ?n" "bs = take (length bs) (drop (rf_offset r) data)"
      using reads_fileD(2) [OF assms(1) chunk(2)] by simp_all
    have b: "copy_into (rf_buf r) 0 bs = Inr ?b" "length ?b = kBufferSize" "take (length bs) ?b = bs"
      using bs(1) less.prems by (simp_all add: copy_into_def overwrite_def)
    have step: "read_loop rd maxSize content err r = read_loop rd maxSize (content @ bs) err ?r"
      using chunk b by (subst read_loop.simps) simp
    have left: "maxSize - length content = length bs + (maxSize - length (content @ bs))" using bs(1) by auto
    then have "maxSize - length (content @ bs) < maxSize - length content" using chunk(3) by (cases bs) simp_all
    from less.hyps [OF this, of ?r] b(2)
    show ?thesis unfolding step left by (intro loop_result_chunk [OF _ bs(2)]) simp
  qed
qed

text \<open>
  C37. \<open>readToString\<close> terminates and returns the file. For an open file with the bytes \<open>data\<close>, whose
  reads obey their contract and may be short or fail, the call returns: the string it leaves is
  the part of the file from the current offset on, cut at \<open>maxSize\<close> bytes, with the error number
  0, or, after a failed read, a shorter part of it with an error number. The offset moves
  by the length of the string, so a second call returns what follows and not the file again. The
  modification time it reports is the time of the last status change.
\<close>

theorem read_to_string:
  assumes "reads_file data rd" and "length (rf_buf r) = kBufferSize" and "0 \<le> rf_fd r" and "rf_err r = 0"
    and "0 \<le> maxSize" and "maxSize < 2147483648" and "st_kind statbuf = Regular" and "st_size statbuf = int (length data)"
  shows "\<exists>res r'. readToString (Inr statbuf) rd maxSize (Some old) True True r = Inr (res, r')
    \<and> rr_content res = take (length (rr_content res)) (drop (rf_offset r) data)
    \<and> int (length (rr_content res)) \<le> maxSize \<and> rf_offset r' = rf_offset r + length (rr_content res)
    \<and> (rr_content res = take (nat maxSize) (drop (rf_offset r) data) \<and> rr_err res = 0
       \<or> 0 < rr_err res \<and> \<not> never_fails rd)
    \<and> rr_fileSize res = Some (int (length data)) \<and> rr_modifyTime res = Some (st_ctime statbuf)
    \<and> rr_createTime res = None"
proof -
  have "size_of_int (min maxSize (st_size statbuf)) \<le> nat maxSize"
    using assms(5,6,8) by (cases "maxSize \<le> int (length data)") (simp_all add: size_of_int_nonneg min_def le_nat_iff)
  then have "\<not> max_size < size_of_int (min maxSize (st_size statbuf))"
    using assms(5,6) unfolding max_size_def by linarith
  then have stat: "stat_part (Inr statbuf) maxSize True True 0
      = Inr (0, Some (int (length data)), Some (st_ctime statbuf))"
    using assms(7,8) by (simp add: stat_part_def)
  have "loop_result data rd (nat maxSize) [] 0 r (read_loop rd (nat maxSize) [] 0 r)"
    using read_loop_spec [OF assms(1,2), of "nat maxSize" "[]" 0] by simp
  then show ?thesis
    using assms(3-6) unfolding loop_result_def readToString_def
    by (elim exE) (simp add: stat size_of_int_nonneg le_nat_iff)
qed

theorem read_to_string_witness:
  "\<exists>res r'. readToString (Inr \<lparr>st_kind = Regular, st_size = 5, st_mtime = 1, st_ctime = 2\<rparr>)
      (\<lambda>off n. Inr (take (min 2 n) (drop off ''hello''))) 4 (Some ''x'') True True
      (ReadSmallFile_ctor 3 0 (replicate kBufferSize NUL)) = Inr (res, r')
    \<and> rr_content res = ''hell'' \<and> rr_err res = 0 \<and> rr_modifyTime res = Some 2"
proof -
  let ?rd = "\<lambda>off n. Inr (take (min 2 n) (drop off ''hello'')) :: int + string"
  have "reads_file ''hello'' ?rd" by (auto simp: reads_file_def min_def)
  moreover have "never_fails ?rd" by (simp add: never_fails_def)
  ultimately show ?thesis
    using read_to_string [of "''hello''" ?rd "ReadSmallFile_ctor 3 0 (replicate kBufferSize NUL)" 4
        "\<lparr>st_kind = Regular, st_size = 5, st_mtime = 1, st_ctime = 2\<rparr>" "''x''"]
    by (auto simp: ReadSmallFile_ctor_def)
qed

text \<open>With a negative limit the capacity that is reserved is too large for a string.\<close>

lemma read_negative_limit:
  assumes "0 \<le> rf_fd r" and "maxSize < 0" and "- 2147483648 \<le> maxSize" and "st_kind statbuf = Regular"
    and "0 \<le> st_size statbuf"
  shows "readToString (Inr statbuf) rd maxSize (Some old) True want r = Inl LengthError"
proof -
  have "maxSize mod 18446744073709551616 = maxSize + 18446744073709551616"
    using assms(2,3) mod_pos_pos_trivial [of "maxSize + 18446744073709551616" 18446744073709551616] by simp
  then have "max_size < size_of_int (min maxSize (st_size statbuf))"
    using assms(2,3,5) by (simp add: size_of_int_def min_def max_size_def)
  then show ?thesis using assms(1,4) by (simp add: readToString_def stat_part_def)
qed

text \<open>The whole file in the internal buffer, when it fits.\<close>

lemma read_to_buffer:
  assumes "length bs < length (rf_buf r)" and "0 \<le> rf_fd r" and "NUL \<notin> set bs"
  shows "\<exists>r'. readToBuffer (Inr bs) r = Inr (rf_err r, Some (length bs), r') \<and> buffer_of r' = bs
    \<and> rf_offset r' = rf_offset r"
proof -
  let ?b = "(overwrite (rf_buf r) 0 bs)[length bs := NUL]"
  have "length bs < length (drop (length bs) (rf_buf r)) + length bs" using assms(1) by simp
  then have "?b = bs @ (drop (length bs) (rf_buf r))[0 := NUL]"
    by (simp add: overwrite_def list_update_append)
  moreover obtain x xs where "drop (length bs) (rf_buf r) = x # xs"
    using assms(1) by (cases "drop (length bs) (rf_buf r)") simp_all
  ultimately have "?b = bs @ NUL # xs" by simp
  moreover have "\<forall>c \<in> set bs. c \<noteq> NUL" using assms(3) by blast
  ultimately have "c_str ?b = bs" by (simp add: c_str_def takeWhile_append2)
  then show ?thesis
    using assms(1,2) by (simp add: readToBuffer_def copy_into_def buffer_of_def)
qed

end
