(* ===== verification/LoopThreads.thy ===== *)
theory LoopThreads
  imports EventLoops ThreadPools
begin

text \<open>
  The life of an \<open>EventLoopThread\<close> (\<open>src/net/EventLoopThread.cpp\<close>) together with the event loop it
  runs: the thread object of \<open>ThreadPools\<close>, the loop and the threads that post to it of
  \<open>EventLoops\<close>, and the destructor, which quits the loop and joins the thread. \<open>loop\<close> clears \<open>quit_\<close>
  when it is entered, and \<open>quit\<close> does not wake the loop up.
\<close>

section \<open>State and steps\<close>

text \<open>
  The loop object lives on the stack of \<open>threadFunc\<close>; \<open>Dangling\<close> is the destructor after a call of
  \<open>quit\<close> on a loop that does not exist any more.
\<close>

datatype dtor_pc = Alive | Quitting | Joining | Destroyed | Dangling

record ('cb, 'f) thread_system =
  ls_thread :: loop_thread
  ls_loop :: "('cb, 'f) loop_system"
  ls_entered :: bool
  ls_dtor :: dtor_pc

text \<open>\<open>loop\<close> up to its first test.\<close>

definition enter_loop :: "('cb, 'f) event_loop \<Rightarrow> ('cb, 'f) event_loop" where
  "enter_loop l = l\<lparr>el_looping := True, el_quit := False\<rparr>"

text \<open>The destructor: set \<open>exiting_\<close> and read \<open>loop_\<close>, without the mutex; quit the loop; join the thread.\<close>

inductive dtor_step :: "('cb, 'f) thread_system \<Rightarrow> ('cb, 'f) thread_system \<Rightarrow> bool" where
  dtor_none: "ls_dtor s = Alive \<Longrightarrow> et_starter (ls_thread s) = Started k \<Longrightarrow> et_loop (ls_thread s) = None \<Longrightarrow>
    dtor_step s (s\<lparr>ls_thread := (ls_thread s)\<lparr>et_exiting := True\<rparr>, ls_dtor := Destroyed\<rparr>)"
| dtor_some: "ls_dtor s = Alive \<Longrightarrow> et_starter (ls_thread s) = Started k \<Longrightarrow> et_loop (ls_thread s) = Some l \<Longrightarrow>
    dtor_step s (s\<lparr>ls_thread := (ls_thread s)\<lparr>et_exiting := True\<rparr>, ls_dtor := Quitting\<rparr>)"
| dtor_quit: "ls_dtor s = Quitting \<Longrightarrow> et_runner (ls_thread s) \<in> {Looping, Leaving} \<Longrightarrow>
    dtor_step s (s\<lparr>ls_loop := (ls_loop s)\<lparr>sys_loop := quit (sys_loop (ls_loop s))\<rparr>, ls_dtor := Joining\<rparr>)"
| dtor_dangling: "ls_dtor s = Quitting \<Longrightarrow> et_runner (ls_thread s) = Ended \<Longrightarrow> dtor_step s (s\<lparr>ls_dtor := Dangling\<rparr>)"
| dtor_join: "ls_dtor s = Joining \<Longrightarrow> et_runner (ls_thread s) = Ended \<Longrightarrow> dtor_step s (s\<lparr>ls_dtor := Destroyed\<rparr>)"

text \<open>\<open>threadFunc\<close>, with the steps of \<open>loop\<close> in place of the single step of \<open>runner_step\<close>.\<close>

inductive threadFunc_step :: "nat \<Rightarrow> bool \<Rightarrow> ('cb, 'f) thread_system \<Rightarrow> ('cb, 'f) thread_system \<Rightarrow> bool" for l callback where
  func_outside: "et_runner (ls_thread s) \<noteq> Looping \<Longrightarrow> runner_step l callback (ls_thread s) t \<Longrightarrow>
    threadFunc_step l callback s (s\<lparr>ls_thread := t\<rparr>)"
| func_enter: "et_runner (ls_thread s) = Looping \<Longrightarrow> \<not> ls_entered s \<Longrightarrow>
    threadFunc_step l callback s (s\<lparr>ls_loop := (ls_loop s)\<lparr>sys_loop := enter_loop (sys_loop (ls_loop s))\<rparr>, ls_entered := True\<rparr>)"
| func_loop: "et_runner (ls_thread s) = Looping \<Longrightarrow> ls_entered s \<Longrightarrow> loop_step (ls_loop s) y \<Longrightarrow>
    threadFunc_step l callback s (s\<lparr>ls_loop := y\<rparr>)"
| func_return: "et_runner (ls_thread s) = Looping \<Longrightarrow> ls_entered s \<Longrightarrow> sys_pc (ls_loop s) = Exited \<Longrightarrow>
    runner_step l callback (ls_thread s) t \<Longrightarrow> threadFunc_step l callback s (s\<lparr>ls_thread := t\<rparr>)"

text \<open>The steps of the two threads, and of everything else that uses the loop while it exists.\<close>

inductive own_step :: "nat \<Rightarrow> bool \<Rightarrow> ('cb, 'f) thread_system \<Rightarrow> ('cb, 'f) thread_system \<Rightarrow> bool" for l callback where
  own_starter: "ls_dtor s = Alive \<Longrightarrow> starter_step (ls_thread s) t \<Longrightarrow> own_step l callback s (s\<lparr>ls_thread := t\<rparr>)"
| own_dtor: "dtor_step s s' \<Longrightarrow> own_step l callback s s'"
| own_func: "threadFunc_step l callback s s' \<Longrightarrow> own_step l callback s s'"

definition thread_start :: "('cb, 'f) event_loop \<Rightarrow> ('cb, 'f) thread_system" where
  "thread_start e = \<lparr>ls_thread = EventLoopThread_ctor, ls_loop = sys_start e, ls_entered = False, ls_dtor = Alive\<rparr>"

inductive system_reachable :: "nat \<Rightarrow> bool \<Rightarrow> ('cb, 'f) thread_system \<Rightarrow> bool" for l callback where
  system_start: "\<not> el_callingPendingFunctors e \<Longrightarrow> el_pendingFunctors e = [] \<Longrightarrow> system_reachable l callback (thread_start e)"
| system_own: "system_reachable l callback s \<Longrightarrow> own_step l callback s s' \<Longrightarrow> system_reachable l callback s'"
| system_world: "system_reachable l callback s \<Longrightarrow> et_runner (ls_thread s) = Looping \<Longrightarrow> world_step (ls_loop s) y \<Longrightarrow>
    system_reachable l callback (s\<lparr>ls_loop := y\<rparr>)"

section \<open>The invariant\<close>

definition system_inv :: "nat \<Rightarrow> bool \<Rightarrow> ('cb, 'f) thread_system \<Rightarrow> bool" where
  "system_inv l callback s \<longleftrightarrow> thread_inv l callback (ls_thread s)
     \<and> (\<not> ls_entered s \<longrightarrow> sys_pc (ls_loop s) = AtTest)
     \<and> (ls_entered s \<longrightarrow> et_runner (ls_thread s) \<in> {Looping, Leaving, Ended})
     \<and> (et_runner (ls_thread s) \<in> {Leaving, Ended} \<longrightarrow> ls_entered s \<and> sys_pc (ls_loop s) = Exited)
     \<and> (sys_pc (ls_loop s) = Exited \<longrightarrow> el_quit (sys_loop (ls_loop s)))
     \<and> (ls_dtor s \<noteq> Alive \<longrightarrow> et_runner (ls_thread s) \<in> {Looping, Leaving, Ended})
     \<and> (ls_dtor s = Dangling \<longrightarrow> et_runner (ls_thread s) = Ended)"

lemma exiting_inv [simp]: "thread_inv l callback (t\<lparr>et_exiting := b\<rparr>) \<longleftrightarrow> thread_inv l callback t"
  by (simp add: thread_inv_def)

lemma loop_step_keeps:
  "loop_step y y' \<Longrightarrow> el_quit (sys_loop y') = el_quit (sys_loop y) \<and> (sys_pc y' = Exited \<longrightarrow> el_quit (sys_loop y))"
  by (induction rule: loop_step.induct) (auto simp: swap_functors_def handleRead_loop_def)

lemma world_step_keeps:
  "world_step y y' \<Longrightarrow> (el_quit (sys_loop y) \<longrightarrow> el_quit (sys_loop y')) \<and> (sys_pc y \<noteq> InPoll \<longrightarrow> sys_pc y' = sys_pc y) \<and> (sys_pc y' = Exited \<longrightarrow> sys_pc y = Exited)"
  by (induction rule: world_step.induct) (auto simp: push_functor_def quit_def same_queue_def)

lemma runner_phases:
  "runner_step l callback t t' \<Longrightarrow> et_runner t' \<in>
     (case et_runner t of Constructing \<Rightarrow> {Constructing, Looping} | Looping \<Rightarrow> {Leaving} | Leaving \<Rightarrow> {Ended} | _ \<Rightarrow> {})"
  by (induction rule: runner_step.induct) auto

lemma starter_phases:
  "starter_step t t' \<Longrightarrow> et_runner t' = et_runner t \<or> et_runner t = NoThread \<and> et_runner t' = Constructing"
  by (induction rule: starter_step.induct) auto

lemma own_step_inv:
  assumes "own_step l callback s s'" and "system_inv l callback s"
  shows "system_inv l callback s'"
  using assms(1)
proof cases
  case (own_starter t)
  then show ?thesis using assms(2) starter_step_inv [OF own_starter(3)] starter_phases [OF own_starter(3)]
    by (auto simp: system_inv_def)
next
  case own_dtor
  then show ?thesis using assms(2)
    by (cases rule: dtor_step.cases) (auto simp: system_inv_def thread_inv_def quit_def)
next
  case own_func
  then show ?thesis
  proof cases
    case (func_outside t)
    then show ?thesis using assms(2) runner_step_inv [OF func_outside(3)] runner_phases [OF func_outside(3)]
      by (auto simp: system_inv_def split: runner_pc.splits)
  next
    case func_enter
    then show ?thesis using assms(2) by (auto simp: system_inv_def enter_loop_def)
  next
    case (func_loop y)
    then show ?thesis using assms(2) loop_step_keeps [OF func_loop(4)] by (auto simp: system_inv_def)
  next
    case (func_return t)
    then show ?thesis using assms(2) runner_step_inv [OF func_return(5)] runner_phases [OF func_return(5)]
      by (auto simp: system_inv_def)
  qed
qed

lemma system_reachable_inv: "system_reachable l callback s \<Longrightarrow> system_inv l callback s"
proof (induction rule: system_reachable.induct)
  case (system_start e)
  then show ?case by (simp add: thread_start_def system_inv_def thread_ctor_inv sys_start_def) (simp add: EventLoopThread_ctor_def)
next
  case (system_own s s')
  then show ?case by (blast intro: own_step_inv)
next
  case (system_world s y)
  then show ?case using world_step_keeps [OF system_world(3)] by (auto simp: system_inv_def)
qed

section \<open>Waiting for the thread\<close>

definition ends :: "nat \<Rightarrow> bool \<Rightarrow> ('cb, 'f) thread_system \<Rightarrow> bool" where
  "ends l callback s \<longleftrightarrow> (\<exists>s'. (own_step l callback)\<^sup>*\<^sup>* s s' \<and> ls_dtor s' = Destroyed)"

lemma ends_step: "own_step l callback s s' \<Longrightarrow> ends l callback s' \<Longrightarrow> ends l callback s"
  unfolding ends_def by (blast intro: converse_rtranclp_into_rtranclp)

lemma ends_steps: "(own_step l callback)\<^sup>*\<^sup>* s s' \<Longrightarrow> ends l callback s' \<Longrightarrow> ends l callback s"
  unfolding ends_def by (blast intro: rtranclp_trans)

lemma ends_join: "ls_dtor s = Joining \<Longrightarrow> et_runner (ls_thread s) = Ended \<Longrightarrow> ends l callback s"
  unfolding ends_def by (rule exI [of _ "s\<lparr>ls_dtor := Destroyed\<rparr>"]) (auto intro: own_step.own_dtor dtor_step.dtor_join)

lemma ends_leaving:
  assumes "ls_dtor s = Joining" and "et_runner (ls_thread s) = Leaving"
  shows "ends l callback s"
proof -
  let ?t = "(ls_thread s)\<lparr>et_loop := None, et_runner := Ended\<rparr>"
  have "own_step l callback s (s\<lparr>ls_thread := ?t\<rparr>)"
    using assms(2) by (intro own_step.own_func threadFunc_step.func_outside runner_step.unpublish) simp_all
  then show ?thesis by (rule ends_step) (use assms in \<open>simp add: ends_join\<close>)
qed

lemma ends_exited:
  assumes "ls_dtor s = Joining" and "et_runner (ls_thread s) = Looping" and "ls_entered s" and "sys_pc (ls_loop s) = Exited"
  shows "ends l callback s"
proof -
  have "own_step l callback s (s\<lparr>ls_thread := (ls_thread s)\<lparr>et_runner := Leaving\<rparr>\<rparr>)"
    using assms by (intro own_step.own_func threadFunc_step.func_return runner_step.loop_returns)
  then show ?thesis by (rule ends_step) (use assms in \<open>simp add: ends_leaving\<close>)
qed

lemma lift_loop_steps:
  assumes "loop_step\<^sup>*\<^sup>* y y'" and "ls_loop s = y" and "et_runner (ls_thread s) = Looping" and "ls_entered s"
  shows "(own_step l callback)\<^sup>*\<^sup>* s (s\<lparr>ls_loop := y'\<rparr>)"
  using assms(1)
proof (induction rule: rtranclp_induct)
  case base
  have "s\<lparr>ls_loop := y\<rparr> = s" using assms(2) by (cases s) simp
  then show ?case by simp
next
  case (step a b)
  have "own_step l callback (s\<lparr>ls_loop := a\<rparr>) (s\<lparr>ls_loop := b\<rparr>)"
    using own_step.own_func [OF threadFunc_step.func_loop, of "s\<lparr>ls_loop := a\<rparr>" b] step(2) assms(3,4) by simp
  with step.IH show ?case by (rule rtranclp.rtrancl_into_rtrancl)
qed

lemma ends_test:
  assumes "ls_dtor s = Joining" and "et_runner (ls_thread s) = Looping" and "ls_entered s" and "loop_free (ls_loop s)"
    and "el_quit (sys_loop (ls_loop s))" and "sys_pc (ls_loop s) = AtTest"
  shows "ends l callback s"
proof -
  let ?y = "(ls_loop s)\<lparr>sys_pc := Exited, sys_loop := (sys_loop (ls_loop s))\<lparr>el_looping := False\<rparr>\<rparr>"
  have "loop_step (ls_loop s) ?y" using assms(4-6) by (intro loop_step.test_off)
  then have "own_step l callback s (s\<lparr>ls_loop := ?y\<rparr>)" using assms(2,3) by (intro own_step.own_func threadFunc_step.func_loop)
  then show ?thesis by (rule ends_step) (use assms in \<open>simp add: ends_exited\<close>)
qed

lemma ends_round:
  assumes "round_done (ls_loop s) fs ps"
    and "ls_dtor s = Joining" "et_runner (ls_thread s) = Looping" "ls_entered s" "loop_free (ls_loop s)" "el_quit (sys_loop (ls_loop s))"
  shows "ends l callback s"
proof -
  obtain y where y: "loop_step\<^sup>*\<^sup>* (ls_loop s) y" "sys_pc y = AtTest" "sys_posting y = sys_posting (ls_loop s)"
      "el_quit (sys_loop y)" "el_threadId (sys_loop y) = el_threadId (sys_loop (ls_loop s))"
    using assms(1,6) unfolding round_done_def by metis
  have "ends l callback (s\<lparr>ls_loop := y\<rparr>)" by (rule ends_test) (use y assms(2-5) in \<open>simp_all add: loop_free_def\<close>)
  with lift_loop_steps [OF y(1) refl assms(3,4)] show ?thesis by (rule ends_steps)
qed

lemma ends_quit:
  assumes "ls_dtor s = Joining" "et_runner (ls_thread s) = Looping" "ls_entered s" "loop_free (ls_loop s)" "el_quit (sys_loop (ls_loop s))"
    and "\<not> (sys_pc (ls_loop s) = InPoll \<and> el_eventfd (sys_loop (ls_loop s)) = 0)"
  shows "ends l callback s"
proof (cases "sys_pc (ls_loop s)")
  case InPoll
  let ?y = "(ls_loop s)\<lparr>sys_pc := Handling True\<rparr>"
  have "loop_step (ls_loop s) ?y" using InPoll assms by (intro loop_step.poll_wakeup) simp_all
  moreover have "ends l callback (s\<lparr>ls_loop := ?y\<rparr>)"
    using round_Handling [of ?y True] assms by (intro ends_round) (simp_all add: loop_free_def)
  ultimately show ?thesis using own_step.own_func [OF threadFunc_step.func_loop] assms(2,3) by (blast intro: ends_step)
next
  case (Handling b)
  show ?thesis using ends_round [OF round_Handling [OF Handling assms(4)]] assms(1-5) by blast
next
  case Swapping
  show ?thesis using ends_round [OF round_Swapping [OF Swapping assms(4)]] assms(1-5) by blast
next
  case (Running fs)
  show ?thesis using ends_round [OF round_Running [OF Running assms(4)]] assms(1-5) by blast
qed (use assms(1-5) ends_test [of s] ends_exited [of s] in blast)+

text \<open>The loop does not notice that it should quit: it waits for an event, or has not seen the flag.\<close>

definition unnoticed :: "('cb, 'f) thread_system \<Rightarrow> bool" where
  "unnoticed s \<longleftrightarrow> et_runner (ls_thread s) = Looping
     \<and> (\<not> ls_entered s \<or> \<not> el_quit (sys_loop (ls_loop s))
        \<or> sys_pc (ls_loop s) = InPoll \<and> el_eventfd (sys_loop (ls_loop s)) = 0)"

lemma unnoticed_step:
  assumes "own_step l callback s s'" and "system_inv l callback s" and "ls_dtor s = Joining" and "unnoticed s"
  shows "ls_dtor s' = Joining \<and> unnoticed s'"
  using assms(1)
proof cases
  case own_dtor
  then show ?thesis using assms(3,4) by (cases rule: dtor_step.cases) (auto simp: unnoticed_def)
next
  case own_func
  then show ?thesis
  proof cases
    case (func_loop y)
    have "\<not> (sys_pc (ls_loop s) = InPoll \<and> el_eventfd (sys_loop (ls_loop s)) = 0)"
      using func_loop(4) by (auto elim: loop_stepE)
    then show ?thesis using func_loop loop_step_keeps [OF func_loop(4)] assms(3,4) by (auto simp: unnoticed_def)
  qed (use assms(2-4) in \<open>auto simp: unnoticed_def enter_loop_def system_inv_def\<close>)
qed (use assms(3) in simp)

lemma unnoticed_never_ends:
  assumes "system_inv l callback s" and "ls_dtor s = Joining" and "unnoticed s"
  shows "\<not> ends l callback s"
proof -
  have "ls_dtor s' = Joining" if "(own_step l callback)\<^sup>*\<^sup>* s s'" for s'
  proof -
    from that have "system_inv l callback s' \<and> ls_dtor s' = Joining \<and> unnoticed s'"
      by induction (use assms in \<open>auto dest: unnoticed_step intro: own_step_inv\<close>)
    then show ?thesis by simp
  qed
  then show ?thesis unfolding ends_def by fastforce
qed

section \<open>Properties\<close>

text \<open>
  C38. When the destructor of a loop thread returns. In every reachable state in which the destructor
  waits for its thread, the steps of the two threads alone can bring it to its end exactly when
  the thread has left \<open>loop\<close>, or has entered it, finds \<open>quit_\<close> set and is not blocked in \<open>poll\<close> with
  nothing written to the event descriptor. So a loop that waits for events, and a loop whose
  thread had not yet entered \<open>loop\<close>, which clears \<open>quit_\<close>, keep the destructor waiting until some
  other event comes, or forever.
\<close>

theorem loop_thread_destruction:
  assumes "system_reachable l callback s" and "ls_dtor s = Joining" and "loop_free (ls_loop s)"
  shows "(\<exists>s'. (own_step l callback)\<^sup>*\<^sup>* s s' \<and> ls_dtor s' = Destroyed) \<longleftrightarrow>
    et_runner (ls_thread s) \<noteq> Looping
    \<or> (ls_entered s \<and> el_quit (sys_loop (ls_loop s))
       \<and> \<not> (sys_pc (ls_loop s) = InPoll \<and> el_eventfd (sys_loop (ls_loop s)) = 0))"
proof -
  note inv = system_reachable_inv [OF assms(1)]
  have "ends l callback s \<longleftrightarrow> \<not> unnoticed s"
  proof
    assume "\<not> unnoticed s"
    moreover have "et_runner (ls_thread s) \<in> {Looping, Leaving, Ended}" using inv assms(2) by (simp add: system_inv_def)
    ultimately show "ends l callback s"
      using ends_quit [OF assms(2) _ _ assms(3)] ends_leaving [OF assms(2)] ends_join [OF assms(2)] by (auto simp: unnoticed_def)
  qed (use unnoticed_never_ends [OF inv assms(2)] in blast)
  then show ?thesis by (auto simp: ends_def unnoticed_def)
qed

text \<open>A thread whose loop is at a given phase, before its destruction begins and when it waits.\<close>

definition running_thread :: "nat loop_pc \<Rightarrow> (loop_callback, nat) thread_system" where
  "running_thread pc =
     \<lparr>ls_thread = EventLoopThread_ctor\<lparr>et_loop := Some 7, et_starter := Started 7, et_runner := Looping\<rparr>,
      ls_loop = (sys_start (enter_loop idle_loop))\<lparr>sys_pc := pc\<rparr>, ls_entered = True, ls_dtor = Alive\<rparr>"

definition joining_thread :: "nat loop_pc \<Rightarrow> (loop_callback, nat) thread_system" where
  "joining_thread pc = (running_thread pc)\<lparr>ls_thread := (ls_thread (running_thread pc))\<lparr>et_exiting := True\<rparr>,
     ls_loop := (ls_loop (running_thread pc))\<lparr>sys_loop := quit (enter_loop idle_loop)\<rparr>, ls_dtor := Joining\<rparr>"

lemmas sample_thread_defs = running_thread_def joining_thread_def thread_start_def sys_start_def idle_loop_def enter_loop_def
  EventLoopThread_ctor_def quit_def loop_free_def

lemma running_reachable: "system_reachable 7 False (running_thread AtTest)"
proof -
  let ?s = "thread_start idle_loop :: (loop_callback, nat) thread_system"
  let ?a = "?s\<lparr>ls_thread := (ls_thread ?s)\<lparr>et_starter := Checking, et_runner := Constructing\<rparr>\<rparr>"
  let ?b = "?a\<lparr>ls_thread := (ls_thread ?a)\<lparr>et_loop := Some 7, et_runner := Looping, et_starter := Checking\<rparr>\<rparr>"
  let ?c = "?b\<lparr>ls_thread := (ls_thread ?b)\<lparr>et_starter := Started 7\<rparr>\<rparr>"
  have "own_step 7 False ?s ?a"
    by (intro own_step.own_starter starter_step.start_thread) (simp_all add: thread_start_def EventLoopThread_ctor_def)
  moreover have "own_step 7 False ?a ?b"
    using own_step.own_func [OF threadFunc_step.func_outside [OF _ runner_step.publish, of ?a False 7]] by simp
  moreover have "own_step 7 False ?b ?c"
    using own_step.own_starter [OF _ starter_step.found, of ?b 7 7 False] by (simp add: thread_start_def)
  moreover have "own_step 7 False ?c (running_thread AtTest)"
    using own_step.own_func [OF threadFunc_step.func_enter, of ?c 7 False] by (simp add: sample_thread_defs)
  moreover have "system_reachable 7 False ?s" by (rule system_start) (simp_all add: idle_loop_def)
  ultimately show ?thesis by (blast intro: system_own)
qed

lemma joining_reachable:
  assumes "system_reachable 7 False (running_thread pc)"
  shows "system_reachable 7 False (joining_thread pc)"
proof -
  let ?s = "running_thread pc"
  let ?a = "?s\<lparr>ls_thread := (ls_thread ?s)\<lparr>et_exiting := True\<rparr>, ls_dtor := Quitting\<rparr>"
  have "own_step 7 False ?s ?a"
    by (intro own_step.own_dtor dtor_step.dtor_some [of _ 7 7]) (simp_all add: running_thread_def)
  moreover have "own_step 7 False ?a (joining_thread pc)"
    using own_step.own_dtor [OF dtor_step.dtor_quit, of ?a 7 False] by (simp add: sample_thread_defs)
  ultimately show ?thesis using assms by (blast intro: system_own)
qed

lemma waiting_reachable: "system_reachable 7 False (running_thread InPoll)"
proof -
  have "loop_step (ls_loop (running_thread AtTest)) (ls_loop (running_thread InPoll))"
    using loop_step.test_on [of "ls_loop (running_thread AtTest)"] by (simp add: sample_thread_defs)
  then have "own_step 7 False (running_thread AtTest) (running_thread InPoll)"
    using own_step.own_func [OF threadFunc_step.func_loop, of "running_thread AtTest" "ls_loop (running_thread InPoll)" 7 False]
    by (simp add: sample_thread_defs)
  with running_reachable show ?thesis by (rule system_own)
qed

theorem loop_thread_destruction_witness:
  "(\<exists>s'. (own_step 7 False)\<^sup>*\<^sup>* (joining_thread AtTest) s' \<and> ls_dtor s' = Destroyed)
   \<and> (\<nexists>s'. (own_step 7 False)\<^sup>*\<^sup>* (joining_thread InPoll) s' \<and> ls_dtor s' = Destroyed)"
proof -
  have "ls_dtor (joining_thread pc) = Joining" "loop_free (ls_loop (joining_thread pc))" for pc
    by (simp_all add: sample_thread_defs)
  then show ?thesis
    using loop_thread_destruction [OF joining_reachable [OF running_reachable]]
      loop_thread_destruction [OF joining_reachable [OF waiting_reachable]] by (simp add: sample_thread_defs)
qed

end
