(* ===== verification/Connectors.thy ===== *)
theory Connectors
  imports SocketOps "HOL-Library.Multiset"
begin

text \<open>
  \<open>src/net/Connector.h\<close> and \<open>src/net/Connector.cpp\<close>: the state machine that opens a connection,
  waits for it to become writable and retries with growing delays. The channel it owns is kept
  with the part of its state that matters here. The functors it queues and the timers it sets are
  recorded and run as later events. The lists of descriptors created, closed and delivered are the
  kernel's and the client's view of its work.

  The code calls \<open>EventLoop::runAfter\<close> and functions of \<open>InetAddress\<close> that the repository does not
  define; a timer is taken to run its functor once, after the loop has run its queue.
\<close>

section \<open>State\<close>

datatype connector_state = kDisconnected | kConnecting | kConnected

definition kMaxRetryDelayMs :: int where "kMaxRetryDelayMs = 30 * 1000"
definition kInitRetryDelayMs :: int where "kInitRetryDelayMs = 500"

record connect_channel =
  cc_fd :: int
  cc_writing :: bool
  cc_registered :: bool

datatype connector_functor = StartInLoop | StopInLoop | ResetChannel

record connector =
  cn_connect :: bool
  cn_state :: connector_state
  cn_channel :: "connect_channel option"
  cn_retryDelayMs :: int
  cn_pending :: "connector_functor list"
  cn_timers :: "int list"
  cn_created :: "int list"
  cn_closed :: "int list"
  cn_delivered :: "int list"

text \<open>The answers of the system to the calls an event may make.\<close>

record connect_env =
  ce_socket :: int
  ce_errno :: int
  ce_close :: int
  ce_sockopt :: "int \<times> int \<times> int"
  ce_sockname :: "string option"
  ce_peername :: "string option"

definition Connector_ctor :: connector where
  "Connector_ctor = \<lparr>cn_connect = False, cn_state = kDisconnected, cn_channel = None, cn_retryDelayMs = kInitRetryDelayMs,
     cn_pending = [], cn_timers = [], cn_created = [], cn_closed = [], cn_delivered = []\<rparr>"

definition Connector_dtor :: "connector \<Rightarrow> unit outcome" where
  "Connector_dtor c = asserting (cn_channel c = None) (Inr ())"

section \<open>Operations\<close>

definition close_socket :: "connect_env \<Rightarrow> int \<Rightarrow> connector \<Rightarrow> connector outcome" where
  "close_socket env sockfd c = bind_out (sockets_close (ce_close env)) (\<lambda>_. Inr (c\<lparr>cn_closed := cn_closed c @ [sockfd]\<rparr>))"

definition retry :: "connect_env \<Rightarrow> int \<Rightarrow> connector \<Rightarrow> connector outcome" where
  "retry env sockfd c =
     bind_out (close_socket env sockfd c) (\<lambda>c.
       let c = c\<lparr>cn_state := kDisconnected\<rparr>
       in Inr (if cn_connect c
               then c\<lparr>cn_timers := cn_timers c @ [cn_retryDelayMs c],
                      cn_retryDelayMs := min (cn_retryDelayMs c * 2) kMaxRetryDelayMs\<rparr>
               else c))"

definition connecting :: "int \<Rightarrow> connector \<Rightarrow> connector outcome" where
  "connecting sockfd c =
     (let c = c\<lparr>cn_state := kConnecting\<rparr>
      in asserting (cn_channel c = None)
           (Inr (c\<lparr>cn_channel := Some \<lparr>cc_fd = sockfd, cc_writing = True, cc_registered = True\<rparr>\<rparr>)))"

definition EINPROGRESS :: int where "EINPROGRESS = 115"
definition EISCONN :: int where "EISCONN = 106"
definition EINTR :: int where "EINTR = 4"
definition EAGAIN :: int where "EAGAIN = 11"
definition EADDRINUSE :: int where "EADDRINUSE = 98"
definition EADDRNOTAVAIL :: int where "EADDRNOTAVAIL = 99"
definition ECONNREFUSED :: int where "ECONNREFUSED = 111"
definition ENETUNREACH :: int where "ENETUNREACH = 101"

text \<open>The other error numbers are logged with \<open>LOG_SYSERR\<close>, which ends the process.\<close>

definition connect :: "connect_env \<Rightarrow> connector \<Rightarrow> connector outcome" where
  "connect env c =
     bind_out (createNonblockingOrDie (ce_socket env)) (\<lambda>sockfd.
       let c = c\<lparr>cn_created := cn_created c @ [sockfd]\<rparr>; savedErrno = ce_errno env
       in if savedErrno \<in> {0, EINPROGRESS, EINTR, EISCONN} then connecting sockfd c
          else if savedErrno \<in> {EAGAIN, EADDRINUSE, EADDRNOTAVAIL, ECONNREFUSED, ENETUNREACH} then retry env sockfd c
          else Inl Aborted)"

definition startInLoop :: "connect_env \<Rightarrow> connector \<Rightarrow> connector outcome" where
  "startInLoop env c =
     asserting (cn_state c = kDisconnected) (if cn_connect c then connect env c else Inr c)"

definition start :: "connect_env \<Rightarrow> bool \<Rightarrow> connector \<Rightarrow> connector outcome" where
  "start env inLoop c =
     (let c = c\<lparr>cn_connect := True\<rparr>
      in if inLoop then startInLoop env c else Inr (c\<lparr>cn_pending := cn_pending c @ [StartInLoop]\<rparr>))"

definition removeAndResetChannel :: "connector \<Rightarrow> (int \<times> connector) outcome" where
  "removeAndResetChannel c =
     (case cn_channel c of
        None \<Rightarrow> Inl UndefinedBehaviour
      | Some ch \<Rightarrow> Inr (cc_fd ch, c\<lparr>cn_channel := Some (ch\<lparr>cc_writing := False, cc_registered := False\<rparr>),
                                     cn_pending := cn_pending c @ [ResetChannel]\<rparr>))"

definition resetChannel :: "connector \<Rightarrow> connector" where
  "resetChannel c = c\<lparr>cn_channel := None\<rparr>"

definition stop :: "connector \<Rightarrow> connector" where
  "stop c = c\<lparr>cn_connect := False, cn_pending := cn_pending c @ [StopInLoop]\<rparr>"

definition stopInLoop :: "connect_env \<Rightarrow> connector \<Rightarrow> connector outcome" where
  "stopInLoop env c =
     (if cn_state c = kConnecting
      then bind_out (removeAndResetChannel (c\<lparr>cn_state := kDisconnected\<rparr>)) (\<lambda>(sockfd, c). retry env sockfd c)
      else Inr c)"

definition restart :: "connect_env \<Rightarrow> connector \<Rightarrow> connector outcome" where
  "restart env c =
     startInLoop env (c\<lparr>cn_state := kDisconnected, cn_retryDelayMs := kInitRetryDelayMs, cn_connect := True\<rparr>)"

definition socket_error :: "connect_env \<Rightarrow> int" where
  "socket_error env = (case ce_sockopt env of (ret, errno, optval) \<Rightarrow> getSocketError ret errno optval)"

definition handleWrite_connector :: "connect_env \<Rightarrow> connector \<Rightarrow> connector outcome" where
  "handleWrite_connector env c =
     (if cn_state c = kConnecting
      then bind_out (removeAndResetChannel c) (\<lambda>(sockfd, c).
             if socket_error env \<noteq> 0 then retry env sockfd c
             else bind_out (isSelfConnect (ce_sockname env) (ce_peername env)) (\<lambda>self.
               if self then retry env sockfd c
               else let c = c\<lparr>cn_state := kConnected\<rparr>
                    in if cn_connect c then Inr (c\<lparr>cn_delivered := cn_delivered c @ [sockfd]\<rparr>)
                       else close_socket env sockfd c))
      else asserting (cn_state c = kDisconnected) (Inr c))"

definition handleError_connector :: "connect_env \<Rightarrow> connector \<Rightarrow> connector outcome" where
  "handleError_connector env c =
     (if cn_state c = kConnecting
      then bind_out (removeAndResetChannel c) (\<lambda>(sockfd, c). retry env sockfd c)
      else Inr c)"

section \<open>Events\<close>

datatype connector_event = CnStart connect_env bool | CnStop | CnRestart connect_env | CnFunctor connect_env
  | CnTimer connect_env | CnWritable connect_env | CnError connect_env

definition run_functor :: "connect_env \<Rightarrow> connector_functor \<Rightarrow> connector \<Rightarrow> connector outcome" where
  "run_functor env f c =
     (case f of StartInLoop \<Rightarrow> startInLoop env c | StopInLoop \<Rightarrow> stopInLoop env c | ResetChannel \<Rightarrow> Inr (resetChannel c))"

fun connector_step :: "connector \<Rightarrow> connector_event \<Rightarrow> connector outcome" where
  "connector_step c (CnStart env inLoop) = start env inLoop c"
| "connector_step c CnStop = Inr (stop c)"
| "connector_step c (CnRestart env) = restart env c"
| "connector_step c (CnFunctor env) =
     (case cn_pending c of [] \<Rightarrow> Inr c | f # fs \<Rightarrow> run_functor env f (c\<lparr>cn_pending := fs\<rparr>))"
| "connector_step c (CnTimer env) =
     (case cn_timers c of [] \<Rightarrow> Inr c | d # ds \<Rightarrow> startInLoop env (c\<lparr>cn_timers := ds\<rparr>))"
| "connector_step c (CnWritable env) = handleWrite_connector env c"
| "connector_step c (CnError env) = handleError_connector env c"

section \<open>Invariant and contract\<close>

definition registered_channel :: "connector \<Rightarrow> connect_channel option" where
  "registered_channel c = (case cn_channel c of Some ch \<Rightarrow> if cc_registered ch then Some ch else None | None \<Rightarrow> None)"

text \<open>The part of the invariant that does not depend on a descriptor being in use.\<close>

definition connector_base :: "connector \<Rightarrow> bool" where
  "connector_base c \<longleftrightarrow>
     kInitRetryDelayMs \<le> cn_retryDelayMs c \<and> cn_retryDelayMs c \<le> kMaxRetryDelayMs
     \<and> (\<forall>d \<in> set (cn_timers c). kInitRetryDelayMs \<le> d \<and> d \<le> kMaxRetryDelayMs)
     \<and> (ResetChannel \<in> set (cn_pending c) \<longleftrightarrow> cn_channel c \<noteq> None \<and> registered_channel c = None)
     \<and> count_list (cn_pending c) ResetChannel \<le> 1 \<and> count_list (cn_pending c) StartInLoop \<le> 1
     \<and> ResetChannel \<notin> set (dropWhile (\<lambda>f. f \<noteq> StartInLoop) (cn_pending c))"

definition connector_inv :: "connector \<Rightarrow> bool" where
  "connector_inv c \<longleftrightarrow> connector_base c
     \<and> (registered_channel c \<noteq> None \<longleftrightarrow> cn_state c = kConnecting)
     \<and> (cn_timers c \<noteq> [] \<longrightarrow> cn_state c = kDisconnected \<and> StartInLoop \<notin> set (cn_pending c) \<and> length (cn_timers c) = 1)
     \<and> (StartInLoop \<in> set (cn_pending c) \<longrightarrow> cn_state c = kDisconnected)
     \<and> mset (cn_created c) = mset (cn_closed c) + mset (cn_delivered c)
         + (case registered_channel c of Some ch \<Rightarrow> {#cc_fd ch#} | None \<Rightarrow> {#})"

text \<open>A descriptor in the hands of the running operation.\<close>

definition in_flight :: "int \<Rightarrow> connector \<Rightarrow> bool" where
  "in_flight fd c \<longleftrightarrow> connector_base c \<and> registered_channel c = None \<and> cn_timers c = [] \<and> StartInLoop \<notin> set (cn_pending c)
     \<and> mset (cn_created c) = mset (cn_closed c) + mset (cn_delivered c) + {#fd#}"

definition sys_ok :: "connect_env \<Rightarrow> bool" where
  "sys_ok env \<longleftrightarrow> ce_socket env \<ge> 0 \<and> ce_close env \<ge> 0 \<and> ce_sockname env \<noteq> None \<and> ce_peername env \<noteq> None
     \<and> ce_errno env \<in> {0, EINPROGRESS, EINTR, EISCONN, EAGAIN, EADDRINUSE, EADDRNOTAVAIL, ECONNREFUSED, ENETUNREACH}"

text \<open>
  The contract. System calls fail only in the ways the code expects. A connector is started when
  it is disconnected, with no attempt pending, and restarted after a connection was delivered; in
  the loop thread it is started only when the old channel object is gone. The loop runs its queue
  before it handles timers, and reports events of a registered channel only.
\<close>

fun connector_env :: "connector \<Rightarrow> connector_event \<Rightarrow> bool" where
  "connector_env c (CnStart env inLoop) \<longleftrightarrow> sys_ok env \<and> cn_state c = kDisconnected \<and> cn_timers c = []
     \<and> StartInLoop \<notin> set (cn_pending c) \<and> (inLoop \<longrightarrow> cn_channel c = None)"
| "connector_env c CnStop \<longleftrightarrow> True"
| "connector_env c (CnRestart env) \<longleftrightarrow> sys_ok env \<and> cn_state c = kConnected \<and> cn_channel c = None"
| "connector_env c (CnFunctor env) \<longleftrightarrow> sys_ok env"
| "connector_env c (CnTimer env) \<longleftrightarrow> sys_ok env \<and> ResetChannel \<notin> set (cn_pending c)"
| "connector_env c (CnWritable env) \<longleftrightarrow> sys_ok env \<and> registered_channel c \<noteq> None"
| "connector_env c (CnError env) \<longleftrightarrow> sys_ok env \<and> registered_channel c \<noteq> None"

section \<open>Every operation keeps the invariant\<close>

lemma retry_ok:
  assumes "in_flight fd c" and "sys_ok env"
  shows "\<exists>c'. retry env fd c = Inr c' \<and> connector_inv c'"
  using assms
  by (auto simp: retry_def close_socket_def sockets_close_def sys_ok_def in_flight_def connector_inv_def connector_base_def
      registered_channel_def Let_def kInitRetryDelayMs_def kMaxRetryDelayMs_def)

lemma count_list_zero: "count_list xs x = 0 \<longleftrightarrow> x \<notin> set xs"
  by (simp add: count_list_0_iff)

lemma remove_in_flight:
  assumes "connector_inv c" and "registered_channel c = Some ch"
  shows "\<exists>c'. removeAndResetChannel (c\<lparr>cn_state := s\<rparr>) = Inr (cc_fd ch, c') \<and> in_flight (cc_fd ch) c'
    \<and> cn_state c' = s \<and> cn_connect c' = cn_connect c"
proof -
  have ch: "cn_channel c = Some ch" "cc_registered ch" using assms(2) by (auto simp: registered_channel_def split: option.splits if_splits)
  have no: "ResetChannel \<notin> set (cn_pending c)" "StartInLoop \<notin> set (cn_pending c)" "cn_timers c = []"
    using assms by (auto simp: connector_inv_def connector_base_def)
  have "dropWhile (\<lambda>f. f \<noteq> StartInLoop) (cn_pending c @ [ResetChannel]) = []"
    using no(2) by (auto simp: dropWhile_eq_Nil_conv)
  then show ?thesis
    using assms ch no
    by (auto simp: removeAndResetChannel_def in_flight_def connector_inv_def connector_base_def registered_channel_def count_list_zero)
qed

lemma connect_ok:
  assumes "connector_inv c" and "sys_ok env" and "cn_channel c = None" and "cn_timers c = []" and "StartInLoop \<notin> set (cn_pending c)"
  shows "\<exists>c'. connect env c = Inr c' \<and> connector_inv c'"
proof -
  let ?fd = "ce_socket env"
  let ?c = "c\<lparr>cn_created := cn_created c @ [?fd]\<rparr>"
  have flight: "in_flight ?fd ?c"
    using assms by (auto simp: in_flight_def connector_inv_def connector_base_def registered_channel_def)
  have "connector_inv (?c\<lparr>cn_state := kConnecting, cn_channel := Some \<lparr>cc_fd = ?fd, cc_writing = True, cc_registered = True\<rparr>\<rparr>)"
    using flight assms(3) by (auto simp: in_flight_def connector_inv_def connector_base_def registered_channel_def)
  then have "\<exists>c'. connecting ?fd ?c = Inr c' \<and> connector_inv c'" using assms(3) by (simp add: connecting_def Let_def)
  then show ?thesis
    using retry_ok [OF flight assms(2)] assms(2) by (auto simp: connect_def createNonblockingOrDie_def sys_ok_def Let_def)
qed

lemma startInLoop_ok:
  assumes "connector_inv c" and "sys_ok env" and "cn_state c = kDisconnected" and "ResetChannel \<notin> set (cn_pending c)"
    and "cn_timers c = []" and "StartInLoop \<notin> set (cn_pending c)"
  shows "\<exists>c'. startInLoop env c = Inr c' \<and> connector_inv c'"
proof -
  have "cn_channel c = None" using assms(1,3,4) by (auto simp: connector_inv_def connector_base_def)
  then show ?thesis using connect_ok [OF assms(1,2) _ assms(5,6)] assms(1,3) by (simp add: startInLoop_def)
qed

lemma stopInLoop_ok:
  assumes "connector_inv c" and "sys_ok env"
  shows "\<exists>c'. stopInLoop env c = Inr c' \<and> connector_inv c'"
proof (cases "cn_state c = kConnecting")
  case True
  then obtain ch where "registered_channel c = Some ch" using assms(1) by (auto simp: connector_inv_def)
  from remove_in_flight [OF assms(1) this, of kDisconnected] show ?thesis
    using True retry_ok [OF _ assms(2)] by (auto simp: stopInLoop_def)
qed (use assms(1) in \<open>simp add: stopInLoop_def\<close>)

lemma handle_events_ok:
  assumes "connector_inv c" and "sys_ok env" and "registered_channel c \<noteq> None"
  shows "\<exists>c'. handleWrite_connector env c = Inr c' \<and> connector_inv c'"
    "\<exists>c'. handleError_connector env c = Inr c' \<and> connector_inv c'"
proof -
  obtain ch where ch: "registered_channel c = Some ch" using assms(3) by auto
  have state: "cn_state c = kConnecting" using assms(1,3) by (auto simp: connector_inv_def)
  then have id: "c\<lparr>cn_state := kConnecting\<rparr> = c" by simp
  obtain c' where c': "removeAndResetChannel c = Inr (cc_fd ch, c')" "in_flight (cc_fd ch) c'" "cn_connect c' = cn_connect c"
    using remove_in_flight [OF assms(1) ch, of kConnecting] id by auto
  obtain self where self: "isSelfConnect (ce_sockname env) (ce_peername env) = Inr self"
    using assms(2) by (auto simp: sys_ok_def isSelfConnect_def getLocalAddr_def getPeerAddr_def)
  have "connector_inv (c'\<lparr>cn_state := kConnected, cn_delivered := cn_delivered c' @ [cc_fd ch]\<rparr>)"
    "connector_inv (c'\<lparr>cn_state := kConnected, cn_closed := cn_closed c' @ [cc_fd ch]\<rparr>)"
    using c'(2) by (auto simp: in_flight_def connector_inv_def connector_base_def registered_channel_def)
  then show "\<exists>c'. handleWrite_connector env c = Inr c' \<and> connector_inv c'"
    using state c'(1) self retry_ok [OF c'(2) assms(2)] assms(2)
    by (auto simp: handleWrite_connector_def Let_def close_socket_def sockets_close_def sys_ok_def)
  show "\<exists>c'. handleError_connector env c = Inr c' \<and> connector_inv c'"
    using state c'(1) retry_ok [OF c'(2) assms(2)] by (simp add: handleError_connector_def)
qed

lemma pop_inv:
  assumes "connector_inv c" and "cn_pending c = f # fs" and "f \<noteq> ResetChannel"
  shows "connector_inv (c\<lparr>cn_pending := fs\<rparr>)"
    "f = StartInLoop \<Longrightarrow> ResetChannel \<notin> set fs \<and> StartInLoop \<notin> set fs \<and> cn_state c = kDisconnected \<and> cn_timers c = []"
proof -
  show start: "f = StartInLoop \<Longrightarrow> ResetChannel \<notin> set fs \<and> StartInLoop \<notin> set fs \<and> cn_state c = kDisconnected \<and> cn_timers c = []"
    using assms by (auto simp: connector_inv_def connector_base_def count_list_zero)
  have "ResetChannel \<notin> set (dropWhile (\<lambda>f. f \<noteq> StartInLoop) fs)"
    using assms start by (cases "f = StartInLoop") (auto simp: connector_inv_def connector_base_def dest: set_dropWhileD)
  then show "connector_inv (c\<lparr>cn_pending := fs\<rparr>)"
    using assms by (auto simp: connector_inv_def connector_base_def registered_channel_def split: if_splits)
qed

lemma pop_reset_inv:
  assumes "connector_inv c" and "cn_pending c = ResetChannel # fs"
  shows "connector_inv (resetChannel (c\<lparr>cn_pending := fs\<rparr>))"
  using assms by (auto simp: resetChannel_def connector_inv_def connector_base_def registered_channel_def count_list_zero
      split: option.splits if_splits)

lemma functor_ok:
  assumes "connector_inv c" and "sys_ok env" and "cn_pending c = f # fs"
  shows "\<exists>c'. run_functor env f (c\<lparr>cn_pending := fs\<rparr>) = Inr c' \<and> connector_inv c'"
proof (cases f)
  case StartInLoop
  then show ?thesis
    using pop_inv [OF assms(1,3)] startInLoop_ok [OF _ assms(2), of "c\<lparr>cn_pending := fs\<rparr>"] by (simp add: run_functor_def)
next
  case StopInLoop
  then show ?thesis
    using pop_inv [OF assms(1,3)] stopInLoop_ok [OF _ assms(2), of "c\<lparr>cn_pending := fs\<rparr>"] by (simp add: run_functor_def)
next
  case ResetChannel
  then show ?thesis using pop_reset_inv [OF assms(1)] assms(3) by (simp add: run_functor_def)
qed

lemma start_ok:
  assumes "connector_inv c" and "connector_env c (CnStart env inLoop)"
  shows "\<exists>c'. start env inLoop c = Inr c' \<and> connector_inv c'"
proof (cases inLoop)
  case True
  have "connector_inv (c\<lparr>cn_connect := True\<rparr>)"
    using assms(1) by (simp add: connector_inv_def connector_base_def registered_channel_def)
  moreover have "ResetChannel \<notin> set (cn_pending c)"
    using assms True by (simp add: connector_inv_def connector_base_def)
  ultimately show ?thesis
    using startInLoop_ok [of "c\<lparr>cn_connect := True\<rparr>" env] assms(2) True by (simp add: start_def Let_def)
next
  case False
  have "dropWhile (\<lambda>f. f \<noteq> StartInLoop) (cn_pending c @ [StartInLoop]) = [StartInLoop]"
    using assms(2) by (subst dropWhile_append2) auto
  then show ?thesis
    using assms False by (simp add: start_def Let_def connector_inv_def connector_base_def registered_channel_def count_list_zero)
qed

lemma stop_ok:
  assumes "connector_inv c"
  shows "connector_inv (stop c)"
proof -
  have "ResetChannel \<notin> set (dropWhile (\<lambda>f. f \<noteq> StartInLoop) (cn_pending c @ [StopInLoop]))"
    using assms by (auto simp: connector_inv_def connector_base_def dropWhile_append)
  then show ?thesis using assms by (simp add: stop_def connector_inv_def connector_base_def registered_channel_def)
qed

lemma restart_ok:
  assumes "connector_inv c" and "connector_env c (CnRestart env)"
  shows "\<exists>c'. restart env c = Inr c' \<and> connector_inv c'"
proof -
  let ?c = "c\<lparr>cn_state := kDisconnected, cn_retryDelayMs := kInitRetryDelayMs, cn_connect := True\<rparr>"
  have no: "cn_timers c = []" "StartInLoop \<notin> set (cn_pending c)" "ResetChannel \<notin> set (cn_pending c)"
    using assms by (auto simp: connector_inv_def connector_base_def)
  have "connector_inv ?c"
    using assms by (auto simp: connector_inv_def connector_base_def registered_channel_def kInitRetryDelayMs_def kMaxRetryDelayMs_def)
  then show ?thesis using startInLoop_ok [of ?c env] assms(2) no by (simp add: restart_def)
qed

lemma timer_ok:
  assumes "connector_inv c" and "connector_env c (CnTimer env)" and "cn_timers c = d # ds"
  shows "\<exists>c'. startInLoop env (c\<lparr>cn_timers := ds\<rparr>) = Inr c' \<and> connector_inv c'"
proof -
  have "connector_inv (c\<lparr>cn_timers := ds\<rparr>)" and "ds = []"
    using assms by (auto simp: connector_inv_def connector_base_def registered_channel_def)
  then show ?thesis
    using startInLoop_ok [of "c\<lparr>cn_timers := ds\<rparr>" env] assms by (simp add: connector_inv_def)
qed

lemma connector_step_ok:
  assumes "connector_inv c" and "connector_env c e"
  shows "\<exists>c'. connector_step c e = Inr c' \<and> connector_inv c'"
proof (cases e)
  case (CnFunctor env)
  then show ?thesis using assms functor_ok [OF assms(1)] by (cases "cn_pending c") auto
next
  case (CnTimer env)
  then show ?thesis using assms timer_ok [OF assms(1)] by (cases "cn_timers c") auto
qed (use assms start_ok [OF assms(1)] stop_ok restart_ok [OF assms(1)] handle_events_ok [OF assms(1)] in auto)

interpretation connsm: safe_system connector_step connector_env connector_inv
proof unfold_locales
  fix c e c'
  assume "connector_inv c" and "connector_env c e"
  from connector_step_ok [OF this] obtain d where d: "connector_step c e = Inr d" "connector_inv d" by blast
  show "\<exists>c'. connector_step c e = Inr c'" using d by blast
  show "connector_step c e = Inr c' \<Longrightarrow> connector_inv c'" using d by simp
qed

lemma ctor_inv: "connector_inv Connector_ctor"
  by (simp add: Connector_ctor_def connector_inv_def connector_base_def registered_channel_def kInitRetryDelayMs_def kMaxRetryDelayMs_def)

section \<open>Retry delays\<close>

definition refused_env :: "int \<Rightarrow> connect_env" where
  "refused_env fd = \<lparr>ce_socket = fd, ce_errno = ECONNREFUSED, ce_close = 0, ce_sockopt = (0, 0, 0), ce_sockname = Some [], ce_peername = Some []\<rparr>"

definition accepted_env :: "int \<Rightarrow> connect_env" where
  "accepted_env fd = (refused_env fd)\<lparr>ce_errno := EINPROGRESS, ce_sockname := Some (replicate 8 (CHR 0x02)), ce_peername := Some (replicate 8 (CHR 0x03))\<rparr>"

lemma refused_attempt:
  assumes "cn_state c = kDisconnected" and "cn_connect c" and "cn_timers c = [d]" and "fd \<ge> 0"
  shows "connector_step c (CnTimer (refused_env fd)) = Inr (c\<lparr>cn_created := cn_created c @ [fd], cn_closed := cn_closed c @ [fd],
    cn_timers := [cn_retryDelayMs c], cn_retryDelayMs := min (cn_retryDelayMs c * 2) kMaxRetryDelayMs\<rparr>)"
  using assms by (simp add: startInLoop_def connect_def createNonblockingOrDie_def refused_env_def retry_def close_socket_def
      sockets_close_def Let_def EINPROGRESS_def EISCONN_def EINTR_def EAGAIN_def EADDRINUSE_def EADDRNOTAVAIL_def ECONNREFUSED_def)

lemma backoff_run:
  assumes "\<forall>fd \<in> set fds. fd \<ge> 0" and "cn_state c = kDisconnected" and "cn_connect c" and "cn_timers c = [min (500 * 2 ^ n) 30000]"
    and "cn_retryDelayMs c = min (500 * 2 ^ Suc n) 30000"
  shows "\<exists>c'. run_events connector_step c (map (\<lambda>fd. CnTimer (refused_env fd)) fds) = Inr c'
    \<and> cn_timers c' = [min (500 * 2 ^ (n + length fds)) 30000] \<and> cn_closed c' = cn_closed c @ fds"
  using assms
proof (induction fds arbitrary: c n)
  case (Cons fd fds)
  let ?c = "c\<lparr>cn_created := cn_created c @ [fd], cn_closed := cn_closed c @ [fd],
    cn_timers := [cn_retryDelayMs c], cn_retryDelayMs := min (cn_retryDelayMs c * 2) kMaxRetryDelayMs\<rparr>"
  have step: "connector_step c (CnTimer (refused_env fd)) = Inr ?c" using Cons.prems by (intro refused_attempt) auto
  have "\<exists>c'. run_events connector_step ?c (map (\<lambda>fd. CnTimer (refused_env fd)) fds) = Inr c'
    \<and> cn_timers c' = [min (500 * 2 ^ (Suc n + length fds)) 30000] \<and> cn_closed c' = cn_closed ?c @ fds"
    using Cons.prems by (intro Cons.IH) (auto simp: kMaxRetryDelayMs_def min_def)
  then show ?case using step by (simp del: connector_step.simps)
qed simp

section \<open>Properties\<close>

text \<open>
  C10. A connector whose environment keeps the contract never fails an assertion, follows a null
  pointer or aborts, whatever the order of events. At every point at most one retry timer is set,
  every delay lies between 500 ms and 30 s, the channel is registered exactly while the connector
  is connecting, and every descriptor it created has been closed once, handed to the client once,
  or is the one in the registered channel: none is leaked and none is closed twice.
\<close>

theorem connector_run_safe:
  assumes "env_obeys connector_step connector_env Connector_ctor es"
  shows "\<exists>c. run_events connector_step Connector_ctor es = Inr c
    \<and> mset (cn_created c) = mset (cn_closed c) + mset (cn_delivered c)
        + (case registered_channel c of Some ch \<Rightarrow> {#cc_fd ch#} | None \<Rightarrow> {#})
    \<and> length (cn_timers c) \<le> 1 \<and> (\<forall>d \<in> set (cn_timers c). 500 \<le> d \<and> d \<le> 30000)
    \<and> (registered_channel c \<noteq> None \<longleftrightarrow> cn_state c = kConnecting)"
proof -
  obtain c where c: "run_events connector_step Connector_ctor es = Inr c" and inv: "connector_inv c"
    using connsm.run_safe [OF ctor_inv assms] by blast
  have "length (cn_timers c) \<le> 1" using inv by (cases "cn_timers c = []") (auto simp: connector_inv_def)
  then show ?thesis using c inv by (simp add: connector_inv_def connector_base_def kInitRetryDelayMs_def kMaxRetryDelayMs_def)
qed

text \<open>A refused attempt, a retry after the timer, and a connection that is delivered.\<close>

lemmas connector_eval = Connector_ctor_def refused_env_def accepted_env_def sys_ok_def start_def startInLoop_def connect_def
  createNonblockingOrDie_def connecting_def retry_def close_socket_def sockets_close_def handleWrite_connector_def removeAndResetChannel_def
  socket_error_def getSocketError_def Let_def registered_channel_def run_functor_def resetChannel_def
  EINPROGRESS_def EISCONN_def EINTR_def EAGAIN_def EADDRINUSE_def EADDRNOTAVAIL_def ECONNREFUSED_def ENETUNREACH_def
  kInitRetryDelayMs_def kMaxRetryDelayMs_def

theorem connector_run_safe_witness:
  "\<exists>c. run_events connector_step Connector_ctor
      [CnStart (refused_env 7) True, CnTimer (accepted_env 8), CnWritable (accepted_env 0), CnFunctor (accepted_env 0)] = Inr c
    \<and> mset (cn_created c) = mset (cn_closed c) + mset (cn_delivered c)
        + (case registered_channel c of Some ch \<Rightarrow> {#cc_fd ch#} | None \<Rightarrow> {#})
    \<and> length (cn_timers c) \<le> 1 \<and> (\<forall>d \<in> set (cn_timers c). 500 \<le> d \<and> d \<le> 30000)
    \<and> (registered_channel c \<noteq> None \<longleftrightarrow> cn_state c = kConnecting)"
  by (rule connector_run_safe) code_simp

text \<open>
  The retry delay doubles from half a second up to half a minute: after a start and any number
  \<open>n\<close> of further refused attempts every socket used has been closed, in order, and the one pending
  timer is set to the smaller of \<open>500 * 2 ^ n\<close> and 30000 milliseconds.
\<close>

lemma connector_backoff:
  assumes "fd \<ge> 0" and "\<forall>fd \<in> set fds. fd \<ge> 0"
  shows "\<exists>c. run_events connector_step Connector_ctor
      (CnStart (refused_env fd) True # map (\<lambda>fd. CnTimer (refused_env fd)) fds) = Inr c
    \<and> cn_timers c = [min (500 * 2 ^ length fds) 30000] \<and> cn_closed c = fd # fds"
proof -
  obtain c where c: "connector_step Connector_ctor (CnStart (refused_env fd) True) = Inr c" and
    props: "cn_state c = kDisconnected" "cn_connect c" "cn_timers c = [500]" "cn_retryDelayMs c = 1000" "cn_closed c = [fd]"
    using assms(1) by (simp add: connector_eval)
  show ?thesis using backoff_run [OF assms(2) props(1,2), of 0] props c by (simp del: connector_step.simps)
qed

end
