(* ===== verification/TcpClients.thy ===== *)
theory TcpClients
  imports TcpConnections Connectors
begin

text \<open>
  \<open>src/net/TcpClient.h\<close> and \<open>src/net/TcpClient.cc\<close>: a client that opens one connection at a time with
  a \<open>Connector\<close>, and opens it again after it was closed when it was told to. The model composes the
  connector of \<open>Connectors\<close> with the connections of \<open>TcpConnections\<close>. The functors of the connector
  and of the connections wait in the same queue of the loop; here they are two lists, and events may
  run them in any interleaving.

  The text of an address, \<open>InetAddress::toIpPort\<close>, is not defined in the repository and is an
  argument, like the results of system calls and the addresses of new objects.
\<close>

section \<open>State\<close>

text \<open>
  \<open>cl_connector\<close> is the connector while it exists; \<open>cl_holds\<close> says that the timer set by the
  destructor keeps it. \<open>cl_detached\<close> holds the connections whose close callback is
  \<open>detail::removeConnection\<close>; the others call the client. \<open>cl_trace\<close> is what the callbacks of the
  user see.
\<close>

datatype client_trace = CUp nat | CDown nat | CData nat string

record tcp_client =
  cl_name :: string
  cl_retry :: bool
  cl_connect :: bool
  cl_nextConnId :: int
  cl_connection :: "nat option"
  cl_connector :: "connector option"
  cl_holds :: bool
  cl_alive :: bool
  cl_detached :: "nat set"
  cl_trace :: "client_trace list"

type_synonym client_world = "tcp_client net_world"

definition put_client :: "tcp_client \<Rightarrow> client_world \<Rightarrow> client_world" where
  "put_client s w = w\<lparr>nw_rest := s\<rparr>"

definition TcpClient_ctor :: "string \<Rightarrow> tcp_client" where
  "TcpClient_ctor nameArg =
     \<lparr>cl_name = nameArg, cl_retry = False, cl_connect = True, cl_nextConnId = 1, cl_connection = None,
      cl_connector = Some Connector_ctor, cl_holds = False, cl_alive = True, cl_detached = {}, cl_trace = []\<rparr>"

text \<open>A call of the connector; without a connector it follows a dangling pointer.\<close>

definition on_connector :: "(connector \<Rightarrow> connector outcome) \<Rightarrow> client_world \<Rightarrow> client_world outcome" where
  "on_connector f w =
     (case cl_connector (nw_rest w) of
        None \<Rightarrow> Inl UndefinedBehaviour
      | Some cn \<Rightarrow> bind_out (f cn) (\<lambda>cn. Inr (put_client ((nw_rest w)\<lparr>cl_connector := Some cn\<rparr>) w)))"

section \<open>Operations\<close>

definition enableRetry :: "client_world \<Rightarrow> client_world" where
  "enableRetry w = put_client ((nw_rest w)\<lparr>cl_retry := True\<rparr>) w"

definition connect_client :: "connect_env \<Rightarrow> int \<Rightarrow> client_world \<Rightarrow> client_world outcome" where
  "connect_client env tid w =
     on_connector (start env (isInLoopThread tid w)) (put_client ((nw_rest w)\<lparr>cl_connect := True\<rparr>) w)"

definition disconnect_client :: "int \<Rightarrow> client_world \<Rightarrow> client_world outcome" where
  "disconnect_client tid w =
     (let w = put_client ((nw_rest w)\<lparr>cl_connect := False\<rparr>) w
      in case cl_connection (nw_rest w) of None \<Rightarrow> Inr w | Some i \<Rightarrow> shutdown tid i w)"

definition stop_client :: "client_world \<Rightarrow> client_world outcome" where
  "stop_client w = on_connector (\<lambda>cn. Inr (stop cn)) (put_client ((nw_rest w)\<lparr>cl_connect := False\<rparr>) w)"

definition removeConnection_detail :: "int \<Rightarrow> nat \<Rightarrow> client_world \<Rightarrow> client_world" where
  "removeConnection_detail tid i w = queueInLoop tid (ConnectDestroyed i) w"

definition removeConnection_client :: "connect_env \<Rightarrow> int \<Rightarrow> nat \<Rightarrow> client_world \<Rightarrow> client_world outcome" where
  "removeConnection_client env tid i w =
     defined_if (cl_alive (nw_rest w))
      (bind_out (assertInLoopThread tid w) (\<lambda>w.
       asserting (cl_connection (nw_rest w) = Some i)
        (let w = queueInLoop tid (ConnectDestroyed i) (put_client ((nw_rest w)\<lparr>cl_connection := None\<rparr>) w)
         in if cl_retry (nw_rest w) \<and> cl_connect (nw_rest w) then on_connector (restart env) w else Inr w)))"

text \<open>
  The callbacks of a connection: those of the user, here the default ones observed, and the close
  callback, which is the client's until the client is destroyed.
\<close>

definition observe :: "client_trace \<Rightarrow> client_world \<Rightarrow> client_world" where
  "observe e w = put_client ((nw_rest w)\<lparr>cl_trace := cl_trace (nw_rest w) @ [e]\<rparr>) w"

definition client_close :: "connect_env \<Rightarrow> int \<Rightarrow> nat \<Rightarrow> client_world \<Rightarrow> client_world outcome" where
  "client_close env tid i w =
     (if i \<in> cl_detached (nw_rest w) then Inr (removeConnection_detail tid i w) else removeConnection_client env tid i w)"

definition client_user :: "connect_env \<Rightarrow> int \<Rightarrow> tcp_client net_user" where
  "client_user env tid =
     \<lparr>nu_connection = (\<lambda>i w. with_conn i (\<lambda>c. Inr (observe (if connected c then CUp i else CDown i) w)) w),
      nu_message = (\<lambda>i t w. with_conn i (\<lambda>c. bind_out (retrieveAllAsString (tc_inputBuffer c)) (\<lambda>(s, buf).
        Inr (observe (CData i s) (put_conn i (c\<lparr>tc_inputBuffer := buf\<rparr>) w)))) w),
      nu_writeComplete = None,
      nu_close = client_close env tid\<rparr>"

text \<open>The name of a connection is cut off after 31 characters behind the name of the client.\<close>

definition connName_client :: "(string \<Rightarrow> string) \<Rightarrow> string \<Rightarrow> string \<Rightarrow> int \<Rightarrow> string" where
  "connName_client ipPort name peerAddr k =
     name @ c_str (snprintf_into (replicate 32 NUL) ('':'' @ c_str (ipPort peerAddr) @ ''#'' @ show_int k))"

definition newConnection_client ::
  "(string \<Rightarrow> string) \<Rightarrow> connect_env \<Rightarrow> int \<Rightarrow> new_object \<Rightarrow> int \<Rightarrow> client_world \<Rightarrow> client_world outcome" where
  "newConnection_client ipPort env tid ob sockfd w =
     bind_out (assertInLoopThread tid w) (\<lambda>w.
     bind_out (getPeerAddr (ce_peername env)) (\<lambda>peerAddr.
     let s = nw_rest w;
         connName = connName_client ipPort (cl_name s) peerAddr (cl_nextConnId s)
     in defined_if (cl_nextConnId s < 2147483647)
       (bind_out (getLocalAddr (ce_sockname env)) (\<lambda>localAddr.
          let w = TcpConnection_ctor (no_conn ob) (no_channel ob) (no_logHup ob) (no_tied ob) connName sockfd
                    (no_reads ob) (no_writes ob) (no_shutdown ob)
                    (put_client (s\<lparr>cl_nextConnId := cl_nextConnId s + 1, cl_connection := Some (no_conn ob)\<rparr>) w)
          in connectEstablished (client_user env tid) tid (no_conn ob) w))))"

text \<open>\<open>Connector::handleWrite\<close> with the client's callback, which is its last call.\<close>

definition connector_writable ::
  "(string \<Rightarrow> string) \<Rightarrow> connect_env \<Rightarrow> int \<Rightarrow> new_object \<Rightarrow> client_world \<Rightarrow> client_world outcome" where
  "connector_writable ipPort env tid ob w =
     (case cl_connector (nw_rest w) of
        None \<Rightarrow> Inl UndefinedBehaviour
      | Some cn \<Rightarrow> bind_out (handleWrite_connector env cn) (\<lambda>cn'.
          let w = put_client ((nw_rest w)\<lparr>cl_connector := Some cn'\<rparr>) w
          in if cn_delivered cn' = cn_delivered cn then Inr w
             else defined_if (cl_alive (nw_rest w)) (newConnection_client ipPort env tid ob (last (cn_delivered cn')) w)))"

definition setCloseCallback_detail :: "nat \<Rightarrow> client_world \<Rightarrow> client_world" where
  "setCloseCallback_detail i w = put_client ((nw_rest w)\<lparr>cl_detached := insert i (cl_detached (nw_rest w))\<rparr>) w"

text \<open>
  The destructor. \<open>unique\<close> says that the client held the only reference to its connection. At the
  end the members are destroyed; the connector goes with them unless the timer keeps it.
\<close>

definition release_connector :: "client_world \<Rightarrow> client_world outcome" where
  "release_connector w =
     (case cl_connector (nw_rest w) of
        None \<Rightarrow> Inr w
      | Some cn \<Rightarrow> bind_out (Connector_dtor cn) (\<lambda>_. Inr (put_client ((nw_rest w)\<lparr>cl_connector := None\<rparr>) w)))"

definition TcpClient_dtor :: "int \<Rightarrow> bool \<Rightarrow> client_world \<Rightarrow> client_world outcome" where
  "TcpClient_dtor tid unique w =
     bind_out
       (case cl_connection (nw_rest w) of
          Some i \<Rightarrow>
            bind_out (runInLoop (\<lambda>_ w. Inr (setCloseCallback_detail i w)) tid (SetCloseCallback i) w) (\<lambda>w.
            bind_out (if unique then forceClose tid i w else Inr w) release_connector)
        | None \<Rightarrow>
            bind_out (on_connector (\<lambda>cn. Inr (stop cn)) w) (\<lambda>w. Inr (put_client ((nw_rest w)\<lparr>cl_holds := True\<rparr>) w)))
       (\<lambda>w. Inr (put_client ((nw_rest w)\<lparr>cl_connection := None, cl_alive := False\<rparr>) w))"

text \<open>The timer set by the destructor: \<open>removeConnector\<close> does nothing, and the reference goes.\<close>

definition removeConnector :: "client_world \<Rightarrow> client_world outcome" where
  "removeConnector w =
     (if cl_holds (nw_rest w)
      then bind_out (release_connector w) (\<lambda>w. Inr (put_client ((nw_rest w)\<lparr>cl_holds := False\<rparr>) w))
      else Inr w)"

definition run_client :: "tcp_client net_user \<Rightarrow> int \<Rightarrow> net_functor \<Rightarrow> client_world \<Rightarrow> client_world outcome" where
  "run_client u tid f w =
     (case f of SetCloseCallback i \<Rightarrow> Inr (setCloseCallback_detail i w) | _ \<Rightarrow> run_conn u tid f w)"

section \<open>Events\<close>

datatype client_event =
    ClConnect connect_env int | ClDisconnect int | ClStop | ClEnableRetry
  | ClWritable connect_env new_object | ClError connect_env | ClFunctor connect_env | ClTimer connect_env
  | ClRead connect_env nat timestamp | ClPending connect_env | ClDestroy bool | ClRelease

fun client_step :: "(string \<Rightarrow> string) \<Rightarrow> client_world \<Rightarrow> client_event \<Rightarrow> client_world outcome" where
  "client_step ipPort w (ClConnect env tid) = connect_client env tid w"
| "client_step ipPort w (ClDisconnect tid) = disconnect_client tid w"
| "client_step ipPort w ClStop = stop_client w"
| "client_step ipPort w ClEnableRetry = Inr (enableRetry w)"
| "client_step ipPort w (ClWritable env ob) = connector_writable ipPort env (el_threadId w) ob w"
| "client_step ipPort w (ClError env) = on_connector (handleError_connector env) w"
| "client_step ipPort w (ClFunctor env) = on_connector (\<lambda>cn. connector_step cn (CnFunctor env)) w"
| "client_step ipPort w (ClTimer env) = on_connector (\<lambda>cn. connector_step cn (CnTimer env)) w"
| "client_step ipPort w (ClRead env i t) = handleRead (client_user env (el_threadId w)) (el_threadId w) i t w"
| "client_step ipPort w (ClPending env) = doPendingFunctors (run_client (client_user env (el_threadId w)) (el_threadId w)) w"
| "client_step ipPort w (ClDestroy unique) = TcpClient_dtor (el_threadId w) unique w"
| "client_step ipPort w ClRelease = removeConnector w"

text \<open>
  The contract. The client is used while it exists, and destroyed in the loop thread when no functor
  of its connector is queued. A connection is opened when the connector is idle. The kernel reports
  events of registered descriptors and gives new descriptors that are not in use; objects have new
  addresses. A connection becomes readable only after the loop has run what the connector queued
  when it delivered it. The timer of the destructor runs after all functors of the connector.
\<close>

definition connector_allows :: "client_world \<Rightarrow> connector_event \<Rightarrow> bool" where
  "connector_allows w e \<longleftrightarrow> (case cl_connector (nw_rest w) of None \<Rightarrow> False | Some cn \<Rightarrow> connector_env cn e)"

definition readable_env :: "connect_env \<Rightarrow> nat \<Rightarrow> client_world \<Rightarrow> bool" where
  "readable_env env i w \<longleftrightarrow> sys_ok env
     \<and> (case nw_conns w i of None \<Rightarrow> False | Some c \<Rightarrow>
          (case pl_heap (el_poller w) (tc_channel c) of None \<Rightarrow> False | Some ch \<Rightarrow> isReading ch)
          \<and> (case sk_reads c (sk_nreads c) of ReadError e \<Rightarrow> False
             | ReadBytes bs \<Rightarrow> length bs \<le> readv_capacity (tc_inputBuffer c)
                 \<and> room_for (writableBytes (tc_inputBuffer c) + kExtraBuf) (tc_inputBuffer c)))
     \<and> (case cl_connector (nw_rest w) of None \<Rightarrow> True | Some cn \<Rightarrow> ResetChannel \<notin> set (cn_pending cn))"

fun client_env :: "client_world \<Rightarrow> client_event \<Rightarrow> bool" where
  "client_env w (ClConnect env tid) \<longleftrightarrow> cl_alive (nw_rest w) \<and> connector_allows w (CnStart env (isInLoopThread tid w))"
| "client_env w (ClDisconnect tid) \<longleftrightarrow> cl_alive (nw_rest w)"
| "client_env w ClStop \<longleftrightarrow> cl_alive (nw_rest w)"
| "client_env w ClEnableRetry \<longleftrightarrow> cl_alive (nw_rest w)"
| "client_env w (ClWritable env ob) \<longleftrightarrow> connector_allows w (CnWritable env)
     \<and> (case cl_connector (nw_rest w) of None \<Rightarrow> False | Some cn \<Rightarrow>
         (case registered_channel cn of None \<Rightarrow> False | Some ch \<Rightarrow>
            0 \<le> cc_fd ch \<and> map_of (pl_channels (el_poller w)) (cc_fd ch) = None))
     \<and> nw_conns w (no_conn ob) = None \<and> pl_heap (el_poller w) (no_channel ob) = None \<and> 0 \<le> no_shutdown ob
     \<and> cl_nextConnId (nw_rest w) < 2147483647"
| "client_env w (ClError env) \<longleftrightarrow> connector_allows w (CnError env)"
| "client_env w (ClFunctor env) \<longleftrightarrow> connector_allows w (CnFunctor env)"
| "client_env w (ClTimer env) \<longleftrightarrow> connector_allows w (CnTimer env)"
| "client_env w (ClRead env i t) \<longleftrightarrow> readable_env env i w"
| "client_env w (ClPending env) \<longleftrightarrow> True"
| "client_env w (ClDestroy unique) \<longleftrightarrow> cl_alive (nw_rest w)
     \<and> (cl_connection (nw_rest w) \<noteq> None \<longrightarrow> (case cl_connector (nw_rest w) of None \<Rightarrow> True | Some cn \<Rightarrow> cn_pending cn = []))"
| "client_env w ClRelease \<longleftrightarrow> (case cl_connector (nw_rest w) of None \<Rightarrow> True | Some cn \<Rightarrow> cn_pending cn = [] \<and> cn_channel cn = None)"

section \<open>The invariant\<close>

definition open_conn :: "tcp_connection \<Rightarrow> bool" where
  "open_conn c \<longleftrightarrow> tc_state c = StateE.kConnected \<or> tc_state c = StateE.kDisconnecting"

fun subject :: "client_trace \<Rightarrow> nat" where
  "subject (CUp i) = i"
| "subject (CDown i) = i"
| "subject (CData i s) = i"

definition about :: "nat \<Rightarrow> client_trace list \<Rightarrow> client_trace list" where
  "about i es = filter (\<lambda>e. subject e = i) es"

text \<open>What the user should have seen of a connection: up, all its data in order, and down at its end.\<close>

definition session :: "nat \<Rightarrow> tcp_connection \<Rightarrow> client_trace list" where
  "session i c = CUp i # map (CData i) (filter (\<lambda>b. b \<noteq> []) (reads_of c)) @ (if open_conn c then [] else [CDown i])"

definition functor_conn :: "net_functor \<Rightarrow> nat option" where
  "functor_conn f = (case f of ShutdownInLoop i \<Rightarrow> Some i | ForceCloseInLoop i \<Rightarrow> Some i | ConnectDestroyed i \<Rightarrow> Some i | _ \<Rightarrow> None)"

definition conn_view :: "net_functor list \<Rightarrow> client_world \<Rightarrow> nat \<Rightarrow> tcp_connection \<Rightarrow> bool" where
  "conn_view q w i c \<longleftrightarrow>
     (\<exists>ch. pl_heap (el_poller w) (tc_channel c) = Some ch
        \<and> (if open_conn c
           then registered (el_poller w) (tc_channel c) \<and> ConnectDestroyed i \<notin> set q
             \<and> (cl_connection (nw_rest w) = Some i \<or> i \<in> cl_detached (nw_rest w))
           else tc_state c = StateE.kDisconnected \<and> \<not> isReading ch \<and> count_list q (ConnectDestroyed i) \<le> 1
             \<and> (ConnectDestroyed i \<in> set q \<longleftrightarrow> registered (el_poller w) (tc_channel c))))
     \<and> buffer_inv (tc_inputBuffer c) \<and> bytes_of (tc_inputBuffer c) = [] \<and> 0 \<le> sk_shutdownResult c
     \<and> about i (cl_trace (nw_rest w)) = session i c"

definition functor_ok :: "client_world \<Rightarrow> net_functor \<Rightarrow> bool" where
  "functor_ok w f \<longleftrightarrow> (\<exists>i. functor_conn f = Some i \<and> nw_conns w i \<noteq> None \<and> (f = ForceCloseInLoop i \<longrightarrow> i \<in> cl_detached (nw_rest w)))"

text \<open>The connections, when \<open>q\<close> is what is still to be run.\<close>

definition conns_inv :: "net_functor list \<Rightarrow> client_world \<Rightarrow> bool" where
  "conns_inv q w \<longleftrightarrow> poller_inv (el_poller w)
     \<and> (\<forall>i j c d. nw_conns w i = Some c \<longrightarrow> nw_conns w j = Some d \<longrightarrow> tc_channel c = tc_channel d \<longrightarrow> i = j)
     \<and> (\<forall>i. case nw_conns w i of None \<Rightarrow> about i (cl_trace (nw_rest w)) = [] | Some c \<Rightarrow> conn_view q w i c)
     \<and> (\<forall>f \<in> set q. functor_ok w f)
     \<and> (\<forall>i. cl_connection (nw_rest w) = Some i \<longrightarrow> i \<notin> cl_detached (nw_rest w) \<and> (\<exists>c. nw_conns w i = Some c \<and> open_conn c))
     \<and> cl_detached (nw_rest w) \<subseteq> dom (nw_conns w)"

text \<open>The client and its connector.\<close>

definition link_inv :: "tcp_client \<Rightarrow> bool" where
  "link_inv s \<longleftrightarrow> (cl_alive s \<or> cl_connection s = None) \<and> (cl_holds s \<longrightarrow> \<not> cl_alive s)
     \<and> (case cl_connector s of None \<Rightarrow> \<not> cl_alive s
        | Some cn \<Rightarrow> connector_inv cn \<and> (cl_alive s \<or> \<not> cn_connect cn)
            \<and> (cl_connection s \<noteq> None \<longrightarrow> cn_state cn = connector_state.kConnected))"

definition client_inv :: "client_world \<Rightarrow> bool" where
  "client_inv w \<longleftrightarrow> \<not> el_eventHandling w \<and> conns_inv (el_pendingFunctors w) w \<and> link_inv (nw_rest w)"

lemma put_client_simps [simp]:
  "nw_rest (put_client s w) = s" "nw_conns (put_client s w) = nw_conns w" "el_poller (put_client s w) = el_poller w"
  "el_pendingFunctors (put_client s w) = el_pendingFunctors w" "el_threadId (put_client s w) = el_threadId w"
  "el_eventHandling (put_client s w) = el_eventHandling w" "put_client s (put_client t w) = put_client s w"
  by (simp_all add: put_client_def)

lemma observe_simps [simp]:
  "nw_rest (observe e w) = (nw_rest w)\<lparr>cl_trace := cl_trace (nw_rest w) @ [e]\<rparr>" "nw_conns (observe e w) = nw_conns w"
  "el_poller (observe e w) = el_poller w" "el_pendingFunctors (observe e w) = el_pendingFunctors w"
  "el_threadId (observe e w) = el_threadId w" "el_eventHandling (observe e w) = el_eventHandling w"
  by (simp_all add: observe_def)

lemma link_inv_trace [simp]:
  "link_inv (s\<lparr>cl_trace := t\<rparr>) = link_inv s" "link_inv (s\<lparr>cl_retry := b\<rparr>) = link_inv s" "link_inv (s\<lparr>cl_connect := b\<rparr>) = link_inv s"
  "link_inv (s\<lparr>cl_detached := d\<rparr>) = link_inv s"
  by (simp_all add: link_inv_def cong: option.case_cong)

lemma about_append [simp]: "about i (xs @ ys) = about i xs @ about i ys"
  by (simp add: about_def)

lemma about_other: "\<forall>e \<in> set es. subject e = i \<Longrightarrow> j \<noteq> i \<Longrightarrow> about j es = []"
  by (auto simp: about_def filter_empty_conv)

lemma about_own: "\<forall>e \<in> set es. subject e = i \<Longrightarrow> about i es = es"
  by (simp add: about_def)

lemma conns_inv_conn:
  assumes "conns_inv q w" and "nw_conns w i = Some c"
  shows "conn_view q w i c"
  using assms unfolding conns_inv_def by (auto split: option.splits)

lemma conn_view_cong:
  assumes "conn_view q w j d"
    and "\<And>ch. pl_heap (el_poller w) (tc_channel d) = Some ch \<Longrightarrow>
      \<exists>ch'. pl_heap (el_poller w') (tc_channel d) = Some ch' \<and> isReading ch' = isReading ch"
    and "registered (el_poller w') (tc_channel d) \<longleftrightarrow> registered (el_poller w) (tc_channel d)"
    and "count_list q' (ConnectDestroyed j) = count_list q (ConnectDestroyed j)"
    and "cl_connection (nw_rest w) = Some j \<longrightarrow> cl_connection (nw_rest w') = Some j"
    and "cl_detached (nw_rest w) \<subseteq> cl_detached (nw_rest w')" and "about j (cl_trace (nw_rest w')) = about j (cl_trace (nw_rest w))"
  shows "conn_view q' w' j d"
proof -
  have "ConnectDestroyed j \<in> set q' \<longleftrightarrow> ConnectDestroyed j \<in> set q" using assms(4) count_list_zero by metis
  moreover obtain ch ch' where "pl_heap (el_poller w) (tc_channel d) = Some ch" "pl_heap (el_poller w') (tc_channel d) = Some ch'"
      "isReading ch' = isReading ch"
    using assms(1,2) unfolding conn_view_def by blast
  ultimately show ?thesis using assms(1,3-7) unfolding conn_view_def by (cases "open_conn d") auto
qed

text \<open>Steps that touch one connection and its channel only.\<close>

lemma update_conn:
  assumes inv: "conns_inv q w" and c: "nw_conns w i = Some c"
    and conns: "nw_conns w' = (nw_conns w)(i \<mapsto> c')" and ch: "tc_channel c' = tc_channel c"
    and poller: "poller_inv (el_poller w')" "pl_channels (el_poller w') = pl_channels (el_poller w)"
      "\<And>a. a \<noteq> tc_channel c \<Longrightarrow> pl_heap (el_poller w') a = pl_heap (el_poller w) a"
    and new: "\<forall>f \<in> set new. functor_conn f = Some i \<and> (f = ForceCloseInLoop i \<longrightarrow> i \<in> cl_detached (nw_rest w'))"
    and trace: "cl_trace (nw_rest w') = cl_trace (nw_rest w) @ es" "\<forall>e \<in> set es. subject e = i"
    and conn: "cl_connection (nw_rest w') = cl_connection (nw_rest w) \<or> cl_connection (nw_rest w') = None \<and> cl_connection (nw_rest w) = Some i"
    and det: "cl_detached (nw_rest w') = cl_detached (nw_rest w)"
    and view: "conn_view (q @ new) w' i c'" and att: "cl_connection (nw_rest w') = Some i \<longrightarrow> open_conn c'"
  shows "conns_inv (q @ new) w'"
proof -
  have others: "conn_view (q @ new) w' j d" if j: "nw_conns w j = Some d" "j \<noteq> i" for j d
  proof (rule conn_view_cong)
    show "conn_view q w j d" using conns_inv_conn [OF inv j(1)] .
    have "tc_channel d \<noteq> tc_channel c" using inv j c unfolding conns_inv_def by blast
    then have heap: "pl_heap (el_poller w') (tc_channel d) = pl_heap (el_poller w) (tc_channel d)" by (rule poller(3))
    then show "\<exists>ch'. pl_heap (el_poller w') (tc_channel d) = Some ch' \<and> isReading ch' = isReading ch"
      if "pl_heap (el_poller w) (tc_channel d) = Some ch" for ch using that by simp
    show "registered (el_poller w') (tc_channel d) \<longleftrightarrow> registered (el_poller w) (tc_channel d)"
      using heap poller(2) by (simp add: registered_def cong: option.case_cong)
    have "ConnectDestroyed j \<notin> set new" using new j(2) by (auto simp: functor_conn_def)
    then show "count_list (q @ new) (ConnectDestroyed j) = count_list q (ConnectDestroyed j)" by (simp add: count_list_zero)
    show "about j (cl_trace (nw_rest w')) = about j (cl_trace (nw_rest w))" using trace about_other [OF trace(2) j(2)] by simp
  qed (use poller(2) conn det j(2) in auto)
  have "case nw_conns w' j of None \<Rightarrow> about j (cl_trace (nw_rest w')) = [] | Some c \<Rightarrow> conn_view (q @ new) w' j c" for j
  proof (cases "j = i \<or> nw_conns w j \<noteq> None")
    case True
    then show ?thesis using others view conns by (cases "nw_conns w j") auto
  next
    case False
    then have "nw_conns w j = None" "nw_conns w' j = None" "j \<noteq> i" using conns by auto
    then show ?thesis using inv trace about_other [OF trace(2)] unfolding conns_inv_def by (metis append_Nil2 about_append option.simps(4))
  qed
  moreover have "functor_ok w' f" if "f \<in> set (q @ new)" for f
  proof (cases "f \<in> set q")
    case True
    then have "functor_ok w f" using inv by (simp add: conns_inv_def)
    then show ?thesis using conns det by (auto simp: functor_ok_def)
  next
    case False
    then show ?thesis using that new conns by (auto simp: functor_ok_def)
  qed
  moreover have "j = k" if "nw_conns w' j = Some a" "nw_conns w' k = Some b" "tc_channel a = tc_channel b" for j k a b
  proof -
    have "\<exists>a'. nw_conns w j = Some a' \<and> tc_channel a' = tc_channel a" "\<exists>b'. nw_conns w k = Some b' \<and> tc_channel b' = tc_channel b"
      using that(1,2) conns c ch by (auto split: if_splits)
    then show ?thesis using inv that(3) unfolding conns_inv_def by metis
  qed
  moreover have "j \<notin> cl_detached (nw_rest w') \<and> (\<exists>c. nw_conns w' j = Some c \<and> open_conn c)" if "cl_connection (nw_rest w') = Some j" for j
  proof -
    have "cl_connection (nw_rest w) = Some j" using that conn by auto
    then show ?thesis using inv that att conns det unfolding conns_inv_def by (cases "j = i") auto
  qed
  moreover have "cl_detached (nw_rest w') \<subseteq> dom (nw_conns w')" using inv det conns by (auto simp: conns_inv_def)
  ultimately show ?thesis unfolding conns_inv_def using poller(1) by blast
qed

section \<open>The connector's events\<close>

lemma conns_inv_cong:
  assumes "conns_inv q w" and "nw_conns w' = nw_conns w" and "el_poller w' = el_poller w"
    and "cl_connection (nw_rest w') = cl_connection (nw_rest w)" and "cl_detached (nw_rest w') = cl_detached (nw_rest w)"
    and "cl_trace (nw_rest w') = cl_trace (nw_rest w)"
  shows "conns_inv q w'"
  using assms(1) unfolding conns_inv_def conn_view_def functor_ok_def assms(2-6) .

lemma client_inv_rest:
  assumes "client_inv w" and "link_inv s" and "cl_connection s = cl_connection (nw_rest w)" and "cl_detached s = cl_detached (nw_rest w)"
    and "cl_trace s = cl_trace (nw_rest w)"
  shows "client_inv (put_client s w)"
  using assms(1,2) conns_inv_cong [of _ w "put_client s w"] assms(3-5) by (simp add: client_inv_def)

lemma connect_keeps: "connect env c = Inr c' \<Longrightarrow> cn_connect c' = cn_connect c"
  by (auto simp: connect_def connecting_def retry_def close_socket_def Let_def outcome_simps split: if_splits)

lemma startInLoop_keeps: "startInLoop env c = Inr c' \<Longrightarrow> cn_connect c' = cn_connect c"
  by (auto simp: startInLoop_def outcome_simps dest: connect_keeps split: if_splits)

lemma retry_keeps: "retry env fd c = Inr c' \<Longrightarrow> cn_connect c' = cn_connect c"
  by (auto simp: retry_def close_socket_def Let_def outcome_simps split: if_splits)

lemma remove_keeps: "removeAndResetChannel c = Inr (fd, c') \<Longrightarrow> cn_connect c' = cn_connect c"
  by (auto simp: removeAndResetChannel_def split: option.splits)

lemma stopInLoop_keeps: "stopInLoop env c = Inr c' \<Longrightarrow> cn_connect c' = cn_connect c"
  by (auto simp: stopInLoop_def outcome_simps dest!: remove_keeps retry_keeps split: if_splits)

lemma handleError_keeps: "handleError_connector env c = Inr c' \<Longrightarrow> cn_connect c' = cn_connect c"
  by (auto simp: handleError_connector_def outcome_simps dest!: remove_keeps retry_keeps split: if_splits)

lemma connector_step_keeps:
  assumes "connector_step c e = Inr c'" and "e \<in> {CnFunctor env, CnTimer env, CnError env}"
  shows "cn_connect c' = cn_connect c"
  using assms by (auto simp: run_functor_def resetChannel_def dest!: startInLoop_keeps stopInLoop_keeps handleError_keeps
      split: list.splits connector_functor.splits)

lemma connected_stays:
  assumes "connector_inv c" and "cn_state c = connector_state.kConnected" and "connector_step c e = Inr c'"
    and "e \<in> {CnFunctor env, CnTimer env, CnError env}"
  shows "cn_state c' = connector_state.kConnected"
proof -
  have "cn_timers c = []" "StartInLoop \<notin> set (cn_pending c)" using assms(1,2) by (auto simp: connector_inv_def)
  then show ?thesis
    using assms(2-4) by (auto simp: run_functor_def resetChannel_def stopInLoop_def handleError_connector_def
        split: list.splits connector_functor.splits)
qed

lemma connector_event_ok:
  assumes "client_inv w" and "connector_allows w e" and "e \<in> {CnFunctor env, CnTimer env, CnError env}"
  shows "\<exists>w'. on_connector (\<lambda>cn. connector_step cn e) w = Inr w' \<and> client_inv w'"
proof -
  let ?s = "nw_rest w"
  obtain cn where cn: "cl_connector ?s = Some cn" "connector_env cn e"
    using assms(2) by (auto simp: connector_allows_def split: option.splits)
  have link: "link_inv ?s" using assms(1) by (simp add: client_inv_def)
  then have inv: "connector_inv cn" using cn(1) by (simp add: link_inv_def)
  obtain cn' where cn': "connector_step cn e = Inr cn'" "connector_inv cn'" using connector_step_ok [OF inv cn(2)] by blast
  have "link_inv (?s\<lparr>cl_connector := Some cn'\<rparr>)"
    using link cn(1) cn' connector_step_keeps [OF cn'(1) assms(3)] connected_stays [OF inv _ cn'(1) assms(3)] by (auto simp: link_inv_def)
  then have "client_inv (put_client (?s\<lparr>cl_connector := Some cn'\<rparr>) w)" using client_inv_rest [OF assms(1)] by simp
  then show ?thesis using cn(1) cn'(1) by (simp add: on_connector_def)
qed

lemma connect_client_ok:
  assumes "client_inv w" and "client_env w (ClConnect env tid)"
  shows "\<exists>w'. connect_client env tid w = Inr w' \<and> client_inv w'"
proof -
  let ?s = "nw_rest w"
  obtain cn where cn: "cl_connector ?s = Some cn" "connector_env cn (CnStart env (isInLoopThread tid w))" and alive: "cl_alive ?s"
    using assms(2) by (auto simp: connector_allows_def split: option.splits)
  have link: "link_inv ?s" using assms(1) by (simp add: client_inv_def)
  then have inv: "connector_inv cn" using cn(1) by (simp add: link_inv_def)
  obtain cn' where cn': "start env (isInLoopThread tid w) cn = Inr cn'" "connector_inv cn'" using start_ok [OF inv cn(2)] by blast
  have "cl_connection ?s = None" using link cn by (auto simp: link_inv_def)
  then have "link_inv (?s\<lparr>cl_connect := True, cl_connector := Some cn'\<rparr>)" using link cn'(2) alive by (simp add: link_inv_def)
  then have "client_inv (put_client (?s\<lparr>cl_connect := True, cl_connector := Some cn'\<rparr>) w)" using client_inv_rest [OF assms(1)] by simp
  then show ?thesis using cn(1) cn'(1) by (simp add: connect_client_def on_connector_def)
qed

lemma stop_link:
  assumes "link_inv s" and "cl_connector s = Some cn"
  shows "link_inv (s\<lparr>cl_connect := b, cl_connector := Some (stop cn)\<rparr>)" "link_inv (s\<lparr>cl_connector := Some (stop cn)\<rparr>)"
proof -
  have "connector_inv (stop cn)" using assms stop_ok by (simp add: link_inv_def)
  then show "link_inv (s\<lparr>cl_connect := b, cl_connector := Some (stop cn)\<rparr>)" "link_inv (s\<lparr>cl_connector := Some (stop cn)\<rparr>)"
    using assms by (simp_all add: link_inv_def stop_def)
qed

lemma stop_client_ok:
  assumes "client_inv w" and "client_env w ClStop"
  shows "\<exists>w'. stop_client w = Inr w' \<and> client_inv w'"
proof -
  let ?s = "nw_rest w"
  have link: "link_inv ?s" using assms(1) by (simp add: client_inv_def)
  then obtain cn where cn: "cl_connector ?s = Some cn" using assms(2) by (cases "cl_connector ?s") (auto simp: link_inv_def)
  have "client_inv (put_client (?s\<lparr>cl_connect := False, cl_connector := Some (stop cn)\<rparr>) w)"
    using client_inv_rest [OF assms(1) stop_link(1) [OF link cn]] by simp
  then show ?thesis using cn by (simp add: stop_client_def on_connector_def)
qed

section \<open>A new connection\<close>

lemma handleWrite_delivers:
  assumes "registered_channel cn = Some ch" and "handleWrite_connector env cn = Inr cn'" and "cn_state cn = connector_state.kConnecting"
  shows "cn_connect cn' = cn_connect cn \<and> (cn_delivered cn' = cn_delivered cn
    \<or> cn_delivered cn' = cn_delivered cn @ [cc_fd ch] \<and> cn_state cn' = connector_state.kConnected \<and> cn_connect cn)"
proof -
  have ch: "cn_channel cn = Some ch" using assms(1) by (auto simp: registered_channel_def split: option.splits if_splits)
  have retry: "cn_delivered c' = cn_delivered c \<and> cn_connect c' = cn_connect c" if "retry env fd c = Inr c'" for fd c c'
    using that by (auto simp: retry_def close_socket_def Let_def outcome_simps split: if_splits)
  show ?thesis
    using assms(2,3) ch
    by (auto simp: handleWrite_connector_def removeAndResetChannel_def Let_def close_socket_def outcome_simps
        dest!: retry split: if_splits)
qed

lemma conns_inv_new:
  assumes inv: "conns_inv q w" and i: "nw_conns w i = None" and none: "cl_connection (nw_rest w) = None"
    and conns: "nw_conns w' = (nw_conns w)(i \<mapsto> c)"
    and poller: "poller_inv (el_poller w')" "pl_channels (el_poller w') = map_put fd (tc_channel c) (pl_channels (el_poller w))"
      "pl_heap (el_poller w') = (pl_heap (el_poller w))(tc_channel c \<mapsto> ch)"
    and fresh: "pl_heap (el_poller w) (tc_channel c) = None" "map_of (pl_channels (el_poller w)) fd = None"
    and rest: "cl_trace (nw_rest w') = cl_trace (nw_rest w) @ [CUp i]" "cl_connection (nw_rest w') = Some i"
      "cl_detached (nw_rest w') = cl_detached (nw_rest w)" "i \<notin> cl_detached (nw_rest w)"
    and view: "conn_view q w' i c" "open_conn c"
  shows "conns_inv q w'"
proof -
  have heap: "\<exists>dh. pl_heap (el_poller w) (tc_channel d) = Some dh" if "nw_conns w j = Some d" for j d
    using conns_inv_conn [OF inv that] by (auto simp: conn_view_def)
  have others: "conn_view q w' j d" if j: "nw_conns w j = Some d" for j d
  proof (rule conn_view_cong [OF conns_inv_conn [OF inv j]])
    have d: "tc_channel d \<noteq> tc_channel c" "j \<noteq> i" using heap [OF j] fresh(1) i j by auto
    show "\<exists>dh'. pl_heap (el_poller w') (tc_channel d) = Some dh' \<and> isReading dh' = isReading dh"
      if "pl_heap (el_poller w) (tc_channel d) = Some dh" for dh using that d poller(3) by simp
    show "registered (el_poller w') (tc_channel d) \<longleftrightarrow> registered (el_poller w) (tc_channel d)"
      using d(1) poller(2,3) fresh(2) by (auto simp: registered_def map_of_map_put split: option.splits)
    show "about j (cl_trace (nw_rest w')) = about j (cl_trace (nw_rest w))" using d(2) rest(1) by (simp add: about_def)
  qed (use none rest in simp_all)
  have "case nw_conns w' j of None \<Rightarrow> about j (cl_trace (nw_rest w')) = [] | Some c \<Rightarrow> conn_view q w' j c" for j
  proof (cases "nw_conns w j")
    case None
    have "about j (cl_trace (nw_rest w)) = []" using inv None unfolding conns_inv_def by (metis option.simps(4))
    then show ?thesis using None view(1) conns rest(1) by (simp add: about_def)
  next
    case (Some d)
    then show ?thesis using others i conns by auto
  qed
  moreover have "j = k" if jk: "nw_conns w' j = Some a" "nw_conns w' k = Some b" "tc_channel a = tc_channel b" for j k a b
  proof -
    have "tc_channel d \<noteq> tc_channel c" if "nw_conns w j = Some d" for j d using heap [OF that] fresh(1) by auto
    then have "(j = i \<longleftrightarrow> k = i) \<and> (j \<noteq> i \<longrightarrow> nw_conns w j = Some a \<and> nw_conns w k = Some b)"
      using jk conns by (auto split: if_splits)
    then show ?thesis using inv jk(3) unfolding conns_inv_def by blast
  qed
  moreover have "functor_ok w' f" if "f \<in> set q" for f
  proof -
    have "functor_ok w f" using inv that by (simp add: conns_inv_def)
    then show ?thesis using conns rest(3) by (auto simp: functor_ok_def)
  qed
  moreover have "cl_detached (nw_rest w') \<subseteq> dom (nw_conns w')" using inv rest(3) conns by (auto simp: conns_inv_def)
  moreover have "j \<notin> cl_detached (nw_rest w') \<and> (\<exists>c. nw_conns w' j = Some c \<and> open_conn c)" if "cl_connection (nw_rest w') = Some j" for j
    using that rest view(2) conns by simp
  ultimately show ?thesis unfolding conns_inv_def using poller(1) by blast
qed

lemma link_inv_connector:
  assumes "client_inv w" and "cl_connector (nw_rest w) = Some cn"
  shows "connector_inv cn" "cl_alive (nw_rest w) \<or> \<not> cn_connect cn"
    "cl_connection (nw_rest w) \<noteq> None \<Longrightarrow> cn_state cn = connector_state.kConnected"
  using assms by (simp_all add: client_inv_def link_inv_def)

lemma newConnection_client_ok:
  assumes inv: "conns_inv q w" and env: "sys_ok env" and ob: "nw_conns w (no_conn ob) = None" "pl_heap (el_poller w) (no_channel ob) = None"
      "0 \<le> no_shutdown ob" and fd: "0 \<le> fd" "map_of (pl_channels (el_poller w)) fd = None"
    and cl: "cl_connection (nw_rest w) = None" "cl_nextConnId (nw_rest w) < 2147483647" and q: "ConnectDestroyed (no_conn ob) \<notin> set q"
  shows "\<exists>w'. newConnection_client ipPort env tid ob fd w = Inr w' \<and> conns_inv q w' \<and> el_pendingFunctors w' = el_pendingFunctors w
    \<and> el_eventHandling w' = el_eventHandling w
    \<and> nw_rest w' = (nw_rest w)\<lparr>cl_nextConnId := cl_nextConnId (nw_rest w) + 1, cl_connection := Some (no_conn ob),
        cl_trace := cl_trace (nw_rest w) @ [CUp (no_conn ob)]\<rparr>
    \<and> (\<exists>nm ch. nw_conns w' (no_conn ob) = Some (established_conn nm (no_channel ob) (no_reads ob) (no_writes ob) (no_shutdown ob))
        \<and> pl_heap (el_poller w') (no_channel ob) = Some ch \<and> isReading ch)"
proof -
  let ?i = "no_conn ob" and ?a = "no_channel ob" and ?s = "nw_rest w"
  obtain peer local where addr: "getPeerAddr (ce_peername env) = Inr peer" "getLocalAddr (ce_sockname env) = Inr local"
    using env by (auto simp: sys_ok_def getPeerAddr_def getLocalAddr_def)
  define nm where "nm = connName_client ipPort (cl_name ?s) peer (cl_nextConnId ?s)"
  define s' where "s' = ?s\<lparr>cl_nextConnId := cl_nextConnId ?s + 1, cl_connection := Some ?i\<rparr>"
  define c where "c = established_conn nm ?a (no_reads ob) (no_writes ob) (no_shutdown ob)"
  have poller: "poller_inv (el_poller w)" using inv by (simp add: conns_inv_def)
  obtain p ch where up: "connectEstablished (client_user env tid) tid ?i (TcpConnection_ctor ?i ?a (no_logHup ob) (no_tied ob) nm fd
        (no_reads ob) (no_writes ob) (no_shutdown ob) (put_client s' w))
      = nu_connection (client_user env tid) ?i ((put_client s' w)\<lparr>el_poller := p, nw_conns := (nw_conns w)(?i \<mapsto> c)\<rparr>)"
      "poller_inv p" "pl_heap p = (pl_heap (el_poller w))(?a \<mapsto> ch)" "registered p ?a" "pl_channels p = map_put fd ?a (pl_channels (el_poller w))"
      "isReading ch"
    using connection_up [of "put_client s' w" ?a fd "client_user env tid" tid ?i "no_logHup ob" "no_tied ob" nm "no_reads ob" "no_writes ob" "no_shutdown ob"]
      poller ob(2) fd unfolding c_def by (auto simp: conn_channel_def)
  define w' where "w' = observe (CUp ?i) ((put_client s' w)\<lparr>el_poller := p, nw_conns := (nw_conns w)(?i \<mapsto> c)\<rparr>)"
  have c: "tc_channel c = ?a" "open_conn c" "connected c" "session ?i c = [CUp ?i]"
    by (simp_all add: c_def established_conn_def open_conn_def connected_def session_def reads_of_def)
  have buf: "buffer_inv (tc_inputBuffer c)" "bytes_of (tc_inputBuffer c) = []" "0 \<le> sk_shutdownResult c"
    using ob(3) by (simp_all add: c_def established_conn_def buffer_eval kInitialSize_def)
  have run: "newConnection_client ipPort env tid ob fd w = Inr w'"
    using addr cl(2) up(1) c(3)
    by (simp add: newConnection_client_def Let_def nm_def [symmetric] s'_def [symmetric] client_user_def w'_def)
  have w': "nw_conns w' = (nw_conns w)(?i \<mapsto> c)" "el_poller w' = p" "el_pendingFunctors w' = el_pendingFunctors w"
      "nw_rest w' = s'\<lparr>cl_trace := cl_trace ?s @ [CUp ?i]\<rparr>" "el_eventHandling w' = el_eventHandling w"
    by (simp_all add: w'_def s'_def)
  have none: "?i \<notin> cl_detached ?s" "about ?i (cl_trace ?s) = []"
    using inv ob(1) unfolding conns_inv_def by (auto dest!: spec [of _ ?i])
  have view: "conn_view q w' ?i c"
    using up(3,4) c q none(2) buf by (simp add: conn_view_def w' s'_def about_def)
  have "conns_inv q w'"
  proof (rule conns_inv_new [OF inv ob(1) cl(1) w'(1)])
    show "conn_view q w' ?i c" by (rule view)
  qed (use up c w' ob fd none s'_def in simp_all)
  moreover have "pl_heap (el_poller w') ?a = Some ch" using up(3) w'(2) by simp
  ultimately show ?thesis using run w' up(6) by (intro exI [of _ w']) (auto simp: s'_def c_def)
qed

lemma queue_no_new:
  assumes "conns_inv q w" and "nw_conns w i = None"
  shows "ConnectDestroyed i \<notin> set q"
proof
  assume "ConnectDestroyed i \<in> set q"
  then have "functor_ok w (ConnectDestroyed i)" using assms(1) by (simp add: conns_inv_def)
  then show False using assms(2) by (simp add: functor_ok_def functor_conn_def)
qed

lemma connector_writable_ok:
  assumes inv: "client_inv w" and env: "client_env w (ClWritable env ob)"
  shows "\<exists>w'. connector_writable ipPort env tid ob w = Inr w' \<and> client_inv w'"
    "\<And>cn cn'. cl_connector (nw_rest w) = Some cn \<Longrightarrow> handleWrite_connector env cn = Inr cn' \<Longrightarrow> cn_delivered cn' \<noteq> cn_delivered cn \<Longrightarrow>
      \<exists>w' nm ch. connector_writable ipPort env tid ob w = Inr w'
        \<and> nw_rest w' = (nw_rest w)\<lparr>cl_connector := Some cn', cl_nextConnId := cl_nextConnId (nw_rest w) + 1,
            cl_connection := Some (no_conn ob), cl_trace := cl_trace (nw_rest w) @ [CUp (no_conn ob)]\<rparr>
        \<and> nw_conns w' (no_conn ob) = Some (established_conn nm (no_channel ob) (no_reads ob) (no_writes ob) (no_shutdown ob))
        \<and> pl_heap (el_poller w') (no_channel ob) = Some ch \<and> isReading ch"
proof -
  let ?s = "nw_rest w"
  obtain cn ch where cn: "cl_connector ?s = Some cn" "connector_env cn (CnWritable env)" "registered_channel cn = Some ch"
      "0 \<le> cc_fd ch" "map_of (pl_channels (el_poller w)) (cc_fd ch) = None"
    using env by (auto simp: connector_allows_def split: option.splits)
  note link = link_inv_connector [OF inv cn(1)]
  have state: "cn_state cn = connector_state.kConnecting" using link(1) cn(3) by (auto simp: connector_inv_def)
  then have none: "cl_connection ?s = None" using link(3) by (cases "cl_connection ?s") auto
  obtain cn' where cn': "handleWrite_connector env cn = Inr cn'" "connector_inv cn'"
    using handle_events_ok(1) [OF link(1)] cn(2) by auto
  let ?w = "put_client (?s\<lparr>cl_connector := Some cn'\<rparr>) w"
  have conns: "conns_inv (el_pendingFunctors w) ?w"
    using inv by (auto simp: client_inv_def intro: conns_inv_cong)
  have q: "ConnectDestroyed (no_conn ob) \<notin> set (el_pendingFunctors w)"
    using queue_no_new inv env by (auto simp: client_inv_def)
  have new: "\<exists>w'. newConnection_client ipPort env tid ob (cc_fd ch) ?w = Inr w' \<and> conns_inv (el_pendingFunctors w) w'
      \<and> el_pendingFunctors w' = el_pendingFunctors w \<and> el_eventHandling w' = el_eventHandling w
      \<and> nw_rest w' = ?s\<lparr>cl_connector := Some cn', cl_nextConnId := cl_nextConnId ?s + 1, cl_connection := Some (no_conn ob),
          cl_trace := cl_trace ?s @ [CUp (no_conn ob)]\<rparr>
      \<and> (\<exists>nm ch. nw_conns w' (no_conn ob) = Some (established_conn nm (no_channel ob) (no_reads ob) (no_writes ob) (no_shutdown ob))
          \<and> pl_heap (el_poller w') (no_channel ob) = Some ch \<and> isReading ch)"
    using newConnection_client_ok [OF conns _ _ _ _ cn(4), of env ob ipPort tid] env cn(2,5) none q by auto
  note delivers = handleWrite_delivers [OF cn(3) cn'(1) state]
  show "\<exists>w' nm ch. connector_writable ipPort env tid ob w = Inr w'
        \<and> nw_rest w' = ?s\<lparr>cl_connector := Some dn', cl_nextConnId := cl_nextConnId ?s + 1,
            cl_connection := Some (no_conn ob), cl_trace := cl_trace ?s @ [CUp (no_conn ob)]\<rparr>
        \<and> nw_conns w' (no_conn ob) = Some (established_conn nm (no_channel ob) (no_reads ob) (no_writes ob) (no_shutdown ob))
        \<and> pl_heap (el_poller w') (no_channel ob) = Some ch \<and> isReading ch"
    if d: "cl_connector ?s = Some dn" "handleWrite_connector env dn = Inr dn'" "cn_delivered dn' \<noteq> cn_delivered dn" for dn dn'
  proof -
    have eq: "dn = cn" "dn' = cn'" using d(1,2) cn(1) cn'(1) by auto
    then have "cn_delivered cn' = cn_delivered cn @ [cc_fd ch]" "cl_alive ?s" using delivers d(3) link(2) by auto
    then show ?thesis using new cn(1) cn'(1) d(3) eq by (auto simp: connector_writable_def Let_def)
  qed
  from delivers consider
      (kept) "cn_connect cn' = cn_connect cn" "cn_delivered cn' = cn_delivered cn"
    | (new) "cn_delivered cn' = cn_delivered cn @ [cc_fd ch]" "cn_state cn' = connector_state.kConnected" "cn_connect cn" by blast
  then show "\<exists>w'. connector_writable ipPort env tid ob w = Inr w' \<and> client_inv w'"
  proof cases
    case kept
    then have "link_inv (?s\<lparr>cl_connector := Some cn'\<rparr>)" using inv cn(1) cn'(2) none by (simp add: client_inv_def link_inv_def)
    then have "client_inv ?w" using client_inv_rest [OF inv] by simp
    then show ?thesis using cn(1) cn'(1) kept by (simp add: connector_writable_def Let_def)
  next
    case new': new
    then have alive: "cl_alive ?s" using link(2) by simp
    obtain w' where w': "newConnection_client ipPort env tid ob (cc_fd ch) ?w = Inr w'" "conns_inv (el_pendingFunctors w) w'"
        "el_pendingFunctors w' = el_pendingFunctors w" "el_eventHandling w' = el_eventHandling w"
        "nw_rest w' = ?s\<lparr>cl_connector := Some cn', cl_nextConnId := cl_nextConnId ?s + 1, cl_connection := Some (no_conn ob),
          cl_trace := cl_trace ?s @ [CUp (no_conn ob)]\<rparr>"
      using new by blast
    have "link_inv (nw_rest w')" using inv w'(5) alive cn'(2) new'(2) by (simp add: client_inv_def link_inv_def)
    then have "client_inv w'" using w'(2-4) inv by (simp add: client_inv_def)
    then show ?thesis using cn(1) cn'(1) new'(1) alive w'(1) by (simp add: connector_writable_def Let_def)
  qed
qed

section \<open>Closing\<close>

text \<open>The reaction of the client to the end of its connection, apart from the connection itself.\<close>

definition after_close :: "connect_env \<Rightarrow> nat \<Rightarrow> tcp_client \<Rightarrow> tcp_client \<Rightarrow> bool" where
  "after_close env i s s' \<longleftrightarrow>
     (if i \<in> cl_detached s then s' = s\<lparr>cl_trace := cl_trace s @ [CDown i]\<rparr>
      else if cl_retry s \<and> cl_connect s
      then \<exists>cn cn'. cl_connector s = Some cn \<and> restart env cn = Inr cn'
             \<and> s' = s\<lparr>cl_trace := cl_trace s @ [CDown i], cl_connection := None, cl_connector := Some cn'\<rparr>
      else s' = s\<lparr>cl_trace := cl_trace s @ [CDown i], cl_connection := None\<rparr>)"

lemma client_close_ok:
  assumes att: "i \<notin> cl_detached (nw_rest w) \<Longrightarrow> cl_alive (nw_rest w) \<and> cl_connection (nw_rest w) = Some i
      \<and> (\<exists>cn. cl_connector (nw_rest w) = Some cn \<and> connector_inv cn \<and> connector_env cn (CnRestart env))"
  shows "\<exists>w'. client_close env tid i w = Inr w' \<and> nw_conns w' = nw_conns w \<and> el_poller w' = el_poller w
    \<and> el_pendingFunctors w' = el_pendingFunctors w @ [ConnectDestroyed i] \<and> el_eventHandling w' = el_eventHandling w
    \<and> el_threadId w' = el_threadId w
    \<and> (\<forall>s. nw_rest w = s\<lparr>cl_trace := cl_trace s @ [CDown i]\<rparr> \<longrightarrow> after_close env i s (nw_rest w'))"
proof (cases "i \<in> cl_detached (nw_rest w)")
  case True
  then show ?thesis by (auto simp: client_close_def removeConnection_detail_def after_close_def queueInLoop_handling)
next
  case False
  let ?s = "nw_rest w"
  let ?w = "queueInLoop tid (ConnectDestroyed i) (put_client (?s\<lparr>cl_connection := None\<rparr>) w)"
  obtain cn where cn: "cl_alive ?s" "cl_connection ?s = Some i" "cl_connector ?s = Some cn" "connector_inv cn" "connector_env cn (CnRestart env)"
    using att [OF False] by blast
  obtain cn' where cn': "restart env cn = Inr cn'" using restart_ok [OF cn(4,5)] by blast
  show ?thesis
  proof (cases "cl_retry ?s \<and> cl_connect ?s")
    case True
    then have "client_close env tid i w = Inr (put_client (?s\<lparr>cl_connection := None, cl_connector := Some cn'\<rparr>) ?w)"
      using False cn cn' by (simp add: client_close_def removeConnection_client_def on_connector_def Let_def)
    then show ?thesis using False True cn(3) cn' by (auto simp: after_close_def queueInLoop_handling)
  next
    case no: False
    then have "client_close env tid i w = Inr ?w"
      using False cn by (auto simp: client_close_def removeConnection_client_def Let_def)
    then show ?thesis using False no by (auto simp: after_close_def queueInLoop_handling)
  qed
qed

lemma after_close_rest:
  assumes "after_close env i s s'"
  shows "cl_trace s' = cl_trace s @ [CDown i]" "cl_detached s' = cl_detached s" "cl_alive s' = cl_alive s"
    "cl_connection s' = (if i \<in> cl_detached s then cl_connection s else None)"
  using assms by (auto simp: after_close_def split: if_splits)

lemma after_close_link:
  assumes "after_close env i s s'" and "link_inv s" and "i \<notin> cl_detached s \<Longrightarrow> cl_alive s"
    and "\<And>cn. i \<notin> cl_detached s \<Longrightarrow> cl_connector s = Some cn \<Longrightarrow> connector_env cn (CnRestart env)"
  shows "link_inv s'"
proof (cases "i \<in> cl_detached s \<or> \<not> (cl_retry s \<and> cl_connect s)")
  case True
  then have "s' = s\<lparr>cl_trace := cl_trace s @ [CDown i]\<rparr> \<or> s' = s\<lparr>cl_trace := cl_trace s @ [CDown i], cl_connection := None\<rparr>"
    using assms(1) by (simp add: after_close_def split: if_splits)
  then show ?thesis using assms(2) by (auto simp: link_inv_def split: option.splits)
next
  case False
  then obtain cn cn' where cn: "cl_connector s = Some cn" "restart env cn = Inr cn'"
      "s' = s\<lparr>cl_trace := cl_trace s @ [CDown i], cl_connection := None, cl_connector := Some cn'\<rparr>"
    using assms(1) by (auto simp: after_close_def)
  have "connector_inv cn" using assms(2) cn(1) by (simp add: link_inv_def)
  then have "connector_inv cn'" using restart_ok [OF _ assms(4) [OF _ cn(1)]] cn(2) False by auto
  then show ?thesis using cn(3) assms(2,3) False by (simp add: link_inv_def)
qed

lemma handleClose_client:
  assumes inv: "conns_inv q w" and link: "link_inv (nw_rest w)" and conn: "nw_conns w i = Some c" "open_conn c"
    and env: "\<And>cn. i \<notin> cl_detached (nw_rest w) \<Longrightarrow> cl_connector (nw_rest w) = Some cn \<Longrightarrow> connector_env cn (CnRestart env)"
  shows "\<exists>w'. handleClose (client_user env tid) tid i w = Inr w' \<and> conns_inv (q @ [ConnectDestroyed i]) w' \<and> link_inv (nw_rest w')
    \<and> el_pendingFunctors w' = el_pendingFunctors w @ [ConnectDestroyed i] \<and> el_eventHandling w' = el_eventHandling w
    \<and> el_threadId w' = el_threadId w \<and> after_close env i (nw_rest w) (nw_rest w')
    \<and> nw_conns w' = (nw_conns w)(i \<mapsto> c\<lparr>tc_state := StateE.kDisconnected\<rparr>)"
proof -
  let ?s = "nw_rest w"
  define c' where "c' = c\<lparr>tc_state := StateE.kDisconnected\<rparr>"
  have view: "conn_view q w i c" using conns_inv_conn [OF inv conn(1)] .
  obtain ch where ch: "pl_heap (el_poller w) (tc_channel c) = Some ch" "registered (el_poller w) (tc_channel c)" "ConnectDestroyed i \<notin> set q"
      "cl_connection ?s = Some i \<or> i \<in> cl_detached ?s"
    using view conn(2) by (auto simp: conn_view_def)
  obtain p where p: "change_channel DisableAll i (put_conn i c' w) = Inr ((put_conn i c' w)\<lparr>el_poller := p\<rparr>)" "poller_inv p"
      "registered p (tc_channel c)" "pl_heap p = (pl_heap (el_poller w))(tc_channel c \<mapsto> change DisableAll ch)"
      "pl_channels p = pl_channels (el_poller w)"
    using change_channel_ok [of "put_conn i c' w" i c' ch DisableAll] inv ch by (auto simp: c'_def conns_inv_def)
  define w1 where "w1 = observe (CDown i) ((put_conn i c' w)\<lparr>el_poller := p\<rparr>)"
  have w1: "nw_rest w1 = ?s\<lparr>cl_trace := cl_trace ?s @ [CDown i]\<rparr>" "nw_conns w1 = (nw_conns w)(i \<mapsto> c')" "el_poller w1 = p"
      "el_pendingFunctors w1 = el_pendingFunctors w" "el_eventHandling w1 = el_eventHandling w" "el_threadId w1 = el_threadId w"
    by (simp_all add: w1_def put_conn_def)
  have att: "cl_alive ?s \<and> cl_connection ?s = Some i \<and> (\<exists>cn. cl_connector ?s = Some cn \<and> connector_inv cn \<and> connector_env cn (CnRestart env))"
    if "i \<notin> cl_detached ?s"
    using that ch(4) link env [OF that] by (cases "cl_connector ?s") (auto simp: link_inv_def)
  have "handleClose (client_user env tid) tid i w = client_close env tid i w1"
    using conn p(1) by (auto simp: handleClose_def setState_def client_user_def c'_def connected_def open_conn_def w1_def asserting_def)
  then obtain w' where w': "handleClose (client_user env tid) tid i w = Inr w'" "nw_conns w' = (nw_conns w)(i \<mapsto> c')" "el_poller w' = p"
      "el_pendingFunctors w' = el_pendingFunctors w @ [ConnectDestroyed i]" "el_eventHandling w' = el_eventHandling w"
      "el_threadId w' = el_threadId w" "after_close env i ?s (nw_rest w')"
    using client_close_ok [of i w1 env tid] att w1 by auto
  note rest = after_close_rest [OF w'(7)]
  have closed: "\<not> open_conn c'" "tc_channel c' = tc_channel c" "session i c' = session i c @ [CDown i]"
    using conn(2) by (auto simp: c'_def open_conn_def session_def reads_of_def)
  have own: "conn_view (q @ [ConnectDestroyed i]) w' i c'"
    using view closed p(3,4) ch(3) rest(1) w'(3)
    by (auto simp: conn_view_def c'_def about_def count_list_zero)
  have "conns_inv (q @ [ConnectDestroyed i]) w'"
  proof (rule update_conn [OF inv conn(1) w'(2)])
    show "\<And>a. a \<noteq> tc_channel c \<Longrightarrow> pl_heap (el_poller w') a = pl_heap (el_poller w) a" using p(4) w'(3) by simp
    show "cl_connection (nw_rest w') = cl_connection ?s \<or> cl_connection (nw_rest w') = None \<and> cl_connection ?s = Some i"
      using rest(4) ch(4) by auto
    show "cl_connection (nw_rest w') = Some i \<longrightarrow> open_conn c'"
      using rest(4) inv by (auto simp: conns_inv_def split: if_splits)
    show "cl_trace (nw_rest w') = cl_trace ?s @ [CDown i]" by (rule rest(1))
  qed (use closed(2) p w'(3) rest own in \<open>simp_all add: functor_conn_def\<close>)
  moreover have "link_inv (nw_rest w')" using after_close_link [OF w'(7) link] att env by blast
  ultimately show ?thesis using w' by (intro exI [of _ w']) (simp add: c'_def)
qed

section \<open>Reading\<close>

text \<open>A connection record changed, with what the user saw of the change.\<close>

lemma put_conn_inv:
  assumes inv: "conns_inv q w" and conn: "nw_conns w i = Some c"
    and same: "tc_channel c' = tc_channel c" "open_conn c' = open_conn c" "open_conn c \<or> tc_state c' = tc_state c"
      "buffer_inv (tc_inputBuffer c')" "bytes_of (tc_inputBuffer c') = []" "sk_shutdownResult c' = sk_shutdownResult c"
    and w': "nw_conns w' = (nw_conns w)(i \<mapsto> c')" "el_poller w' = el_poller w" "cl_connection (nw_rest w') = cl_connection (nw_rest w)"
      "cl_detached (nw_rest w') = cl_detached (nw_rest w)" "cl_trace (nw_rest w') = cl_trace (nw_rest w) @ es"
    and es: "\<forall>e \<in> set es. subject e = i" "session i c' = session i c @ es"
    and new: "\<forall>f \<in> set new. functor_conn f = Some i \<and> f \<noteq> ConnectDestroyed i \<and> (f = ForceCloseInLoop i \<longrightarrow> i \<in> cl_detached (nw_rest w))"
  shows "conns_inv (q @ new) w'"
proof (rule update_conn [OF inv conn w'(1) same(1)])
  have cd: "ConnectDestroyed i \<notin> set new" using new by blast
  then have "count_list (q @ new) (ConnectDestroyed i) = count_list q (ConnectDestroyed i)" by (simp add: count_list_zero)
  then show "conn_view (q @ new) w' i c'"
    using conns_inv_conn [OF inv conn] same w' es cd about_own [OF es(1)]
    by (cases "open_conn c") (auto simp: conn_view_def)
  show "cl_connection (nw_rest w') = Some i \<longrightarrow> open_conn c'"
    using inv conn same(2) w'(3) by (auto simp: conns_inv_def)
qed (use inv w' es new in \<open>simp_all add: conns_inv_def\<close>)

lemma handleRead_client:
  assumes inv: "client_inv w" and env: "readable_env env i w"
  shows "\<exists>w'. handleRead (client_user env tid) tid i t w = Inr w' \<and> client_inv w'
    \<and> (\<forall>c. nw_conns w i = Some c \<longrightarrow> sk_reads c (sk_nreads c) = ReadBytes [] \<longrightarrow> after_close env i (nw_rest w) (nw_rest w')
        \<and> el_pendingFunctors w' = el_pendingFunctors w @ [ConnectDestroyed i] \<and> el_threadId w' = el_threadId w)"
proof -
  let ?s = "nw_rest w" and ?q = "el_pendingFunctors w"
  have parts: "conns_inv ?q w" "link_inv ?s" "\<not> el_eventHandling w" using inv by (simp_all add: client_inv_def)
  obtain c ch bs where c: "nw_conns w i = Some c" "pl_heap (el_poller w) (tc_channel c) = Some ch" "isReading ch"
      "sk_reads c (sk_nreads c) = ReadBytes bs" "length bs \<le> readv_capacity (tc_inputBuffer c)"
      "room_for (writableBytes (tc_inputBuffer c) + kExtraBuf) (tc_inputBuffer c)"
    using env by (auto simp: readable_env_def split: option.splits read_result.splits)
  have view: "conn_view ?q w i c" using conns_inv_conn [OF parts(1) c(1)] .
  then have opened: "open_conn c" and buf: "buffer_inv (tc_inputBuffer c)" "bytes_of (tc_inputBuffer c) = []"
    using c(2,3) by (auto simp: conn_view_def split: if_splits)
  obtain b where b: "readFd (ReadBytes bs) (tc_inputBuffer c) = Inr (int (length bs), None, b)" "buffer_inv b" "bytes_of b = bs"
    using readFd_spec [OF buf(1) c(5,6)] buf(2) by auto
  define c1 where "c1 = c\<lparr>tc_inputBuffer := b, sk_nreads := sk_nreads c + 1\<rparr>"
  have c1: "tc_channel c1 = tc_channel c" "open_conn c1" "tc_state c1 = tc_state c" "sk_shutdownResult c1 = sk_shutdownResult c"
      "reads_of c1 = reads_of c @ [bs]"
    using opened reads_of_next [OF c(4), of b] by (simp_all add: c1_def open_conn_def)
  have restart: "connector_env cn (CnRestart env)" if "i \<notin> cl_detached ?s" "cl_connector ?s = Some cn" for cn
  proof -
    have "cl_connection ?s = Some i" using view opened that(1) by (auto simp: conn_view_def)
    then have state: "cn_state cn = connector_state.kConnected" "connector_inv cn" using parts(2) that(2) by (auto simp: link_inv_def)
    moreover have "ResetChannel \<notin> set (cn_pending cn)" "sys_ok env" using env that(2) by (auto simp: readable_env_def)
    ultimately show ?thesis by (auto simp: connector_inv_def connector_base_def)
  qed
  show ?thesis
  proof (cases "bs = []")
    case True
    let ?w = "put_conn i c1 w"
    have "session i c1 = session i c @ []" using c1 opened True by (simp add: session_def)
    then have "conns_inv (?q @ []) ?w"
      by (intro put_conn_inv [OF parts(1) c(1), where es = "[]" and c' = c1]) (use c1 opened b True in \<open>simp_all add: c1_def\<close>)
    then obtain w' where w': "handleClose (client_user env tid) tid i ?w = Inr w'" "conns_inv (?q @ [ConnectDestroyed i]) w'" "link_inv (nw_rest w')"
        "el_pendingFunctors w' = ?q @ [ConnectDestroyed i]" "el_eventHandling w' = el_eventHandling ?w" "el_threadId w' = el_threadId w"
        "after_close env i ?s (nw_rest w')"
      using handleClose_client [of ?q ?w i c1 env tid] parts(2) c1(2) restart by auto
    have "el_eventHandling ?w = el_eventHandling w" by (simp add: put_conn_def)
    then have "client_inv w'" using w' parts(3) by (simp add: client_inv_def)
    moreover have "handleRead (client_user env tid) tid i t w = Inr w'"
      using c(1,4) b(1) True w'(1) by (simp add: handleRead_def Let_def c1_def)
    ultimately show ?thesis using w' by (intro exI [of _ w']) simp
  next
    case False
    obtain b' where b': "retrieveAllAsString b = Inr (bs, b')" "buffer_inv b'" "bytes_of b' = []"
      using retrieveAllAsString_spec [OF b(2)] b(3) by auto
    let ?c = "c1\<lparr>tc_inputBuffer := b'\<rparr>"
    let ?w = "observe (CData i bs) (put_conn i ?c (put_conn i c1 w))"
    have "reads_of ?c = reads_of c @ [bs]" using c1(5) by (simp add: reads_of_def)
    then have "session i ?c = session i c @ [CData i bs]" using c1 opened False by (simp add: session_def open_conn_def)
    then have "conns_inv (?q @ []) ?w"
      by (intro put_conn_inv [OF parts(1) c(1), where es = "[CData i bs]" and c' = ?c]) (use c1 opened b' in \<open>simp_all add: open_conn_def\<close>)
    then have "client_inv ?w" using parts(2,3) by (simp add: client_inv_def put_conn_def)
    moreover have "handleRead (client_user env tid) tid i t w = Inr ?w"
      using c(1,4) b(1) False b'(1) by (simp add: handleRead_def Let_def client_user_def c1_def)
    ultimately show ?thesis using c(1,4) False by simp
  qed
qed

section \<open>Queued functors\<close>

lemma conns_inv_views:
  assumes inv: "conns_inv q w" and same: "nw_conns w' = nw_conns w" "nw_rest w' = nw_rest w" and "poller_inv (el_poller w')"
    and q: "set q' \<subseteq> set q" and views: "\<And>i c. nw_conns w i = Some c \<Longrightarrow> conn_view q' w' i c"
  shows "conns_inv q' w'"
proof -
  have "case nw_conns w' i of None \<Rightarrow> about i (cl_trace (nw_rest w')) = [] | Some c \<Rightarrow> conn_view q' w' i c" for i
  proof (cases "nw_conns w i")
    case None
    then show ?thesis using inv same unfolding conns_inv_def by (metis option.simps(4))
  qed (use views same in simp)
  moreover have "\<forall>f \<in> set q'. functor_ok w' f"
    using inv q by (auto simp: conns_inv_def functor_ok_def same)
  ultimately show ?thesis using inv assms(4) unfolding conns_inv_def same by blast
qed

lemma conns_inv_pop:
  assumes "conns_inv (f # q) w" and "\<And>i. f \<noteq> ConnectDestroyed i"
  shows "conns_inv q w"
proof (rule conns_inv_views [OF assms(1)])
  show "conn_view q w i c" if "nw_conns w i = Some c" for i c
    by (rule conn_view_cong [OF conns_inv_conn [OF assms(1) that]]) (use assms(2) [of i] in auto)
qed (use assms(1) in \<open>auto simp: conns_inv_def\<close>)

text \<open>Closed connections stay closed, and their end is not queued again.\<close>

definition keeps_closed :: "client_world \<Rightarrow> client_world \<Rightarrow> net_functor list \<Rightarrow> bool" where
  "keeps_closed w w' new \<longleftrightarrow> (\<forall>j c. nw_conns w j = Some c \<longrightarrow> \<not> open_conn c \<longrightarrow>
     ConnectDestroyed j \<notin> set new \<and> (\<exists>c'. nw_conns w' j = Some c' \<and> \<not> open_conn c'))"

lemma keeps_closed_same: "nw_conns w' = nw_conns w \<Longrightarrow> keeps_closed w w' []"
  by (simp add: keeps_closed_def)

lemma keeps_closed_put:
  "nw_conns w i = Some c \<Longrightarrow> nw_conns w' = (nw_conns w)(i \<mapsto> c') \<Longrightarrow> open_conn c' = open_conn c \<Longrightarrow> keeps_closed w w' []"
  by (auto simp: keeps_closed_def)

lemma shutdown_now:
  assumes inv: "conns_inv q w" and c: "nw_conns w i = Some c"
  shows "\<exists>w'. shutdownInLoop tid i w = Inr w' \<and> conns_inv q w' \<and> nw_rest w' = nw_rest w
    \<and> el_pendingFunctors w' = el_pendingFunctors w \<and> el_eventHandling w' = el_eventHandling w \<and> keeps_closed w w' []"
proof -
  obtain ch where ch: "pl_heap (el_poller w) (tc_channel c) = Some ch" "0 \<le> sk_shutdownResult c" "buffer_inv (tc_inputBuffer c)"
      "bytes_of (tc_inputBuffer c) = []"
    using conns_inv_conn [OF inv c] by (auto simp: conn_view_def)
  let ?c = "c\<lparr>sk_shutdownWrite := True\<rparr>"
  have "shutdownInLoop tid i w = Inr (if isWriting ch then w else put_conn i ?c w)"
    using c ch by (simp add: shutdownInLoop_def with_channel_def shutdownWrite_def)
  moreover have "session i ?c = session i c @ []" by (simp add: session_def open_conn_def reads_of_def)
  then have "conns_inv (q @ []) (put_conn i ?c w)"
    by (intro put_conn_inv [OF inv c, where es = "[]" and c' = ?c]) (use ch in \<open>simp_all add: open_conn_def\<close>)
  moreover have "keeps_closed w (put_conn i ?c w) []" by (rule keeps_closed_put [OF c, where c' = ?c]) (simp_all add: open_conn_def)
  moreover have "keeps_closed w w []" by (rule keeps_closed_same) simp
  ultimately show ?thesis using inv by (simp add: put_conn_def)
qed

lemma destroy_functor:
  assumes inv: "conns_inv (ConnectDestroyed i # q) w" and handling: "\<not> el_eventHandling w"
  shows "\<exists>w' c ch. connectDestroyed i w = Inr w' \<and> conns_inv q w' \<and> nw_rest w' = nw_rest w \<and> keeps_closed w w' []
    \<and> el_pendingFunctors w' = el_pendingFunctors w \<and> el_eventHandling w' = el_eventHandling w
    \<and> nw_conns w i = Some c \<and> pl_heap (el_poller w) (tc_channel c) = Some ch \<and> map_of (pl_channels (el_poller w')) (ch_fd ch) = None"
proof -
  have "functor_ok w (ConnectDestroyed i)" using inv by (simp add: conns_inv_def)
  then obtain c where c: "nw_conns w i = Some c" by (auto simp: functor_ok_def functor_conn_def)
  have view: "conn_view (ConnectDestroyed i # q) w i c" using conns_inv_conn [OF inv c] .
  then have closed: "\<not> open_conn c" by (auto simp: conn_view_def)
  have cd: "ConnectDestroyed i \<notin> set q" using view closed by (auto simp: conn_view_def count_list_zero split: if_splits)
  obtain ch where ch: "pl_heap (el_poller w) (tc_channel c) = Some ch" "registered (el_poller w) (tc_channel c)"
    using view closed by (auto simp: conn_view_def)
  obtain p where p: "connectDestroyed i w = Inr (w\<lparr>el_poller := p\<rparr>)" "poller_inv p" "map_of (pl_channels p) (ch_fd ch) = None"
      "pl_channels p = map_erase (ch_fd ch) (pl_channels (el_poller w))"
      "\<And>d. d \<noteq> tc_channel c \<Longrightarrow> pl_heap p d = pl_heap (el_poller w) d
         \<or> (\<exists>dh idx. pl_heap (el_poller w) d = Some dh \<and> pl_heap p d = Some (set_index idx dh))"
      "pl_heap p (tc_channel c) = Some (remove_mark ch)"
    using connectDestroyed_ok [OF _ c ch handling] inv by (auto simp: conns_inv_def)
  have "conns_inv q (w\<lparr>el_poller := p\<rparr>)"
  proof (rule conns_inv_views [OF inv])
    fix j d
    assume j: "nw_conns w j = Some d"
    show "conn_view q (w\<lparr>el_poller := p\<rparr>) j d"
    proof (cases "j = i")
      case True
      have dh: "\<exists>dh. pl_heap p (tc_channel c) = Some dh \<and> isReading dh = isReading ch" using p(6) by (simp add: remove_mark_def isReading_def)
      moreover have "\<not> registered p (tc_channel c)" using p(3,6) by (simp add: registered_def remove_mark_def)
      ultimately show ?thesis using True j c view closed cd ch by (auto simp: conn_view_def split: if_splits)
    next
      case False
      then have d: "tc_channel d \<noteq> tc_channel c" using inv j c unfolding conns_inv_def by blast
      show ?thesis
      proof (rule conn_view_cong [OF conns_inv_conn [OF inv j]])
        show "\<exists>ch'. pl_heap (el_poller (w\<lparr>el_poller := p\<rparr>)) (tc_channel d) = Some ch' \<and> isReading ch' = isReading dh"
          if "pl_heap (el_poller w) (tc_channel d) = Some dh" for dh
          using p(5) [OF d] that by (auto simp: set_index_def isReading_def)
        show "registered (el_poller (w\<lparr>el_poller := p\<rparr>)) (tc_channel d) \<longleftrightarrow> registered (el_poller w) (tc_channel d)"
        proof -
          obtain dh where dh: "pl_heap (el_poller w) (tc_channel d) = Some dh" using conns_inv_conn [OF inv j] by (auto simp: conn_view_def)
          have "map_of (pl_channels (el_poller w)) (ch_fd ch) = Some (tc_channel c)" using ch by (simp add: registered_heap)
          then show ?thesis using p(4) p(5) [OF d] dh d by (auto simp: registered_def map_of_map_erase set_index_def split: if_splits)
        qed
      qed (use False in simp_all)
    qed
  qed (use p(2) in auto)
  moreover have "keeps_closed w (w\<lparr>el_poller := p\<rparr>) []" by (rule keeps_closed_same) simp
  ultimately show ?thesis using p c ch by (intro exI [of _ "w\<lparr>el_poller := p\<rparr>"] exI [of _ c] exI [of _ ch]) simp
qed

lemma force_functor:
  assumes inv: "conns_inv (ForceCloseInLoop i # q) w" and link: "link_inv (nw_rest w)"
  shows "\<exists>w' new. forceCloseInLoop (client_user env tid) tid i w = Inr w' \<and> conns_inv (q @ new) w' \<and> link_inv (nw_rest w')
    \<and> el_pendingFunctors w' = el_pendingFunctors w @ new \<and> el_eventHandling w' = el_eventHandling w \<and> keeps_closed w w' new"
proof -
  have q: "conns_inv q w" using inv by (rule conns_inv_pop) simp
  have "functor_ok w (ForceCloseInLoop i)" using inv by (simp add: conns_inv_def)
  then obtain c where c: "nw_conns w i = Some c" and det: "i \<in> cl_detached (nw_rest w)" by (auto simp: functor_ok_def functor_conn_def)
  show ?thesis
  proof (cases "open_conn c")
    case True
    obtain w' where w': "handleClose (client_user env tid) tid i w = Inr w'" "conns_inv (q @ [ConnectDestroyed i]) w'" "link_inv (nw_rest w')"
        "el_pendingFunctors w' = el_pendingFunctors w @ [ConnectDestroyed i]" "el_eventHandling w' = el_eventHandling w"
        "nw_conns w' = (nw_conns w)(i \<mapsto> c\<lparr>tc_state := StateE.kDisconnected\<rparr>)"
      using handleClose_client [OF q link c True] det by blast
    have "keeps_closed w w' [ConnectDestroyed i]" using w'(6) c True by (auto simp: keeps_closed_def)
    with w'(1-5) show ?thesis using c True
      by (intro exI [of _ w'] exI [of _ "[ConnectDestroyed i]"]) (simp add: forceCloseInLoop_def open_conn_def)
  next
    case False
    then have "forceCloseInLoop (client_user env tid) tid i w = Inr w" using c by (simp add: forceCloseInLoop_def open_conn_def)
    then show ?thesis using q link keeps_closed_same [of w w] by (intro exI [of _ w] exI [of _ "[]"]) simp
  qed
qed

lemma functor_step:
  assumes inv: "conns_inv (f # q) w" and link: "link_inv (nw_rest w)" and handling: "\<not> el_eventHandling w"
  shows "\<exists>w' new. run_client (client_user env tid) tid f w = Inr w' \<and> conns_inv (q @ new) w' \<and> link_inv (nw_rest w')
    \<and> el_pendingFunctors w' = el_pendingFunctors w @ new \<and> \<not> el_eventHandling w' \<and> keeps_closed w w' new"
proof -
  have fok: "functor_ok w f" using inv by (simp add: conns_inv_def)
  then obtain i where "f = ShutdownInLoop i \<or> f = ForceCloseInLoop i \<or> f = ConnectDestroyed i"
    by (auto simp: functor_ok_def functor_conn_def split: net_functor.splits)
  then consider (shutdown) "f = ShutdownInLoop i" | (force) "f = ForceCloseInLoop i" | (destroy) "f = ConnectDestroyed i" by blast
  then show ?thesis
  proof cases
    case shutdown
    have q: "conns_inv q w" using conns_inv_pop [OF inv] shutdown by blast
    obtain c where "nw_conns w i = Some c" using fok shutdown by (auto simp: functor_ok_def functor_conn_def)
    then obtain w' where "shutdownInLoop tid i w = Inr w'" "conns_inv q w'" "nw_rest w' = nw_rest w"
        "el_pendingFunctors w' = el_pendingFunctors w" "el_eventHandling w' = el_eventHandling w" "keeps_closed w w' []"
      using shutdown_now [OF q] by blast
    then show ?thesis using shutdown link handling by (intro exI [of _ w'] exI [of _ "[]"]) (simp add: run_client_def run_conn_def)
  next
    case force
    then obtain w' new where "forceCloseInLoop (client_user env tid) tid i w = Inr w'" "conns_inv (q @ new) w'" "link_inv (nw_rest w')"
        "el_pendingFunctors w' = el_pendingFunctors w @ new" "el_eventHandling w' = el_eventHandling w" "keeps_closed w w' new"
      using force_functor [of i q w env tid] inv link by blast
    then show ?thesis using force handling by (intro exI [of _ w'] exI [of _ new]) (simp add: run_client_def run_conn_def)
  next
    case destroy
    then obtain w' where "connectDestroyed i w = Inr w'" "conns_inv q w'" "nw_rest w' = nw_rest w"
        "el_pendingFunctors w' = el_pendingFunctors w" "el_eventHandling w' = el_eventHandling w" "keeps_closed w w' []"
      using destroy_functor [of i q w] inv handling by blast
    then show ?thesis using destroy link handling by (intro exI [of _ w'] exI [of _ "[]"]) (simp add: run_client_def run_conn_def)
  qed
qed

lemma functors_ok:
  assumes "conns_inv (fs @ el_pendingFunctors w) w" and "link_inv (nw_rest w)" and "\<not> el_eventHandling w"
  shows "\<exists>w' new. run_functors (run_client (client_user env tid) tid) fs w = Inr w' \<and> client_inv w'
    \<and> el_pendingFunctors w' = el_pendingFunctors w @ new \<and> keeps_closed w w' new"
  using assms
proof (induction fs arbitrary: w)
  case Nil
  then show ?case using keeps_closed_same [of w w] by (simp add: client_inv_def)
next
  case (Cons f fs)
  obtain w1 new1 where w1: "run_client (client_user env tid) tid f w = Inr w1" "conns_inv (fs @ el_pendingFunctors w1) w1" "link_inv (nw_rest w1)"
      "\<not> el_eventHandling w1" "el_pendingFunctors w1 = el_pendingFunctors w @ new1" "keeps_closed w w1 new1"
    using functor_step [of f "fs @ el_pendingFunctors w" w env tid] Cons.prems by auto
  obtain w' new where w': "run_functors (run_client (client_user env tid) tid) fs w1 = Inr w'" "client_inv w'"
      "el_pendingFunctors w' = el_pendingFunctors w1 @ new" "keeps_closed w1 w' new"
    using Cons.IH [OF w1(2-4)] by blast
  have "keeps_closed w w' (new1 @ new)" using w1(6) w'(4) unfolding keeps_closed_def by (metis Un_iff set_append)
  then show ?case using w1 w' by (intro exI [of _ w'] exI [of _ "new1 @ new"]) simp
qed

lemma pending_client_ok:
  assumes "client_inv w"
  shows "\<exists>w'. doPendingFunctors (run_client (client_user env tid) tid) w = Inr w' \<and> client_inv w'
    \<and> keeps_closed w w' (el_pendingFunctors w')"
proof -
  let ?w = "w\<lparr>el_callingPendingFunctors := True, el_pendingFunctors := []\<rparr>"
  have "conns_inv (el_pendingFunctors w @ el_pendingFunctors ?w) ?w"
    using assms by (auto simp: client_inv_def intro: conns_inv_cong)
  then obtain w' where w': "run_functors (run_client (client_user env tid) tid) (el_pendingFunctors w) ?w = Inr w'" "client_inv w'"
      "keeps_closed ?w w' (el_pendingFunctors w')"
    using functors_ok [of "el_pendingFunctors w" ?w env tid] assms by (auto simp: client_inv_def)
  have "conns_inv (el_pendingFunctors w') (w'\<lparr>el_callingPendingFunctors := False\<rparr>)"
    using w'(2) by (auto simp: client_inv_def intro: conns_inv_cong)
  then have "client_inv (w'\<lparr>el_callingPendingFunctors := False\<rparr>)" using w'(2) by (simp add: client_inv_def)
  moreover have "keeps_closed w (w'\<lparr>el_callingPendingFunctors := False\<rparr>) (el_pendingFunctors w')"
    using w'(3) by (simp add: keeps_closed_def)
  ultimately show ?thesis using w'(1) by (simp add: doPendingFunctors_def swap_functors_def)
qed

section \<open>Disconnecting and destroying\<close>

text \<open>An open connection that starts to close, with a functor queued for it.\<close>

lemma disconnecting_inv:
  assumes inv: "conns_inv q w" and conn: "nw_conns w i = Some c" "open_conn c"
    and w': "nw_conns w' = (nw_conns w)(i \<mapsto> c\<lparr>tc_state := StateE.kDisconnecting\<rparr>)" "el_poller w' = el_poller w"
      "cl_connection (nw_rest w') = cl_connection (nw_rest w)" "cl_detached (nw_rest w') = cl_detached (nw_rest w)"
      "cl_trace (nw_rest w') = cl_trace (nw_rest w)"
    and new: "\<forall>f \<in> set new. f = ShutdownInLoop i \<or> f = ForceCloseInLoop i \<and> i \<in> cl_detached (nw_rest w)"
  shows "conns_inv (q @ new) w'"
proof (rule put_conn_inv [OF inv conn(1), where es = "[]"])
  show "session i (c\<lparr>tc_state := StateE.kDisconnecting\<rparr>) = session i c @ []"
    using conn(2) by (simp add: session_def open_conn_def reads_of_def)
  show "\<forall>f \<in> set new. functor_conn f = Some i \<and> f \<noteq> ConnectDestroyed i \<and> (f = ForceCloseInLoop i \<longrightarrow> i \<in> cl_detached (nw_rest w))"
    using new by (auto simp: functor_conn_def)
qed (use conns_inv_conn [OF inv conn(1)] conn(2) w' in \<open>simp_all add: open_conn_def conn_view_def\<close>)

lemma disconnect_ok:
  assumes inv: "client_inv w"
  shows "\<exists>w'. disconnect_client tid w = Inr w' \<and> client_inv w'"
proof -
  let ?s = "(nw_rest w)\<lparr>cl_connect := False\<rparr>"
  let ?w = "put_client ?s w"
  have inv1: "client_inv ?w" using client_inv_rest [OF inv, of ?s] inv by (simp add: client_inv_def)
  show ?thesis
  proof (cases "cl_connection ?s")
    case None
    then show ?thesis using inv1 by (simp add: disconnect_client_def Let_def)
  next
    case (Some i)
    then obtain c where c: "nw_conns w i = Some c" "open_conn c" using inv unfolding client_inv_def conns_inv_def by auto
    have q: "conns_inv (el_pendingFunctors w) ?w" using inv1 by (simp add: client_inv_def)
    let ?c = "c\<lparr>tc_state := StateE.kDisconnecting\<rparr>"
    consider (idle) "tc_state c \<noteq> StateE.kConnected" | (here) "tc_state c = StateE.kConnected" "isInLoopThread tid w"
      | (other) "tc_state c = StateE.kConnected" "\<not> isInLoopThread tid w" by blast
    then show ?thesis
    proof cases
      case idle
      then show ?thesis using inv1 Some c by (simp add: disconnect_client_def shutdown_def Let_def)
    next
      case here
      have "conns_inv (el_pendingFunctors w @ []) (put_conn i ?c ?w)"
        by (rule disconnecting_inv [OF q, of i c]) (use c in simp_all)
      then obtain w' where w': "shutdownInLoop tid i (put_conn i ?c ?w) = Inr w'" "conns_inv (el_pendingFunctors w) w'" "nw_rest w' = ?s"
          "el_pendingFunctors w' = el_pendingFunctors w" "el_eventHandling w' = el_eventHandling (put_conn i ?c ?w)"
        using shutdown_now [of "el_pendingFunctors w" "put_conn i ?c ?w" i ?c tid] by auto
      have "client_inv w'" using w' inv1 by (simp add: client_inv_def put_conn_def)
      then show ?thesis using here Some c w'(1)
        by (simp add: disconnect_client_def shutdown_def Let_def setState_def runInLoop_def isInLoopThread_def)
    next
      case other
      let ?w' = "queueInLoop tid (ShutdownInLoop i) (put_conn i ?c ?w)"
      have "conns_inv (el_pendingFunctors w @ [ShutdownInLoop i]) ?w'"
        by (rule disconnecting_inv [OF q, of i c]) (use c in simp_all)
      then have "client_inv ?w'" using inv1 by (simp add: client_inv_def put_conn_def)
      then show ?thesis using other Some c
        by (simp add: disconnect_client_def shutdown_def Let_def setState_def runInLoop_def isInLoopThread_def)
    qed
  qed
qed

lemma detach_inv:
  assumes inv: "conns_inv q w" and i: "cl_connection (nw_rest w) = Some i"
    and s: "cl_connection s = None" "cl_detached s = insert i (cl_detached (nw_rest w))" "cl_trace s = cl_trace (nw_rest w)"
  shows "conns_inv q (put_client s w)"
proof -
  have "conn_view q (put_client s w) j c" if j: "nw_conns w j = Some c" for j c
    using conns_inv_conn [OF inv j] i s by (auto simp: conn_view_def)
  then have "case nw_conns w j of None \<Rightarrow> about j (cl_trace s) = [] | Some c \<Rightarrow> conn_view q (put_client s w) j c" for j
    using inv s(3) by (auto simp: conns_inv_def split: option.splits dest!: spec [of _ j])
  moreover have "functor_ok (put_client s w) f" if "f \<in> set q" for f
  proof -
    have "functor_ok w f" using inv that by (simp add: conns_inv_def)
    then show ?thesis using s(2) by (auto simp: functor_ok_def)
  qed
  moreover have "cl_detached s \<subseteq> dom (nw_conns w)" using inv i s(2) by (auto simp: conns_inv_def)
  moreover have "\<forall>i j c d. nw_conns w i = Some c \<longrightarrow> nw_conns w j = Some d \<longrightarrow> tc_channel c = tc_channel d \<longrightarrow> i = j" "poller_inv (el_poller w)"
    using inv unfolding conns_inv_def by blast+
  ultimately show ?thesis using s(1) by (simp add: conns_inv_def cong: option.case_cong)
qed

lemma destroy_idle:
  assumes inv: "client_inv w" and alive: "cl_alive (nw_rest w)" and none: "cl_connection (nw_rest w) = None"
  shows "\<exists>w'. TcpClient_dtor tid unique w = Inr w' \<and> client_inv w'"
proof -
  let ?s = "nw_rest w"
  have link: "link_inv ?s" using inv by (simp add: client_inv_def)
  then obtain cn where cn: "cl_connector ?s = Some cn" using alive by (cases "cl_connector ?s") (auto simp: link_inv_def)
  let ?s' = "?s\<lparr>cl_connector := Some (stop cn), cl_holds := True, cl_connection := None, cl_alive := False\<rparr>"
  have "connector_inv (stop cn)" using link cn stop_ok by (simp add: link_inv_def)
  then have "link_inv ?s'" by (simp add: link_inv_def stop_def)
  then have "client_inv (put_client ?s' w)" using client_inv_rest [OF inv] none by simp
  then show ?thesis using none cn by (simp add: TcpClient_dtor_def on_connector_def)
qed

lemma destroy_connected:
  assumes inv: "client_inv w" and env: "client_env w (ClDestroy unique)" and i: "cl_connection (nw_rest w) = Some i"
  shows "\<exists>w'. TcpClient_dtor (el_threadId w) unique w = Inr w' \<and> client_inv w'"
proof -
  let ?s = "nw_rest w" and ?tid = "el_threadId w" and ?q = "el_pendingFunctors w"
  have link: "link_inv ?s" and q: "conns_inv ?q w" using inv by (simp_all add: client_inv_def)
  obtain cn where cn: "cl_connector ?s = Some cn" "cn_pending cn = []" "connector_inv cn" "cn_state cn = connector_state.kConnected"
    using link env i by (cases "cl_connector ?s") (auto simp: link_inv_def)
  then have dtor: "Connector_dtor cn = Inr ()" by (auto simp: Connector_dtor_def connector_inv_def connector_base_def)
  obtain c where c: "nw_conns w i = Some c" "open_conn c" using q i unfolding conns_inv_def by blast
  let ?c = "c\<lparr>tc_state := StateE.kDisconnecting\<rparr>"
  let ?s' = "?s\<lparr>cl_detached := insert i (cl_detached ?s), cl_connector := None, cl_connection := None, cl_alive := False\<rparr>"
  have det: "conns_inv ?q (put_client ?s' w)" by (rule detach_inv [OF q i]) simp_all
  have link': "link_inv ?s'" by (simp add: link_inv_def)
  have detach: "runInLoop (\<lambda>_ w. Inr (setCloseCallback_detail i w)) ?tid (SetCloseCallback i) w
      = Inr (put_client (?s\<lparr>cl_detached := insert i (cl_detached ?s)\<rparr>) w)"
    by (simp add: runInLoop_def isInLoopThread_def setCloseCallback_detail_def)
  show ?thesis
  proof (cases unique)
    case True
    let ?w = "put_client ?s' (queueInLoop ?tid (ForceCloseInLoop i) (put_conn i ?c (put_client (?s\<lparr>cl_detached := insert i (cl_detached ?s)\<rparr>) w)))"
    have "TcpClient_dtor ?tid unique w = Inr ?w"
      using True i c cn(1) dtor detach
      by (simp add: TcpClient_dtor_def forceClose_def setState_def open_conn_def release_connector_def)
    moreover have "conns_inv (?q @ [ForceCloseInLoop i]) ?w"
      by (rule disconnecting_inv [OF det, of i c]) (use c in simp_all)
    then have "client_inv ?w" using link' inv by (simp add: client_inv_def put_conn_def)
    ultimately show ?thesis by blast
  next
    case False
    then have "TcpClient_dtor ?tid unique w = Inr (put_client ?s' w)"
      using i cn(1) dtor detach by (simp add: TcpClient_dtor_def release_connector_def)
    moreover have "client_inv (put_client ?s' w)" using det link' inv by (simp add: client_inv_def)
    ultimately show ?thesis by blast
  qed
qed

lemma removeConnector_ok:
  assumes inv: "client_inv w" and env: "client_env w ClRelease"
  shows "\<exists>w'. removeConnector w = Inr w' \<and> client_inv w'"
proof (cases "cl_holds (nw_rest w)")
  case True
  let ?s = "nw_rest w"
  have link: "link_inv ?s" using inv by (simp add: client_inv_def)
  have "link_inv (?s\<lparr>cl_connector := None, cl_holds := False\<rparr>)" using link True by (auto simp: link_inv_def)
  then have "client_inv (put_client (?s\<lparr>cl_connector := None, cl_holds := False\<rparr>) w)" using client_inv_rest [OF inv] by simp
  moreover have "link_inv (?s\<lparr>cl_holds := False\<rparr>)" using link True by (auto simp: link_inv_def split: option.splits)
  then have "client_inv (put_client (?s\<lparr>cl_holds := False\<rparr>) w)" using client_inv_rest [OF inv] by simp
  ultimately show ?thesis
    using True env by (cases "cl_connector ?s") (simp_all add: removeConnector_def release_connector_def Connector_dtor_def)
qed (use inv in \<open>simp add: removeConnector_def\<close>)

lemma client_step_ok:
  assumes "client_inv w" and "client_env w e"
  shows "\<exists>w'. client_step ipPort w e = Inr w' \<and> client_inv w'"
proof (cases e)
  case ClEnableRetry
  have "client_inv (put_client ((nw_rest w)\<lparr>cl_retry := True\<rparr>) w)"
    using client_inv_rest [OF assms(1), of "(nw_rest w)\<lparr>cl_retry := True\<rparr>"] assms(1) by (simp add: client_inv_def)
  then show ?thesis using ClEnableRetry by (simp add: enableRetry_def)
next
  case (ClDestroy unique)
  then show ?thesis using assms destroy_idle [OF assms(1)] destroy_connected [OF assms(1)]
    by (cases "cl_connection (nw_rest w)") auto
next
  case (ClError env)
  then show ?thesis using connector_event_ok [OF assms(1), of "CnError env" env] assms(2) by simp
next
  case (ClFunctor env)
  then show ?thesis using connector_event_ok [OF assms(1), of "CnFunctor env" env] assms(2) by simp
next
  case (ClTimer env)
  then show ?thesis using connector_event_ok [OF assms(1), of "CnTimer env" env] assms(2) by simp
next
  case (ClConnect env tid)
  then show ?thesis using connect_client_ok [OF assms(1)] assms(2) by simp
next
  case (ClWritable env ob)
  then show ?thesis using connector_writable_ok [OF assms(1)] assms(2) by simp
next
  case (ClRead env i t)
  then show ?thesis using handleRead_client [OF assms(1), of env i "el_threadId w" t] assms(2) by auto
next
  case (ClPending env)
  then show ?thesis using pending_client_ok [OF assms(1), of env "el_threadId w"] by auto
qed (use assms stop_client_ok disconnect_ok removeConnector_ok in simp_all)

interpretation clsys: safe_system "client_step ipPort" client_env client_inv for ipPort
proof
  fix w w' e
  assume *: "client_inv w" "client_env w e"
  show "\<exists>w'. client_step ipPort w e = Inr w'" using client_step_ok [OF *] by blast
  show "client_step ipPort w e = Inr w' \<Longrightarrow> client_inv w'" using client_step_ok [OF *, of ipPort] by auto
qed

section \<open>Starting and reconnecting\<close>

definition fresh_client :: "string \<Rightarrow> client_world \<Rightarrow> bool" where
  "fresh_client name w \<longleftrightarrow> poller_inv (el_poller w) \<and> nw_conns w = Map.empty \<and> el_pendingFunctors w = [] \<and> \<not> el_eventHandling w
     \<and> nw_rest w = TcpClient_ctor name"

lemma fresh_inv: "fresh_client name w \<Longrightarrow> client_inv w"
  by (simp add: fresh_client_def client_inv_def conns_inv_def link_inv_def TcpClient_ctor_def ctor_inv about_def)

text \<open>A restart opens a new socket, which is connecting, or was refused and is tried again after 500 ms.\<close>

lemma restart_attempt:
  assumes "connector_inv cn" and "connector_env cn (CnRestart env)" and "restart env cn = Inr cn'"
  shows "cn_connect cn' \<and> (cn_state cn' = connector_state.kConnecting \<and> registered_channel cn' \<noteq> None
      \<or> cn_state cn' = connector_state.kDisconnected \<and> cn_timers cn' = [kInitRetryDelayMs])"
proof -
  have "cn_timers cn = []" "cn_channel cn = None" "sys_ok env" using assms(1,2) by (auto simp: connector_inv_def)
  then show ?thesis
    using assms(3) by (auto simp: restart_def startInLoop_def connect_def createNonblockingOrDie_def connecting_def retry_def close_socket_def
        sockets_close_def registered_channel_def sys_ok_def Let_def outcome_simps split: if_splits)
qed

section \<open>Properties\<close>

text \<open>
  C11. A client in any order of events. Whatever its user does (connect, disconnect, stop, enable
  retries, destroy it in the loop thread) and whatever happens to its sockets, within the contract,
  no assertion fails and no dangling pointer is followed. The user sees of every connection that it
  came up, then all data received in order, then, if it has ended, that it went down. The client
  refers to an open connection that is registered with the loop; every other open connection belongs
  to no client. Every descriptor its connector created is closed, handed over, or the one waited for.
\<close>

theorem client_run_safe:
  assumes "fresh_client name w" and "env_obeys (client_step ipPort) client_env w es"
  shows "\<exists>w'. run_events (client_step ipPort) w es = Inr w'
    \<and> (\<forall>i c. nw_conns w' i = Some c \<longrightarrow>
         filter (\<lambda>e. subject e = i) (cl_trace (nw_rest w'))
           = CUp i # map (CData i) (filter (\<lambda>b. b \<noteq> []) (reads_of c)) @ (if tc_state c = StateE.kDisconnected then [CDown i] else [])
         \<and> (tc_state c \<noteq> StateE.kDisconnected \<longrightarrow> registered (el_poller w') (tc_channel c)
              \<and> (cl_connection (nw_rest w') = Some i \<or> i \<in> cl_detached (nw_rest w'))))
    \<and> (\<forall>i. cl_connection (nw_rest w') = Some i \<longrightarrow> cl_alive (nw_rest w')
         \<and> (\<exists>c. nw_conns w' i = Some c \<and> tc_state c \<noteq> StateE.kDisconnected))
    \<and> (\<forall>cn. cl_connector (nw_rest w') = Some cn \<longrightarrow> mset (cn_created cn) = mset (cn_closed cn) + mset (cn_delivered cn)
         + (case registered_channel cn of Some ch \<Rightarrow> {#cc_fd ch#} | None \<Rightarrow> {#}))"
proof -
  obtain w' where w': "run_events (client_step ipPort) w es = Inr w'" "client_inv w'"
    using clsys.run_safe [OF fresh_inv [OF assms(1)] assms(2)] by blast
  have inv: "conns_inv (el_pendingFunctors w') w'" "link_inv (nw_rest w')" using w'(2) by (simp_all add: client_inv_def)
  have "filter (\<lambda>e. subject e = i) (cl_trace (nw_rest w'))
        = CUp i # map (CData i) (filter (\<lambda>b. b \<noteq> []) (reads_of c)) @ (if tc_state c = StateE.kDisconnected then [CDown i] else [])
      \<and> (tc_state c \<noteq> StateE.kDisconnected \<longrightarrow> registered (el_poller w') (tc_channel c)
           \<and> (cl_connection (nw_rest w') = Some i \<or> i \<in> cl_detached (nw_rest w')))" if "nw_conns w' i = Some c" for i c
    using conns_inv_conn [OF inv(1) that] by (auto simp: conn_view_def about_def session_def open_conn_def split: if_splits)
  moreover have "cl_alive (nw_rest w') \<and> (\<exists>c. nw_conns w' i = Some c \<and> tc_state c \<noteq> StateE.kDisconnected)"
    if "cl_connection (nw_rest w') = Some i" for i
    using inv that by (auto simp: conns_inv_def link_inv_def open_conn_def)
  moreover have "mset (cn_created cn) = mset (cn_closed cn) + mset (cn_delivered cn)
      + (case registered_channel cn of Some ch \<Rightarrow> {#cc_fd ch#} | None \<Rightarrow> {#})" if "cl_connector (nw_rest w') = Some cn" for cn
    using inv(2) that by (simp add: link_inv_def connector_inv_def)
  ultimately show ?thesis using w'(1) by blast
qed

text \<open>
  C39. What happens when the server closes the connection of a client. The user is told once, the
  client forgets the connection, and after the queued functors have run its channel is out of the
  poller. If the client was told to retry and not to disconnect, a new attempt is under way at
  once: a socket is connecting, or the attempt was refused and a timer of 500 ms is set. Otherwise
  the connector is left as it was.
\<close>

theorem client_reconnects:
  assumes "fresh_client name w" and "env_obeys (client_step ipPort) client_env w es" and "run_events (client_step ipPort) w es = Inr w1"
    and "cl_connection (nw_rest w1) = Some i" and "nw_conns w1 i = Some c" and "sk_reads c (sk_nreads c) = ReadBytes []"
    and "client_env w1 (ClRead env i t)"
  shows "\<exists>w2 w3 c3. client_step ipPort w1 (ClRead env i t) = Inr w2 \<and> client_step ipPort w2 (ClPending env') = Inr w3
    \<and> cl_connection (nw_rest w2) = None \<and> cl_trace (nw_rest w2) = cl_trace (nw_rest w1) @ [CDown i]
    \<and> nw_conns w3 i = Some c3 \<and> tc_state c3 = StateE.kDisconnected \<and> \<not> registered (el_poller w3) (tc_channel c3)
    \<and> (if cl_retry (nw_rest w1) \<and> cl_connect (nw_rest w1)
       then \<exists>cn. cl_connector (nw_rest w2) = Some cn \<and> cn_connect cn
          \<and> (cn_state cn = connector_state.kConnecting \<and> registered_channel cn \<noteq> None
             \<or> cn_state cn = connector_state.kDisconnected \<and> cn_timers cn = [500])
       else cl_connector (nw_rest w2) = cl_connector (nw_rest w1))"
proof -
  let ?s = "nw_rest w1"
  have inv: "client_inv w1" using clsys.run_inv [OF fresh_inv [OF assms(1)] assms(2,3)] .
  have env: "readable_env env i w1" using assms(7) by simp
  have det: "i \<notin> cl_detached ?s" using inv assms(4) by (auto simp: client_inv_def conns_inv_def)
  obtain w2 where w2: "client_step ipPort w1 (ClRead env i t) = Inr w2" "client_inv w2" "after_close env i ?s (nw_rest w2)"
      "el_pendingFunctors w2 = el_pendingFunctors w1 @ [ConnectDestroyed i]"
    using handleRead_client [OF inv env, of "el_threadId w1" t] assms(5,6) by auto
  obtain w3 where w3: "client_step ipPort w2 (ClPending env') = Inr w3" "client_inv w3" "keeps_closed w2 w3 (el_pendingFunctors w3)"
    using pending_client_ok [OF w2(2), of env' "el_threadId w2"] by auto
  have "functor_ok w2 (ConnectDestroyed i)" using w2(2,4) by (simp add: client_inv_def conns_inv_def)
  then obtain c2 where c2: "nw_conns w2 i = Some c2" by (auto simp: functor_ok_def functor_conn_def)
  have "\<not> open_conn c2" using conns_inv_conn [of "el_pendingFunctors w2", OF _ c2] w2(2,4) by (auto simp: client_inv_def conn_view_def)
  then obtain c3 where c3: "nw_conns w3 i = Some c3" "\<not> open_conn c3" "ConnectDestroyed i \<notin> set (el_pendingFunctors w3)"
    using w3(3) c2 unfolding keeps_closed_def by blast
  have "tc_state c3 = StateE.kDisconnected" "\<not> registered (el_poller w3) (tc_channel c3)"
    using conns_inv_conn [of "el_pendingFunctors w3", OF _ c3(1)] w3(2) c3(2,3) by (auto simp: client_inv_def conn_view_def)
  moreover have "if cl_retry ?s \<and> cl_connect ?s
       then \<exists>cn. cl_connector (nw_rest w2) = Some cn \<and> cn_connect cn
          \<and> (cn_state cn = connector_state.kConnecting \<and> registered_channel cn \<noteq> None
             \<or> cn_state cn = connector_state.kDisconnected \<and> cn_timers cn = [500])
       else cl_connector (nw_rest w2) = cl_connector ?s"
  proof (cases "cl_retry ?s \<and> cl_connect ?s")
    case True
    then obtain cn cn' where cn: "cl_connector ?s = Some cn" "restart env cn = Inr cn'" "cl_connector (nw_rest w2) = Some cn'"
      using w2(3) det by (auto simp: after_close_def)
    note link = link_inv_connector [OF inv cn(1)]
    have "connector_env cn (CnRestart env)"
      using link(1) link(3) env cn(1) assms(4) by (auto simp: readable_env_def connector_inv_def connector_base_def)
    from restart_attempt [OF link(1) this cn(2)] show ?thesis using True cn(3) by (simp add: kInitRetryDelayMs_def)
  next
    case False
    then show ?thesis using w2(3) det by (auto simp: after_close_def)
  qed
  ultimately show ?thesis
    using w2(1) w3(1) c3(1) after_close_rest [OF w2(3)] det by (intro exI [of _ w2] exI [of _ w3] exI [of _ c3]) simp
qed

text \<open>
  A client cannot be connected again after its connection has ended: the connector is still in the
  state of the old connection, and its start fails an assertion.
\<close>

lemma second_connect_fails:
  assumes "cl_connector (nw_rest w) = Some cn" and "cn_state cn = connector_state.kConnected" and "tid = el_threadId w"
  shows "connect_client env tid w = Inl AssertionFailed"
  using assms by (simp add: connect_client_def on_connector_def start_def startInLoop_def isInLoopThread_def Let_def)

section \<open>Witnesses\<close>

definition idle_client :: client_world where
  "idle_client = \<lparr>el_looping = True, el_quit = False, el_eventHandling = False, el_callingPendingFunctors = False,
     el_iteration = 0, el_threadId = 1, el_pollReturnTime = Timestamp_default,
     el_poller = PollPoller_ctor Map.empty, el_wakeupFd = 3, el_wakeupChannel = 0, el_activeChannels = [],
     el_currentActiveChannel = None, el_pendingFunctors = [], el_eventfd = 0, nw_conns = Map.empty, nw_rest = TcpClient_ctor ''c''\<rparr>"

definition sample_object :: new_object where
  "sample_object = \<lparr>no_conn = 0, no_channel = 7, no_logHup = True, no_tied = True,
     no_reads = (\<lambda>_. ReadBytes []), no_writes = (\<lambda>_. Wrote 0), no_shutdown = 0\<rparr>"

definition sample_connector :: connector where
  "sample_connector = Connector_ctor\<lparr>cn_connect := True, cn_state := connector_state.kConnecting, cn_created := [8],
     cn_channel := Some \<lparr>cc_fd = 8, cc_writing = True, cc_registered = True\<rparr>\<rparr>"

definition connected_connector :: connector where
  "connected_connector = sample_connector\<lparr>cn_state := connector_state.kConnected, cn_delivered := [8], cn_pending := [ResetChannel],
     cn_channel := Some \<lparr>cc_fd = 8, cc_writing = False, cc_registered = False\<rparr>\<rparr>"

definition sample_events :: "client_event list" where
  "sample_events = [ClEnableRetry, ClConnect (accepted_env 8) 1, ClWritable (accepted_env 9) sample_object, ClFunctor (accepted_env 9)]"

lemma fresh_sample: "fresh_client ''c'' idle_client"
  by (simp add: fresh_client_def idle_client_def PollPoller_ctor_def poller_inv_def)

lemma sample_connects:
  defines "s \<equiv> (TcpClient_ctor ''c'')\<lparr>cl_retry := True, cl_connector := Some sample_connector\<rparr>"
  shows "env_obeys (client_step ipPort) client_env idle_client [ClEnableRetry, ClConnect (accepted_env 8) 1]"
    "run_events (client_step ipPort) idle_client [ClEnableRetry, ClConnect (accepted_env 8) 1] = Inr (put_client s idle_client)"
  by (simp_all add: s_def sample_connector_def enableRetry_def connect_client_def on_connector_def connector_allows_def isInLoopThread_def
      idle_client_def put_client_def TcpClient_ctor_def connector_eval)

lemma sample_delivers: "handleWrite_connector (accepted_env 9) sample_connector = Inr connected_connector"
  by code_simp

lemma sample_client_run:
  "\<exists>w nm ch. env_obeys (client_step ipPort) client_env idle_client sample_events
    \<and> run_events (client_step ipPort) idle_client sample_events = Inr w
    \<and> nw_rest w = (TcpClient_ctor ''c'')\<lparr>cl_retry := True, cl_connector := Some (connected_connector\<lparr>cn_pending := [], cn_channel := None\<rparr>),
        cl_nextConnId := 2, cl_connection := Some 0, cl_trace := [CUp 0]\<rparr>
    \<and> nw_conns w 0 = Some (established_conn nm 7 (\<lambda>_. ReadBytes []) (\<lambda>_. Wrote 0) 0)
    \<and> pl_heap (el_poller w) 7 = Some ch \<and> isReading ch"
proof -
  let ?s = "(TcpClient_ctor ''c'')\<lparr>cl_retry := True, cl_connector := Some sample_connector\<rparr>"
  let ?w = "put_client ?s idle_client"
  have inv: "client_inv ?w"
    using clsys.run_inv [OF fresh_inv [OF fresh_sample] sample_connects] .
  have env: "client_env ?w (ClWritable (accepted_env 9) sample_object)"
    by (simp add: connector_allows_def sample_connector_def sample_object_def idle_client_def PollPoller_ctor_def TcpClient_ctor_def
        put_client_def connector_eval)
  obtain w nm ch where w: "connector_writable ipPort (accepted_env 9) (el_threadId ?w) sample_object ?w = Inr w"
      "nw_rest w = ?s\<lparr>cl_connector := Some connected_connector, cl_nextConnId := 2, cl_connection := Some 0, cl_trace := [CUp 0]\<rparr>"
      "nw_conns w 0 = Some (established_conn nm 7 (\<lambda>_. ReadBytes []) (\<lambda>_. Wrote 0) 0)"
      "pl_heap (el_poller w) 7 = Some ch" "isReading ch"
    using connector_writable_ok(2) [OF inv env _ sample_delivers, of ipPort "el_threadId ?w"]
    by (auto simp: sample_object_def TcpClient_ctor_def connected_connector_def sample_connector_def Connector_ctor_def)
  have step4: "client_step ipPort w (ClFunctor (accepted_env 9))
      = Inr (put_client ((nw_rest w)\<lparr>cl_connector := Some (connected_connector\<lparr>cn_pending := [], cn_channel := None\<rparr>)\<rparr>) w)"
    using w(2) by (simp add: on_connector_def connected_connector_def run_functor_def resetChannel_def)
  have env4: "client_env w (ClFunctor (accepted_env 9))"
    using w(2) by (simp add: connector_allows_def connector_eval)
  have split: "sample_events = [ClEnableRetry, ClConnect (accepted_env 8) 1]
      @ [ClWritable (accepted_env 9) sample_object, ClFunctor (accepted_env 9)]"
    by (simp add: sample_events_def)
  have step3: "client_step ipPort ?w (ClWritable (accepted_env 9) sample_object) = Inr w" using w(1) by simp
  have "env_obeys (client_step ipPort) client_env idle_client sample_events"
    unfolding split env_obeys_append [OF sample_connects(2)] using sample_connects(1) [of ipPort] env step3 env4 step4
    by (simp del: client_env.simps client_step.simps)
  moreover have "run_events (client_step ipPort) idle_client sample_events
      = Inr (put_client ((nw_rest w)\<lparr>cl_connector := Some (connected_connector\<lparr>cn_pending := [], cn_channel := None\<rparr>)\<rparr>) w)"
    unfolding split run_events_append sample_connects(2) using step3 step4 by (simp del: client_step.simps)
  ultimately show ?thesis using w(2-5) by (intro exI conjI) (assumption, assumption, simp_all)
qed

theorem client_run_safe_witness:
  "\<exists>w c. run_events (client_step (\<lambda>_. ''1.2.3.4:5'')) idle_client sample_events = Inr w \<and> cl_connection (nw_rest w) = Some 0
    \<and> nw_conns w 0 = Some c \<and> tc_state c \<noteq> StateE.kDisconnected \<and> registered (el_poller w) (tc_channel c)"
proof -
  obtain w where w: "env_obeys (client_step (\<lambda>_. ''1.2.3.4:5'')) client_env idle_client sample_events"
      "run_events (client_step (\<lambda>_. ''1.2.3.4:5'')) idle_client sample_events = Inr w" "cl_connection (nw_rest w) = Some 0"
    using sample_client_run [of "\<lambda>_. ''1.2.3.4:5''"] by auto
  show ?thesis using client_run_safe [OF fresh_sample w(1)] w(2,3) by auto
qed

theorem client_reconnects_witness:
  "\<exists>w1 w2 w3 cn. run_events (client_step (\<lambda>_. ''1.2.3.4:5'')) idle_client sample_events = Inr w1
    \<and> client_step (\<lambda>_. ''1.2.3.4:5'') w1 (ClRead (accepted_env 10) 0 Timestamp_default) = Inr w2
    \<and> client_step (\<lambda>_. ''1.2.3.4:5'') w2 (ClPending (accepted_env 11)) = Inr w3
    \<and> cl_connection (nw_rest w2) = None \<and> cl_trace (nw_rest w2) = [CUp 0, CDown 0]
    \<and> cl_connector (nw_rest w2) = Some cn \<and> cn_connect cn
    \<and> (cn_state cn = connector_state.kConnecting \<and> registered_channel cn \<noteq> None
       \<or> cn_state cn = connector_state.kDisconnected \<and> cn_timers cn = [500])"
proof -
  obtain w nm ch where w: "env_obeys (client_step (\<lambda>_. ''1.2.3.4:5'')) client_env idle_client sample_events"
      "run_events (client_step (\<lambda>_. ''1.2.3.4:5'')) idle_client sample_events = Inr w"
      "nw_rest w = (TcpClient_ctor ''c'')\<lparr>cl_retry := True, cl_connector := Some (connected_connector\<lparr>cn_pending := [], cn_channel := None\<rparr>),
        cl_nextConnId := 2, cl_connection := Some 0, cl_trace := [CUp 0]\<rparr>"
      "nw_conns w 0 = Some (established_conn nm 7 (\<lambda>_. ReadBytes []) (\<lambda>_. Wrote 0) 0)"
      "pl_heap (el_poller w) 7 = Some ch" "isReading ch"
    using sample_client_run [of "\<lambda>_. ''1.2.3.4:5''"] by blast
  let ?c = "established_conn nm 7 (\<lambda>_. ReadBytes []) (\<lambda>_. Wrote 0) 0"
  have "room_for (writableBytes (new_Buffer kInitialSize) + kExtraBuf) (new_Buffer kInitialSize)"
    by (simp add: buffer_eval kInitialSize_def)
  then have env: "client_env w (ClRead (accepted_env 10) 0 Timestamp_default)"
    using w(3-6) by (simp add: readable_env_def established_conn_def connector_eval)
  have c: "cl_connection (nw_rest w) = Some 0" "sk_reads ?c (sk_nreads ?c) = ReadBytes []" "cl_retry (nw_rest w)" "cl_connect (nw_rest w)"
      "cl_trace (nw_rest w) = [CUp 0]"
    using w(3) by (simp_all add: established_conn_def TcpClient_ctor_def)
  show ?thesis using client_reconnects [OF fresh_sample w(1,2) c(1) w(4) c(2) env, of "accepted_env 11"] w(2) c(3-5) by auto
qed

end
