(* ===== verification/Doubles.thy ===== *)
theory Doubles
  imports Prelude Complex_Main
begin

text \<open>
  Numbers of the C++ type \<open>double\<close>, as far as the sources compute with them: IEEE 754 numbers of 64
  bits with the default rounding to the nearest number, ties to the even one. A finite number is
  its rational value (the sign of zero is never observed); every operation rounds the exact result.
\<close>

section \<open>Rounding\<close>

datatype double = Finite rat | Infinity bool | NaN

text \<open>The number of binary digits.\<close>

fun bits :: "nat \<Rightarrow> nat" where
  "bits n = (if n = 0 then 0 else Suc (bits (n div 2)))"

declare bits.simps [simp del]

text \<open>The exponent of a positive number: the largest power of two that is not larger.\<close>

definition exponent :: "rat \<Rightarrow> int" where
  "exponent x = (case quotient_of x of (p, q) \<Rightarrow>
     let e = int (bits (nat p)) - int (bits (nat q)) in if 2 powi e \<le> x then e else e - 1)"

definition round_even :: "rat \<Rightarrow> int" where
  "round_even x =
     (let n = \<lfloor>x\<rfloor>; f = x - of_int n in if f < 1 / 2 \<or> f = 1 / 2 \<and> even n then n else n + 1)"

text \<open>The last place of a positive number: 52 binary digits after the first, at least \<open>2 powi - 1074\<close>.\<close>

definition last_place :: "rat \<Rightarrow> int" where
  "last_place x = max (exponent x - 52) (- 1074)"

definition round_pos :: "rat \<Rightarrow> rat" where
  "round_pos x = of_int (round_even (x / 2 powi last_place x)) * 2 powi last_place x"

definition round_double :: "rat \<Rightarrow> double" where
  "round_double x =
     (if x = 0 then Finite 0
      else let y = round_pos \<bar>x\<bar> in if 2 powi 1024 \<le> y then Infinity (x < 0) else Finite (sgn x * y))"

section \<open>Operations\<close>

text \<open>Conversion of an integer, and arithmetic of a number with a converted integer other than zero.\<close>

definition double_of_int :: "int \<Rightarrow> double" where
  "double_of_int i = round_double (of_int i)"

fun double_times :: "double \<Rightarrow> double \<Rightarrow> double" where
  "double_times (Finite x) (Finite y) = round_double (x * y)"
| "double_times (Finite x) (Infinity b) = (if x = 0 then NaN else Infinity (b \<noteq> (x < 0)))"
| "double_times (Infinity b) (Finite x) = (if x = 0 then NaN else Infinity (b \<noteq> (x < 0)))"
| "double_times (Infinity b) (Infinity c) = Infinity (b \<noteq> c)"
| "double_times NaN y = NaN"
| "double_times x NaN = NaN"

fun double_div :: "double \<Rightarrow> double \<Rightarrow> double" where
  "double_div (Finite x) (Finite y) = (if y = 0 then if x = 0 then NaN else Infinity (x < 0) else round_double (x / y))"
| "double_div (Finite x) (Infinity b) = Finite 0"
| "double_div (Infinity b) (Finite x) = Infinity (b \<noteq> (x < 0))"
| "double_div (Infinity b) (Infinity c) = NaN"
| "double_div NaN y = NaN"
| "double_div x NaN = NaN"

definition double_positive :: "double \<Rightarrow> bool" where
  "double_positive d = (case d of Finite x \<Rightarrow> 0 < x | Infinity b \<Rightarrow> \<not> b | NaN \<Rightarrow> False)"

text \<open>Conversion to an integer type cuts the fraction off.\<close>

definition double_truncate :: "double \<Rightarrow> int option" where
  "double_truncate d = (case d of Finite x \<Rightarrow> Some (if x < 0 then - \<lfloor>- x\<rfloor> else \<lfloor>x\<rfloor>) | _ \<Rightarrow> None)"

section \<open>Errors of rounding\<close>

lemma bits_bounds: "0 < n \<Longrightarrow> 2 ^ (bits n - 1) \<le> n \<and> n < 2 ^ bits n \<and> 0 < bits n"
proof (induction n rule: bits.induct)
  case (1 n)
  show ?case
  proof (cases "n = 1")
    case True
    then show ?thesis by (simp add: bits.simps)
  next
    case False
    let ?b = "bits (n div 2)"
    have b: "2 ^ (?b - 1) \<le> n div 2" "n div 2 < 2 ^ ?b" "0 < ?b" using 1 False by auto
    have "2 ^ ?b = 2 * (2::nat) ^ (?b - 1)" using b(3) by (simp flip: power_Suc)
    moreover have "2 * m \<le> n \<and> n < 4 * m" if "m \<le> n div 2" "n div 2 < 2 * m" for m using that by presburger
    ultimately have "2 ^ ?b \<le> n" "n < 2 ^ Suc ?b" using b(1,2) by auto
    then show ?thesis using 1(2) by (simp add: bits.simps [of n])
  qed
qed

lemma powi_two_pos [simp]: "0 < (2 powi e :: rat)"
  by (simp add: zero_less_power_int)

lemma powi_two_less: "(2 powi a :: rat) < 2 powi b \<longleftrightarrow> a < b"
proof (cases "a < b")
  case True
  then show ?thesis using power_int_strict_increasing [OF True, of "2 :: rat"] by simp
next
  case False
  then have "(2 powi b :: rat) \<le> 2 powi a" by (intro power_int_increasing) simp_all
  then show ?thesis using False by simp
qed

lemma powi_two_add: "(2 powi a :: rat) * 2 powi b = 2 powi (a + b)"
  by (simp add: power_int_add)

lemma exponent_bounds:
  assumes "0 < x"
  shows "2 powi exponent x \<le> x" "x < 2 powi (exponent x + 1)"
proof -
  obtain p q where pq: "quotient_of x = (p, q)" by (cases "quotient_of x")
  have q: "0 < q" using quotient_of_denom_pos [OF pq] .
  have x: "x = of_int p / of_int q" using quotient_of_div [OF pq] .
  have p: "0 < p" using assms q unfolding x by (simp add: zero_less_divide_iff)
  let ?b = "int (bits (nat p))" and ?c = "int (bits (nat q))"
  have range: "2 powi (int (bits (nat k)) - 1) \<le> (of_int k :: rat) \<and> (of_int k :: rat) < 2 powi int (bits (nat k))" if k: "0 < k" for k
  proof -
    let ?n = "nat k"
    have b: "2 ^ (bits ?n - 1) \<le> ?n" "?n < 2 ^ bits ?n" "0 < bits ?n" using bits_bounds [of ?n] k by auto
    have lo: "of_nat (2 ^ (bits ?n - 1)) \<le> (of_nat ?n :: rat)" using b(1) by (rule of_nat_mono)
    have hi: "(of_nat ?n :: rat) < of_nat (2 ^ bits ?n)" using b(2) unfolding of_nat_less_iff .
    have "nat (int (bits ?n) - 1) = bits ?n - 1" "0 \<le> int (bits ?n) - 1" using b(3) by linarith+
    then have "2 powi (int (bits ?n) - 1) = (2 ^ (bits ?n - 1) :: rat)" by (simp only: power_int_def if_True)
    moreover have "(of_nat ?n :: rat) = of_int k" using k by (simp add: of_nat_nat)
    ultimately show ?thesis using lo hi by (simp only: of_nat_power of_nat_numeral power_int_of_nat)
  qed
  have "2 powi (?b - ?c - 1) * (of_int q :: rat) < 2 powi (?b - ?c - 1) * 2 powi ?c"
    using range [OF q] by (intro mult_strict_left_mono) simp_all
  also have "\<dots> \<le> of_int p" using range [OF p] unfolding powi_two_add by (simp add: algebra_simps)
  finally have lo: "2 powi (?b - ?c - 1) < x" using q unfolding x by (simp add: less_divide_eq)
  have "of_int p < (2 powi (?b - ?c + 1) :: rat) * 2 powi (?c - 1)" using range [OF p] unfolding powi_two_add by simp
  also have "\<dots> \<le> 2 powi (?b - ?c + 1) * of_int q" using range [OF q] by (intro mult_left_mono) simp_all
  finally have hi: "x < 2 powi (?b - ?c + 1)" using q unfolding x by (simp add: divide_less_eq)
  show "2 powi exponent x \<le> x" "x < 2 powi (exponent x + 1)"
    using lo hi by (auto simp: exponent_def pq Let_def add.commute)
qed

lemma round_even_error: "\<bar>of_int (round_even x) - x\<bar> \<le> 1 / 2"
proof -
  define n where "n = \<lfloor>x\<rfloor>"
  have n: "of_int n \<le> x" "x < of_int n + 1" using floor_correct [of x] by (simp_all add: n_def)
  have "round_even x = n \<and> x - of_int n \<le> 1 / 2 \<or> round_even x = n + 1 \<and> 1 / 2 \<le> x - of_int n"
    by (auto simp: round_even_def Let_def n_def [symmetric])
  then show ?thesis using n by (auto simp: abs_le_iff)
qed

lemma round_evenI:
  assumes "of_int n - 1 / 2 < x" and "x < of_int n + 1 / 2"
  shows "round_even x = n"
proof -
  have "of_int (round_even x) - x \<le> 1 / 2" "x - of_int (round_even x) \<le> 1 / 2" using round_even_error [of x] unfolding abs_le_iff by simp_all
  then have "of_int (round_even x) < (of_int (n + 1) :: rat)" "(of_int (n - 1) :: rat) < of_int (round_even x)"
    using assms by simp_all
  then show ?thesis unfolding of_int_less_iff by simp
qed

lemma round_even_int [simp]: "round_even (of_int n) = n"
  by (simp add: round_even_def)

text \<open>Rounding a number that is not too small changes it by a part in \<open>2 ^ 53\<close> at most.\<close>

lemma round_pos_error:
  assumes "0 < x" and "- 1022 \<le> exponent x"
  shows "\<bar>round_pos x - x\<bar> \<le> x / 2 ^ 53"
proof -
  let ?u = "exponent x - 52"
  have place: "last_place x = ?u" using assms(2) by (simp add: last_place_def)
  have "round_pos x - x = (of_int (round_even (x / 2 powi ?u)) - x / 2 powi ?u) * 2 powi ?u"
    by (simp add: round_pos_def place algebra_simps)
  then have "\<bar>round_pos x - x\<bar> = \<bar>of_int (round_even (x / 2 powi ?u)) - x / 2 powi ?u\<bar> * 2 powi ?u"
    by (simp add: abs_mult)
  also have "\<dots> \<le> 1 / 2 * 2 powi ?u" by (intro mult_right_mono round_even_error) simp
  also have "\<dots> = 2 powi exponent x / 2 ^ 53" by (simp add: power_int_diff)
  also have "\<dots> \<le> x / 2 ^ 53" using exponent_bounds(1) [OF assms(1)] by (simp add: divide_right_mono)
  finally show ?thesis .
qed

lemma exponent_at_least:
  assumes "0 < x" and "2 powi e \<le> x"
  shows "e \<le> exponent x"
proof -
  have "(2 powi e :: rat) < 2 powi (exponent x + 1)" using assms exponent_bounds(2) [OF assms(1)] by linarith
  then show ?thesis by (simp add: powi_two_less)
qed

lemma exponent_below:
  assumes "0 < x" and "x < 2 powi e"
  shows "exponent x < e"
proof -
  have "(2 powi exponent x :: rat) < 2 powi e" using assms exponent_bounds(1) [OF assms(1)] by linarith
  then show ?thesis by (simp add: powi_two_less)
qed

lemma exponentI: "0 < x \<Longrightarrow> 2 powi e \<le> x \<Longrightarrow> x < 2 powi (e + 1) \<Longrightarrow> exponent x = e"
  using exponent_at_least [of x e] exponent_below [of x "e + 1"] by simp

lemma round_pos_int:
  assumes "0 < n" and "n < 2 ^ 53"
  shows "round_pos (of_int n) = of_int n"
proof -
  let ?x = "of_int n :: rat" and ?u = "exponent (of_int n) - 52"
  have x: "0 < ?x" "1 \<le> ?x" using assms(1) by simp_all
  have "(of_int n :: rat) < of_int (2 ^ 53)" using assms(2) unfolding of_int_less_iff .
  then have "?x < 2 powi 53" by simp
  then have e: "0 \<le> exponent ?x" "exponent ?x \<le> 52"
    using exponent_at_least [OF x(1), of 0] exponent_below [OF x(1), of 53] x(2) by simp_all
  then have place: "last_place ?x = ?u" by (simp add: last_place_def)
  have "?x / 2 powi ?u = ?x * 2 powi (- ?u)" unfolding power_int_minus_divide by simp
  also have "2 powi (- ?u) = (of_int (2 ^ nat (- ?u)) :: rat)" using e by (simp add: power_int_def)
  finally have "?x / 2 powi ?u = of_int (n * 2 ^ nat (- ?u))" by simp
  then have "round_even (?x / 2 powi ?u) = n * 2 ^ nat (- ?u)" by (simp only: round_even_int)
  then have "round_pos ?x = of_int (n * 2 ^ nat (- ?u)) * 2 powi ?u" by (simp add: round_pos_def place)
  also have "\<dots> = ?x / 2 powi ?u * 2 powi ?u" using \<open>?x / 2 powi ?u = of_int (n * 2 ^ nat (- ?u))\<close> by simp
  finally show ?thesis by simp
qed

text \<open>In the range of the sources the result is finite, and close to the exact one.\<close>

lemma round_double_close:
  assumes "x \<noteq> 0" and "1 / 2 ^ 20 \<le> \<bar>x\<bar>" and "\<bar>x\<bar> \<le> 2 ^ 60"
  shows "\<exists>y. round_double x = Finite y \<and> \<bar>y - x\<bar> \<le> \<bar>x\<bar> / 2 ^ 53 \<and> (0 < y \<longleftrightarrow> 0 < x) \<and> y \<noteq> 0"
proof -
  let ?y = "round_pos \<bar>x\<bar>"
  have pos: "0 < \<bar>x\<bar>" using assms(1) by simp
  have "(2 powi (- 20) :: rat) \<le> \<bar>x\<bar>" using assms(2) by (simp add: power_int_minus_divide)
  then have "- 1022 \<le> exponent \<bar>x\<bar>" using exponent_at_least [OF pos, of "- 20"] by simp
  then have err: "\<bar>?y - \<bar>x\<bar>\<bar> \<le> \<bar>x\<bar> / 2 ^ 53" using round_pos_error [OF pos] by simp
  have "\<bar>x\<bar> / 2 ^ 53 \<le> \<bar>x\<bar> / 2" by (simp add: divide_left_mono)
  then have "?y - \<bar>x\<bar> \<le> \<bar>x\<bar> / 2" "- (?y - \<bar>x\<bar>) \<le> \<bar>x\<bar> / 2" using err by (simp_all only: abs_le_iff) linarith+
  then have bound: "0 < ?y" "?y < 2 * \<bar>x\<bar>" using pos by linarith+
  have "?y < 2 ^ 61" using bound(2) assms(3) by simp
  also have "(2 ^ 61 :: rat) \<le> 2 powi 1024" using power_int_increasing [of 61 1024 "2 :: rat"] by simp
  finally have "\<not> 2 powi 1024 \<le> ?y" by simp
  then have fin: "round_double x = Finite (sgn x * ?y)" using assms(1) by (simp add: round_double_def Let_def)
  have "sgn x * ?y - x = sgn x * (?y - \<bar>x\<bar>)" by (simp add: algebra_simps abs_mult_sgn sgn_mult_abs)
  then have "\<bar>sgn x * ?y - x\<bar> \<le> \<bar>x\<bar> / 2 ^ 53" using err assms(1) by (simp add: abs_mult abs_sgn_eq)
  moreover have "(0 < sgn x * ?y \<longleftrightarrow> 0 < x) \<and> sgn x * ?y \<noteq> 0" using bound(1) assms(1) by (auto simp: zero_less_mult_iff sgn_if)
  ultimately show ?thesis using fin by blast
qed

lemma double_of_int_exact:
  assumes "\<bar>i\<bar> < 2 ^ 53"
  shows "double_of_int i = Finite (of_int i)"
proof (cases "i = 0")
  case False
  have "round_pos \<bar>of_int i\<bar> = (\<bar>of_int i\<bar> :: rat)" using round_pos_int [of "\<bar>i\<bar>"] assms False by (simp flip: of_int_abs)
  moreover have "\<not> 2 powi 1024 \<le> (\<bar>of_int i\<bar> :: rat)"
  proof -
    have "(\<bar>of_int i\<bar> :: rat) < of_int (2 ^ 53)" using assms unfolding of_int_abs [symmetric] of_int_less_iff .
    also have "\<dots> \<le> 2 powi 1024" using power_int_increasing [of 53 1024 "2 :: rat"] by simp
    finally show ?thesis by simp
  qed
  ultimately show ?thesis using False by (simp add: double_of_int_def round_double_def Let_def sgn_mult_abs)
qed (simp add: double_of_int_def round_double_def)

end
