(* ===== verification/Timers.thy ===== *)
theory Timers
  imports Timestamps Doubles "HOL-Library.Word"
begin

text \<open>
  \<open>src/base/Atomic.h\<close>, \<open>src/net/Timer.h\<close>, \<open>src/net/Timer.cpp\<close>, \<open>src/net/TimerId.h\<close> and the two functions
  of \<open>src/base/Timestamp.h\<close> on seconds of type \<open>double\<close>. An atomic integer is a word that wraps around;
  each operation is one atomic step. (\<open>AtomicIntegerT::get\<close> calls a function that does not exist.)
\<close>

section \<open>Atomic integers\<close>

definition AtomicIntegerT_ctor :: "'a::len word" where
  "AtomicIntegerT_ctor = 0"

text \<open>The result and the new value.\<close>

definition getAndAdd :: "'a::len word \<Rightarrow> 'a word \<Rightarrow> 'a word \<times> 'a word" where
  "getAndAdd x value = (value, value + x)"

definition addAndGet :: "'a::len word \<Rightarrow> 'a word \<Rightarrow> 'a word \<times> 'a word" where
  "addAndGet x value = (case getAndAdd x value of (old, value) \<Rightarrow> (old + x, value))"

definition incrementAndGet :: "'a::len word \<Rightarrow> 'a word \<times> 'a word" where
  "incrementAndGet value = addAndGet 1 value"

definition decrementAndGet :: "'a::len word \<Rightarrow> 'a word \<times> 'a word" where
  "decrementAndGet value = addAndGet (- 1) value"

definition add_Atomic :: "'a::len word \<Rightarrow> 'a word \<Rightarrow> 'a word" where
  "add_Atomic x value = snd (getAndAdd x value)"

definition decrement :: "'a::len word \<Rightarrow> 'a word" where
  "decrement value = snd (decrementAndGet value)"

definition getAndSet :: "'a::len word \<Rightarrow> 'a word \<Rightarrow> 'a word \<times> 'a word" where
  "getAndSet newValue value = (value, newValue)"

section \<open>Seconds\<close>

text \<open>\<open>static_cast<int64_t>\<close> of a \<open>double\<close> is undefined for a value out of range.\<close>

definition int64_of_double :: "double \<Rightarrow> int outcome" where
  "int64_of_double d =
     (case double_truncate d of None \<Rightarrow> Inl UndefinedBehaviour | Some n \<Rightarrow> defined_if (int64 n) (Inr n))"

definition timeDifference :: "timestamp \<Rightarrow> timestamp \<Rightarrow> double outcome" where
  "timeDifference high low =
     (let diff = microSecondsSinceEpoch high - microSecondsSinceEpoch low
      in defined_if (int64 diff) (Inr (double_div (double_of_int diff) (double_of_int kMicroSecondsPerSecond))))"

definition addTime :: "timestamp \<Rightarrow> double \<Rightarrow> timestamp outcome" where
  "addTime t seconds =
     bind_out (int64_of_double (double_times seconds (double_of_int kMicroSecondsPerSecond))) (\<lambda>delta.
       defined_if (int64 (microSecondsSinceEpoch t + delta)) (Inr (Timestamp_of (microSecondsSinceEpoch t + delta))))"

section \<open>Timers\<close>

record 'cb timer =
  tm_callback :: 'cb
  tm_expiration :: timestamp
  tm_interval :: double
  tm_repeat :: bool
  tm_sequence :: "64 word"

text \<open>The constructor, with the counter \<open>s_numCreated_\<close>.\<close>

definition Timer_ctor :: "'cb \<Rightarrow> timestamp \<Rightarrow> double \<Rightarrow> 64 word \<Rightarrow> 'cb timer \<times> 64 word" where
  "Timer_ctor cb when interval numCreated =
     (case incrementAndGet numCreated of (sequence, numCreated) \<Rightarrow>
       (\<lparr>tm_callback = cb, tm_expiration = when, tm_interval = interval, tm_repeat = double_positive interval,
         tm_sequence = sequence\<rparr>, numCreated))"

definition run_timer :: "('cb \<Rightarrow> 'w \<Rightarrow> 'w outcome) \<Rightarrow> 'cb timer \<Rightarrow> 'w \<Rightarrow> 'w outcome" where
  "run_timer call t w = call (tm_callback t) w"

definition restart_timer :: "timestamp \<Rightarrow> 'cb timer \<Rightarrow> 'cb timer outcome" where
  "restart_timer now t =
     (if tm_repeat t then bind_out (addTime now (tm_interval t)) (\<lambda>e. Inr (t\<lparr>tm_expiration := e\<rparr>))
      else Inr (t\<lparr>tm_expiration := invalid_Timestamp\<rparr>))"

record timer_id =
  ti_timer :: "nat option"
  ti_sequence :: "64 word"

definition TimerId_default :: timer_id where
  "TimerId_default = \<lparr>ti_timer = None, ti_sequence = 0\<rparr>"

definition TimerId_of :: "nat \<Rightarrow> 64 word \<Rightarrow> timer_id" where
  "TimerId_of timer seq = \<lparr>ti_timer = Some timer, ti_sequence = seq\<rparr>"

section \<open>Lemmas\<close>

lemma atomic_results:
  "addAndGet x v = (v + x, v + x)" "incrementAndGet v = (v + 1, v + 1)" "decrementAndGet v = (v - 1, v - 1)" "decrement v = v - 1"
  by (simp_all add: addAndGet_def getAndAdd_def incrementAndGet_def decrementAndGet_def decrement_def)

text \<open>Timers created one after the other have different numbers until the counter wraps around.\<close>

fun new_timers :: "('cb \<times> timestamp \<times> double) list \<Rightarrow> 64 word \<Rightarrow> 'cb timer list \<times> 64 word" where
  "new_timers [] n = ([], n)"
| "new_timers ((cb, t, i) # ts) n = (case Timer_ctor cb t i n of (timer, n) \<Rightarrow>
     case new_timers ts n of (timers, n) \<Rightarrow> (timer # timers, n))"

lemma new_timers_sequence:
  "map tm_sequence (fst (new_timers ts n)) = map (\<lambda>k. n + of_nat (Suc k)) [0..<length ts]"
proof (induction ts n rule: new_timers.induct)
  case (2 cb t i ts n)
  have "map tm_sequence (fst (new_timers ts (n + 1))) = map (\<lambda>k. n + 1 + of_nat (Suc k)) [0..<length ts]"
    using 2 by (simp add: Timer_ctor_def atomic_results case_prod_unfold)
  then show ?case
    by (simp add: Timer_ctor_def atomic_results case_prod_unfold upt_conv_Cons map_Suc_upt [symmetric] algebra_simps del: upt_Suc)
qed simp

lemma timers_distinct:
  assumes "length ts < 2 ^ 64"
  shows "distinct (map tm_sequence (fst (new_timers ts n)))"
proof -
  have "inj_on (\<lambda>k. n + (of_nat (Suc k) :: 64 word)) {0..<length ts}"
    using assms by (auto simp: inj_on_def word_of_nat_eq_iff take_bit_nat_eq_self)
  then show ?thesis by (simp only: new_timers_sequence distinct_map) simp
qed

section \<open>Accuracy\<close>

lemma million: "double_of_int kMicroSecondsPerSecond = Finite 1000000"
  using double_of_int_exact [of 1000000] by (simp add: kMicroSecondsPerSecond_def)

text \<open>A difference in microseconds, turned into seconds and back, is off by less than one.\<close>

lemma seconds_and_back:
  assumes "d \<noteq> 0" and "\<bar>d\<bar> < 2 ^ 51"
  shows "\<exists>q y. double_div (double_of_int d) (Finite 1000000) = Finite q \<and> double_times (Finite q) (Finite 1000000) = Finite y
    \<and> \<bar>y - of_int d\<bar> < 1 \<and> (0 < y \<longleftrightarrow> 0 < d)"
proof -
  let ?d = "of_int d :: rat"
  have "of_int \<bar>d\<bar> < (of_int (2 ^ 51) :: rat)" using assms(2) unfolding of_int_less_iff .
  moreover have "(of_int 1 :: rat) \<le> of_int \<bar>d\<bar>" using assms(1) unfolding of_int_le_iff by simp
  ultimately have "\<bar>?d\<bar> < of_int (2 ^ 51)" "1 \<le> \<bar>?d\<bar>" by (simp_all only: of_int_abs of_int_1)
  then have d: "\<bar>?d\<bar> < 2 ^ 51" "1 \<le> \<bar>?d\<bar>" "?d \<noteq> 0" by simp_all
  have exact: "double_of_int d = Finite ?d" using assms(2) by (intro double_of_int_exact) simp
  have x: "?d / 1000000 \<noteq> 0" "1 / 2 ^ 20 \<le> \<bar>?d / 1000000\<bar>" "\<bar>?d / 1000000\<bar> \<le> 2 ^ 60"
    using d by (simp_all add: abs_divide field_simps)
  obtain q where q: "round_double (?d / 1000000) = Finite q" "\<bar>q - ?d / 1000000\<bar> \<le> \<bar>?d / 1000000\<bar> / 2 ^ 53" "0 < q \<longleftrightarrow> 0 < ?d" "q \<noteq> 0"
    using round_double_close [OF x] by auto
  define z where "z = q * 1000000"
  have "z - ?d = (q - ?d / 1000000) * 1000000" by (simp add: z_def algebra_simps)
  then have "\<bar>z - ?d\<bar> = \<bar>q - ?d / 1000000\<bar> * 1000000" by (simp only: abs_mult abs_numeral)
  also have "\<dots> \<le> \<bar>?d\<bar> / 2 ^ 53" using q(2) by (simp add: abs_divide)
  finally have z: "\<bar>z - ?d\<bar> \<le> \<bar>?d\<bar> / 2 ^ 53" .
  have small: "\<bar>?d\<bar> / 2 ^ 53 < 1 / 4" using d(1) by simp
  have "\<bar>z\<bar> \<le> \<bar>?d\<bar> + \<bar>z - ?d\<bar>" "\<bar>?d\<bar> \<le> \<bar>z\<bar> + \<bar>z - ?d\<bar>" by arith+
  then have bounds: "\<bar>z\<bar> \<le> 2 * \<bar>?d\<bar>" "1 / 2 \<le> \<bar>z\<bar>" using z small d(2) by linarith+
  have z': "z \<noteq> 0" "1 / 2 ^ 20 \<le> \<bar>z\<bar>" "\<bar>z\<bar> \<le> 2 ^ 60" using bounds d(1) by auto
  obtain y where y: "round_double z = Finite y" "\<bar>y - z\<bar> \<le> \<bar>z\<bar> / 2 ^ 53" "0 < y \<longleftrightarrow> 0 < z"
    using round_double_close [OF z'] by auto
  have "\<bar>z\<bar> / 2 ^ 53 < 1 / 2" using bounds(1) small by simp
  then have "\<bar>y - z\<bar> < 1 / 2" using y(2) by linarith
  then have "\<bar>y - ?d\<bar> < 1" using z small by linarith
  moreover have "0 < z \<longleftrightarrow> 0 < d" using q(3) by (simp add: z_def)
  ultimately show ?thesis using exact q(1) y(1,3) by (intro exI [of _ q] exI [of _ y]) (simp add: z_def)
qed

lemma truncate_near:
  assumes "\<bar>y - of_int d\<bar> < 1" and "0 < y \<longleftrightarrow> 0 < d" and "d \<noteq> 0"
  shows "\<exists>n. double_truncate (Finite y) = Some n \<and> \<bar>n - d\<bar> \<le> 1 \<and> (0 < d \<longrightarrow> 0 \<le> n \<and> n \<le> d) \<and> (d < 0 \<longrightarrow> d \<le> n \<and> n \<le> 0)"
proof (cases "0 < d")
  case True
  then have y: "0 < y" "of_int (d - 1) < y" "y < of_int (d + 1)" using assms by (auto simp: abs_if split: if_splits)
  have "d - 1 \<le> \<lfloor>y\<rfloor>" "\<lfloor>y\<rfloor> < d + 1" using y by (simp_all only: le_floor_iff floor_less_iff less_imp_le)
  then show ?thesis using True y(1) by (simp add: double_truncate_def)
next
  case False
  then have d: "d < 0" using assms(3) by simp
  then have y: "y \<le> 0" "of_int (- d - 1) < - y" "- y < of_int (- d + 1)" using assms by (auto simp: abs_if split: if_splits)
  have "- d - 1 \<le> \<lfloor>- y\<rfloor>" "\<lfloor>- y\<rfloor> < - d + 1" using y(2,3) by (simp_all only: le_floor_iff floor_less_iff less_imp_le)
  then show ?thesis using d y(1) by (auto simp: double_truncate_def)
qed

section \<open>Properties\<close>

text \<open>
  C40. The difference of two points in time in seconds, added to the earlier one, gives the later one
  up to one microsecond, and never a later one: nothing overflows, and the result is the original
  time or lies one microsecond nearer to the start. This holds for differences of up to seventy
  years, in either direction.
\<close>

theorem time_difference_roundtrip:
  assumes "int64 h" and "int64 l" and "\<bar>h - l\<bar> < 2 ^ 51"
  shows "\<exists>d t. timeDifference (Timestamp_of h) (Timestamp_of l) = Inr d \<and> addTime (Timestamp_of l) d = Inr t
    \<and> \<bar>microSecondsSinceEpoch t - h\<bar> \<le> 1 \<and> min l h \<le> microSecondsSinceEpoch t \<and> microSecondsSinceEpoch t \<le> max l h"
proof (cases "h = l")
  case True
  have "double_of_int 0 = Finite 0" by (simp add: double_of_int_def round_double_def)
  then show ?thesis using True assms(2)
    by (simp add: timeDifference_def addTime_def Timestamp_of_def million int64_of_double_def double_truncate_def round_double_def int64_def)
next
  case False
  obtain q y where qy: "double_div (double_of_int (h - l)) (Finite 1000000) = Finite q" "double_times (Finite q) (Finite 1000000) = Finite y"
      "\<bar>y - of_int (h - l)\<bar> < 1" "0 < y \<longleftrightarrow> 0 < h - l"
    using seconds_and_back [OF _ assms(3)] False by auto
  obtain n where n: "double_truncate (Finite y) = Some n" "\<bar>n - (h - l)\<bar> \<le> 1" "0 < h - l \<longrightarrow> 0 \<le> n \<and> n \<le> h - l"
      "h - l < 0 \<longrightarrow> h - l \<le> n \<and> n \<le> 0"
    using truncate_near [OF qy(3,4)] False by auto
  have range: "int64 (h - l)" "int64 n" "int64 (l + n)"
    using assms n(2-4) False by (auto simp: int64_def)
  have "timeDifference (Timestamp_of h) (Timestamp_of l) = Inr (Finite q)"
    using qy(1) range(1) by (simp add: timeDifference_def Timestamp_of_def million)
  moreover have "addTime (Timestamp_of l) (Finite q) = Inr (Timestamp_of (l + n))"
    using qy(2) n(1) range(2,3) by (simp add: addTime_def Timestamp_of_def million int64_of_double_def del: double_times.simps)
  moreover have "min l h \<le> l + n \<and> l + n \<le> max l h" using n(3,4) False by auto
  ultimately show ?thesis using n(2) by (intro exI [of _ "Finite q"] exI [of _ "Timestamp_of (l + n)"]) (simp add: Timestamp_of_def)
qed

theorem time_difference_roundtrip_witness:
  "\<exists>d t. timeDifference (Timestamp_of 1700000000000249) (Timestamp_of 1700000000000000) = Inr d
    \<and> addTime (Timestamp_of 1700000000000000) d = Inr t \<and> \<bar>microSecondsSinceEpoch t - 1700000000000249\<bar> \<le> 1"
  using time_difference_roundtrip [of 1700000000000249 1700000000000000] by (auto simp: int64_def)

text \<open>The microsecond is really lost: 249 microseconds become 248.\<close>

lemma addTime_loses_microsecond:
  "\<exists>d. timeDifference (Timestamp_of 249) (Timestamp_of 0) = Inr d \<and> addTime (Timestamp_of 0) d = Inr (Timestamp_of 248)"
proof -
  define q :: rat where "q = 4593239274353678 / 2 ^ 64"
  define y :: rat where "y = 8760908650119167 / 2 ^ 45"
  have "exponent (249 / 1000000) = - 12" by (rule exponentI) (simp_all add: power_int_minus_divide)
  moreover have "round_even (249 / 1000000 * 2 ^ 64) = 4593239274353678" by (rule round_evenI) simp_all
  ultimately have "round_pos (249 / 1000000) = q"
    by (simp add: round_pos_def last_place_def power_int_minus_divide q_def)
  moreover have "q < 2 powi 1024" "y < 2 powi 1024"
    using power_int_increasing [of 60 1024 "2 :: rat"] by (simp_all add: q_def y_def)
  moreover have "round_pos (q * 1000000) = y"
  proof -
    have "exponent (q * 1000000) = 7" by (rule exponentI) (simp_all add: q_def)
    moreover have "round_even (q * 1000000 * 2 ^ 45) = 8760908650119167" by (rule round_evenI) (simp_all add: q_def)
    ultimately show ?thesis by (simp add: round_pos_def last_place_def power_int_minus_divide y_def)
  qed
  ultimately have "round_double (249 / 1000000) = Finite q" "round_double (q * 1000000) = Finite y"
    by (simp_all add: round_double_def Let_def q_def)
  moreover have "double_of_int 249 = Finite 249" using double_of_int_exact [of 249] by simp
  moreover have "\<lfloor>y\<rfloor> = 248" by (rule floor_unique) (simp_all add: y_def)
  then have "double_truncate (Finite y) = Some 248" by (simp add: double_truncate_def) (simp add: y_def)
  ultimately show ?thesis
    by (intro exI [of _ "Finite q"]) (simp add: timeDifference_def addTime_def Timestamp_of_def million int64_of_double_def int64_def)
qed

end
