(* ===== verification/StackTraces.thy ===== *)
theory StackTraces
  imports Prelude
begin

text \<open>
  \<open>stackTrace\<close> of \<open>src/base/CurrentThread.cpp\<close>: the lines that \<open>backtrace_symbols\<close> gives for the frames
  of the stack, without the first, with the names in them demangled. The lines and the demangler of
  the C++ runtime are arguments; the demangler gives a status, zero for success, and a text.
\<close>

section \<open>The function\<close>

text \<open>The inner loop: the positions of the last parenthesis and of the last plus sign.\<close>

fun scan_frame :: "string \<Rightarrow> nat \<Rightarrow> nat option \<Rightarrow> nat option \<Rightarrow> nat option \<times> nat option" where
  "scan_frame [] p left_par sign = (left_par, sign)"
| "scan_frame (c # cs) p left_par sign =
     (if c = CHR ''('' then scan_frame cs (Suc p) (Some p) sign
      else if c = CHR ''+'' then scan_frame cs (Suc p) left_par (Some p)
      else scan_frame cs (Suc p) left_par sign)"

text \<open>
  One line. While the demangler runs, the plus sign is replaced by a terminator, so it reads the
  name between the parenthesis and the sign, when the sign comes after it.
\<close>

definition frame_line :: "(string \<Rightarrow> int \<times> string) \<Rightarrow> bool \<Rightarrow> string \<Rightarrow> string" where
  "frame_line cxa_demangle demangle line =
     (let s = c_str line in
      case scan_frame s 0 None None of
        (Some left_par, Some sign) \<Rightarrow>
          (case cxa_demangle (c_str (drop (Suc left_par) (s[sign := NUL]))) of (status, ret) \<Rightarrow>
             if demangle \<and> status = 0
             then take (Suc left_par) s @ c_str ret @ drop sign s @ [LF]
             else s @ [LF])
      | _ \<Rightarrow> s @ [LF])"

definition stackTrace :: "(string \<Rightarrow> int \<times> string) \<Rightarrow> string list option \<Rightarrow> bool \<Rightarrow> string" where
  "stackTrace cxa_demangle strings demangle =
     (case strings of None \<Rightarrow> [] | Some ls \<Rightarrow> concat (map (frame_line cxa_demangle demangle) (drop 1 ls)))"

section \<open>What is printed\<close>

lemma scan_plain:
  assumes "CHR ''('' \<notin> set xs" and "CHR ''+'' \<notin> set xs"
  shows "scan_frame (xs @ ys) p l q = scan_frame ys (p + length xs) l q"
  using assms by (induction xs arbitrary: p) auto

text \<open>
  A line of the documented form \<open>file(name+offset) [address]\<close> keeps its parts, with the name
  demangled when the demangler knows it, and is kept as it is otherwise.
\<close>

lemma frame_line_form:
  assumes "NUL \<notin> set (file @ name @ offset)"
    and "\<forall>c \<in> {CHR ''('', CHR ''+''}. c \<notin> set file \<and> c \<notin> set name \<and> c \<notin> set offset"
  shows "frame_line cxa True (file @ ''('' @ name @ ''+'' @ offset)
    = (case cxa name of (status, ret) \<Rightarrow> if status = 0 then file @ ''('' @ c_str ret @ ''+'' @ offset @ [LF]
         else file @ ''('' @ name @ ''+'' @ offset @ [LF])"
proof -
  let ?s = "file @ ''('' @ name @ ''+'' @ offset"
  have s: "c_str ?s = ?s" using assms(1) by (simp add: c_str_def takeWhile_eq_all_conv) auto
  have scan: "scan_frame ?s 0 None None = (Some (length file), Some (length file + 1 + length name))"
    using assms(2) scan_plain [of offset "[]"] by (simp add: scan_plain)
  have "?s[length file + 1 + length name := NUL] = file @ ''('' @ name @ NUL # offset"
    by (simp add: list_update_append)
  moreover have "c_str (name @ NUL # offset) = name"
    using assms(1) by (subst c_str_def, subst takeWhile_append2) auto
  ultimately have arg: "c_str (drop (Suc (length file)) (?s[length file + 1 + length name := NUL])) = name" by simp
  show ?thesis unfolding frame_line_def s Let_def scan prod.case option.case arg by (simp split: prod.split)
qed

end
