(* ===== verification/LogStreams.thy ===== *)
theory LogStreams
  imports Prelude
begin

text \<open>
  \<open>src/base/LogStream.h\<close> and \<open>src/base/LogStream.cpp\<close>: the fixed-size buffer of the logger, its number
  formatting and the stream operators. The buffer is an array and an offset; its size is the
  length of the array. Writing outside the array is undefined.
\<close>

section \<open>FixedBuffer\<close>

definition kSmallBuffer :: nat where "kSmallBuffer = 4000"
definition kLargeBuffer :: nat where "kLargeBuffer = 4000 * 1000"

record fixed_buffer =
  fb_data :: string
  fb_cur :: nat

text \<open>The constructor leaves the array uninitialised: its contents are the argument.\<close>

definition FixedBuffer_ctor :: "string \<Rightarrow> fixed_buffer" where
  "FixedBuffer_ctor garbage = \<lparr>fb_data = garbage, fb_cur = 0\<rparr>"

definition fb_length :: "fixed_buffer \<Rightarrow> nat" where
  "fb_length b = fb_cur b"

definition fb_avail :: "fixed_buffer \<Rightarrow> nat" where
  "fb_avail b = length (fb_data b) - fb_cur b"

definition fb_add :: "nat \<Rightarrow> fixed_buffer \<Rightarrow> fixed_buffer" where
  "fb_add len b = b\<lparr>fb_cur := fb_cur b + len\<rparr>"

definition fb_write :: "nat \<Rightarrow> string \<Rightarrow> fixed_buffer \<Rightarrow> fixed_buffer outcome" where
  "fb_write i s b = bind_out (copy_into (fb_data b) i s) (\<lambda>d. Inr (b\<lparr>fb_data := d\<rparr>))"

definition fb_append :: "string \<Rightarrow> fixed_buffer \<Rightarrow> fixed_buffer outcome" where
  "fb_append buf b =
     (if fb_avail b > length buf
      then bind_out (fb_write (fb_cur b) buf b) (\<lambda>b. Inr (fb_add (length buf) b))
      else Inr b)"

definition fb_reset :: "fixed_buffer \<Rightarrow> fixed_buffer" where
  "fb_reset b = b\<lparr>fb_cur := 0\<rparr>"

definition fb_bzero :: "fixed_buffer \<Rightarrow> fixed_buffer" where
  "fb_bzero b = b\<lparr>fb_data := replicate (length (fb_data b)) NUL\<rparr>"

definition fb_toString :: "fixed_buffer \<Rightarrow> string" where
  "fb_toString b = take (fb_length b) (fb_data b)"

definition fb_debugString :: "fixed_buffer \<Rightarrow> (string \<times> fixed_buffer) outcome" where
  "fb_debugString b = bind_out (fb_write (fb_cur b) [NUL] b) (\<lambda>b. Inr (c_str (fb_data b), b))"

section \<open>Number conversion\<close>

definition digits :: string where "digits = ''9876543210123456789''"

definition zero_at :: "int \<Rightarrow> char" where
  "zero_at lsd = digits ! nat (9 + lsd)"

definition digitsHex :: string where "digitsHex = ''0123456789ABCDEF''"

text \<open>The \<open>do\<close> loops, with C++ division and remainder; least significant digit first.\<close>

function convert_digits :: "int \<Rightarrow> string" where
  "convert_digits i =
     (let lsd = i smod 10; i' = i sdiv 10
      in zero_at lsd # (if i' \<noteq> 0 then convert_digits i' else []))"
  by pat_completeness auto
termination
  by (relation "measure (\<lambda>i. nat \<bar>i\<bar>)") (auto simp: signed_divide_int_def sgn_if abs_if)

declare convert_digits.simps [simp del]

text \<open>The characters left in the buffer, and the terminator behind them.\<close>

definition convert :: "int \<Rightarrow> string" where
  "convert v = rev (convert_digits v @ (if v < 0 then ''-'' else []))"

fun convert_hex_digits :: "nat \<Rightarrow> string" where
  "convert_hex_digits i =
     (let lsd = i mod 16; i' = i div 16
      in digitsHex ! lsd # (if i' \<noteq> 0 then convert_hex_digits i' else []))"

declare convert_hex_digits.simps [simp del]

definition convertHex :: "nat \<Rightarrow> string" where
  "convertHex v = rev (convert_hex_digits v)"

section \<open>LogStream\<close>

definition kMaxNumericSize :: nat where "kMaxNumericSize = 48"

definition formatInteger :: "int \<Rightarrow> fixed_buffer \<Rightarrow> fixed_buffer outcome" where
  "formatInteger v b =
     (if fb_avail b \<ge> kMaxNumericSize
      then bind_out (fb_write (fb_cur b) (convert v @ [NUL]) b) (\<lambda>b. Inr (fb_add (length (convert v)) b))
      else Inr b)"

definition put_bool :: "bool \<Rightarrow> fixed_buffer \<Rightarrow> fixed_buffer outcome" where
  "put_bool v b = fb_append (if v then ''1'' else ''0'') b"

definition put_char :: "char \<Rightarrow> fixed_buffer \<Rightarrow> fixed_buffer outcome" where
  "put_char v b = fb_append [v] b"

text \<open>A C string is a pointer to characters up to a NUL, or the null pointer.\<close>

definition put_cstr :: "string option \<Rightarrow> fixed_buffer \<Rightarrow> fixed_buffer outcome" where
  "put_cstr str b = (case str of Some s \<Rightarrow> fb_append (c_str s) b | None \<Rightarrow> fb_append ''(NULL)'' b)"

definition put_string :: "string \<Rightarrow> fixed_buffer \<Rightarrow> fixed_buffer outcome" where
  "put_string v b = fb_append v b"

definition put_pointer :: "nat \<Rightarrow> fixed_buffer \<Rightarrow> fixed_buffer outcome" where
  "put_pointer v b =
     (if fb_avail b \<ge> kMaxNumericSize
      then bind_out (fb_write (fb_cur b) (''0x'' @ convertHex v @ [NUL]) b)
             (\<lambda>b. Inr (fb_add (length (convertHex v) + 2) b))
      else Inr b)"

text \<open>
  The operator for \<open>double\<close> (and for \<open>float\<close>, which converts first): \<open>shown\<close> is the text that
  \<open>snprintf\<close> makes of the number with \<open>%.12g\<close>. What does not fit is cut off, the length is not.
\<close>

definition put_double :: "string \<Rightarrow> fixed_buffer \<Rightarrow> fixed_buffer outcome" where
  "put_double shown b =
     (if fb_avail b \<ge> kMaxNumericSize
      then bind_out (fb_write (fb_cur b) (take (kMaxNumericSize - 1) shown @ [NUL]) b) (\<lambda>b. Inr (fb_add (length shown) b))
      else Inr b)"

definition append_LogStream :: "string \<Rightarrow> fixed_buffer \<Rightarrow> fixed_buffer outcome" where
  "append_LogStream data b = fb_append data b"

definition resetBuffer :: "fixed_buffer \<Rightarrow> fixed_buffer" where
  "resetBuffer b = fb_reset b"

text \<open>\<open>Fmt\<close>: the text \<open>snprintf\<close> produces must be shorter than its 32 characters.\<close>

definition Fmt_ctor :: "string \<Rightarrow> string outcome" where
  "Fmt_ctor text = asserting (length text < 32) (Inr text)"

definition put_Fmt :: "string \<Rightarrow> fixed_buffer \<Rightarrow> fixed_buffer outcome" where
  "put_Fmt text b = bind_out (Fmt_ctor text) (\<lambda>t. fb_append t b)"

text \<open>The operators as items of a stream.\<close>

datatype log_item = LBool bool | LInt int | LPtr nat | LChar char | LCStr "string option" | LString string
  | LDouble string

fun put_item :: "fixed_buffer \<Rightarrow> log_item \<Rightarrow> fixed_buffer outcome" where
  "put_item b (LBool v) = put_bool v b"
| "put_item b (LInt v) = formatInteger v b"
| "put_item b (LPtr v) = put_pointer v b"
| "put_item b (LChar v) = put_char v b"
| "put_item b (LCStr v) = put_cstr v b"
| "put_item b (LString v) = put_string v b"
| "put_item b (LDouble shown) = put_double shown b"

section \<open>Specification\<close>

definition fb_inv :: "nat \<Rightarrow> fixed_buffer \<Rightarrow> bool" where
  "fb_inv sz b \<longleftrightarrow> length (fb_data b) = sz \<and> fb_cur b < sz"

fun item_text :: "log_item \<Rightarrow> string" where
  "item_text (LBool v) = (if v then ''1'' else ''0'')"
| "item_text (LInt v) = show_int v"
| "item_text (LPtr v) = ''0x'' @ convertHex v"
| "item_text (LChar v) = [v]"
| "item_text (LCStr v) = (case v of Some s \<Rightarrow> c_str s | None \<Rightarrow> ''(NULL)'')"
| "item_text (LString v) = v"
| "item_text (LDouble shown) = shown"

definition numeric :: "log_item \<Rightarrow> bool" where
  "numeric it = (case it of LInt _ \<Rightarrow> True | LPtr _ \<Rightarrow> True | LDouble _ \<Rightarrow> True | _ \<Rightarrow> False)"

text \<open>
  Numbers of at most 64 bits; the text of a \<open>double\<close> with twelve digits has at most nineteen
  characters (sign, digits, point, and an exponent of up to five).
\<close>

fun item_ok :: "log_item \<Rightarrow> bool" where
  "item_ok (LInt v) \<longleftrightarrow> - (2 ^ 63) \<le> v \<and> v < 2 ^ 64"
| "item_ok (LPtr v) \<longleftrightarrow> v < 2 ^ 64"
| "item_ok (LDouble shown) \<longleftrightarrow> length shown \<le> 19"
| "item_ok _ \<longleftrightarrow> True"

text \<open>An item is taken as a whole if there is room for it and dropped otherwise.\<close>

definition fits :: "nat \<Rightarrow> string \<Rightarrow> log_item \<Rightarrow> bool" where
  "fits sz s it \<longleftrightarrow> (if numeric it then length s + kMaxNumericSize \<le> sz else length s + length (item_text it) < sz)"

definition text_step :: "nat \<Rightarrow> string \<Rightarrow> log_item \<Rightarrow> string" where
  "text_step sz s it = (if fits sz s it then s @ item_text it else s)"

section \<open>Conversion is printing\<close>

lemma zero_at_digit:
  assumes "- 10 < d" and "d < 10"
  shows "zero_at d = digit_char (nat \<bar>d\<bar>)"
proof -
  have "d = -9 \<or> d = -8 \<or> d = -7 \<or> d = -6 \<or> d = -5 \<or> d = -4 \<or> d = -3 \<or> d = -2 \<or> d = -1 \<or> d = 0
      \<or> d = 1 \<or> d = 2 \<or> d = 3 \<or> d = 4 \<or> d = 5 \<or> d = 6 \<or> d = 7 \<or> d = 8 \<or> d = 9"
    using assms by presburger
  then show ?thesis
    by (elim disjE) (simp_all add: zero_at_def digits_def digit_char_def char_of_def bit_numeral_rec bit_Suc_0_iff)
qed

lemma sdiv10: "\<bar>i sdiv 10\<bar> = \<bar>i\<bar> div (10 :: int)" and smod10: "\<bar>i smod 10\<bar> = \<bar>i\<bar> mod (10 :: int)"
proof -
  show d: "\<bar>i sdiv 10\<bar> = \<bar>i\<bar> div 10" by (auto simp: signed_divide_int_def abs_mult sgn_if)
  show "\<bar>i smod 10\<bar> = \<bar>i\<bar> mod 10"
    by (auto simp: signed_modulo_int_def signed_divide_int_def sgn_if minus_div_mult_eq_mod [symmetric])
qed

lemma convert_digits_nat: "rev (convert_digits i) = show_nat (nat \<bar>i\<bar>)"
proof (induction i rule: convert_digits.induct)
  case (1 i)
  let ?lsd = "i smod 10" and ?i = "i sdiv 10"
  have lsd: "zero_at ?lsd = digit_char (nat \<bar>i\<bar> mod 10)"
  proof -
    have "\<bar>?lsd\<bar> < 10" using smod10 [of i] by simp
    then have "zero_at ?lsd = digit_char (nat \<bar>?lsd\<bar>)" by (intro zero_at_digit) linarith+
    then show ?thesis by (simp add: smod10 nat_mod_distrib)
  qed
  have i: "nat \<bar>?i\<bar> = nat \<bar>i\<bar> div 10" by (simp add: sdiv10 nat_div_distrib)
  have zero: "?i = 0 \<longleftrightarrow> nat \<bar>i\<bar> < 10"
    using i by (metis abs_eq_0 div_less less_numeral_extra(3) nat_0 nat_0_iff abs_le_zero_iff div_eq_0_iff zero_neq_numeral)
  show ?case
  proof (cases "?i = 0")
    case True
    then show ?thesis
      using lsd zero by (subst convert_digits.simps, subst show_nat.simps) (simp add: Let_def)
  next
    case False
    then show ?thesis
      using lsd zero 1 i by (subst convert_digits.simps, subst show_nat.simps) (simp add: Let_def)
  qed
qed

lemma convert_show_int: "convert v = show_int v"
  using convert_digits_nat [of v] by (simp add: convert_def show_int_def)

lemma length_convert:
  assumes "- (2 ^ 63) \<le> v" and "v < 2 ^ 64"
  shows "length (convert v) \<le> 21"
proof -
  have "nat \<bar>v\<bar> < 10 ^ 20" using assms by auto
  then have "length (show_nat (nat \<bar>v\<bar>)) \<le> 20" by (intro length_show_nat) simp_all
  then show ?thesis by (auto simp: convert_show_int show_int_def abs_if split: if_splits)
qed

definition hex_val :: "char \<Rightarrow> nat" where
  "hex_val c = std_find c digitsHex"

definition read_hex :: "string \<Rightarrow> nat" where
  "read_hex s = foldl (\<lambda>v c. 16 * v + hex_val c) 0 s"

lemma hex_val_digit: "d < 16 \<Longrightarrow> hex_val (digitsHex ! d) = d"
proof -
  assume "d < 16"
  then have "d = 0 \<or> d = 1 \<or> d = 2 \<or> d = 3 \<or> d = 4 \<or> d = 5 \<or> d = 6 \<or> d = 7 \<or> d = 8 \<or> d = 9 \<or> d = 10
      \<or> d = 11 \<or> d = 12 \<or> d = 13 \<or> d = 14 \<or> d = 15" by presburger
  then show ?thesis by (elim disjE) (simp_all add: hex_val_def digitsHex_def std_find_def)
qed

lemma read_convertHex: "read_hex (convertHex v) = v"
proof -
  have "foldl (\<lambda>v c. 16 * v + hex_val c) 0 (rev (convert_hex_digits v)) = v"
  proof (induction v rule: convert_hex_digits.induct)
    case (1 i)
    then show ?case by (subst convert_hex_digits.simps) (simp add: Let_def hex_val_digit)
  qed
  then show ?thesis by (simp add: read_hex_def convertHex_def)
qed

lemma length_convert_hex_digits: "v < 16 ^ k \<Longrightarrow> 0 < k \<Longrightarrow> length (convert_hex_digits v) \<le> k"
proof (induction k arbitrary: v)
  case (Suc k)
  show ?case
  proof (cases "v div 16 = 0")
    case True
    then show ?thesis by (subst convert_hex_digits.simps) (simp add: Let_def)
  next
    case False
    then have "0 < k" using Suc.prems(1) by (cases k) auto
    moreover have "v div 16 < 16 ^ k" using Suc.prems(1) by (simp add: less_mult_imp_div_less)
    ultimately have "length (convert_hex_digits (v div 16)) \<le> k" using Suc.IH by blast
    then show ?thesis using False by (subst convert_hex_digits.simps) (simp add: Let_def)
  qed
qed simp

lemma length_convertHex: "v < 2 ^ 64 \<Longrightarrow> length (convertHex v) \<le> 16"
  using length_convert_hex_digits [of v 16] by (simp add: convertHex_def)

section \<open>Every operator takes its item or drops it\<close>

lemma fb_write_next:
  assumes "fb_cur b + length s + length x \<le> length (fb_data b)"
  shows "\<exists>b'. fb_write (fb_cur b) (s @ x) b = Inr b' \<and> length (fb_data b') = length (fb_data b) \<and> fb_cur b' = fb_cur b
    \<and> fb_toString (fb_add (length s) b') = fb_toString b @ s"
proof -
  let ?b = "b\<lparr>fb_data := overwrite (fb_data b) (fb_cur b) (s @ x)\<rparr>"
  have fits: "fb_cur b + length (s @ x) \<le> length (fb_data b)" using assms by simp
  then have "fb_write (fb_cur b) (s @ x) b = Inr ?b" by (simp add: fb_write_def copy_into_def)
  moreover have "take (fb_cur b + length s) (overwrite (fb_data b) (fb_cur b) (s @ x)) = take (fb_cur b) (fb_data b) @ s"
    using fits by (simp add: overwrite_def)
  ultimately show ?thesis using fits by (simp add: fb_toString_def fb_length_def fb_add_def)
qed

lemma fb_append_spec:
  assumes "fb_inv sz b"
  shows "\<exists>b'. fb_append s b = Inr b' \<and> fb_inv sz b'
    \<and> fb_toString b' = (if length (fb_toString b) + length s < sz then fb_toString b @ s else fb_toString b)"
proof (cases "fb_avail b > length s")
  case True
  then have room: "fb_cur b + length s + length ([] :: string) \<le> length (fb_data b)"
    using assms by (auto simp: fb_avail_def fb_inv_def)
  obtain b' where b': "fb_write (fb_cur b) s b = Inr b'" "length (fb_data b') = sz" "fb_cur b' = fb_cur b"
      "fb_toString (fb_add (length s) b') = fb_toString b @ s"
    using fb_write_next [OF room] assms by (auto simp: fb_inv_def)
  moreover have "length (fb_toString b) + length s < sz"
    using True assms by (auto simp: fb_toString_def fb_length_def fb_avail_def fb_inv_def)
  ultimately show ?thesis
    using True assms by (auto simp: fb_append_def fb_inv_def fb_add_def fb_avail_def)
next
  case False
  then show ?thesis
    using assms by (auto simp: fb_append_def fb_inv_def fb_toString_def fb_length_def fb_avail_def)
qed

lemma fb_number_spec:
  assumes "fb_inv sz b" and "length s < kMaxNumericSize"
  shows "\<exists>b'. (if fb_avail b \<ge> kMaxNumericSize
      then bind_out (fb_write (fb_cur b) (s @ [NUL]) b) (\<lambda>b. Inr (fb_add (length s) b)) else Inr b) = Inr b'
    \<and> fb_inv sz b'
    \<and> fb_toString b' = (if length (fb_toString b) + kMaxNumericSize \<le> sz then fb_toString b @ s else fb_toString b)"
proof (cases "fb_avail b \<ge> kMaxNumericSize")
  case True
  then have room: "fb_cur b + length s + length [NUL] \<le> length (fb_data b)"
    using assms by (simp add: fb_avail_def fb_inv_def)
  obtain b' where b': "fb_write (fb_cur b) (s @ [NUL]) b = Inr b'" "length (fb_data b') = sz" "fb_cur b' = fb_cur b"
      "fb_toString (fb_add (length s) b') = fb_toString b @ s"
    using fb_write_next [OF room] assms(1) by (auto simp: fb_inv_def)
  moreover have "length (fb_toString b) + kMaxNumericSize \<le> sz"
    using True assms(1) by (auto simp: fb_toString_def fb_length_def fb_avail_def fb_inv_def)
  ultimately show ?thesis
    using True room assms(1) by (auto simp: fb_inv_def fb_add_def)
next
  case False
  then show ?thesis
    using assms(1) by (auto simp: fb_toString_def fb_length_def fb_avail_def fb_inv_def)
qed

text \<open>The contract a log buffer offers: text that fits is appended, other text is dropped.\<close>

locale log_sink =
  fixes inv :: "'b \<Rightarrow> bool"
    and contents :: "'b \<Rightarrow> string"
    and capacity :: nat
    and put :: "string \<Rightarrow> 'b \<Rightarrow> 'b outcome"
  assumes put_sink: "inv b \<Longrightarrow> \<exists>b'. put s b = Inr b' \<and> inv b'
      \<and> contents b' = (if length (contents b) + length s < capacity then contents b @ s else contents b)"
    and sink_bound: "inv b \<Longrightarrow> length (contents b) < capacity"
begin

lemma put_fits:
  "inv b \<Longrightarrow> length (contents b) + length s < capacity \<Longrightarrow> \<exists>b'. put s b = Inr b' \<and> inv b' \<and> contents b' = contents b @ s"
  using put_sink by fastforce

end

interpretation fb: log_sink "fb_inv sz" fb_toString sz fb_append for sz
  by unfold_locales (rule fb_append_spec, simp_all add: fb_inv_def fb_toString_def fb_length_def)

lemma put_text_item: "\<not> numeric it \<Longrightarrow> put_item b it = fb_append (item_text it) b"
  by (cases it) (auto simp: numeric_def put_bool_def put_char_def put_cstr_def put_string_def split: option.split)

lemma put_item_refines:
  assumes "fb_inv sz b" and "item_ok it"
  shows "\<exists>b'. put_item b it = Inr b' \<and> fb_inv sz b' \<and> fb_toString b' = text_step sz (fb_toString b) it"
proof (cases it)
  case (LInt v)
  then have "length (show_int v) < kMaxNumericSize"
    using length_convert [of v] assms(2) by (simp add: convert_show_int kMaxNumericSize_def)
  then show ?thesis
    using fb_number_spec [OF assms(1), of "show_int v"] LInt
    by (simp only: put_item.simps formatInteger_def convert_show_int text_step_def fits_def numeric_def
        log_item.case if_True item_text.simps)
next
  case (LPtr v)
  then have "length (''0x'' @ convertHex v) < kMaxNumericSize"
    using length_convertHex [of v] assms(2) by (simp add: kMaxNumericSize_def)
  then show ?thesis
    using fb_number_spec [OF assms(1), of "''0x'' @ convertHex v"] LPtr
    by (simp only: put_item.simps put_pointer_def text_step_def fits_def numeric_def log_item.case if_True item_text.simps
        append_assoc length_append list.size add.commute [of 2] One_nat_def numeral_2_eq_2 add_0 add_0_right add_Suc add_Suc_right)
next
  case (LDouble shown)
  then have "length shown < kMaxNumericSize" "take (kMaxNumericSize - 1) shown = shown"
    using assms(2) by (simp_all add: kMaxNumericSize_def)
  then show ?thesis
    using fb_number_spec [OF assms(1), of shown] LDouble
    by (simp only: put_item.simps put_double_def text_step_def fits_def numeric_def log_item.case if_True item_text.simps)
qed (use fb_append_spec [OF assms(1), of "item_text it"] put_text_item [of it b] in
    \<open>simp_all only: text_step_def fits_def numeric_def log_item.case if_False not_False_eq_True\<close>)

interpretation logsys: refined_system put_item "\<lambda>_. item_ok" "fb_inv sz" fb_toString "text_step sz" for sz
proof
  fix b b' it
  assume *: "fb_inv sz b" "item_ok it"
  show "\<exists>b'. put_item b it = Inr b'" using put_item_refines [OF *] by blast
  show "put_item b it = Inr b' \<Longrightarrow> fb_inv sz b'" using put_item_refines [OF *] by auto
  show "put_item b it = Inr b' \<Longrightarrow> fb_toString b' = text_step sz (fb_toString b) it"
    using put_item_refines [OF *] by auto
qed

section \<open>Properties\<close>

text \<open>
  C25. The digit-reversing conversions print numbers correctly. For every integer, also the most
  negative one, whose remainders are negative and index the symmetric digit table from its
  middle, \<open>convert\<close> leaves the decimal text with its sign; numbers of at most 64 bits stay below
  the 48 characters reserved for them, with the terminator; and reading \<open>convertHex\<close> back gives
  the number.
\<close>

theorem number_conversion:
  "convert v = (if v < 0 then CHR ''-'' # show_nat (nat (- v)) else show_nat (nat v))
   \<and> (- (2 ^ 63) \<le> v \<and> v < 2 ^ 64 \<longrightarrow> length (convert v) + 1 < kMaxNumericSize)
   \<and> read_hex (convertHex n) = n"
  using length_convert [of v] read_convertHex [of n]
  by (auto simp: convert_show_int show_int_def kMaxNumericSize_def)

theorem number_conversion_witness:
  "convert (- 9223372036854775808) = ''-9223372036854775808'' \<and> read_hex (convertHex 255) = 255"
proof -
  have "show_nat 9223372036854775808 = ''9223372036854775808''"
    by (simp add: show_nat.simps digit_char_def char_of_def bit_numeral_rec bit_Suc_0_iff)
  then show ?thesis using number_conversion [of "- 9223372036854775808" 255] by simp
qed

lemma put_items_refines:
  assumes "fb_inv sz b" and "\<forall>it \<in> set items. item_ok it"
  shows "\<exists>b'. run_events put_item b items = Inr b' \<and> fb_inv sz b'
    \<and> fb_toString b' = foldl (text_step sz) (fb_toString b) items"
proof -
  have "env_obeys put_item (\<lambda>_. item_ok) b items"
    using assms(2) by (induction items arbitrary: b) (auto split: sum.split)
  then show ?thesis using logsys.run_refines [OF assms(1)] by blast
qed

text \<open>
  C19. A log stream keeps what fits and drops the rest, item by item. For every sequence of stream
  operators with numbers of at most 64 bits, no write leaves the buffer, and its contents are
  those of the reference that appends the text of each item when there is room for it (48
  characters for a number, the text and one more character otherwise) and skips it when not.
\<close>

theorem log_stream_refines:
  assumes "fb_inv sz b" and "\<forall>it \<in> set items. item_ok it"
  shows "\<exists>b'. run_events put_item b items = Inr b' \<and> fb_inv sz b'
    \<and> fb_toString b' = foldl (text_step sz) (fb_toString b) items"
  using put_items_refines [OF assms] .

theorem log_stream_refines_witness:
  "\<exists>b'. run_events put_item (FixedBuffer_ctor (replicate 60 NUL))
      [LString ''n = '', LInt (- 42), LString ''this text is too long for what is left in the buffer, so it goes'', LChar LF] = Inr b'
    \<and> fb_toString b' = ''n = -42'' @ [LF]"
proof -
  let ?b = "FixedBuffer_ctor (replicate 60 NUL)"
  let ?items = "[LString ''n = '', LInt (- 42), LString ''this text is too long for what is left in the buffer, so it goes'', LChar LF]"
  have inv: "fb_inv 60 ?b" and empty: "fb_toString ?b = []"
    by (simp_all add: fb_inv_def FixedBuffer_ctor_def fb_toString_def fb_length_def)
  have ok: "\<forall>it \<in> set ?items. item_ok it" by simp
  have "show_int (- 42) = ''-42''"
    by (simp add: show_int_def show_nat.simps digit_char_def char_of_def bit_numeral_rec bit_Suc_0_iff)
  then have "foldl (text_step 60) [] ?items = ''n = -42'' @ [LF]"
    by (simp add: text_step_def fits_def numeric_def kMaxNumericSize_def)
  then show ?thesis using log_stream_refines [OF inv ok] unfolding empty by metis
qed

end
