(* ===== verification/Loggings.thy ===== *)
theory Loggings
  imports LogStreams Timestamps
begin

text \<open>
  \<open>src/base/Logging.h\<close> and \<open>src/base/Logging.cpp\<close>: a log statement builds a \<open>Logger\<close> whose
  constructor writes the time, the level and the error, lets the user write to its stream, and
  whose destructor appends file and line and hands the line to the output function. The output
  and flush functions are those installed by \<open>setOutput\<close> and \<open>setFlush\<close>; they act on a state of
  any type. The text of \<open>strerror_r\<close> is a parameter.
\<close>

section \<open>Levels and source files\<close>

datatype LogLevel = TRACE | DEBUG | INFO | WARN | ERROR | FATAL | NUM_LOG_LEVELS

primrec level_value :: "LogLevel \<Rightarrow> nat" where
  "level_value TRACE = 0" | "level_value DEBUG = 1" | "level_value INFO = 2" | "level_value WARN = 3"
| "level_value ERROR = 4" | "level_value FATAL = 5" | "level_value NUM_LOG_LEVELS = 6"

lemma level_value_inj: "level_value a = level_value b \<Longrightarrow> a = b"
  by (cases a; cases b) simp_all

instantiation LogLevel :: linorder
begin

definition less_eq_LogLevel :: "LogLevel \<Rightarrow> LogLevel \<Rightarrow> bool" where
  "less_eq_LogLevel a b \<longleftrightarrow> level_value a \<le> level_value b"

definition less_LogLevel :: "LogLevel \<Rightarrow> LogLevel \<Rightarrow> bool" where
  "less_LogLevel a b \<longleftrightarrow> level_value a < level_value b"

instance
  by standard (auto simp: less_eq_LogLevel_def less_LogLevel_def intro: level_value_inj)

end

definition LogLevelName :: "string list" where
  "LogLevelName = [''TRACE '', ''DEBUG '', ''INFO  '', ''WARN  '', ''ERROR '', ''FATAL '']"

definition initLogLevel :: LogLevel where
  "initLogLevel = DEBUG"

text \<open>\<open>strrchr\<close>: the offset of the last \<open>c\<close> before the terminator.\<close>

definition strrchr :: "string \<Rightarrow> char \<Rightarrow> nat option" where
  "strrchr s c =
     (let t = c_str s; behind = length (takeWhile (\<lambda>x. x \<noteq> c) (rev t))
      in if behind = length t then None else Some (length t - 1 - behind))"

record source_file =
  sf_data :: string
  sf_size :: nat

text \<open>From a string literal, whose length the template argument gives, and from a C string.\<close>

definition SourceFile_array :: "string \<Rightarrow> source_file" where
  "SourceFile_array arr =
     (case strrchr arr CHR ''/'' of
        None \<Rightarrow> \<lparr>sf_data = arr, sf_size = length arr\<rparr>
      | Some slash \<Rightarrow> \<lparr>sf_data = drop (slash + 1) arr, sf_size = length arr - (slash + 1)\<rparr>)"

definition SourceFile_cstr :: "string \<Rightarrow> source_file" where
  "SourceFile_cstr filename =
     (let d = (case strrchr filename CHR ''/'' of None \<Rightarrow> filename | Some slash \<Rightarrow> drop (slash + 1) filename)
      in \<lparr>sf_data = d, sf_size = length (c_str d)\<rparr>)"

section \<open>The logger\<close>

record logger_impl =
  im_time :: timestamp
  im_stream :: fixed_buffer
  im_level :: LogLevel
  im_line :: int
  im_basename :: source_file

text \<open>What the code reads from its surroundings: clock, \<open>errno\<close>, \<open>strerror_r\<close>, stale memory.\<close>

record log_env =
  le_now :: timestamp
  le_errno :: int
  le_strerror :: "int \<Rightarrow> string"
  le_memory :: string

definition strerror_tl :: "log_env \<Rightarrow> int \<Rightarrow> string" where
  "strerror_tl env savedErrno = le_strerror env savedErrno"

definition stream_out :: "log_item list \<Rightarrow> logger_impl \<Rightarrow> logger_impl outcome" where
  "stream_out items im = bind_out (run_events put_item (im_stream im) items) (\<lambda>b. Inr (im\<lparr>im_stream := b\<rparr>))"

text \<open>The helper class \<open>T\<close>, a string of known length.\<close>

definition T_ctor :: "string \<Rightarrow> nat \<Rightarrow> string outcome" where
  "T_ctor str len = asserting (length (c_str str) = len) (Inr (take len str))"

definition formatTime :: "logger_impl \<Rightarrow> logger_impl outcome" where
  "formatTime im =
     (let now = gmtime (local_seconds (im_time im))
      in stream_out
           [LInt (tm_year now + 1900), LChar CHR ''-'', LInt (int (tm_mon now) + 1), LChar CHR ''-'',
            LInt (int (tm_mday now)), LChar CHR '' '', LInt (int (tm_hour now)), LChar CHR '':'',
            LInt (int (tm_min now)), LChar CHR '':'', LInt (int (tm_sec now)), LChar CHR '' ''] im)"

definition Impl_ctor :: "log_env \<Rightarrow> LogLevel \<Rightarrow> int \<Rightarrow> source_file \<Rightarrow> int \<Rightarrow> logger_impl outcome" where
  "Impl_ctor env level savedErrno file line =
     bind_out (formatTime \<lparr>im_time = le_now env, im_stream = FixedBuffer_ctor (le_memory env), im_level = level,
                           im_line = line, im_basename = file\<rparr>)
       (\<lambda>im. defined_if (level_value level < length LogLevelName)
         (bind_out (T_ctor (LogLevelName ! level_value level) 6)
           (\<lambda>t. bind_out (stream_out [LString t] im)
             (\<lambda>im. if savedErrno \<noteq> 0
                    then stream_out [LCStr (Some (strerror_tl env savedErrno)), LCStr (Some '' (errno=''),
                                     LInt savedErrno, LCStr (Some '')'')] im
                    else Inr im))))"

definition finish :: "logger_impl \<Rightarrow> logger_impl outcome" where
  "finish im =
     stream_out [LCStr (Some '' - ''), LString (take (sf_size (im_basename im)) (sf_data (im_basename im))),
                 LChar CHR '';'', LInt (im_line im), LChar LF] im"

definition Logger_info :: "log_env \<Rightarrow> source_file \<Rightarrow> int \<Rightarrow> logger_impl outcome" where
  "Logger_info env file line = Impl_ctor env INFO 0 file line"

definition Logger_func :: "log_env \<Rightarrow> source_file \<Rightarrow> int \<Rightarrow> LogLevel \<Rightarrow> string \<Rightarrow> logger_impl outcome" where
  "Logger_func env file line level func =
     bind_out (Impl_ctor env level 0 file line) (stream_out [LCStr (Some func), LChar CHR '' ''])"

definition Logger_level :: "log_env \<Rightarrow> source_file \<Rightarrow> int \<Rightarrow> LogLevel \<Rightarrow> logger_impl outcome" where
  "Logger_level env file line level = Impl_ctor env level 0 file line"

definition Logger_abort :: "log_env \<Rightarrow> source_file \<Rightarrow> int \<Rightarrow> bool \<Rightarrow> logger_impl outcome" where
  "Logger_abort env file line toAbort =
     Impl_ctor env (if toAbort then FATAL else ERROR) (le_errno env) file line"

section \<open>Global state and log statements\<close>

record 'o logging =
  g_logLevel :: LogLevel
  g_output :: "string \<Rightarrow> 'o \<Rightarrow> 'o"
  g_flush :: "'o \<Rightarrow> 'o"
  lg_sink :: 'o

text \<open>The default functions write to \<open>stdout\<close>: what was written, and how much of it was flushed.\<close>

definition defaultOutput :: "string \<Rightarrow> string \<times> nat \<Rightarrow> string \<times> nat" where
  "defaultOutput msg out = (fst out @ msg, snd out)"

definition defaultFlush :: "string \<times> nat \<Rightarrow> string \<times> nat" where
  "defaultFlush out = (fst out, length (fst out))"

definition initial_logging :: "(string \<times> nat) logging" where
  "initial_logging =
     \<lparr>g_logLevel = initLogLevel, g_output = defaultOutput, g_flush = defaultFlush, lg_sink = ([], 0)\<rparr>"

definition setLogLevel :: "LogLevel \<Rightarrow> 'o logging \<Rightarrow> 'o logging" where
  "setLogLevel level g = g\<lparr>g_logLevel := level\<rparr>"

definition setOutput :: "(string \<Rightarrow> 'o \<Rightarrow> 'o) \<Rightarrow> 'o logging \<Rightarrow> 'o logging" where
  "setOutput out g = g\<lparr>g_output := out\<rparr>"

definition setFlush :: "('o \<Rightarrow> 'o) \<Rightarrow> 'o logging \<Rightarrow> 'o logging" where
  "setFlush flush g = g\<lparr>g_flush := flush\<rparr>"

text \<open>The destructor; the flag says that it ended the process with \<open>abort()\<close>.\<close>

definition Logger_dtor :: "logger_impl \<Rightarrow> 'o logging \<Rightarrow> ('o logging \<times> bool) outcome" where
  "Logger_dtor im g =
     bind_out (finish im) (\<lambda>im.
       let g' = g\<lparr>lg_sink := g_output g (take (fb_length (im_stream im)) (fb_data (im_stream im))) (lg_sink g)\<rparr>
       in if im_level im = FATAL
          then Inr (g'\<lparr>lg_sink := g_flush g' (lg_sink g')\<rparr>, True)
          else Inr (g', False))"

datatype log_macro =
  LOG_TRACE | LOG_DEBUG | LOG_INFO | LOG_WARN | LOG_ERROR | LOG_FATAL | LOG_SYSERR | LOG_SYSFATAL

text \<open>The condition in front of the macro, and the constructor it calls.\<close>

fun log_enabled :: "log_macro \<Rightarrow> LogLevel \<Rightarrow> bool" where
  "log_enabled LOG_TRACE l \<longleftrightarrow> l \<le> TRACE"
| "log_enabled LOG_DEBUG l \<longleftrightarrow> l \<le> DEBUG"
| "log_enabled LOG_INFO l \<longleftrightarrow> l \<le> INFO"
| "log_enabled _ l \<longleftrightarrow> True"

fun log_macro_ctor :: "log_macro \<Rightarrow> log_env \<Rightarrow> string \<Rightarrow> int \<Rightarrow> string \<Rightarrow> logger_impl outcome" where
  "log_macro_ctor LOG_TRACE env file line func = Logger_func env (SourceFile_array file) line TRACE func"
| "log_macro_ctor LOG_DEBUG env file line func = Logger_func env (SourceFile_array file) line DEBUG func"
| "log_macro_ctor LOG_INFO env file line func = Logger_info env (SourceFile_array file) line"
| "log_macro_ctor LOG_WARN env file line func = Logger_level env (SourceFile_array file) line WARN"
| "log_macro_ctor LOG_ERROR env file line func = Logger_level env (SourceFile_array file) line ERROR"
| "log_macro_ctor LOG_FATAL env file line func = Logger_abort env (SourceFile_array file) line False"
| "log_macro_ctor LOG_SYSERR env file line func = Logger_abort env (SourceFile_array file) line True"
| "log_macro_ctor LOG_SYSFATAL env file line func = Logger_abort env (SourceFile_array file) line True"

text \<open>A whole statement: \<open>LOG_X << item << ... << item;\<close>\<close>

definition log_stmt ::
  "log_env \<Rightarrow> log_macro \<Rightarrow> string \<Rightarrow> int \<Rightarrow> string \<Rightarrow> log_item list \<Rightarrow> 'o logging \<Rightarrow> ('o logging \<times> bool) outcome" where
  "log_stmt env m file line func items g =
     (if log_enabled m (g_logLevel g)
      then bind_out (log_macro_ctor m env file line func) (\<lambda>im.
           bind_out (stream_out items im) (\<lambda>im. Logger_dtor im g))
      else Inr (g, False))"

text \<open>\<open>CheckNotNull\<close> on a pointer that may be null; the flag as above.\<close>

definition CheckNotNull ::
  "log_env \<Rightarrow> source_file \<Rightarrow> int \<Rightarrow> string \<Rightarrow> 'a option \<Rightarrow> 'o logging \<Rightarrow> ('a option \<times> 'o logging \<times> bool) outcome" where
  "CheckNotNull env file line names ptr g =
     (if ptr = None
      then bind_out (Logger_level env file line FATAL) (\<lambda>im.
           bind_out (stream_out [LCStr (Some names)] im) (\<lambda>im.
           bind_out (Logger_dtor im g) (\<lambda>(g, aborted). Inr (ptr, g, aborted))))
      else Inr (ptr, g, False))"

section \<open>Specification of a log line\<close>

definition basename :: "string \<Rightarrow> string" where
  "basename file = rev (takeWhile (\<lambda>c. c \<noteq> CHR ''/'') (rev file))"

fun macro_level :: "log_macro \<Rightarrow> LogLevel" where
  "macro_level LOG_TRACE = TRACE" | "macro_level LOG_DEBUG = DEBUG" | "macro_level LOG_INFO = INFO"
| "macro_level LOG_WARN = WARN" | "macro_level LOG_ERROR = ERROR" | "macro_level LOG_FATAL = ERROR"
| "macro_level LOG_SYSERR = FATAL" | "macro_level LOG_SYSFATAL = FATAL"

definition shows_errno :: "log_macro \<Rightarrow> bool" where
  "shows_errno m \<longleftrightarrow> m \<in> {LOG_FATAL, LOG_SYSERR, LOG_SYSFATAL}"

definition shows_func :: "log_macro \<Rightarrow> bool" where
  "shows_func m \<longleftrightarrow> m \<in> {LOG_TRACE, LOG_DEBUG}"

definition date_items :: "timestamp \<Rightarrow> log_item list" where
  "date_items t =
     (let now = gmtime (local_seconds t)
      in [LInt (tm_year now + 1900), LChar CHR ''-'', LInt (int (tm_mon now) + 1), LChar CHR ''-'',
          LInt (int (tm_mday now)), LChar CHR '' '', LInt (int (tm_hour now)), LChar CHR '':'',
          LInt (int (tm_min now)), LChar CHR '':'', LInt (int (tm_sec now)), LChar CHR '' ''])"

definition impl_items :: "log_env \<Rightarrow> LogLevel \<Rightarrow> int \<Rightarrow> log_item list" where
  "impl_items env level err = date_items (le_now env) @ [LString (LogLevelName ! level_value level)]
     @ (if err \<noteq> 0 then [LCStr (Some (le_strerror env err)), LCStr (Some '' (errno=''), LInt err, LCStr (Some '')'')] else [])"

definition ctor_items :: "log_macro \<Rightarrow> log_env \<Rightarrow> string \<Rightarrow> log_item list" where
  "ctor_items m env func = impl_items env (macro_level m) (if shows_errno m then le_errno env else 0)
     @ (if shows_func m then [LCStr (Some func), LChar CHR '' ''] else [])"

definition finish_items :: "source_file \<Rightarrow> int \<Rightarrow> log_item list" where
  "finish_items file line = [LCStr (Some '' - ''), LString (take (sf_size file) (sf_data file)), LChar CHR '';'', LInt line, LChar LF]"

definition statement_items :: "log_env \<Rightarrow> log_macro \<Rightarrow> string \<Rightarrow> int \<Rightarrow> string \<Rightarrow> log_item list \<Rightarrow> log_item list" where
  "statement_items env m file line func items = ctor_items m env func @ items @ finish_items (SourceFile_array file) line"

definition log_line_text :: "log_env \<Rightarrow> log_macro \<Rightarrow> string \<Rightarrow> int \<Rightarrow> string \<Rightarrow> string \<Rightarrow> string" where
  "log_line_text env m file line func body =
     (let now = gmtime (local_seconds (le_now env))
      in show_int (tm_year now + 1900) @ ''-'' @ show_int (int (tm_mon now) + 1) @ ''-'' @ show_int (int (tm_mday now)) @ '' ''
         @ show_int (int (tm_hour now)) @ '':'' @ show_int (int (tm_min now)) @ '':'' @ show_int (int (tm_sec now)) @ '' '')
     @ LogLevelName ! level_value (macro_level m)
     @ (if shows_errno m \<and> le_errno env \<noteq> 0
        then c_str (le_strerror env (le_errno env)) @ '' (errno='' @ show_int (le_errno env) @ '')'' else [])
     @ (if shows_func m then c_str func @ '' '' else [])
     @ body @ '' - '' @ basename file @ '';'' @ show_int line @ [LF]"

definition int32 :: "int \<Rightarrow> bool" where
  "int32 x \<longleftrightarrow> - 2147483648 \<le> x \<and> x < 2147483648"

definition log_env_ok :: "log_env \<Rightarrow> bool" where
  "log_env_ok env \<longleftrightarrow> length (le_memory env) = kSmallBuffer \<and> 0 \<le> local_seconds (le_now env)
     \<and> local_seconds (le_now env) < 253402300800 \<and> int32 (le_errno env)"

definition log_ends_process :: "log_macro \<Rightarrow> bool" where
  "log_ends_process m \<longleftrightarrow> m = LOG_SYSERR \<or> m = LOG_SYSFATAL"

section \<open>Constructors and destructor as one stream\<close>

lemma stream_out_append: "bind_out (stream_out a im) (stream_out b) = stream_out (a @ b) im"
proof (cases "run_events put_item (im_stream im) a")
  case (Inr r)
  then show ?thesis by (simp add: stream_out_def run_events_append)
qed (simp add: stream_out_def run_events_append)

lemma stream_out_bind: "bind_out (stream_out a im) (\<lambda>im. bind_out (stream_out b im) f) = bind_out (stream_out (a @ b) im) f"
  by (simp flip: stream_out_append bind_out_assoc)

lemma stream_out_Nil [simp]: "stream_out [] im = Inr im"
  by (simp add: stream_out_def)

lemma Impl_ctor_stream:
  assumes "level \<noteq> NUM_LOG_LEVELS"
  shows "Impl_ctor env level err file line =
    stream_out (impl_items env level err) \<lparr>im_time = le_now env, im_stream = FixedBuffer_ctor (le_memory env),
      im_level = level, im_line = line, im_basename = file\<rparr>"
proof -
  have "T_ctor (LogLevelName ! level_value level) 6 = Inr (LogLevelName ! level_value level)"
    "level_value level < length LogLevelName"
    using assms by (cases level; simp add: T_ctor_def LogLevelName_def c_str_def)+
  then show ?thesis
    by (simp add: Impl_ctor_def formatTime_def Let_def date_items_def strerror_tl_def impl_items_def
        stream_out_append stream_out_bind)
qed

lemma log_macro_ctor_stream:
  "log_macro_ctor m env file line func =
    stream_out (ctor_items m env func) \<lparr>im_time = le_now env, im_stream = FixedBuffer_ctor (le_memory env),
      im_level = macro_level m, im_line = line, im_basename = SourceFile_array file\<rparr>"
  by (cases m)
    (simp_all add: Logger_func_def Logger_info_def Logger_level_def Logger_abort_def Impl_ctor_stream stream_out_append
      ctor_items_def shows_errno_def shows_func_def)

lemma strrchr_basename:
  assumes "NUL \<notin> set file"
  shows "(case strrchr file CHR ''/'' of None \<Rightarrow> file | Some slash \<Rightarrow> drop (slash + 1) file) = basename file"
    "\<And>slash. strrchr file CHR ''/'' = Some slash \<Longrightarrow> slash + 1 \<le> length file"
proof -
  let ?n = "length (takeWhile (\<lambda>c. c \<noteq> CHR ''/'') (rev file))"
  have c: "c_str file = file" using assms by (auto simp: c_str_def takeWhile_eq_all_conv)
  have n: "?n \<le> length file" using length_takeWhile_le [of _ "rev file"] by simp
  have tw: "takeWhile (\<lambda>c. c \<noteq> CHR ''/'') (rev file) = take ?n (rev file)" by (rule takeWhile_eq_take)
  show "(case strrchr file CHR ''/'' of None \<Rightarrow> file | Some slash \<Rightarrow> drop (slash + 1) file) = basename file"
  proof (cases "?n = length file")
    case True
    then have "basename file = file" unfolding basename_def by (subst tw) simp
    then show ?thesis using True by (simp add: strrchr_def c)
  next
    case False
    have "basename file = drop (length file - ?n) file" unfolding basename_def by (subst tw) (simp add: rev_take)
    then show ?thesis using False n by (simp add: strrchr_def c Suc_diff_Suc)
  qed
  show "strrchr file CHR ''/'' = Some slash \<Longrightarrow> slash + 1 \<le> length file" for slash
    using n by (auto simp: strrchr_def c Let_def split: if_splits)
qed

text \<open>Both constructors of \<open>SourceFile\<close> keep what follows the last slash.\<close>

lemma SourceFile_text:
  assumes "NUL \<notin> set file"
  shows "take (sf_size (SourceFile_array file)) (sf_data (SourceFile_array file)) = basename file"
    "SourceFile_cstr file = SourceFile_array file"
proof -
  note base = strrchr_basename [OF assms]
  have nul: "NUL \<notin> set (basename file)" using assms by (auto simp: basename_def dest: set_takeWhileD)
  then have c: "c_str (basename file) = basename file" by (auto simp: c_str_def takeWhile_eq_all_conv)
  show "take (sf_size (SourceFile_array file)) (sf_data (SourceFile_array file)) = basename file"
    using base(1) by (auto simp: SourceFile_array_def split: option.splits)
  show "SourceFile_cstr file = SourceFile_array file"
    using base(1) c by (auto simp: SourceFile_cstr_def SourceFile_array_def Let_def simp del: length_drop
        simp flip: length_drop split: option.splits)
qed

lemma foldl_text_step_fits:
  assumes "length s + length (concat (map item_text items)) + kMaxNumericSize \<le> sz"
  shows "foldl (text_step sz) s items = s @ concat (map item_text items)"
  using assms
proof (induction items arbitrary: s)
  case (Cons it items)
  have "fits sz s it" using Cons.prems by (auto simp: fits_def kMaxNumericSize_def)
  then have "text_step sz s it = s @ item_text it" by (simp add: text_step_def)
  then show ?case using Cons.IH [of "s @ item_text it"] Cons.prems by simp
qed simp

lemma date_items_ok:
  assumes "0 \<le> local_seconds t" and "local_seconds t < 253402300800"
  shows "\<forall>it \<in> set (date_items t). item_ok it"
proof -
  have ok: "tm_ok (gmtime (local_seconds t))" by (rule gmtime_timegm)
  then have "tm_mday (gmtime (local_seconds t)) \<le> 31" by (auto simp: tm_ok_def month_days_def split: if_splits)
  then show ?thesis using gmtime_year [OF assms] ok by (simp add: date_items_def Let_def tm_ok_def)
qed

lemma statement_items_ok:
  assumes "log_env_ok env" and "int32 line" and "\<forall>it \<in> set items. item_ok it"
  shows "\<forall>it \<in> set (statement_items env m file line func items). item_ok it"
  using assms date_items_ok [of "le_now env"]
  by (auto simp: statement_items_def ctor_items_def impl_items_def finish_items_def log_env_ok_def int32_def split: if_splits)

lemma statement_items_text:
  assumes "NUL \<notin> set file"
  shows "concat (map item_text (statement_items env m file line func items))
    = log_line_text env m file line func (concat (map item_text items))"
  using SourceFile_text(1) [OF assms]
  by (simp add: statement_items_def ctor_items_def impl_items_def finish_items_def date_items_def log_line_text_def
      Let_def c_str_def)

lemma log_stmt_stream:
  assumes "log_enabled m (g_logLevel g)"
    and "run_events put_item (FixedBuffer_ctor (le_memory env)) (statement_items env m file line func items) = Inr b"
  shows "log_stmt env m file line func items g =
    Inr (g\<lparr>lg_sink := (if log_ends_process m then g_flush g else (\<lambda>x. x)) (g_output g (fb_toString b) (lg_sink g))\<rparr>,
         log_ends_process m)"
proof -
  let ?im = "\<lparr>im_time = le_now env, im_stream = FixedBuffer_ctor (le_memory env), im_level = macro_level m,
      im_line = line, im_basename = SourceFile_array file\<rparr>"
  have run: "stream_out (statement_items env m file line func items) ?im = Inr (?im\<lparr>im_stream := b\<rparr>)"
    using assms(2) by (simp add: stream_out_def)
  obtain im where im: "stream_out (ctor_items m env func @ items) ?im = Inr im"
    using run stream_out_append [of "ctor_items m env func @ items" ?im]
    by (cases "stream_out (ctor_items m env func @ items) ?im") (auto simp: statement_items_def)
  then have parts: "im_level im = macro_level m" "im_line im = line" "im_basename im = SourceFile_array file"
    by (auto simp: stream_out_def outcome_simps)
  have "finish im = stream_out (finish_items (SourceFile_array file) line) im"
    using parts by (simp add: finish_def finish_items_def)
  then have "finish im = Inr (?im\<lparr>im_stream := b\<rparr>)"
    using run im stream_out_append [of "ctor_items m env func @ items" ?im] by (simp add: statement_items_def)
  then have "Logger_dtor im g = Inr (g\<lparr>lg_sink := (if log_ends_process m then g_flush g else (\<lambda>x. x))
      (g_output g (fb_toString b) (lg_sink g))\<rparr>, log_ends_process m)"
    by (cases m) (simp_all add: Logger_dtor_def Let_def fb_toString_def log_ends_process_def)
  then show ?thesis
    using assms(1) im by (simp add: log_stmt_def log_macro_ctor_stream stream_out_bind)
qed


definition sample_env :: log_env where
  "sample_env = \<lparr>le_now = Timestamp_of 57600000042, le_errno = 9, le_strerror = (\<lambda>e. ''Bad file descriptor''),
     le_memory = replicate 4000 CHR ''x''\<rparr>"

lemma sample_line:
  "log_line_text sample_env LOG_SYSERR ''src/net/EventLoop.cpp'' 27 ''loop'' ''poll'' =
   ''1970-1-2 0:0:0 FATAL Bad file descriptor (errno=9)poll - EventLoop.cpp;27'' @ [LF]"
proof -
  have now: "gmtime (local_seconds (Timestamp_of 57600000042)) =
      \<lparr>tm_year = 70, tm_mon = 0, tm_mday = 2, tm_hour = 0, tm_min = 0, tm_sec = 0\<rparr>"
    by (simp add: local_seconds_div Timestamp_of_def gmtime_def find_year.simps year_days_def leap_def upt_rec
        month_days_def)
  have "basename ''src/net/EventLoop.cpp'' = ''EventLoop.cpp''" by (simp add: basename_def)
  then show ?thesis
    by (simp add: log_line_text_def sample_env_def now LogLevelName_def shows_errno_def shows_func_def c_str_def
        show_int_def show_nat.simps digit_char_def char_of_def bit_numeral_rec bit_Suc_0_iff)
qed


end
