(* ===== verification/LogFiles.thy ===== *)
theory LogFiles
  imports Timestamps
begin

text \<open>
  \<open>src/base/FileUtil.h\<close>, \<open>src/base/FileUtil.cpp\<close>, \<open>src/base/LogFile.h\<close> and \<open>src/base/LogFile.cpp\<close>: files
  that are appended to and log files that roll over by size and by day (the reader for small
  files is in \<open>SmallFiles\<close>). The disk is a list of names and of the bytes that \<open>fwrite\<close> took for each file, in the
  order of creation, with the number of bytes at the end of each that are still in the buffer of
  its stream. The results of the system (whether \<open>fopen\<close> succeeds, how many bytes each \<open>fwrite\<close> takes
  and how many stay in the buffer, how many stay after each \<open>fflush\<close> or \<open>fclose\<close>, each \<open>time(NULL)\<close>, host
  name and process id) come from an environment; the calls are counted, so that each has its own
  result.
\<close>

section \<open>The environment\<close>

record file_env =
  fe_open :: "string \<Rightarrow> bool"
  fe_write :: "nat \<Rightarrow> nat \<Rightarrow> nat \<times> bool"
  fe_keep :: "nat \<Rightarrow> nat \<Rightarrow> nat"
  fe_flush :: "nat \<Rightarrow> nat \<Rightarrow> nat"
  fe_time :: "nat \<Rightarrow> int"
  fe_host :: "string option"
  fe_pid :: nat

record disk =
  dk_files :: "(string \<times> string) list"
  dk_held :: "string \<Rightarrow> nat"
  dk_writes :: nat
  dk_flushes :: nat
  dk_times :: nat
  dk_stderr :: string

definition file_add :: "string \<Rightarrow> string \<Rightarrow> disk \<Rightarrow> disk" where
  "file_add name s d = d\<lparr>dk_files := map (\<lambda>(n, c). (n, if n = name then c @ s else c)) (dk_files d)\<rparr>"

text \<open>What has reached the files.\<close>

definition on_disk :: "disk \<Rightarrow> (string \<times> string) list" where
  "on_disk d = map (\<lambda>(n, c). (n, take (length c - dk_held d n) c)) (dk_files d)"

text \<open>\<open>fopen(name, "ae")\<close>: an existing file is kept; the buffer of the stream of a new one is empty.\<close>

definition fopen_append :: "string \<Rightarrow> disk \<Rightarrow> disk" where
  "fopen_append name d =
     (if name \<in> fst ` set (dk_files d) then d
      else d\<lparr>dk_files := dk_files d @ [(name, [])], dk_held := (dk_held d)(name := 0)\<rparr>)"

definition time_now :: "file_env \<Rightarrow> disk \<Rightarrow> int \<times> disk" where
  "time_now env d = (fe_time env (dk_times d), d\<lparr>dk_times := Suc (dk_times d)\<rparr>)"

section \<open>AppendFile\<close>

record append_file =
  af_name :: string
  af_error :: bool
  af_writtenBytes :: nat

definition AppendFile_ctor :: "file_env \<Rightarrow> string \<Rightarrow> disk \<Rightarrow> (append_file \<times> disk) outcome" where
  "AppendFile_ctor env filename d =
     asserting (fe_open env filename)
       (Inr (\<lparr>af_name = filename, af_error = False, af_writtenBytes = 0\<rparr>, fopen_append filename d))"

text \<open>The size of \<open>buffer_\<close>, which the constructor gives to the stream with \<open>setbuffer\<close>.\<close>

definition kFileBuffer :: nat where "kFileBuffer = 64 * 1024"

text \<open>\<open>fwrite_unlocked\<close>: the bytes taken go to the buffer or the file; \<open>ferror\<close> stays set.\<close>

definition write_AppendFile :: "file_env \<Rightarrow> string \<Rightarrow> append_file \<Rightarrow> disk \<Rightarrow> nat \<times> append_file \<times> disk" where
  "write_AppendFile env logline f d =
     (let (n, err) = fe_write env (dk_writes d) (length logline)
      in (n, f\<lparr>af_error := af_error f \<or> err\<rparr>, (file_add (af_name f) (take n logline) d)\<lparr>dk_writes := Suc (dk_writes d),
        dk_held := (dk_held d)(af_name f := fe_keep env (dk_writes d) (dk_held d (af_name f) + n))\<rparr>))"

partial_function (option) append_loop ::
  "file_env \<Rightarrow> string \<Rightarrow> nat \<Rightarrow> append_file \<Rightarrow> disk \<Rightarrow> (nat \<times> append_file \<times> disk) option" where
  "append_loop env logline written f d =
     (if written = length logline then Some (written, f, d)
      else let remain = length logline - written;
               (n, f', d') = write_AppendFile env (drop written logline) f d
           in if n \<noteq> remain \<and> af_error f'
              then Some (written, f', d'\<lparr>dk_stderr := dk_stderr d' @ ''AppendFile::append() failed'' @ [LF]\<rparr>)
              else append_loop env logline (written + n) f' d')"

definition append_AppendFile :: "file_env \<Rightarrow> string \<Rightarrow> append_file \<Rightarrow> disk \<Rightarrow> (append_file \<times> disk) option" where
  "append_AppendFile env logline f d =
     map_option (\<lambda>(written, f', d'). (f'\<lparr>af_writtenBytes := af_writtenBytes f' + written\<rparr>, d'))
       (append_loop env logline 0 f d)"

definition flush_AppendFile :: "file_env \<Rightarrow> append_file \<Rightarrow> disk \<Rightarrow> disk" where
  "flush_AppendFile env f d = d\<lparr>dk_flushes := Suc (dk_flushes d),
     dk_held := (dk_held d)(af_name f := fe_flush env (dk_flushes d) (dk_held d (af_name f)))\<rparr>"

text \<open>\<open>fclose\<close> flushes the buffer first.\<close>

definition AppendFile_dtor :: "file_env \<Rightarrow> append_file \<Rightarrow> disk \<Rightarrow> disk" where
  "AppendFile_dtor env f d = flush_AppendFile env f d"

section \<open>LogFile\<close>

definition kRollPerSeconds :: int where "kRollPerSeconds = 60 * 60 * 24"

record log_file =
  lf_basename :: string
  lf_rollSize :: nat
  lf_flushInterval :: int
  lf_checkEveryN :: int
  lf_count :: int
  lf_mutex :: bool
  lf_startOfPeriod :: int
  lf_lastRoll :: int
  lf_lastFlush :: int
  lf_file :: "append_file option"

definition hostname :: "file_env \<Rightarrow> string" where
  "hostname env = (case fe_host env of Some h \<Rightarrow> c_str (take 255 h) | None \<Rightarrow> ''unknownhost'')"

text \<open>The format \<open>.%Y%m%d-%H%M%S.\<close> of \<open>strftime\<close>.\<close>

definition strftime_text :: "tm \<Rightarrow> string" where
  "strftime_text t = ''.'' @ year_text t @ zero_pad 2 (tm_mon t + 1) @ zero_pad 2 (tm_mday t) @ ''-''
     @ zero_pad 2 (tm_hour t) @ zero_pad 2 (tm_min t) @ zero_pad 2 (tm_sec t) @ ''.''"

definition getLogFileName :: "file_env \<Rightarrow> string \<Rightarrow> int \<Rightarrow> string" where
  "getLogFileName env base now =
     base @ strftime_text (gmtime now) @ hostname env
       @ c_str (snprintf_into (replicate 32 NUL) (''.'' @ show_nat (fe_pid env))) @ ''.log''"

text \<open>\<open>unique_ptr::reset\<close> destroys the old file after the new one was made.\<close>

definition destroy_file :: "file_env \<Rightarrow> append_file option \<Rightarrow> disk \<Rightarrow> disk" where
  "destroy_file env p d = (case p of None \<Rightarrow> d | Some f \<Rightarrow> AppendFile_dtor env f d)"

definition rollFile :: "file_env \<Rightarrow> log_file \<Rightarrow> disk \<Rightarrow> (bool \<times> log_file \<times> disk) outcome" where
  "rollFile env l d =
     (let (now, d) = time_now env d;
          filename = getLogFileName env (lf_basename l) now;
          start = now sdiv kRollPerSeconds * kRollPerSeconds
      in if now > lf_lastRoll l
         then bind_out (AppendFile_ctor env filename d) (\<lambda>(f, d).
                Inr (True, l\<lparr>lf_lastRoll := now, lf_lastFlush := now, lf_startOfPeriod := start, lf_file := Some f\<rparr>,
                  destroy_file env (lf_file l) d))
         else Inr (False, l, d))"

definition LogFile_ctor ::
  "file_env \<Rightarrow> string \<Rightarrow> nat \<Rightarrow> bool \<Rightarrow> int \<Rightarrow> int \<Rightarrow> disk \<Rightarrow> (log_file \<times> disk) outcome" where
  "LogFile_ctor env base rollSize threadSafe flushInterval checkEveryN d =
     asserting (CHR ''/'' \<notin> set base)
       (bind_out (rollFile env
          \<lparr>lf_basename = base, lf_rollSize = rollSize, lf_flushInterval = flushInterval, lf_checkEveryN = checkEveryN,
           lf_count = 0, lf_mutex = threadSafe, lf_startOfPeriod = 0, lf_lastRoll = 0, lf_lastFlush = 0, lf_file = None\<rparr> d)
        (\<lambda>(_, l, d). Inr (l, d)))"

text \<open>The result \<open>None\<close> of a write that never ends is kept apart from the errors.\<close>

definition append_unlocked :: "file_env \<Rightarrow> string \<Rightarrow> log_file \<Rightarrow> disk \<Rightarrow> (log_file \<times> disk) outcome option" where
  "append_unlocked env logline l d =
     (case lf_file l of
        None \<Rightarrow> Some (Inl UndefinedBehaviour)
      | Some f \<Rightarrow>
          (case append_AppendFile env logline f d of
             None \<Rightarrow> None
           | Some (f, d) \<Rightarrow>
               (let l = l\<lparr>lf_file := Some f\<rparr>
                in if af_writtenBytes f > lf_rollSize l
                   then Some (bind_out (rollFile env l d) (\<lambda>(_, l, d). Inr (l, d)))
                   else let l = l\<lparr>lf_count := lf_count l + 1\<rparr>
                        in if lf_count l \<ge> lf_checkEveryN l
                           then let l = l\<lparr>lf_count := 0\<rparr>;
                                    (now, d) = time_now env d;
                                    thisPeriod = now sdiv kRollPerSeconds * kRollPerSeconds
                                in if thisPeriod \<noteq> lf_startOfPeriod l
                                   then Some (bind_out (rollFile env l d) (\<lambda>(_, l, d). Inr (l, d)))
                                   else if now - lf_lastFlush l > lf_flushInterval l
                                   then Some (Inr (l\<lparr>lf_lastFlush := now\<rparr>, flush_AppendFile env f d))
                                   else Some (Inr (l, d))
                           else Some (Inr (l, d)))))"

text \<open>With or without the mutex the same work is done; each call is one atomic step.\<close>

definition append_LogFile :: "file_env \<Rightarrow> string \<Rightarrow> log_file \<Rightarrow> disk \<Rightarrow> (log_file \<times> disk) outcome option" where
  "append_LogFile env logline l d =
     (if lf_mutex l then append_unlocked env logline l d else append_unlocked env logline l d)"

definition flush_unlocked :: "file_env \<Rightarrow> log_file \<Rightarrow> disk \<Rightarrow> (log_file \<times> disk) outcome" where
  "flush_unlocked env l d =
     (case lf_file l of None \<Rightarrow> Inl UndefinedBehaviour | Some f \<Rightarrow> Inr (l, flush_AppendFile env f d))"

definition flush_LogFile :: "file_env \<Rightarrow> log_file \<Rightarrow> disk \<Rightarrow> (log_file \<times> disk) outcome" where
  "flush_LogFile env l d = (if lf_mutex l then flush_unlocked env l d else flush_unlocked env l d)"

definition LogFile_dtor :: "file_env \<Rightarrow> log_file \<Rightarrow> disk \<Rightarrow> disk" where
  "LogFile_dtor env l d = destroy_file env (lf_file l) d"

section \<open>Specification\<close>

text \<open>
  The C standard's promise for \<open>fwrite\<close>: it takes at most what it is given, and less only if it
  sets the error indicator.
\<close>

definition fwrite_ok :: "file_env \<Rightarrow> bool" where
  "fwrite_ok env \<longleftrightarrow> (\<forall>k r. fst (fe_write env k r) \<le> r \<and> (fst (fe_write env k r) < r \<longrightarrow> snd (fe_write env k r)))"

definition fwrite_complete :: "file_env \<Rightarrow> bool" where
  "fwrite_complete env \<longleftrightarrow> (\<forall>k r. fst (fe_write env k r) = r)"

text \<open>A buffer holds at most its size, and flushing succeeds.\<close>

definition stdio_ok :: "file_env \<Rightarrow> bool" where
  "stdio_ok env \<longleftrightarrow> (\<forall>k h. fe_keep env k h \<le> min h kFileBuffer) \<and> (\<forall>k h. fe_flush env k h = 0)"

definition clock_ok :: "file_env \<Rightarrow> bool" where
  "clock_ok env \<longleftrightarrow> (\<forall>k. 0 < fe_time env k \<and> fe_time env k < 253402300800)"

fun append_all :: "file_env \<Rightarrow> string list \<Rightarrow> log_file \<Rightarrow> disk \<Rightarrow> (log_file \<times> disk) outcome option" where
  "append_all env [] l d = Some (Inr (l, d))"
| "append_all env (s # ss) l d =
     (case append_LogFile env s l d of
        None \<Rightarrow> None
      | Some (Inl e) \<Rightarrow> Some (Inl e)
      | Some (Inr (l, d)) \<Rightarrow> append_all env ss l d)"

text \<open>
  A log file in use: the files it has created follow the older ones on the disk; each holds a
  group of whole lines; the last one is open; their names carry increasing times. Only bytes of the
  open one may still be in a buffer.
\<close>

definition logfile_inv :: "file_env \<Rightarrow> (string \<times> string) list \<Rightarrow> string list list \<Rightarrow> log_file \<Rightarrow> disk \<Rightarrow> bool" where
  "logfile_inv env old groups l d \<longleftrightarrow>
     (\<exists>ts f. lf_file l = Some f \<and> ts \<noteq> [] \<and> sorted_wrt (<) ts \<and> last ts = lf_lastRoll l
        \<and> (\<forall>t \<in> set ts. 0 < t \<and> t < 253402300800)
        \<and> length groups = length ts
        \<and> dk_files d = old @ zip (map (getLogFileName env (lf_basename l)) ts) (map concat groups)
        \<and> af_name f = getLogFileName env (lf_basename l) (lf_lastRoll l)
        \<and> (\<forall>t \<in> set ts. t \<noteq> lf_lastRoll l \<longrightarrow> dk_held d (getLogFileName env (lf_basename l) t) = 0)
        \<and> dk_held d (af_name f) \<le> kFileBuffer)"

definition foreign :: "file_env \<Rightarrow> string \<Rightarrow> (string \<times> string) list \<Rightarrow> bool" where
  "foreign env base old \<longleftrightarrow> (\<forall>t. getLogFileName env base t \<notin> fst ` set old)"

section \<open>AppendFile writes lines\<close>

lemma file_add_simps [simp]:
  "dk_times (file_add name s d) = dk_times d"
  "dk_writes (file_add name s d) = dk_writes d"
  "dk_held (file_add name s d) = dk_held d"
  by (simp_all add: file_add_def)

lemma file_add_Nil [simp]: "dk_files (file_add name [] d) = dk_files d"
  by (auto simp: file_add_def intro!: map_idI)

lemma append_AppendFile_spec:
  assumes "fwrite_ok env"
  shows "\<exists>f' d' n. append_AppendFile env s f d = Some (f', d') \<and> n \<le> length s
    \<and> dk_files d' = dk_files (file_add (af_name f) (take n s) d) \<and> dk_times d' = dk_times d \<and> af_name f' = af_name f
    \<and> (if n = length s then af_writtenBytes f' = af_writtenBytes f + length s
       else af_error f' \<and> af_writtenBytes f' = af_writtenBytes f)
    \<and> (fwrite_complete env \<longrightarrow> n = length s) \<and> (\<forall>nm. nm \<noteq> af_name f \<longrightarrow> dk_held d' nm = dk_held d nm)
    \<and> (stdio_ok env \<longrightarrow> dk_held d (af_name f) \<le> kFileBuffer \<longrightarrow> dk_held d' (af_name f) \<le> kFileBuffer)"
proof (cases "s = []")
  case True
  then show ?thesis by (simp add: append_AppendFile_def append_loop.simps)
next
  case False
  obtain n err where w: "fe_write env (dk_writes d) (length s) = (n, err)" by fastforce
  have n: "n \<le> length s" "n < length s \<longrightarrow> err" "fwrite_complete env \<longrightarrow> n = length s"
    using assms w unfolding fwrite_ok_def fwrite_complete_def by (metis fst_conv snd_conv)+
  let ?f = "f\<lparr>af_error := af_error f \<or> err\<rparr>"
  let ?d = "(file_add (af_name f) (take n s) d)\<lparr>dk_writes := Suc (dk_writes d),
      dk_held := (dk_held d)(af_name f := fe_keep env (dk_writes d) (dk_held d (af_name f) + n))\<rparr>"
  have keep: "stdio_ok env \<longrightarrow> dk_held ?d (af_name f) \<le> kFileBuffer" by (simp add: stdio_ok_def)
  have wr: "write_AppendFile env (drop 0 s) f d = (n, ?f, ?d)" by (simp add: write_AppendFile_def w)
  show ?thesis
  proof (cases "n = length s")
    case True
    have "append_loop env s 0 f d = append_loop env s (length s) ?f ?d"
      using False True wr by (subst append_loop.simps) simp
    also have "\<dots> = Some (length s, ?f, ?d)" by (subst append_loop.simps) simp
    finally show ?thesis
      using True n keep by (intro exI [of _ "?f\<lparr>af_writtenBytes := af_writtenBytes f + length s\<rparr>"] exI [of _ ?d] exI [of _ n])
        (simp add: append_AppendFile_def)
  next
    case short: False
    then have err using n by simp
    then have "append_loop env s 0 f d =
        Some (0, ?f, ?d\<lparr>dk_stderr := dk_stderr ?d @ ''AppendFile::append() failed'' @ [LF]\<rparr>)"
      using False short wr by (subst append_loop.simps) simp
    then show ?thesis
      using short n \<open>err\<close> keep by (intro exI [of _ ?f] exI [of _ "?d\<lparr>dk_stderr := dk_stderr ?d @ ''AppendFile::append() failed'' @ [LF]\<rparr>"] exI [of _ n])
        (simp add: append_AppendFile_def file_add_def)
  qed
qed

section \<open>Log files roll without losing lines\<close>

lemma getLogFileName_inj:
  assumes "0 \<le> t" "t < 253402300800" "0 \<le> t'" "t' < 253402300800"
    and "getLogFileName env base t = getLogFileName env base t'"
  shows "t = t'"
proof -
  have len: "length (strftime_text (gmtime t)) = 17" "length (strftime_text (gmtime t')) = 17"
    using year_text_4(1) tm_two_digits [OF gmtime_timegm(1)] assms by (simp_all add: strftime_text_def)
  have "strftime_text (gmtime t) = strftime_text (gmtime t')"
    using assms(5) len by (simp add: getLogFileName_def append_eq_append_conv)
  then show ?thesis
    using date_text_inj [of t t' "''-''" "[]" "''.''"] assms(1-4) by (simp add: strftime_text_def)
qed

lemma names_distinct:
  assumes "sorted_wrt (<) ts" and "\<forall>t \<in> set ts. 0 < t \<and> t < 253402300800"
  shows "distinct (map (getLogFileName env base) ts)"
proof -
  have "inj_on (getLogFileName env base) (set ts)"
    using assms(2) getLogFileName_inj by (intro inj_onI) (meson order_less_imp_le)
  moreover have "distinct ts" using assms(1) by (simp add: strict_sorted_iff)
  ultimately show ?thesis by (simp add: distinct_map)
qed

lemma file_add_notin:
  "nm \<notin> fst ` set xs \<Longrightarrow> map (\<lambda>(n, c). (n, if n = nm then c @ s else c)) xs = xs"
  by (induction xs) auto

lemma file_add_last:
  assumes "dk_files d = old @ zip (xs @ [nm]) (cs @ [c])" and "length xs = length cs" and "nm \<notin> fst ` set old" and "nm \<notin> set xs"
  shows "dk_files (file_add nm s d) = old @ zip (xs @ [nm]) (cs @ [c @ s])"
proof -
  have "nm \<notin> fst ` set (zip xs cs)" using assms(4) by (auto dest: set_zip_leftD)
  then show ?thesis using assms(1-3) by (simp add: file_add_def file_add_notin)
qed

lemma logfile_inv_cong:
  assumes "logfile_inv env old groups l d" and "lf_file l = Some f" and "lf_file l' = Some f'" and "af_name f' = af_name f"
    and "lf_lastRoll l' = lf_lastRoll l" and "lf_basename l' = lf_basename l" and "dk_files d' = dk_files d"
    and "\<forall>nm. dk_held d' nm \<le> dk_held d nm"
  shows "logfile_inv env old groups l' d'"
proof -
  have "dk_held d nm = 0 \<Longrightarrow> dk_held d' nm = 0" "dk_held d nm \<le> k \<Longrightarrow> dk_held d' nm \<le> k" for nm k
    using assms(8) by (metis le_zero_eq, meson order_trans)
  then show ?thesis using assms(1-7) unfolding logfile_inv_def by auto
qed

lemma logfile_inv_append:
  assumes "logfile_inv env old groups l d" and "lf_file l = Some f" and "foreign env (lf_basename l) old"
    and "dk_files d' = dk_files (file_add (af_name f) s d)" and "af_name f' = af_name f"
    and held: "\<forall>nm. nm \<noteq> af_name f \<longrightarrow> dk_held d' nm = dk_held d nm" "dk_held d' (af_name f) \<le> kFileBuffer"
  shows "logfile_inv env old (butlast groups @ [last groups @ [s]]) (l\<lparr>lf_file := Some f'\<rparr>) d'"
    "concat (butlast groups @ [last groups @ [s]]) = concat groups @ [s]"
proof -
  let ?name = "getLogFileName env (lf_basename l)"
  obtain ts where ts: "ts \<noteq> []" "sorted_wrt (<) ts" "last ts = lf_lastRoll l" "\<forall>t \<in> set ts. 0 < t \<and> t < 253402300800"
      "length groups = length ts" "dk_files d = old @ zip (map ?name ts) (map concat groups)" "af_name f = ?name (lf_lastRoll l)"
      "\<forall>t \<in> set ts. t \<noteq> lf_lastRoll l \<longrightarrow> dk_held d (?name t) = 0"
    using assms(1,2) unfolding logfile_inv_def by auto
  have groups: "groups \<noteq> []" using ts(1,5) by auto
  then have split: "groups = butlast groups @ [last groups]" by simp
  have tsplit: "ts = butlast ts @ [lf_lastRoll l]" using ts(1,3) append_butlast_last_id [of ts] by simp
  have "map ?name ts = map ?name (butlast ts) @ [af_name f]" by (subst tsplit) (simp add: ts(7))
  moreover have "map concat groups = map concat (butlast groups) @ [concat (last groups)]" by (subst split) simp
  moreover have "distinct (map ?name ts)" by (rule names_distinct) (use ts in auto)
  ultimately have "dk_files (file_add (af_name f) s d)
      = old @ zip (map ?name (butlast ts) @ [af_name f]) (map concat (butlast groups) @ [concat (last groups) @ s])"
    using ts assms(3) by (intro file_add_last) (auto simp: foreign_def)
  then have "dk_files d' = old @ zip (map ?name ts) (map concat (butlast groups @ [last groups @ [s]]))"
    using assms(4) \<open>map ?name ts = _\<close> by simp
  moreover have "length (butlast groups @ [last groups @ [s]]) = length ts" using groups ts(1,5) by simp
  moreover have "dk_held d' (?name t) = 0" if t: "t \<in> set ts" "t \<noteq> lf_lastRoll l" for t
  proof -
    have "lf_lastRoll l \<in> set ts" using ts(1,3) by (metis last_in_set)
    then have "?name t \<noteq> af_name f" using t ts(4) getLogFileName_inj [of t "lf_lastRoll l" env "lf_basename l"] unfolding ts(7)
      by (metis order_less_imp_le)
    then show ?thesis using t ts(8) held(1) by simp
  qed
  ultimately show "logfile_inv env old (butlast groups @ [last groups @ [s]]) (l\<lparr>lf_file := Some f'\<rparr>) d'"
    unfolding logfile_inv_def using ts(1-5,7) assms(5) held(2) by (intro exI [of _ ts] exI [of _ f']) simp
  have "concat groups = concat (butlast groups) @ last groups" by (subst split) simp
  then show "concat (butlast groups @ [last groups @ [s]]) = concat groups @ [s]" by simp
qed

lemma rollFile_new:
  assumes "\<forall>name. fe_open env name" and "clock_ok env" and "foreign env (lf_basename l) old"
    and times: "sorted_wrt (<) ts" "\<forall>t \<in> set ts. 0 < t \<and> t < 253402300800" "\<forall>t \<in> set ts. t \<le> lf_lastRoll l"
    and "length groups = length ts" "dk_files d = old @ zip (map (getLogFileName env (lf_basename l)) ts) (map concat groups)"
    and "fe_time env (dk_times d) > lf_lastRoll l"
    and held: "stdio_ok env" "\<forall>t \<in> set ts. t \<noteq> lf_lastRoll l \<longrightarrow> dk_held d (getLogFileName env (lf_basename l) t) = 0"
      "\<forall>f. lf_file l = Some f \<longrightarrow> af_name f = getLogFileName env (lf_basename l) (lf_lastRoll l)" "ts = [] \<or> lf_file l \<noteq> None"
  shows "\<exists>l' d'. rollFile env l d = Inr (True, l', d') \<and> logfile_inv env old (groups @ [[]]) l' d' \<and> lf_basename l' = lf_basename l"
proof -
  let ?name = "getLogFileName env (lf_basename l)" and ?now = "fe_time env (dk_times d)"
  have now: "0 < ?now" "?now < 253402300800" using assms(2) by (simp_all add: clock_ok_def)
  have sorted: "sorted_wrt (<) (ts @ [?now])" using times(1,3) assms(9) by (auto simp: sorted_wrt_append)
  have "distinct (map ?name (ts @ [?now]))" using sorted times(2) now by (intro names_distinct) auto
  then have new: "?name ?now \<notin> fst ` set (dk_files d)" "?name ?now \<notin> ?name ` set ts"
    using assms(3,8) by (auto simp: foreign_def dest: set_zip_leftD)
  let ?f = "\<lparr>af_name = ?name ?now, af_error = False, af_writtenBytes = 0\<rparr>"
  let ?l = "l\<lparr>lf_lastRoll := ?now, lf_lastFlush := ?now, lf_startOfPeriod := ?now sdiv kRollPerSeconds * kRollPerSeconds, lf_file := Some ?f\<rparr>"
  let ?d1 = "d\<lparr>dk_times := Suc (dk_times d), dk_files := dk_files d @ [(?name ?now, [])], dk_held := (dk_held d)(?name ?now := 0)\<rparr>"
  let ?d = "destroy_file env (lf_file l) ?d1"
  have roll: "rollFile env l d = Inr (True, ?l, ?d)"
    using assms(1,9) new(1) by (simp add: rollFile_def time_now_def AppendFile_ctor_def fopen_append_def asserting_def Let_def)
  have d: "dk_files ?d = dk_files d @ [(?name ?now, [])]" "dk_held ?d (?name ?now) = 0"
      "\<forall>t \<in> set ts. dk_held ?d (?name t) = 0"
    using held new(2) by (auto simp: destroy_file_def AppendFile_dtor_def flush_AppendFile_def stdio_ok_def split: option.splits)
  have "logfile_inv env old (groups @ [[]]) ?l ?d"
    unfolding logfile_inv_def using assms(7,8) sorted times(2) now d
    by (intro exI [of _ "ts @ [?now]"] exI [of _ ?f]) auto
  then show ?thesis using roll by auto
qed

lemma rollFile_inv:
  assumes "\<forall>name. fe_open env name" and "clock_ok env" and "foreign env (lf_basename l) old" and "logfile_inv env old groups l d"
    and "stdio_ok env"
  shows "\<exists>b l' d' groups'. rollFile env l d = Inr (b, l', d') \<and> logfile_inv env old groups' l' d' \<and> concat groups' = concat groups
    \<and> lf_basename l' = lf_basename l"
proof (cases "fe_time env (dk_times d) > lf_lastRoll l")
  case True
  from assms(4) obtain ts f where ts: "ts \<noteq> []" "sorted_wrt (<) ts" "last ts = lf_lastRoll l" "\<forall>t \<in> set ts. 0 < t \<and> t < 253402300800"
      "length groups = length ts" "dk_files d = old @ zip (map (getLogFileName env (lf_basename l)) ts) (map concat groups)"
      "\<forall>t \<in> set ts. t \<noteq> lf_lastRoll l \<longrightarrow> dk_held d (getLogFileName env (lf_basename l) t) = 0"
      "lf_file l = Some f" "af_name f = getLogFileName env (lf_basename l) (lf_lastRoll l)"
    unfolding logfile_inv_def by auto
  have "\<forall>t \<in> set ts. t \<le> last ts" using ts(2) by (induction ts) (auto simp: order_less_imp_le)
  then have "\<forall>t \<in> set ts. t \<le> lf_lastRoll l" by (simp add: ts(3))
  from rollFile_new [OF assms(1-3) ts(2,4) this ts(5,6) True assms(5) ts(7)] ts(8,9)
  obtain l' d' where "rollFile env l d = Inr (True, l', d')" "logfile_inv env old (groups @ [[]]) l' d'" "lf_basename l' = lf_basename l" by auto
  then show ?thesis by (intro exI [of _ True] exI [of _ l'] exI [of _ d'] exI [of _ "groups @ [[]]"]) simp
next
  case False
  then have "rollFile env l d = Inr (False, l, d\<lparr>dk_times := Suc (dk_times d)\<rparr>)" by (simp add: rollFile_def time_now_def)
  moreover have "logfile_inv env old groups l (d\<lparr>dk_times := Suc (dk_times d)\<rparr>)"
    using assms(4) by (simp add: logfile_inv_def)
  ultimately show ?thesis by blast
qed

definition disk_works :: "file_env \<Rightarrow> bool" where
  "disk_works env \<longleftrightarrow> (\<forall>name. fe_open env name) \<and> fwrite_ok env \<and> fwrite_complete env \<and> clock_ok env \<and> stdio_ok env"

lemma append_LogFile_inv:
  assumes env: "disk_works env" and "foreign env (lf_basename l) old" and "logfile_inv env old groups l d"
  shows "\<exists>l' d' groups'. append_LogFile env s l d = Some (Inr (l', d')) \<and> logfile_inv env old groups' l' d'
    \<and> concat groups' = concat groups @ [s] \<and> lf_basename l' = lf_basename l"
proof -
  obtain f where f: "lf_file l = Some f" using assms(3) by (auto simp: logfile_inv_def)
  obtain f' d1 where w: "append_AppendFile env s f d = Some (f', d1)" "dk_files d1 = dk_files (file_add (af_name f) s d)"
      "af_name f' = af_name f" "\<forall>nm. nm \<noteq> af_name f \<longrightarrow> dk_held d1 nm = dk_held d nm" "dk_held d1 (af_name f) \<le> kFileBuffer"
  proof -
    have "dk_held d (af_name f) \<le> kFileBuffer" using assms(3) f by (auto simp: logfile_inv_def)
    then show thesis using append_AppendFile_spec [of env s f d] env that by (auto simp: disk_works_def)
  qed
  define gs where "gs = butlast groups @ [last groups @ [s]]"
  have inv: "logfile_inv env old gs (l\<lparr>lf_file := Some f'\<rparr>) d1" and gs: "concat gs = concat groups @ [s]"
    using logfile_inv_append [OF assms(3) f assms(2) w(2-5)] by (simp_all add: gs_def)
  have quiet: "logfile_inv env old gs l' d'"
    if "lf_file l' = Some f'" "lf_lastRoll l' = lf_lastRoll l" "lf_basename l' = lf_basename l" "dk_files d' = dk_files d1"
      "\<forall>nm. dk_held d' nm \<le> dk_held d1 nm" for l' d'
    using inv by (rule logfile_inv_cong) (use that in auto)
  have roll: "\<exists>b l'' d'' gs'. rollFile env l' d' = Inr (b, l'', d'') \<and> logfile_inv env old gs' l'' d'' \<and> concat gs' = concat gs
      \<and> lf_basename l'' = lf_basename l"
    if "lf_file l' = Some f'" "lf_lastRoll l' = lf_lastRoll l" "lf_basename l' = lf_basename l" "dk_files d' = dk_files d1"
      "\<forall>nm. dk_held d' nm \<le> dk_held d1 nm" for l' d'
    using rollFile_inv [OF _ _ _ quiet [OF that]] env assms(2) that(3) by (auto simp: disk_works_def)
  note unf = append_LogFile_def append_unlocked_def f w(1) Let_def time_now_def
  let ?l1 = "l\<lparr>lf_file := Some f'\<rparr>"
  let ?l2 = "?l1\<lparr>lf_count := 0\<rparr>" and ?d2 = "d1\<lparr>dk_times := Suc (dk_times d1)\<rparr>"
  consider (size) "af_writtenBytes f' > lf_rollSize l"
    | (count) "\<not> af_writtenBytes f' > lf_rollSize l" "\<not> lf_count l + 1 \<ge> lf_checkEveryN l"
    | (day) "\<not> af_writtenBytes f' > lf_rollSize l" "lf_count l + 1 \<ge> lf_checkEveryN l"
        "fe_time env (dk_times d1) sdiv kRollPerSeconds * kRollPerSeconds \<noteq> lf_startOfPeriod l"
    | (same) "\<not> af_writtenBytes f' > lf_rollSize l" "lf_count l + 1 \<ge> lf_checkEveryN l"
        "fe_time env (dk_times d1) sdiv kRollPerSeconds * kRollPerSeconds = lf_startOfPeriod l"
    by blast
  then show ?thesis
  proof cases
    case size
    then show ?thesis using roll [of ?l1 d1] gs by (auto simp: unf)
  next
    case count
    then show ?thesis using quiet [of "?l1\<lparr>lf_count := lf_count l + 1\<rparr>" d1] gs by (auto simp: unf)
  next
    case day
    then show ?thesis using roll [of ?l2 ?d2] gs by (auto simp: unf)
  next
    case same
    let ?l3 = "?l2\<lparr>lf_lastFlush := fe_time env (dk_times d1)\<rparr>" and ?d3 = "flush_AppendFile env f' ?d2"
    have "logfile_inv env old gs ?l2 ?d2" by (rule quiet) simp_all
    moreover have "logfile_inv env old gs ?l3 ?d3"
      by (rule quiet) (use env in \<open>simp_all add: flush_AppendFile_def disk_works_def stdio_ok_def\<close>)
    ultimately show ?thesis using same gs
      by (cases "fe_time env (dk_times d1) - lf_lastFlush l > lf_flushInterval l") (auto simp: unf)
  qed
qed

lemma append_all_inv:
  assumes "disk_works env" and "foreign env (lf_basename l) old" and "logfile_inv env old groups l d"
  shows "\<exists>l' d' groups'. append_all env ss l d = Some (Inr (l', d')) \<and> logfile_inv env old groups' l' d'
    \<and> concat groups' = concat groups @ ss \<and> lf_basename l' = lf_basename l"
  using assms(2,3)
proof (induction ss arbitrary: l d groups)
  case Nil
  then show ?case by auto
next
  case (Cons s ss)
  obtain l1 d1 gs where step: "append_LogFile env s l d = Some (Inr (l1, d1))" "logfile_inv env old gs l1 d1"
      "concat gs = concat groups @ [s]" "lf_basename l1 = lf_basename l"
    using append_LogFile_inv [OF assms(1) Cons.prems] by blast
  from Cons.IH [OF _ step(2)] Cons.prems(1) step show ?case by simp
qed

lemma LogFile_ctor_inv:
  assumes "disk_works env" and "foreign env base (dk_files d)" and "CHR ''/'' \<notin> set base"
  shows "\<exists>l d'. LogFile_ctor env base rollSize ts fi cn d = Inr (l, d') \<and> logfile_inv env (dk_files d) [[]] l d' \<and> lf_basename l = base"
proof -
  let ?l = "\<lparr>lf_basename = base, lf_rollSize = rollSize, lf_flushInterval = fi, lf_checkEveryN = cn,
           lf_count = 0, lf_mutex = ts, lf_startOfPeriod = 0, lf_lastRoll = 0, lf_lastFlush = 0, lf_file = None\<rparr>"
  have "0 < fe_time env (dk_times d)" using assms(1) by (simp add: disk_works_def clock_ok_def)
  then obtain l' d' where "rollFile env ?l d = Inr (True, l', d')" "logfile_inv env (dk_files d) ([] @ [[]]) l' d'" "lf_basename l' = base"
    using rollFile_new [of env ?l "dk_files d" "[]" "[]" d] assms by (auto simp: disk_works_def)
  then show ?thesis using assms(3) by (auto simp: LogFile_ctor_def)
qed

section \<open>What has reached the disk\<close>

lemma logfile_files:
  assumes "logfile_inv env old groups l d"
  shows "\<exists>names f. lf_file l = Some f \<and> names \<noteq> [] \<and> length names = length groups \<and> distinct names
    \<and> dk_files d = old @ zip names (map concat groups) \<and> last names = af_name f
    \<and> (\<forall>n \<in> set (butlast names). dk_held d n = 0) \<and> dk_held d (af_name f) \<le> kFileBuffer"
proof -
  let ?name = "getLogFileName env (lf_basename l)"
  obtain ts f where ts: "lf_file l = Some f" "ts \<noteq> []" "sorted_wrt (<) ts" "last ts = lf_lastRoll l" "\<forall>t \<in> set ts. 0 < t \<and> t < 253402300800"
      "length groups = length ts" "dk_files d = old @ zip (map ?name ts) (map concat groups)" "af_name f = ?name (lf_lastRoll l)"
      "\<forall>t \<in> set ts. t \<noteq> lf_lastRoll l \<longrightarrow> dk_held d (?name t) = 0" "dk_held d (af_name f) \<le> kFileBuffer"
    using assms unfolding logfile_inv_def by auto
  have dist: "distinct (map ?name ts)" by (rule names_distinct) (use ts in auto)
  have "t \<in> set ts \<and> t \<noteq> lf_lastRoll l" if "t \<in> set (butlast ts)" for t
  proof -
    have "distinct (butlast ts @ [last ts])" using dist ts(2) by (simp add: distinct_map)
    then show ?thesis using that ts(4) by (auto dest: in_set_butlastD)
  qed
  then have "\<forall>n \<in> set (butlast (map ?name ts)). dk_held d n = 0" using ts(9) by (auto simp flip: map_butlast)
  then show ?thesis using ts dist by (intro exI [of _ "map ?name ts"] exI [of _ f]) (simp add: last_map)
qed

lemma held_back:
  assumes "names \<noteq> []" and "length names = length cs" and "\<forall>n \<in> set (butlast names). h n = 0"
  shows "map (\<lambda>(n, c). (n, take (length c - h n) c)) (zip names cs)
    = zip names (butlast cs @ [take (length (last cs) - h (last names)) (last cs)])"
  using assms
proof (induction names arbitrary: cs)
  case (Cons n names)
  then obtain c cs' where cs: "cs = c # cs'" by (cases cs) auto
  show ?case
  proof (cases "names = []")
    case True
    then show ?thesis using Cons.prems cs by simp
  next
    case False
    moreover from False have "cs' \<noteq> []" using Cons.prems(2) cs by auto
    ultimately show ?thesis using Cons.IH [of cs'] Cons.prems(2,3) cs by simp
  qed
qed simp

lemma logfile_on_disk:
  assumes "stdio_ok env" and "logfile_inv env old groups l d"
  shows "\<exists>names n l' d'. length names = length groups \<and> distinct names \<and> dk_files d = old @ zip names (map concat groups)
    \<and> n \<le> kFileBuffer
    \<and> drop (length old) (on_disk d) = zip names (butlast (map concat groups) @ [take (length (concat (last groups)) - n) (concat (last groups))])
    \<and> flush_LogFile env l d = Inr (l', d') \<and> drop (length old) (on_disk d') = zip names (map concat groups)
    \<and> drop (length old) (on_disk (LogFile_dtor env l d)) = zip names (map concat groups)"
proof -
  obtain names f where w: "lf_file l = Some f" "names \<noteq> []" "length names = length groups" "distinct names"
      "dk_files d = old @ zip names (map concat groups)" "last names = af_name f" "\<forall>n \<in> set (butlast names). dk_held d n = 0"
      "dk_held d (af_name f) \<le> kFileBuffer"
    using logfile_files [OF assms(2)] by (elim exE conjE) (rule that)
  have groups: "groups \<noteq> []" using w(2,3) by auto
  have disk: "drop (length old) (on_disk e)
      = zip names (butlast (map concat groups) @ [take (length (concat (last groups)) - dk_held e (af_name f)) (concat (last groups))])"
    if "dk_files e = dk_files d" "\<forall>n \<in> set (butlast names). dk_held e n = 0" for e
    using held_back [of names "map concat groups" "dk_held e"] that w(2,3,5,6) groups by (simp add: on_disk_def last_map)
  let ?e = "flush_AppendFile env f d"
  have e: "dk_files ?e = dk_files d" "dk_held ?e (af_name f) = 0" "\<forall>n \<in> set (butlast names). dk_held ?e n = 0"
    using assms(1) w(7) by (simp_all add: flush_AppendFile_def stdio_ok_def)
  have "butlast (map concat groups) @ [concat (last groups)] = map concat groups"
    using groups append_butlast_last_id [of "map concat groups"] by (simp add: last_map)
  then have "drop (length old) (on_disk ?e) = zip names (map concat groups)" using disk [OF e(1,3)] e(2) by simp
  then show ?thesis
    using disk [OF refl w(7)] w(1,3-5,8)
    by (intro exI [of _ names] exI [of _ "dk_held d (af_name f)"] exI [of _ l] exI [of _ ?e])
      (simp add: flush_LogFile_def flush_unlocked_def LogFile_dtor_def destroy_file_def AppendFile_dtor_def)
qed

text \<open>Flushing and closing keep the invariant and leave nothing in the buffer.\<close>

definition flushed :: "(string \<times> string) list \<Rightarrow> disk \<Rightarrow> bool" where
  "flushed old d \<longleftrightarrow> drop (length old) (on_disk d) = drop (length old) (dk_files d)"

lemma logfile_flushed:
  assumes "stdio_ok env" and "logfile_inv env old groups l d"
  shows "\<exists>d'. flush_LogFile env l d = Inr (l, d') \<and> logfile_inv env old groups l d' \<and> flushed old d'"
    and "logfile_inv env old groups l (LogFile_dtor env l d) \<and> flushed old (LogFile_dtor env l d)"
proof -
  obtain f where f: "lf_file l = Some f" using assms(2) by (auto simp: logfile_inv_def)
  let ?e = "flush_AppendFile env f d"
  have e: "dk_files ?e = dk_files d" "\<forall>nm. dk_held ?e nm \<le> dk_held d nm"
    using assms(1) by (simp_all add: flush_AppendFile_def stdio_ok_def)
  have inv: "logfile_inv env old groups l ?e" by (rule logfile_inv_cong [OF assms(2) f f]) (use e in simp_all)
  have fl: "flush_LogFile env l d = Inr (l, ?e)" and dt: "LogFile_dtor env l d = ?e"
    using f by (simp_all add: flush_LogFile_def flush_unlocked_def LogFile_dtor_def destroy_file_def AppendFile_dtor_def)
  obtain names l' d' where "dk_files d = old @ zip names (map concat groups)" "flush_LogFile env l d = Inr (l', d')"
      "drop (length old) (on_disk d') = zip names (map concat groups)"
    using logfile_on_disk [OF assms] by (elim exE conjE) (rule that)
  then have "flushed old ?e" using fl e(1) by (simp add: flushed_def)
  then show "\<exists>d'. flush_LogFile env l d = Inr (l, d') \<and> logfile_inv env old groups l d' \<and> flushed old d'"
    and "logfile_inv env old groups l (LogFile_dtor env l d) \<and> flushed old (LogFile_dtor env l d)"
    using fl dt inv by simp_all
qed

lemma logfile_new_flushed:
  assumes "logfile_inv env old [[]] l d"
  shows "flushed old d"
proof -
  obtain names f where "length names = 1" "dk_files d = old @ zip names [[]]" using logfile_files [OF assms] by auto
  then show ?thesis by (cases names) (simp_all add: flushed_def on_disk_def)
qed

section \<open>Properties\<close>

text \<open>
  C27. \<open>AppendFile::append\<close> returns for every file system that keeps the promise of \<open>fwrite\<close>. It
  appends the whole line and counts it, or, after a write error, a proper prefix of it; then the
  error indicator is set and the bytes of the prefix are not counted. No other file changes.
\<close>

theorem append_file_total:
  assumes "fwrite_ok env"
  shows "\<exists>f' d' n. append_AppendFile env s f d = Some (f', d') \<and> n \<le> length s
    \<and> dk_files d' = dk_files (file_add (af_name f) (take n s) d) \<and> af_name f' = af_name f
    \<and> (if n = length s then af_writtenBytes f' = af_writtenBytes f + length s
       else af_error f' \<and> af_writtenBytes f' = af_writtenBytes f)"
  using append_AppendFile_spec [OF assms, of s f d] by blast

theorem append_file_total_witness:
  "\<exists>f' d' n. append_AppendFile \<lparr>fe_open = (\<lambda>_. True), fe_write = (\<lambda>k r. (r div 2, True)), fe_keep = (\<lambda>_ h. h),
        fe_flush = (\<lambda>_ _. 0), fe_time = (\<lambda>_. 1), fe_host = None, fe_pid = 1\<rparr>
      ''line'' \<lparr>af_name = ''a'', af_error = False, af_writtenBytes = 7\<rparr>
      \<lparr>dk_files = [(''a'', ''xyz''), (''b'', [])], dk_held = (\<lambda>_. 0), dk_writes = 0, dk_flushes = 0, dk_times = 0, dk_stderr = []\<rparr> = Some (f', d') \<and> n \<le> 4
    \<and> dk_files d' = [(''a'', ''xyz'' @ take n ''line''), (''b'', [])]
    \<and> (if n = 4 then af_writtenBytes f' = 11 else af_error f' \<and> af_writtenBytes f' = 7)"
proof -
  let ?env = "\<lparr>fe_open = (\<lambda>_. True), fe_write = (\<lambda>k r. (r div 2, True)), fe_keep = (\<lambda>_ h. h),
        fe_flush = (\<lambda>_ _. 0), fe_time = (\<lambda>_. 1), fe_host = None, fe_pid = 1\<rparr> :: file_env"
  have "fwrite_ok ?env" by (simp add: fwrite_ok_def)
  moreover have "length ''line'' = 4" by simp
  ultimately show ?thesis
    using append_file_total [of ?env "''line''" "\<lparr>af_name = ''a'', af_error = False, af_writtenBytes = 7\<rparr>"
      "\<lparr>dk_files = [(''a'', ''xyz''), (''b'', [])], dk_held = (\<lambda>_. 0), dk_writes = 0, dk_flushes = 0, dk_times = 0, dk_stderr = []\<rparr>"]
    by (fastforce simp: file_add_def simp del: list.size)
qed

text \<open>
  C23. A log file loses and splits no line. On a disk that works, a new log file and any sequence of
  appended lines, however they make it roll over by size or by day and whatever the clock shows,
  leaves the older files alone and creates files with pairwise different names; their contents
  are consecutive groups of whole lines which together are exactly the lines appended, in order.
  At every point all of this has reached the disk, but for at most 64 kilobytes at the end of the
  last file; \<open>flush\<close> brings the rest there, and so does the destructor.
\<close>

theorem log_file_keeps_lines:
  assumes "disk_works env" and "foreign env base (dk_files d)" and "CHR ''/'' \<notin> set base"
  shows "\<exists>l d1 l' d' l'' d'' names groups n. LogFile_ctor env base rollSize threadSafe flushInterval checkEveryN d = Inr (l, d1)
    \<and> append_all env ss l d1 = Some (Inr (l', d'))
    \<and> dk_files d' = dk_files d @ zip names (map concat groups) \<and> length names = length groups \<and> distinct names
    \<and> concat groups = ss \<and> n \<le> kFileBuffer
    \<and> drop (length (dk_files d)) (on_disk d')
        = zip names (butlast (map concat groups) @ [take (length (concat (last groups)) - n) (concat (last groups))])
    \<and> flush_LogFile env l' d' = Inr (l'', d'') \<and> drop (length (dk_files d)) (on_disk d'') = zip names (map concat groups)
    \<and> drop (length (dk_files d)) (on_disk (LogFile_dtor env l' d')) = zip names (map concat groups)"
proof -
  obtain l d1 where new: "LogFile_ctor env base rollSize threadSafe flushInterval checkEveryN d = Inr (l, d1)"
      "logfile_inv env (dk_files d) [[]] l d1" "lf_basename l = base"
    using LogFile_ctor_inv [OF assms] by blast
  obtain l' d' groups where run: "append_all env ss l d1 = Some (Inr (l', d'))" "logfile_inv env (dk_files d) groups l' d'"
      "concat groups = ss"
    using append_all_inv [OF assms(1) _ new(2), of ss] assms(2) new(3) by auto
  have "stdio_ok env" using assms(1) by (simp add: disk_works_def)
  from logfile_on_disk [OF this run(2)] run(1,3) new(1) show ?thesis by blast
qed

theorem log_file_keeps_lines_witness:
  "\<exists>l d1 l' d' l'' d'' names groups n.
      LogFile_ctor \<lparr>fe_open = (\<lambda>_. True), fe_write = (\<lambda>k r. (r, False)), fe_keep = (\<lambda>_ h. min h kFileBuffer),
          fe_flush = (\<lambda>_ _. 0), fe_time = (\<lambda>k. if k < 9 then 1600000000 + int k else 1),
          fe_host = Some ''host'', fe_pid = 42\<rparr> ''server'' 3 True 3 1024
        \<lparr>dk_files = [], dk_held = (\<lambda>_. 0), dk_writes = 0, dk_flushes = 0, dk_times = 0, dk_stderr = []\<rparr> = Inr (l, d1)
    \<and> append_all \<lparr>fe_open = (\<lambda>_. True), fe_write = (\<lambda>k r. (r, False)), fe_keep = (\<lambda>_ h. min h kFileBuffer),
          fe_flush = (\<lambda>_ _. 0), fe_time = (\<lambda>k. if k < 9 then 1600000000 + int k else 1),
          fe_host = Some ''host'', fe_pid = 42\<rparr> [''a'', ''long line'', ''b''] l d1 = Some (Inr (l', d'))
    \<and> dk_files d' = zip names (map concat groups) \<and> length names = length groups \<and> distinct names
    \<and> concat groups = [''a'', ''long line'', ''b''] \<and> n \<le> kFileBuffer
    \<and> on_disk d' = zip names (butlast (map concat groups) @ [take (length (concat (last groups)) - n) (concat (last groups))])
    \<and> flush_LogFile \<lparr>fe_open = (\<lambda>_. True), fe_write = (\<lambda>k r. (r, False)), fe_keep = (\<lambda>_ h. min h kFileBuffer),
          fe_flush = (\<lambda>_ _. 0), fe_time = (\<lambda>k. if k < 9 then 1600000000 + int k else 1), fe_host = Some ''host'', fe_pid = 42\<rparr> l' d' = Inr (l'', d'')
    \<and> on_disk d'' = zip names (map concat groups)"
proof -
  let ?env = "\<lparr>fe_open = (\<lambda>_. True), fe_write = (\<lambda>k r. (r, False)), fe_keep = (\<lambda>_ h. min h kFileBuffer),
          fe_flush = (\<lambda>_ _. 0), fe_time = (\<lambda>k. if k < 9 then 1600000000 + int k else 1),
          fe_host = Some ''host'', fe_pid = 42\<rparr> :: file_env"
  let ?d = "\<lparr>dk_files = [], dk_held = (\<lambda>_. 0), dk_writes = 0, dk_flushes = 0, dk_times = 0, dk_stderr = []\<rparr>"
  have "disk_works ?env" by (simp add: disk_works_def fwrite_ok_def fwrite_complete_def clock_ok_def stdio_ok_def)
  moreover have "foreign ?env ''server'' (dk_files ?d)" by (simp add: foreign_def)
  moreover have "CHR ''/'' \<notin> set ''server''" by simp
  ultimately show ?thesis
    using log_file_keeps_lines [of ?env "''server''" ?d 3 True 3 1024 "[''a'', ''long line'', ''b'']"]
    unfolding disk.select_convs list.size drop0 append_Nil by blast
qed

end
