(* ===== verification/AsyncLogs.thy ===== *)
theory AsyncLogs
  imports LogFiles LogStreams
begin

text \<open>
  \<open>src/base/AsyncLogging.h\<close> and \<open>src/base/AsyncLogging.cpp\<close>: threads that log append to a buffer
  under a mutex, a logging thread takes the full buffers and writes them to a log file. A locked
  section is one step; the steps of the logging thread are the test of the loop with its
  assertions, the locked section (entered when the wait ends, by a notification or after the
  interval, so at any moment) and the rest of the loop body, which touches nothing shared. A
  \<open>unique_ptr\<close> is an option.
\<close>

section \<open>Shared state\<close>

record async_logging =
  al_running :: bool
  al_currentBuffer :: "fixed_buffer option"
  al_nextBuffer :: "fixed_buffer option"
  al_buffers :: "fixed_buffer option list"

text \<open>\<open>new Buffer\<close> on memory with arbitrary contents.\<close>

definition AsyncLogging_ctor :: "string \<Rightarrow> string \<Rightarrow> async_logging" where
  "AsyncLogging_ctor mem mem' =
     \<lparr>al_running = False, al_currentBuffer = Some (fb_bzero (FixedBuffer_ctor mem)),
      al_nextBuffer = Some (fb_bzero (FixedBuffer_ctor mem')), al_buffers = []\<rparr>"

definition deref_buffer :: "fixed_buffer option \<Rightarrow> fixed_buffer outcome" where
  "deref_buffer p = (case p of Some b \<Rightarrow> Inr b | None \<Rightarrow> Inl UndefinedBehaviour)"

definition append_Async :: "string \<Rightarrow> string \<Rightarrow> async_logging \<Rightarrow> async_logging outcome" where
  "append_Async mem logline a =
     bind_out (deref_buffer (al_currentBuffer a)) (\<lambda>cur.
       if fb_avail cur > length logline
       then bind_out (fb_append logline cur) (\<lambda>cur. Inr (a\<lparr>al_currentBuffer := Some cur\<rparr>))
       else let a = a\<lparr>al_buffers := al_buffers a @ [al_currentBuffer a], al_currentBuffer := None\<rparr>;
                a = (if al_nextBuffer a \<noteq> None
                     then a\<lparr>al_currentBuffer := al_nextBuffer a, al_nextBuffer := None\<rparr>
                     else a\<lparr>al_currentBuffer := Some (FixedBuffer_ctor mem)\<rparr>)
            in bind_out (deref_buffer (al_currentBuffer a)) (\<lambda>cur.
               bind_out (fb_append logline cur) (\<lambda>cur. Inr (a\<lparr>al_currentBuffer := Some cur\<rparr>))))"

definition start_Async :: "async_logging \<Rightarrow> async_logging" where
  "start_Async a = a\<lparr>al_running := True\<rparr>"

definition stop_Async :: "async_logging \<Rightarrow> async_logging" where
  "stop_Async a = a\<lparr>al_running := False\<rparr>"

text \<open>The destructor stops a running logger; stopping twice would join the thread twice.\<close>

definition AsyncLogging_dtor :: "async_logging \<Rightarrow> async_logging" where
  "AsyncLogging_dtor a = (if al_running a then stop_Async a else a)"

section \<open>The logging thread\<close>

record log_thread =
  lt_newBuffer1 :: "fixed_buffer option"
  lt_newBuffer2 :: "fixed_buffer option"
  lt_WriteLog :: "fixed_buffer option list"
  lt_output :: log_file
  lt_disk :: disk

definition thread_init :: "file_env \<Rightarrow> string \<Rightarrow> nat \<Rightarrow> string \<Rightarrow> string \<Rightarrow> disk \<Rightarrow> log_thread outcome" where
  "thread_init env base rollSize mem mem' d =
     bind_out (LogFile_ctor env base rollSize False 3 1024 d) (\<lambda>(l, d).
       Inr \<lparr>lt_newBuffer1 = Some (fb_bzero (FixedBuffer_ctor mem)), lt_newBuffer2 = Some (fb_bzero (FixedBuffer_ctor mem')),
            lt_WriteLog = [], lt_output = l, lt_disk = d\<rparr>)"

definition empty_buffer :: "fixed_buffer option \<Rightarrow> bool" where
  "empty_buffer p = (case p of Some b \<Rightarrow> fb_length b = 0 | None \<Rightarrow> False)"

definition thread_asserts :: "log_thread \<Rightarrow> log_thread outcome" where
  "thread_asserts t =
     asserting (empty_buffer (lt_newBuffer1 t)) (asserting (empty_buffer (lt_newBuffer2 t))
       (asserting (lt_WriteLog t = []) (Inr t)))"

definition thread_take :: "async_logging \<Rightarrow> log_thread \<Rightarrow> async_logging \<times> log_thread" where
  "thread_take a t =
     (let write = al_buffers a @ [al_currentBuffer a];
          a = a\<lparr>al_currentBuffer := lt_newBuffer1 t, al_buffers := lt_WriteLog t\<rparr>;
          t = t\<lparr>lt_newBuffer1 := None, lt_WriteLog := write\<rparr>
      in if al_nextBuffer a = None
         then (a\<lparr>al_nextBuffer := lt_newBuffer2 t\<rparr>, t\<lparr>lt_newBuffer2 := None\<rparr>)
         else (a, t))"

definition drop_message :: "timestamp \<Rightarrow> nat \<Rightarrow> string" where
  "drop_message now n =
     c_str (snprintf_into (replicate 256 NUL)
       (''Dropped log messages at '' @ toFormattedString now @ '', '' @ show_nat (n - 2) @ '' larger buffers'' @ [LF]))"

definition drop_backlog ::
  "file_env \<Rightarrow> timestamp \<Rightarrow> log_thread \<Rightarrow> log_thread outcome option" where
  "drop_backlog env now t =
     (if length (lt_WriteLog t) > 25
      then let buf = drop_message now (length (lt_WriteLog t));
               d = (lt_disk t)\<lparr>dk_stderr := dk_stderr (lt_disk t) @ buf\<rparr>
           in map_option (\<lambda>r. bind_out r (\<lambda>(l, d).
                Inr (t\<lparr>lt_output := l, lt_disk := d, lt_WriteLog := take 2 (lt_WriteLog t)\<rparr>)))
                (append_LogFile env buf (lt_output t) d)
      else Some (Inr t))"

fun write_buffers ::
  "file_env \<Rightarrow> fixed_buffer option list \<Rightarrow> log_file \<Rightarrow> disk \<Rightarrow> (log_file \<times> disk) outcome option" where
  "write_buffers env [] l d = Some (Inr (l, d))"
| "write_buffers env (None # ps) l d = Some (Inl UndefinedBehaviour)"
| "write_buffers env (Some b # ps) l d =
     (case append_LogFile env (take (fb_length b) (fb_data b)) l d of
        None \<Rightarrow> None
      | Some (Inl e) \<Rightarrow> Some (Inl e)
      | Some (Inr (l, d)) \<Rightarrow> write_buffers env ps l d)"

text \<open>Taking the last buffer of \<open>WriteLog\<close> for a missing spare one.\<close>

definition recycle :: "fixed_buffer option \<Rightarrow> fixed_buffer option list \<Rightarrow> (fixed_buffer option \<times> fixed_buffer option list) outcome" where
  "recycle p ws =
     (if p = None
      then asserting (ws \<noteq> []) (bind_out (deref_buffer (last ws)) (\<lambda>b. Inr (Some (fb_reset b), butlast ws)))
      else Inr (p, ws))"

definition thread_recycle :: "log_thread \<Rightarrow> log_thread outcome" where
  "thread_recycle t =
     (let ws = (if length (lt_WriteLog t) > 2 then take 2 (lt_WriteLog t) else lt_WriteLog t)
      in bind_out (recycle (lt_newBuffer1 t) ws) (\<lambda>(b1, ws).
         bind_out (recycle (lt_newBuffer2 t) ws) (\<lambda>(b2, ws).
         Inr (t\<lparr>lt_newBuffer1 := b1, lt_newBuffer2 := b2, lt_WriteLog := []\<rparr>))))"

definition thread_write :: "file_env \<Rightarrow> timestamp \<Rightarrow> log_thread \<Rightarrow> log_thread outcome option" where
  "thread_write env now t =
     (case drop_backlog env now t of
        None \<Rightarrow> None
      | Some (Inl e) \<Rightarrow> Some (Inl e)
      | Some (Inr t) \<Rightarrow>
          (case write_buffers env (lt_WriteLog t) (lt_output t) (lt_disk t) of
             None \<Rightarrow> None
           | Some (Inl e) \<Rightarrow> Some (Inl e)
           | Some (Inr (l, d)) \<Rightarrow>
               Some (bind_out (thread_recycle (t\<lparr>lt_output := l, lt_disk := d\<rparr>)) (\<lambda>t.
                     bind_out (flush_LogFile env (lt_output t) (lt_disk t)) (\<lambda>(l, d).
                     Inr (t\<lparr>lt_output := l, lt_disk := d\<rparr>))))))"

text \<open>The end of the thread: a last flush, and the destructor of \<open>output\<close>.\<close>

definition thread_finish :: "file_env \<Rightarrow> log_thread \<Rightarrow> log_thread outcome" where
  "thread_finish env t =
     bind_out (flush_LogFile env (lt_output t) (lt_disk t)) (\<lambda>(l, d).
     Inr (t\<lparr>lt_output := l, lt_disk := LogFile_dtor env l d\<rparr>))"

section \<open>All threads together\<close>

datatype lt_pc = AtTest | AtLock | AtWrite | Finished

text \<open>
  The last two fields record the lines appended so far and the batches written so far, for the
  properties only.
\<close>

record async_sys =
  as_log :: async_logging
  as_thread :: log_thread
  as_pc :: lt_pc
  as_lines :: "string list"
  as_batches :: "(timestamp \<times> string list) list"

definition buffer_text :: "fixed_buffer option \<Rightarrow> string" where
  "buffer_text p = (case p of Some b \<Rightarrow> fb_toString b | None \<Rightarrow> [])"

inductive async_step :: "file_env \<Rightarrow> async_sys \<Rightarrow> async_sys \<Rightarrow> bool" for env where
  append_line: "length mem = kLargeBuffer \<Longrightarrow> append_Async mem logline (as_log s) = Inr a \<Longrightarrow>
     async_step env s (s\<lparr>as_log := a, as_lines := as_lines s @ [logline]\<rparr>)"
| stopping: "async_step env s (s\<lparr>as_log := stop_Async (as_log s)\<rparr>)"
| test_running: "as_pc s = AtTest \<Longrightarrow> al_running (as_log s) \<Longrightarrow> thread_asserts (as_thread s) = Inr t \<Longrightarrow>
     async_step env s (s\<lparr>as_thread := t, as_pc := AtLock\<rparr>)"
| test_stopped: "as_pc s = AtTest \<Longrightarrow> \<not> al_running (as_log s) \<Longrightarrow> thread_finish env (as_thread s) = Inr t \<Longrightarrow>
     async_step env s (s\<lparr>as_thread := t, as_pc := Finished\<rparr>)"
| take_buffers: "as_pc s = AtLock \<Longrightarrow> thread_take (as_log s) (as_thread s) = (a, t) \<Longrightarrow>
     async_step env s (s\<lparr>as_log := a, as_thread := t, as_pc := AtWrite\<rparr>)"
| write_batch: "as_pc s = AtWrite \<Longrightarrow> thread_write env now (as_thread s) = Some (Inr t) \<Longrightarrow>
     async_step env s (s\<lparr>as_thread := t, as_pc := AtTest,
       as_batches := as_batches s @ [(now, map buffer_text (lt_WriteLog (as_thread s)))]\<rparr>)"

inductive async_reachable :: "file_env \<Rightarrow> async_sys \<Rightarrow> async_sys \<Rightarrow> bool" for env s0 where
  start: "async_reachable env s0 s0"
| step: "async_reachable env s0 s \<Longrightarrow> async_step env s s' \<Longrightarrow> async_reachable env s0 s'"

section \<open>Specification\<close>

definition short :: "string \<Rightarrow> bool" where
  "short s \<longleftrightarrow> length s < kLargeBuffer"

text \<open>What is written for a batch: a backlog of more than 25 buffers is cut to two.\<close>

definition batch_out :: "timestamp \<times> string list \<Rightarrow> string list" where
  "batch_out b = (if length (snd b) > 25 then drop_message (fst b) (length (snd b)) # take 2 (snd b) else snd b)"

definition good_buffer :: "fixed_buffer option \<Rightarrow> bool" where
  "good_buffer p \<longleftrightarrow> (\<exists>b. p = Some b \<and> fb_inv kLargeBuffer b)"

definition spare_buffer :: "fixed_buffer option \<Rightarrow> bool" where
  "spare_buffer p \<longleftrightarrow> good_buffer p \<and> empty_buffer p"

definition shared_inv :: "async_logging \<Rightarrow> bool" where
  "shared_inv a \<longleftrightarrow> good_buffer (al_currentBuffer a) \<and> (\<forall>p \<in> set (al_buffers a). good_buffer p)
     \<and> (al_nextBuffer a \<noteq> None \<longrightarrow> spare_buffer (al_nextBuffer a)) \<and> (al_nextBuffer a = None \<longrightarrow> al_buffers a \<noteq> [])"

definition thread_ready :: "log_thread \<Rightarrow> bool" where
  "thread_ready t \<longleftrightarrow> spare_buffer (lt_newBuffer1 t) \<and> spare_buffer (lt_newBuffer2 t) \<and> lt_WriteLog t = []"

definition thread_loaded :: "log_thread \<Rightarrow> bool" where
  "thread_loaded t \<longleftrightarrow> lt_newBuffer1 t = None \<and> lt_WriteLog t \<noteq> [] \<and> (\<forall>p \<in> set (lt_WriteLog t). good_buffer p)
     \<and> (lt_newBuffer2 t = None \<longrightarrow> length (lt_WriteLog t) \<ge> 2) \<and> (lt_newBuffer2 t \<noteq> None \<longrightarrow> spare_buffer (lt_newBuffer2 t))"

definition waiting_text :: "async_sys \<Rightarrow> string" where
  "waiting_text s = concat (map buffer_text (lt_WriteLog (as_thread s))) @ concat (map buffer_text (al_buffers (as_log s)))
     @ buffer_text (al_currentBuffer (as_log s))"

definition output_inv :: "file_env \<Rightarrow> (string \<times> string) list \<Rightarrow> string list \<Rightarrow> log_thread \<Rightarrow> bool" where
  "output_inv env old out t \<longleftrightarrow> (\<exists>groups. logfile_inv env old groups (lt_output t) (lt_disk t) \<and> concat groups = out
     \<and> foreign env (lf_basename (lt_output t)) old)"

text \<open>Between two iterations nothing is left in the buffer of the stream.\<close>

definition async_inv :: "file_env \<Rightarrow> (string \<times> string) list \<Rightarrow> async_sys \<Rightarrow> bool" where
  "async_inv env old s \<longleftrightarrow> shared_inv (as_log s)
     \<and> (if as_pc s = AtWrite then thread_loaded (as_thread s) else thread_ready (as_thread s))
     \<and> concat (concat (map snd (as_batches s))) @ waiting_text s = concat (filter short (as_lines s))
     \<and> output_inv env old (concat (map batch_out (as_batches s))) (as_thread s) \<and> flushed old (lt_disk (as_thread s))"

section \<open>Appending\<close>

lemma fb_append_fits:
  assumes "fb_inv kLargeBuffer b" and "fb_avail b > length s"
  shows "\<exists>b'. fb_append s b = Inr b' \<and> fb_inv kLargeBuffer b' \<and> fb_toString b' = fb_toString b @ s"
proof -
  have "length (fb_toString b) + length s < kLargeBuffer"
    using assms by (auto simp: fb_inv_def fb_avail_def fb_toString_def fb_length_def)
  then show ?thesis using fb_append_spec [OF assms(1), of s] by auto
qed

lemma fb_append_spare:
  assumes "fb_inv kLargeBuffer b" and "fb_cur b = 0"
  shows "\<exists>b'. fb_append s b = Inr b' \<and> fb_inv kLargeBuffer b' \<and> fb_toString b' = (if short s then s else [])"
  using fb_append_spec [OF assms(1), of s] assms(2) by (auto simp: short_def fb_toString_def fb_length_def)

lemma append_Async_ok:
  assumes "shared_inv a" and "length mem = kLargeBuffer"
  shows "\<exists>a'. append_Async mem s a = Inr a' \<and> shared_inv a' \<and> al_running a' = al_running a
    \<and> concat (map buffer_text (al_buffers a')) @ buffer_text (al_currentBuffer a')
      = concat (map buffer_text (al_buffers a)) @ buffer_text (al_currentBuffer a) @ (if short s then s else [])"
proof -
  obtain cur where cur: "al_currentBuffer a = Some cur" "fb_inv kLargeBuffer cur"
    using assms(1) by (auto simp: shared_inv_def good_buffer_def)
  show ?thesis
  proof (cases "fb_avail cur > length s")
    case True
    obtain b where b: "fb_append s cur = Inr b" "fb_inv kLargeBuffer b" "fb_toString b = fb_toString cur @ s"
      using fb_append_fits [OF cur(2) True] by blast
    have "short s" using True cur(2) by (auto simp: short_def fb_avail_def fb_inv_def)
    then show ?thesis
      using True cur b assms(1)
      by (auto simp: append_Async_def deref_buffer_def shared_inv_def good_buffer_def buffer_text_def)
  next
    case False
    define p where "p = (case al_nextBuffer a of Some b \<Rightarrow> b | None \<Rightarrow> FixedBuffer_ctor mem)"
    have "fb_inv kLargeBuffer p \<and> fb_cur p = 0"
      using assms by (auto simp: p_def shared_inv_def spare_buffer_def good_buffer_def empty_buffer_def fb_length_def
          FixedBuffer_ctor_def fb_inv_def kLargeBuffer_def split: option.splits)
    then obtain b where b: "fb_append s p = Inr b" "fb_inv kLargeBuffer b" "fb_toString b = (if short s then s else [])"
      using fb_append_spare by blast
    have "append_Async mem s a = Inr (a\<lparr>al_buffers := al_buffers a @ [Some cur], al_nextBuffer := None, al_currentBuffer := Some b\<rparr>)"
      using False cur(1) b(1) by (auto simp: append_Async_def deref_buffer_def p_def split: option.splits)
    then show ?thesis
      using assms(1) cur b(2,3) by (auto simp: shared_inv_def good_buffer_def buffer_text_def)
  qed
qed

section \<open>The thread's iteration\<close>

lemma write_buffers_append_all:
  assumes "\<forall>p \<in> set ps. good_buffer p"
  shows "write_buffers env ps l d = append_all env (map buffer_text ps) l d"
  using assms
proof (induction ps arbitrary: l d)
  case (Cons p ps)
  then obtain b where "p = Some b" by (auto simp: good_buffer_def)
  then show ?case
    using Cons by (auto simp: buffer_text_def fb_toString_def split: option.split sum.split)
qed simp

lemma output_append_all:
  assumes "disk_works env" and "output_inv env old out t" and "dk_files d = dk_files (lt_disk t)" and "dk_held d = dk_held (lt_disk t)"
  shows "\<exists>l d'. append_all env ss (lt_output t) d = Some (Inr (l, d'))
    \<and> output_inv env old (out @ ss) (t\<lparr>lt_output := l, lt_disk := d'\<rparr>)"
proof -
  obtain groups where g: "logfile_inv env old groups (lt_output t) (lt_disk t)" "concat groups = out"
      "foreign env (lf_basename (lt_output t)) old"
    using assms(2) by (auto simp: output_inv_def)
  have "logfile_inv env old groups (lt_output t) d" using g(1) assms(3,4) by (simp add: logfile_inv_def)
  then obtain l d' groups' where run: "append_all env ss (lt_output t) d = Some (Inr (l, d'))"
      "logfile_inv env old groups' l d'" "concat groups' = out @ ss" "lf_basename l = lf_basename (lt_output t)"
    using append_all_inv [OF assms(1) g(3), of groups d ss] g(2) by auto
  then show ?thesis using g(3) by (auto simp: output_inv_def)
qed

lemma append_all_single: "append_all env [s] l d = append_LogFile env s l d"
  by (auto split: option.split sum.split)

lemma drop_backlog_ok:
  assumes "disk_works env" and "output_inv env old out t" and "thread_loaded t"
  shows "\<exists>t'. drop_backlog env now t = Some (Inr t') \<and> thread_loaded t'
    \<and> output_inv env old (out @ (if length (lt_WriteLog t) > 25 then [drop_message now (length (lt_WriteLog t))] else [])) t'
    \<and> lt_WriteLog t' = (if length (lt_WriteLog t) > 25 then take 2 (lt_WriteLog t) else lt_WriteLog t)"
proof (cases "length (lt_WriteLog t) > 25")
  case True
  let ?msg = "drop_message now (length (lt_WriteLog t))"
  let ?d = "(lt_disk t)\<lparr>dk_stderr := dk_stderr (lt_disk t) @ ?msg\<rparr>"
  obtain l d' where w: "append_LogFile env ?msg (lt_output t) ?d = Some (Inr (l, d'))"
      "output_inv env old (out @ [?msg]) (t\<lparr>lt_output := l, lt_disk := d'\<rparr>)"
    using output_append_all [OF assms(1,2), of ?d "[?msg]"] unfolding append_all_single by auto
  moreover have "thread_loaded (t\<lparr>lt_output := l, lt_disk := d', lt_WriteLog := take 2 (lt_WriteLog t)\<rparr>)"
    using assms(3) True by (auto simp: thread_loaded_def dest: in_set_takeD)
  ultimately show ?thesis using True by (auto simp: drop_backlog_def Let_def output_inv_def)
next
  case False
  then show ?thesis using assms(2,3) by (auto simp: drop_backlog_def)
qed

lemma spare_reset: "good_buffer (Some b) \<Longrightarrow> spare_buffer (Some (fb_reset b))"
  by (auto simp: spare_buffer_def good_buffer_def empty_buffer_def fb_reset_def fb_length_def fb_inv_def)

lemma recycle_ok:
  assumes "p = None \<longrightarrow> ws \<noteq> []" and "\<forall>q \<in> set ws. good_buffer q" and "p \<noteq> None \<longrightarrow> spare_buffer p"
  shows "\<exists>b. recycle p ws = Inr (b, if p = None then butlast ws else ws) \<and> spare_buffer b"
proof (cases p)
  case None
  then have "last ws \<in> set ws" using assms(1) by simp
  then obtain b where b: "last ws = Some b" "good_buffer (Some b)" using assms(2) by (metis good_buffer_def)
  then show ?thesis using None assms(1) spare_reset [OF b(2)] by (simp add: recycle_def deref_buffer_def)
qed (use assms(3) in \<open>simp add: recycle_def\<close>)

lemma thread_recycle_ok:
  assumes "thread_loaded t"
  shows "\<exists>t'. thread_recycle t = Inr t' \<and> thread_ready t' \<and> lt_output t' = lt_output t \<and> lt_disk t' = lt_disk t"
proof -
  define ws where "ws = (if length (lt_WriteLog t) > 2 then take 2 (lt_WriteLog t) else lt_WriteLog t)"
  have ws: "ws \<noteq> []" "\<forall>q \<in> set ws. good_buffer q" "lt_newBuffer2 t = None \<longrightarrow> length ws = 2"
    using assms by (auto simp: ws_def thread_loaded_def dest: in_set_takeD)
  then obtain b1 where b1: "recycle (lt_newBuffer1 t) ws = Inr (b1, butlast ws)" "spare_buffer b1"
    using recycle_ok [of "lt_newBuffer1 t" ws] assms by (auto simp: thread_loaded_def)
  have "lt_newBuffer2 t = None \<longrightarrow> butlast ws \<noteq> []" using ws(3) by (auto simp: butlast_conv_take)
  then obtain b2 ws' where b2: "recycle (lt_newBuffer2 t) (butlast ws) = Inr (b2, ws')" "spare_buffer b2"
    using recycle_ok [of "lt_newBuffer2 t" "butlast ws"] ws(2) assms by (auto simp: thread_loaded_def dest: in_set_butlastD)
  show ?thesis using b1 b2 by (simp add: thread_recycle_def ws_def [symmetric] Let_def thread_ready_def)
qed

lemma thread_write_ok:
  assumes env: "disk_works env" and "output_inv env old out t" and "thread_loaded t"
  shows "\<exists>t'. thread_write env now t = Some (Inr t') \<and> thread_ready t'
    \<and> output_inv env old (out @ batch_out (now, map buffer_text (lt_WriteLog t))) t' \<and> flushed old (lt_disk t')"
proof -
  let ?ws = "lt_WriteLog t"
  obtain t1 where t1: "drop_backlog env now t = Some (Inr t1)" "thread_loaded t1"
      "output_inv env old (out @ (if length ?ws > 25 then [drop_message now (length ?ws)] else [])) t1"
      "lt_WriteLog t1 = (if length ?ws > 25 then take 2 ?ws else ?ws)"
    using drop_backlog_ok [OF assms] by blast
  obtain l d where w: "write_buffers env (lt_WriteLog t1) (lt_output t1) (lt_disk t1) = Some (Inr (l, d))"
      "output_inv env old (out @ batch_out (now, map buffer_text ?ws)) (t1\<lparr>lt_output := l, lt_disk := d\<rparr>)"
    using output_append_all [OF env t1(3) refl refl, of "map buffer_text (lt_WriteLog t1)"] t1(2,4)
      write_buffers_append_all [of "lt_WriteLog t1" env "lt_output t1" "lt_disk t1"]
    by (auto simp: batch_out_def thread_loaded_def take_map split: if_splits)
  have "thread_loaded (t1\<lparr>lt_output := l, lt_disk := d\<rparr>)" using t1(2) by (simp add: thread_loaded_def)
  from thread_recycle_ok [OF this] obtain t2 where t2: "thread_recycle (t1\<lparr>lt_output := l, lt_disk := d\<rparr>) = Inr t2" "thread_ready t2"
      "lt_output t2 = l" "lt_disk t2 = d" by auto
  obtain groups where g: "logfile_inv env old groups l d" "concat groups = out @ batch_out (now, map buffer_text ?ws)"
      "foreign env (lf_basename l) old"
    using w(2) by (auto simp: output_inv_def)
  have "stdio_ok env" using env by (simp add: disk_works_def)
  from logfile_flushed(1) [OF this g(1)] obtain d' where d': "flush_LogFile env l d = Inr (l, d')" "logfile_inv env old groups l d'"
      "flushed old d'" by blast
  have "thread_write env now t = Some (Inr (t2\<lparr>lt_output := l, lt_disk := d'\<rparr>))"
    using t1(1) w(1) t2 d'(1) by (simp add: thread_write_def)
  then show ?thesis using t2(2) d'(2,3) g(2,3) by (auto simp: output_inv_def thread_ready_def)
qed

lemma thread_finish_ok:
  assumes "disk_works env" and "output_inv env old out t"
  shows "\<exists>d. thread_finish env t = Inr (t\<lparr>lt_disk := d\<rparr>) \<and> output_inv env old out (t\<lparr>lt_disk := d\<rparr>) \<and> flushed old d"
proof -
  obtain groups where g: "logfile_inv env old groups (lt_output t) (lt_disk t)" "concat groups = out" "foreign env (lf_basename (lt_output t)) old"
    using assms(2) by (auto simp: output_inv_def)
  have io: "stdio_ok env" using assms(1) by (simp add: disk_works_def)
  from logfile_flushed(1) [OF this g(1)] obtain d where d: "flush_LogFile env (lt_output t) (lt_disk t) = Inr (lt_output t, d)"
      "logfile_inv env old groups (lt_output t) d" by blast
  let ?d = "LogFile_dtor env (lt_output t) d"
  have "thread_finish env t = Inr (t\<lparr>lt_disk := ?d\<rparr>)" using d(1) by (simp add: thread_finish_def)
  then show ?thesis using logfile_flushed(2) [OF io d(2)] g(2,3) by (auto simp: output_inv_def)
qed

lemma thread_take_ok:
  assumes "shared_inv a" and "thread_ready t" and "thread_take a t = (a', t')"
  shows "shared_inv a' \<and> thread_loaded t' \<and> lt_output t' = lt_output t \<and> lt_disk t' = lt_disk t
    \<and> lt_WriteLog t' = al_buffers a @ [al_currentBuffer a] \<and> al_buffers a' = [] \<and> buffer_text (al_currentBuffer a') = []"
proof -
  have empty: "buffer_text (lt_newBuffer1 t) = []"
    using assms(2) by (auto simp: thread_ready_def spare_buffer_def good_buffer_def empty_buffer_def buffer_text_def
        fb_toString_def)
  have len: "al_nextBuffer a = None \<Longrightarrow> length (al_buffers a) \<ge> 1"
    using assms(1) by (cases "al_buffers a") (auto simp: shared_inv_def)
  show ?thesis
    using assms empty len
    by (auto simp: thread_take_def Let_def shared_inv_def thread_ready_def thread_loaded_def spare_buffer_def good_buffer_def
        split: if_splits)
qed

lemma async_step_inv:
  assumes env: "disk_works env" and inv: "async_inv env old s" and "async_step env s s'"
  shows "async_inv env old s'"
  using assms(3)
proof cases
  case (append_line mem logline a)
  have "shared_inv (as_log s)" using inv by (simp add: async_inv_def)
  from append_Async_ok [OF this append_line(2), of logline] show ?thesis
    using append_line(1,3) inv by (auto simp: async_inv_def waiting_text_def)
next
  case stopping
  then show ?thesis using inv by (simp add: async_inv_def stop_Async_def shared_inv_def waiting_text_def)
next
  case (test_running t)
  then show ?thesis
    using inv by (auto simp: async_inv_def waiting_text_def thread_asserts_def outcome_simps)
next
  case (test_stopped t)
  have "output_inv env old (concat (map batch_out (as_batches s))) (as_thread s)" using inv by (simp add: async_inv_def)
  from thread_finish_ok [OF env this] test_stopped show ?thesis
    using inv by (auto simp: async_inv_def waiting_text_def thread_ready_def)
next
  case (take_buffers a t)
  have "shared_inv (as_log s)" "thread_ready (as_thread s)" using inv take_buffers(2) by (auto simp: async_inv_def)
  from thread_take_ok [OF this take_buffers(3)] show ?thesis
    using take_buffers(1) inv \<open>thread_ready (as_thread s)\<close>
    by (simp add: async_inv_def waiting_text_def thread_ready_def output_inv_def)
next
  case (write_batch now t)
  have t: "thread_loaded (as_thread s)" and out: "output_inv env old (concat (map batch_out (as_batches s))) (as_thread s)"
    using inv write_batch(2) by (auto simp: async_inv_def)
  have "thread_ready t \<and> output_inv env old (concat (map batch_out (as_batches s))
      @ batch_out (now, map buffer_text (lt_WriteLog (as_thread s)))) t \<and> flushed old (lt_disk t)"
    using thread_write_ok [OF env out t, of now] write_batch(3) by auto
  then show ?thesis
    using write_batch(1) inv by (auto simp: async_inv_def waiting_text_def thread_ready_def)
qed

lemma async_reachable_inv:
  assumes "disk_works env" and "async_inv env old s0" and "async_reachable env s0 s"
  shows "async_inv env old s"
  using assms(3) by induction (use assms async_step_inv in auto)

text \<open>Start of the logging: \<open>start()\<close> on a new object, and the beginning of \<open>threadFunc\<close>.\<close>

definition async_start ::
  "file_env \<Rightarrow> string \<Rightarrow> nat \<Rightarrow> string \<Rightarrow> disk \<Rightarrow> async_sys outcome" where
  "async_start env base rollSize mem d =
     bind_out (thread_init env base rollSize mem mem d) (\<lambda>t.
       Inr \<lparr>as_log = start_Async (AsyncLogging_ctor mem mem), as_thread = t, as_pc = AtTest, as_lines = [], as_batches = []\<rparr>)"

lemma spare_zero: "length mem = kLargeBuffer \<Longrightarrow> spare_buffer (Some (fb_bzero (FixedBuffer_ctor mem)))"
  by (simp add: spare_buffer_def good_buffer_def empty_buffer_def fb_bzero_def FixedBuffer_ctor_def fb_inv_def
      fb_length_def kLargeBuffer_def)

lemma async_start_inv:
  assumes "disk_works env" and "foreign env base (dk_files d)" and "CHR ''/'' \<notin> set base" and "length mem = kLargeBuffer"
  shows "\<exists>s0. async_start env base rollSize mem d = Inr s0 \<and> async_inv env (dk_files d) s0"
proof -
  obtain l d' where l: "LogFile_ctor env base rollSize False 3 1024 d = Inr (l, d')" "logfile_inv env (dk_files d) [[]] l d'"
      "lf_basename l = base"
    using LogFile_ctor_inv [OF assms(1-3)] by blast
  have "buffer_text (Some (fb_bzero (FixedBuffer_ctor mem))) = []"
    by (simp add: buffer_text_def fb_toString_def fb_length_def fb_bzero_def FixedBuffer_ctor_def)
  moreover have "good_buffer (Some (fb_bzero (FixedBuffer_ctor mem)))"
    using spare_zero [OF assms(4)] by (simp add: spare_buffer_def)
  ultimately show ?thesis
    using l assms(2) spare_zero [OF assms(4)] logfile_new_flushed [OF l(2)]
    by (auto simp: async_start_def thread_init_def async_inv_def shared_inv_def start_Async_def AsyncLogging_ctor_def
        thread_ready_def waiting_text_def output_inv_def intro!: exI [of _ "[[]]"])
qed

lemma batch_out_small: "\<forall>b \<in> set bs. length (snd b) \<le> 25 \<Longrightarrow> concat (map batch_out bs) = concat (map snd bs)"
  by (induction bs) (auto simp: batch_out_def)

lemma concat_map_concat: "concat (map concat xss) = concat (concat xss)"
  by (induction xss) simp_all

lemma finished_step:
  assumes "disk_works env" and "async_inv env old s" and "as_pc s = Finished" and "async_step env s s'"
  shows "as_pc s' = Finished \<and> lt_disk (as_thread s') = lt_disk (as_thread s) \<and> (\<exists>more. waiting_text s' = waiting_text s @ more)"
  using assms(4)
proof cases
  case (append_line mem logline a)
  have "shared_inv (as_log s)" using assms(2) by (simp add: async_inv_def)
  from append_Async_ok [OF this append_line(2), of logline] show ?thesis
    using append_line(1,3) assms(3) by (auto simp: waiting_text_def)
qed (use assms(3) in \<open>simp_all add: stop_Async_def waiting_text_def\<close>)

lemma finished_stays:
  assumes "disk_works env" and "async_inv env old s" and "as_pc s = Finished" and "async_reachable env s s'"
  shows "as_pc s' = Finished \<and> lt_disk (as_thread s') = lt_disk (as_thread s) \<and> (\<exists>more. waiting_text s' = waiting_text s @ more)"
  using assms(4)
proof induction
  case (step s' s'')
  have "async_inv env old s'" using async_reachable_inv [OF assms(1,2) step.hyps(1)] .
  from finished_step [OF assms(1) this _ step.hyps(2)] step.IH show ?case by auto
qed (simp add: assms(3))

section \<open>Properties\<close>

text \<open>
  C18. Asynchronous logging never fails an assertion and never follows a null pointer, in any
  interleaving of threads that append lines of any length with the logging thread: an append
  succeeds, the assertions at the head of the loop hold, and the loop body finds enough buffers to
  replace the two it has given away, also after it has discarded a backlog. The disk is assumed to
  work.
\<close>

theorem async_logging_safe:
  assumes "disk_works env" and "foreign env base (dk_files d)" and "CHR ''/'' \<notin> set base" and "length mem = kLargeBuffer"
    and "async_start env base rollSize mem d = Inr s0" and "async_reachable env s0 s"
  shows "(\<exists>a. append_Async mem logline (as_log s) = Inr a)
    \<and> (as_pc s = AtTest \<longrightarrow> thread_asserts (as_thread s) = Inr (as_thread s))
    \<and> (as_pc s = AtWrite \<longrightarrow> (\<exists>t. thread_write env now (as_thread s) = Some (Inr t)))"
proof -
  have inv: "async_inv env (dk_files d) s"
    using async_start_inv [OF assms(1-4), of rollSize] assms(5) async_reachable_inv [OF assms(1) _ assms(6)] by auto
  have "\<exists>a. append_Async mem logline (as_log s) = Inr a"
    using append_Async_ok [OF _ assms(4)] inv by (auto simp: async_inv_def)
  moreover have "thread_asserts (as_thread s) = Inr (as_thread s)" if "as_pc s = AtTest"
    using inv that by (simp add: async_inv_def thread_ready_def thread_asserts_def spare_buffer_def)
  moreover have "\<exists>t. thread_write env now (as_thread s) = Some (Inr t)" if "as_pc s = AtWrite"
  proof -
    have "output_inv env (dk_files d) (concat (map batch_out (as_batches s))) (as_thread s)" "thread_loaded (as_thread s)"
      using inv that by (simp_all add: async_inv_def)
    from thread_write_ok [OF assms(1) this] show ?thesis by blast
  qed
  ultimately show ?thesis by blast
qed

text \<open>
  C15. Asynchronous logging keeps the lines and their order. In every reachable state of the
  threads, as long as no batch held more than 25 buffers, the text in the files the logger has
  created, followed by the text still waiting in buffers, is exactly the concatenation of the
  appended lines in the order of the appends; only lines of 4,000,000 characters or more are
  missing. The text of the files has reached the disk, and is not in the buffer of the stream; the
  older files on the disk are unchanged.
\<close>

theorem async_logging_keeps_lines:
  assumes "disk_works env" and "foreign env base (dk_files d)" and "CHR ''/'' \<notin> set base" and "length mem = kLargeBuffer"
    and "async_start env base rollSize mem d = Inr s0" and "async_reachable env s0 s"
    and "\<forall>b \<in> set (as_batches s). length (snd b) \<le> 25"
  shows "\<exists>new. dk_files (lt_disk (as_thread s)) = dk_files d @ new
    \<and> drop (length (dk_files d)) (on_disk (lt_disk (as_thread s))) = new
    \<and> concat (map snd new) @ waiting_text s = concat (filter short (as_lines s))"
proof -
  have inv: "async_inv env (dk_files d) s"
    using async_start_inv [OF assms(1-4), of rollSize] assms(5) async_reachable_inv [OF assms(1) _ assms(6)] by auto
  obtain groups ts where g: "concat groups = concat (map batch_out (as_batches s))" "length groups = length ts"
      "dk_files (lt_disk (as_thread s)) =
         dk_files d @ zip (map (getLogFileName env (lf_basename (lt_output (as_thread s)))) ts) (map concat groups)"
    using inv by (auto simp: async_inv_def output_inv_def logfile_inv_def)
  let ?new = "zip (map (getLogFileName env (lf_basename (lt_output (as_thread s)))) ts) (map concat groups)"
  have "concat (map snd ?new) = concat (concat (map batch_out (as_batches s)))"
    using g(1,2) by (simp add: concat_map_concat flip: g(1))
  then show ?thesis
    using inv g(3) batch_out_small [OF assms(7)] by (auto simp: async_inv_def flushed_def)
qed

text \<open>
  Once the logging thread has seen that logging was stopped, nothing is written any more: the
  text waiting in the buffers at that moment, and every line appended later, stay in the buffers
  and never reach a file.
\<close>

lemma async_stop_loses_waiting:
  assumes "disk_works env" and "foreign env base (dk_files d)" and "CHR ''/'' \<notin> set base" and "length mem = kLargeBuffer"
    and "async_start env base rollSize mem d = Inr s0" and "async_reachable env s0 s"
    and "as_pc s = Finished" and "async_reachable env s s'"
  shows "dk_files (lt_disk (as_thread s')) = dk_files (lt_disk (as_thread s)) \<and> (\<exists>more. waiting_text s' = waiting_text s @ more)"
proof -
  have "async_inv env (dk_files d) s"
    using async_start_inv [OF assms(1-4), of rollSize] assms(5) async_reachable_inv [OF assms(1) _ assms(6)] by auto
  from finished_stays [OF assms(1) this assms(7,8)] show ?thesis by auto
qed

section \<open>Witnesses\<close>

definition sample_files :: file_env where
  "sample_files = \<lparr>fe_open = (\<lambda>_. True), fe_write = (\<lambda>k r. (r, False)), fe_keep = (\<lambda>_ h. min h kFileBuffer), fe_flush = (\<lambda>_ _. 0),
     fe_time = (\<lambda>k. 1600000000 + int (k mod 1000)),
     fe_host = Some ''host'', fe_pid = 42\<rparr>"

definition sample_disk :: disk where
  "sample_disk = \<lparr>dk_files = [], dk_held = (\<lambda>_. 0), dk_writes = 0, dk_flushes = 0, dk_times = 0, dk_stderr = []\<rparr>"

lemma sample_works:
  "disk_works sample_files" "foreign sample_files ''server'' (dk_files sample_disk)" "CHR ''/'' \<notin> set ''server''"
  "length (replicate kLargeBuffer NUL) = kLargeBuffer"
proof -
  have "fe_time sample_files k < 253402300800" for k
    using mod_less_divisor [of 1000 k] unfolding sample_files_def by simp
  then have "clock_ok sample_files" by (simp add: clock_ok_def sample_files_def)
  then show "disk_works sample_files"
    by (simp add: disk_works_def fwrite_ok_def fwrite_complete_def stdio_ok_def) (simp add: sample_files_def)
qed (simp_all add: foreign_def sample_disk_def)

text \<open>A line is appended, logging is stopped, and the logging thread finishes.\<close>

lemma sample_run:
  "\<exists>s0 s1 s2. async_start sample_files ''server'' 500 (replicate kLargeBuffer NUL) sample_disk = Inr s0
    \<and> async_reachable sample_files s0 s1 \<and> async_reachable sample_files s1 s2
    \<and> as_pc s1 = AtTest \<and> as_lines s1 = [''hello''] \<and> as_batches s1 = []
    \<and> as_pc s2 = Finished \<and> as_lines s2 = [''hello''] \<and> as_batches s2 = []"
proof -
  note ok = sample_works
  obtain s0 where s0: "async_start sample_files ''server'' 500 (replicate kLargeBuffer NUL) sample_disk = Inr s0"
      "async_inv sample_files (dk_files sample_disk) s0"
    using async_start_inv [OF ok, of 500] by blast
  then have init: "as_pc s0 = AtTest" "as_lines s0 = []" "as_batches s0 = []"
    by (auto simp: async_start_def outcome_simps)
  obtain a where a: "append_Async (replicate kLargeBuffer NUL) ''hello'' (as_log s0) = Inr a"
    using append_Async_ok [OF _ ok(4)] s0(2) by (auto simp: async_inv_def)
  define s1 where "s1 = s0\<lparr>as_log := a, as_lines := as_lines s0 @ [''hello'']\<rparr>"
  have "async_step sample_files s0 s1" unfolding s1_def by (rule append_line [OF ok(4) a])
  then have r1: "async_reachable sample_files s0 s1" using async_reachable.intros by metis
  let ?stop = "s1\<lparr>as_log := stop_Async (as_log s1)\<rparr>"
  have "output_inv sample_files (dk_files sample_disk) (concat (map batch_out (as_batches s0))) (as_thread s0)"
    using s0(2) by (simp add: async_inv_def)
  then obtain t where t: "thread_finish sample_files (as_thread s0) = Inr t" using thread_finish_ok [OF ok(1)] by blast
  have "async_step sample_files s1 ?stop" by (rule stopping)
  moreover have "async_step sample_files ?stop (?stop\<lparr>as_thread := t, as_pc := Finished\<rparr>)"
    by (rule test_stopped) (simp_all add: s1_def init stop_Async_def t)
  ultimately have "async_reachable sample_files s1 (?stop\<lparr>as_thread := t, as_pc := Finished\<rparr>)"
    using async_reachable.intros by metis
  moreover have "as_pc s1 = AtTest" "as_lines s1 = [''hello'']" "as_batches s1 = []" by (simp_all add: s1_def init)
  ultimately show ?thesis
    using s0(1) r1 by (intro exI [of _ s0] exI [of _ s1] exI [of _ "?stop\<lparr>as_thread := t, as_pc := Finished\<rparr>"]) simp
qed

theorem async_logging_safe_witness:
  "\<exists>s0 s1. async_start sample_files ''server'' 500 (replicate kLargeBuffer NUL) sample_disk = Inr s0
    \<and> async_reachable sample_files s0 s1 \<and> (\<exists>a. append_Async (replicate kLargeBuffer NUL) ''world'' (as_log s1) = Inr a)
    \<and> thread_asserts (as_thread s1) = Inr (as_thread s1)"
  using sample_run async_logging_safe [OF sample_works, of 500 _ _ "''world''"] by metis

theorem async_logging_keeps_lines_witness:
  "\<exists>s0 s1 new. async_start sample_files ''server'' 500 (replicate kLargeBuffer NUL) sample_disk = Inr s0
    \<and> async_reachable sample_files s0 s1 \<and> on_disk (lt_disk (as_thread s1)) = new
    \<and> concat (map snd new) @ waiting_text s1 = ''hello''"
proof -
  obtain s0 s1 where s: "async_start sample_files ''server'' 500 (replicate kLargeBuffer NUL) sample_disk = Inr s0"
      "async_reachable sample_files s0 s1" "as_lines s1 = [''hello'']" "as_batches s1 = []"
    using sample_run by blast
  have "concat (filter short (as_lines s1)) = ''hello''" by (simp add: s(3) short_def kLargeBuffer_def)
  then show ?thesis
    using async_logging_keeps_lines [OF sample_works s(1,2)] s by (auto simp: sample_disk_def)
qed

end
