(* ===== verification/Threads.thy ===== *)
theory Threads
  imports Prelude
begin

text \<open>
  \<open>src/base/Thread.h\<close> and \<open>src/base/Thread.cpp\<close>: starting and joining a thread. The thread that calls
  \<open>start\<close> and the new thread share the object; their steps are events that may come in any order in
  which they are enabled. Results of \<open>pthread_create\<close> and \<open>pthread_join\<close> and thread identifiers are
  arguments. An exception that nobody catches ends the process.
\<close>

section \<open>State\<close>

datatype caller_pc = CallerIdle | CallerWaiting | CallerReturned
datatype child_pc = NoChild | ChildCreated | ChildHasTid | ChildRunning | ChildFinished

record thread =
  th_started :: bool
  th_joined :: bool
  th_pthreadId :: int
  th_tid :: int
  th_name :: string
  th_futureTaken :: bool
  th_latch :: bool
  th_caller :: caller_pc
  th_child :: child_pc
  th_runs :: nat

section \<open>Names\<close>

text \<open>\<open>setDefaultName\<close> in its two accesses of the shared counter: increase it, and read it again.\<close>

definition count_thread :: "int \<Rightarrow> int" where
  "count_thread numCreated = sint (word_of_int (numCreated + 1) :: 32 word)"

definition setDefaultName :: "int \<Rightarrow> thread \<Rightarrow> thread" where
  "setDefaultName num t =
     (if th_name t = [] then t\<lparr>th_name := c_str (snprintf_into (replicate 32 NUL) (''Thread'' @ show_int num))\<rparr> else t)"

definition new_thread :: "string \<Rightarrow> thread" where
  "new_thread name = \<lparr>th_started = False, th_joined = False, th_pthreadId = 0, th_tid = 0, th_name = name,
     th_futureTaken = False, th_latch = False, th_caller = CallerIdle, th_child = NoChild, th_runs = 0\<rparr>"

definition Thread_ctor :: "string \<Rightarrow> int \<Rightarrow> thread \<times> int" where
  "Thread_ctor name numCreated =
     (let numCreated = count_thread numCreated in (setDefaultName numCreated (new_thread name), numCreated))"

section \<open>Steps\<close>

text \<open>\<open>start\<close> up to \<open>latch.get()\<close>. Taking the future a second time throws.\<close>

definition start_begin :: "int \<Rightarrow> int \<Rightarrow> thread \<Rightarrow> thread outcome" where
  "start_begin createResult pthreadId t =
     (if th_futureTaken t then Inl Aborted
      else let t = t\<lparr>th_futureTaken := True\<rparr>
        in asserting (\<not> th_started t)
             (let t = t\<lparr>th_started := True\<rparr>
              in Inr (if createResult \<noteq> 0 then t\<lparr>th_started := False, th_caller := CallerReturned\<rparr>
                      else t\<lparr>th_pthreadId := pthreadId, th_caller := CallerWaiting, th_child := ChildCreated\<rparr>)))"

text \<open>The rest of \<open>start\<close>, when the promise has been kept.\<close>

definition start_end :: "thread \<Rightarrow> thread outcome" where
  "start_end t = asserting (th_tid t > 0) (Inr (t\<lparr>th_caller := CallerReturned\<rparr>))"

text \<open>\<open>runInThread\<close>: store the identifier, keep the promise, run the function, which may throw.\<close>

definition child_tid :: "int \<Rightarrow> thread \<Rightarrow> thread" where
  "child_tid tid t = t\<lparr>th_tid := tid, th_child := ChildHasTid\<rparr>"

definition child_promise :: "thread \<Rightarrow> thread outcome" where
  "child_promise t = (if th_latch t then Inl Aborted else Inr (t\<lparr>th_latch := True, th_child := ChildRunning\<rparr>))"

definition child_func :: "bool \<Rightarrow> thread \<Rightarrow> thread outcome" where
  "child_func throws t = (if throws then Inl Aborted else Inr (t\<lparr>th_runs := th_runs t + 1, th_child := ChildFinished\<rparr>))"

definition join :: "int \<Rightarrow> thread \<Rightarrow> (int \<times> thread) outcome" where
  "join joinResult t =
     asserting (th_started t) (asserting (\<not> th_joined t) (Inr (joinResult, t\<lparr>th_joined := True\<rparr>)))"

datatype thread_event = ThStart int int | ThTid int | ThPromise | ThLatch | ThFunc bool | ThJoin int

fun thread_step :: "thread \<Rightarrow> thread_event \<Rightarrow> thread outcome" where
  "thread_step t (ThStart r pthreadId) = start_begin r pthreadId t"
| "thread_step t (ThTid tid) = Inr (child_tid tid t)"
| "thread_step t ThPromise = child_promise t"
| "thread_step t ThLatch = start_end t"
| "thread_step t (ThFunc throws) = child_func throws t"
| "thread_step t (ThJoin r) = bind_out (join r t) (\<lambda>(_, t). Inr t)"

text \<open>
  When a step is enabled. \<open>start\<close> is called once, \<open>join\<close> once after a successful \<open>start\<close>;
  \<open>latch.get()\<close> returns when the promise is kept, \<open>pthread_join\<close> when the thread has ended; the
  kernel's identifiers are positive; the function does not throw.
\<close>

fun thread_env :: "thread \<Rightarrow> thread_event \<Rightarrow> bool" where
  "thread_env t (ThStart r pthreadId) \<longleftrightarrow> th_caller t = CallerIdle"
| "thread_env t (ThTid tid) \<longleftrightarrow> th_child t = ChildCreated \<and> tid > 0"
| "thread_env t ThPromise \<longleftrightarrow> th_child t = ChildHasTid"
| "thread_env t ThLatch \<longleftrightarrow> th_caller t = CallerWaiting \<and> th_latch t"
| "thread_env t (ThFunc throws) \<longleftrightarrow> th_child t = ChildRunning \<and> \<not> throws"
| "thread_env t (ThJoin r) \<longleftrightarrow> th_caller t = CallerReturned \<and> th_started t \<and> \<not> th_joined t \<and> th_child t = ChildFinished"

section \<open>Invariant\<close>

definition thread_ok :: "thread \<Rightarrow> bool" where
  "thread_ok t \<longleftrightarrow>
     (th_latch t \<longleftrightarrow> th_child t \<in> {ChildRunning, ChildFinished})
     \<and> (th_child t \<in> {ChildHasTid, ChildRunning, ChildFinished} \<longrightarrow> th_tid t > 0)
     \<and> (th_futureTaken t \<longleftrightarrow> th_caller t \<noteq> CallerIdle)
     \<and> (th_started t \<longleftrightarrow> th_child t \<noteq> NoChild)
     \<and> (th_caller t = CallerIdle \<longrightarrow> \<not> th_started t)
     \<and> (th_caller t = CallerWaiting \<longrightarrow> th_started t)
     \<and> (th_caller t = CallerReturned \<and> th_started t \<longrightarrow> th_latch t)
     \<and> th_runs t = (if th_child t = ChildFinished then 1 else 0)
     \<and> (th_joined t \<longrightarrow> th_child t = ChildFinished)"

lemmas thread_defs = start_begin_def start_end_def child_tid_def child_promise_def child_func_def join_def Let_def

lemma thread_step_ok:
  assumes "thread_ok t" and "thread_env t e"
  shows "\<exists>t'. thread_step t e = Inr t' \<and> thread_ok t'"
proof (cases e)
  case (ThStart r pthreadId)
  then have idle: "th_caller t = CallerIdle" "\<not> th_futureTaken t" "\<not> th_started t" "th_child t = NoChild" "\<not> th_joined t" "th_runs t = 0"
    "\<not> th_latch t"
    using assms by (auto simp: thread_ok_def split: if_splits)
  then show ?thesis using ThStart by (simp add: thread_defs thread_ok_def)
qed (use assms in \<open>auto simp: thread_defs thread_ok_def split: if_splits\<close>)

interpretation thsm: safe_system thread_step thread_env thread_ok
proof unfold_locales
  fix t e t'
  assume "thread_ok t" and "thread_env t e"
  from thread_step_ok [OF this] obtain d where d: "thread_step t e = Inr d" "thread_ok d" by blast
  show "\<exists>t'. thread_step t e = Inr t'" using d by blast
  show "thread_step t e = Inr t' \<Longrightarrow> thread_ok t'" using d by simp
qed

lemma new_thread_ok: "thread_ok (setDefaultName num (new_thread name))"
  by (simp add: thread_ok_def new_thread_def setDefaultName_def)

text \<open>The steps of the new thread that the caller of \<open>start\<close> still waits for.\<close>

definition missing_steps :: "thread \<Rightarrow> thread_event list" where
  "missing_steps t =
     (case th_child t of
        ChildCreated \<Rightarrow> [ThTid 1, ThPromise, ThLatch]
      | ChildHasTid \<Rightarrow> [ThPromise, ThLatch]
      | _ \<Rightarrow> [ThLatch])"

lemma waiting_returns:
  assumes "thread_ok t" and "th_caller t = CallerWaiting"
  shows "env_obeys thread_step thread_env t (missing_steps t)
    \<and> (\<exists>t'. run_events thread_step t (missing_steps t) = Inr t' \<and> th_caller t' = CallerReturned)"
  using assms by (cases "th_child t") (auto simp: missing_steps_def thread_defs thread_ok_def)

section \<open>Properties\<close>

text \<open>
  C33. Starting and joining a thread, in every interleaving of the two threads. No assertion fails
  and no promise is kept twice; when \<open>start\<close> has returned with the thread started, the thread has
  stored its identifier and is running the function or has finished it; a joined thread has run the
  function exactly once. A caller that waits in \<open>start\<close> is never stuck: the steps the new thread
  has left before the function let it return.
\<close>

theorem thread_start_join:
  assumes "env_obeys thread_step thread_env (fst (Thread_ctor name n)) es"
  shows "\<exists>t. run_events thread_step (fst (Thread_ctor name n)) es = Inr t
    \<and> (th_caller t = CallerReturned \<and> th_started t \<longrightarrow> th_tid t > 0 \<and> th_child t \<in> {ChildRunning, ChildFinished})
    \<and> th_runs t \<le> 1 \<and> (th_joined t \<longrightarrow> th_runs t = 1)
    \<and> (th_caller t = CallerWaiting \<longrightarrow> env_obeys thread_step thread_env t (missing_steps t)
        \<and> (\<exists>t'. run_events thread_step t (missing_steps t) = Inr t' \<and> th_caller t' = CallerReturned))"
proof -
  have "thread_ok (fst (Thread_ctor name n))" by (simp add: Thread_ctor_def Let_def new_thread_ok)
  from thsm.run_safe [OF this assms] obtain t where
    t: "run_events thread_step (fst (Thread_ctor name n)) es = Inr t" "thread_ok t" by blast
  then show ?thesis using waiting_returns [OF t(2)] by (auto simp: thread_ok_def)
qed

theorem thread_start_join_witness:
  "\<exists>t. run_events thread_step (fst (Thread_ctor ''worker'' 0)) [ThStart 0 9, ThTid 5, ThPromise, ThFunc False, ThLatch, ThJoin 0] = Inr t
    \<and> th_joined t \<and> th_runs t = 1"
proof -
  have "env_obeys thread_step thread_env (fst (Thread_ctor ''worker'' 0)) [ThStart 0 9, ThTid 5, ThPromise, ThFunc False, ThLatch, ThJoin 0]"
    by (simp add: thread_defs Thread_ctor_def setDefaultName_def new_thread_def)
  from thread_start_join [OF this] obtain t where
    t: "run_events thread_step (fst (Thread_ctor ''worker'' 0)) [ThStart 0 9, ThTid 5, ThPromise, ThFunc False, ThLatch, ThJoin 0] = Inr t"
      "th_joined t \<longrightarrow> th_runs t = 1" by blast
  moreover have "th_joined t" using t(1) by (auto simp: thread_defs Thread_ctor_def setDefaultName_def new_thread_def)
  ultimately show ?thesis by blast
qed

end
