(* ===== verification/StringPieces.thy ===== *)
theory StringPieces
  imports Prelude
begin

text \<open>
  \<open>src/base/StringPiece.h\<close>: a view of a range of characters. A pointer is an array with an offset, or
  null; lengths are \<open>int\<close> as in the class. Reading outside the array is undefined. The standard
  fixes only the sign of the result of \<open>memcmp\<close>; the model returns the sign.
\<close>

section \<open>Pointers into arrays\<close>

type_synonym char_ptr = "(string \<times> nat) option"

definition bytes_at :: "char_ptr \<Rightarrow> int \<Rightarrow> string outcome" where
  "bytes_at p n =
     (if n = 0 then Inr []
      else if n < 0 then Inl UndefinedBehaviour
      else case p of
             None \<Rightarrow> Inl UndefinedBehaviour
           | Some (mem, off) \<Rightarrow> defined_if (off + nat n \<le> length mem) (Inr (take (nat n) (drop off mem))))"

definition strlen :: "char_ptr \<Rightarrow> nat outcome" where
  "strlen p =
     (case p of
        None \<Rightarrow> Inl UndefinedBehaviour
      | Some (mem, off) \<Rightarrow> defined_if (NUL \<in> set (drop off mem)) (Inr (length (c_str (drop off mem)))))"

fun compare_bytes :: "string \<Rightarrow> string \<Rightarrow> int" where
  "compare_bytes (a # as) (b # bs) =
     (if (of_char a :: nat) < of_char b then - 1
      else if (of_char b :: nat) < of_char a then 1
      else compare_bytes as bs)"
| "compare_bytes _ _ = 0"

definition memcmp :: "char_ptr \<Rightarrow> char_ptr \<Rightarrow> int \<Rightarrow> int outcome" where
  "memcmp p q n = bind_out (bytes_at p n) (\<lambda>a. bind_out (bytes_at q n) (\<lambda>b. Inr (compare_bytes a b)))"

text \<open>\<open>static_cast<int>\<close> of a \<open>size_t\<close>.\<close>

definition to_int :: "nat \<Rightarrow> int" where
  "to_int n = sint (word_of_nat n :: 32 word)"

section \<open>StringPiece\<close>

record string_piece =
  sp_ptr :: char_ptr
  sp_length :: int

definition piece_empty :: string_piece where
  "piece_empty = \<lparr>sp_ptr = None, sp_length = 0\<rparr>"

definition piece_cstr :: "char_ptr \<Rightarrow> string_piece outcome" where
  "piece_cstr str = bind_out (strlen str) (\<lambda>n. Inr \<lparr>sp_ptr = str, sp_length = to_int n\<rparr>)"

definition piece_range :: "char_ptr \<Rightarrow> int \<Rightarrow> string_piece" where
  "piece_range offset len = \<lparr>sp_ptr = offset, sp_length = len\<rparr>"

definition size_piece :: "string_piece \<Rightarrow> int" where "size_piece p = sp_length p"

definition empty_piece :: "string_piece \<Rightarrow> bool" where "empty_piece p \<longleftrightarrow> sp_length p = 0"

definition end_piece :: "string_piece \<Rightarrow> char_ptr" where
  "end_piece p = map_option (\<lambda>(mem, off). (mem, nat (int off + sp_length p))) (sp_ptr p)"

definition clear_piece :: "string_piece \<Rightarrow> string_piece" where
  "clear_piece p = p\<lparr>sp_ptr := None, sp_length := 0\<rparr>"

definition set_range :: "char_ptr \<Rightarrow> int \<Rightarrow> string_piece \<Rightarrow> string_piece" where
  "set_range buffer len p = p\<lparr>sp_ptr := buffer, sp_length := len\<rparr>"

definition set_cstr :: "char_ptr \<Rightarrow> string_piece \<Rightarrow> string_piece outcome" where
  "set_cstr str p = bind_out (strlen str) (\<lambda>n. Inr (p\<lparr>sp_ptr := str, sp_length := to_int n\<rparr>))"

definition char_at :: "int \<Rightarrow> string_piece \<Rightarrow> char outcome" where
  "char_at i p =
     (case sp_ptr p of
        None \<Rightarrow> Inl UndefinedBehaviour
      | Some (mem, off) \<Rightarrow> defined_if (0 \<le> int off + i \<and> int off + i < int (length mem)) (Inr (mem ! nat (int off + i))))"

definition remove_prefix :: "int \<Rightarrow> string_piece \<Rightarrow> string_piece" where
  "remove_prefix n p = p\<lparr>sp_length := sp_length p - n\<rparr>"

definition eq_piece :: "string_piece \<Rightarrow> string_piece \<Rightarrow> bool outcome" where
  "eq_piece p x =
     (if sp_length p = sp_length x then bind_out (memcmp (sp_ptr p) (sp_ptr x) (sp_length p)) (\<lambda>r. Inr (r = 0)) else Inr False)"

definition ne_piece :: "string_piece \<Rightarrow> string_piece \<Rightarrow> bool outcome" where
  "ne_piece p x = bind_out (eq_piece p x) (\<lambda>b. Inr (\<not> b))"

text \<open>The macro that defines the order relations, with its two comparison operators.\<close>

definition binary_predicate ::
  "(int \<Rightarrow> int \<Rightarrow> bool) \<Rightarrow> (int \<Rightarrow> int \<Rightarrow> bool) \<Rightarrow> string_piece \<Rightarrow> string_piece \<Rightarrow> bool outcome" where
  "binary_predicate cmp auxcmp p x =
     bind_out (memcmp (sp_ptr p) (sp_ptr x) (if sp_length p < sp_length x then sp_length p else sp_length x)) (\<lambda>r.
       Inr (auxcmp r 0 \<or> r = 0 \<and> cmp (sp_length p) (sp_length x)))"

definition lt_piece :: "string_piece \<Rightarrow> string_piece \<Rightarrow> bool outcome" where "lt_piece = binary_predicate (<) (<)"
definition le_piece :: "string_piece \<Rightarrow> string_piece \<Rightarrow> bool outcome" where "le_piece = binary_predicate (\<le>) (<)"
definition ge_piece :: "string_piece \<Rightarrow> string_piece \<Rightarrow> bool outcome" where "ge_piece = binary_predicate (\<ge>) (>)"
definition gt_piece :: "string_piece \<Rightarrow> string_piece \<Rightarrow> bool outcome" where "gt_piece = binary_predicate (>) (>)"

definition compare_piece :: "string_piece \<Rightarrow> string_piece \<Rightarrow> int outcome" where
  "compare_piece p x =
     bind_out (memcmp (sp_ptr p) (sp_ptr x) (if sp_length p < sp_length x then sp_length p else sp_length x)) (\<lambda>r.
       Inr (if r = 0 then if sp_length p < sp_length x then - 1 else if sp_length p > sp_length x then 1 else r else r))"

definition as_string :: "string_piece \<Rightarrow> string outcome" where
  "as_string p = bytes_at (sp_ptr p) (sp_length p)"

definition CopyToString :: "string_piece \<Rightarrow> string \<Rightarrow> string outcome" where
  "CopyToString p target = bytes_at (sp_ptr p) (sp_length p)"

definition starts_with :: "string_piece \<Rightarrow> string_piece \<Rightarrow> bool outcome" where
  "starts_with p x =
     (if sp_length p \<ge> sp_length x then bind_out (memcmp (sp_ptr p) (sp_ptr x) (sp_length x)) (\<lambda>r. Inr (r = 0)) else Inr False)"

section \<open>Well-formed views and the text they show\<close>

definition text_of :: "string_piece \<Rightarrow> string" where
  "text_of p = (case sp_ptr p of None \<Rightarrow> [] | Some (mem, off) \<Rightarrow> take (nat (sp_length p)) (drop off mem))"

definition piece_ok :: "string_piece \<Rightarrow> bool" where
  "piece_ok p \<longleftrightarrow> 0 \<le> sp_length p
     \<and> (case sp_ptr p of None \<Rightarrow> sp_length p = 0 | Some (mem, off) \<Rightarrow> off + nat (sp_length p) \<le> length mem)"

lemma text_of_length: "piece_ok p \<Longrightarrow> sp_length p = int (length (text_of p))"
  by (auto simp: piece_ok_def text_of_def split: option.splits)

lemma bytes_at_prefix:
  assumes "piece_ok p" and "0 \<le> n" and "n \<le> sp_length p"
  shows "bytes_at (sp_ptr p) n = Inr (take (nat n) (text_of p))"
  using assms by (auto simp: piece_ok_def bytes_at_def text_of_def min_def split: option.splits)

lemma memcmp_prefix:
  assumes "piece_ok p" and "piece_ok x" and "0 \<le> n" and "n \<le> sp_length p" and "n \<le> sp_length x"
  shows "memcmp (sp_ptr p) (sp_ptr x) n = Inr (compare_bytes (take (nat n) (text_of p)) (take (nat n) (text_of x)))"
  using assms by (simp add: memcmp_def bytes_at_prefix)

lemma compare_bytes_refl: "compare_bytes as as = 0"
  by (induction as) auto

lemma compare_bytes_eq:
  assumes "length as = length bs"
  shows "compare_bytes as bs = 0 \<longleftrightarrow> as = bs"
  using assms by (induction as bs rule: list_induct2) (auto simp: compare_bytes_refl dest: of_char_eq_iff [THEN iffD1, rotated])

lemma Nil_less: "[] < (xs :: string) \<longleftrightarrow> xs \<noteq> []"
  by (cases xs) auto

text \<open>Comparing the common part and then the lengths is the lexicographic order of byte strings.\<close>

lemma compare_bytes_less:
  "as < bs \<longleftrightarrow> (let n = min (length as) (length bs); r = compare_bytes (take n as) (take n bs)
     in r < 0 \<or> r = 0 \<and> length as < length bs)"
proof (induction as bs rule: compare_bytes.induct)
  case (1 a as b bs)
  have "a < b \<longleftrightarrow> (of_char a :: nat) < of_char b" "a = b \<longleftrightarrow> (of_char a :: nat) = of_char b"
    by (simp_all add: less_char_def)
  then show ?case using 1 by (auto simp: Let_def)
qed (auto simp: Let_def Nil_less)

lemma compare_bytes_swap: "compare_bytes as bs = - compare_bytes bs as"
  by (induction as bs rule: compare_bytes.induct) auto

lemma memcmp_common:
  assumes "piece_ok p" and "piece_ok x"
  defines "n \<equiv> min (length (text_of p)) (length (text_of x))"
  shows "memcmp (sp_ptr p) (sp_ptr x) (if sp_length p < sp_length x then sp_length p else sp_length x)
    = Inr (compare_bytes (take n (text_of p)) (take n (text_of x)))"
  using assms by (subst memcmp_prefix) (auto simp: text_of_length min_def)

lemma compare_bytes_greater:
  "bs < as \<longleftrightarrow> (let n = min (length as) (length bs); r = compare_bytes (take n as) (take n bs)
     in r > 0 \<or> r = 0 \<and> length bs < length as)"
  using compare_bytes_less [of bs as] compare_bytes_swap [of "take (min (length bs) (length as)) bs"]
  by (auto simp: Let_def min.commute)

lemma order_test:
  assumes "piece_ok p" and "piece_ok x"
  obtains r where "memcmp (sp_ptr p) (sp_ptr x) (if sp_length p < sp_length x then sp_length p else sp_length x) = Inr r"
    and "text_of p < text_of x \<longleftrightarrow> r < 0 \<or> r = 0 \<and> sp_length p < sp_length x"
    and "text_of x < text_of p \<longleftrightarrow> 0 < r \<or> r = 0 \<and> sp_length x < sp_length p"
proof
  show "memcmp (sp_ptr p) (sp_ptr x) (if sp_length p < sp_length x then sp_length p else sp_length x)
    = Inr (compare_bytes (take (min (length (text_of p)) (length (text_of x))) (text_of p))
        (take (min (length (text_of p)) (length (text_of x))) (text_of x)))"
    by (rule memcmp_common [OF assms])
qed (simp_all add: compare_bytes_less [of "text_of p"] compare_bytes_greater [of "text_of x"] Let_def
    text_of_length [OF assms(1)] text_of_length [OF assms(2)])

lemma binary_predicates:
  assumes "piece_ok p" and "piece_ok x"
  shows "lt_piece p x = Inr (text_of p < text_of x)" "gt_piece p x = Inr (text_of p > text_of x)"
    "le_piece p x = Inr (text_of p \<le> text_of x)" "ge_piece p x = Inr (text_of p \<ge> text_of x)"
    "\<exists>r. compare_piece p x = Inr r \<and> (r < 0 \<longleftrightarrow> text_of p < text_of x) \<and> (0 < r \<longleftrightarrow> text_of x < text_of p)"
proof -
  obtain r where m: "memcmp (sp_ptr p) (sp_ptr x) (if sp_length p < sp_length x then sp_length p else sp_length x) = Inr r"
    and lt: "text_of p < text_of x \<longleftrightarrow> r < 0 \<or> r = 0 \<and> sp_length p < sp_length x"
    and gt: "text_of x < text_of p \<longleftrightarrow> 0 < r \<or> r = 0 \<and> sp_length x < sp_length p"
    by (rule order_test [OF assms])
  have le: "text_of p \<le> text_of x \<longleftrightarrow> \<not> text_of x < text_of p" "text_of x \<le> text_of p \<longleftrightarrow> \<not> text_of p < text_of x"
    by (simp_all add: not_less)
  show "lt_piece p x = Inr (text_of p < text_of x)" "gt_piece p x = Inr (text_of p > text_of x)"
    "le_piece p x = Inr (text_of p \<le> text_of x)" "ge_piece p x = Inr (text_of p \<ge> text_of x)"
    unfolding le lt gt lt_piece_def gt_piece_def le_piece_def ge_piece_def binary_predicate_def m by auto
  show "\<exists>r. compare_piece p x = Inr r \<and> (r < 0 \<longleftrightarrow> text_of p < text_of x) \<and> (0 < r \<longleftrightarrow> text_of x < text_of p)"
    unfolding lt gt compare_piece_def m by auto
qed

lemma eq_piece_text:
  assumes "piece_ok p" and "piece_ok x"
  shows "eq_piece p x = Inr (text_of p = text_of x)"
proof (cases "sp_length p = sp_length x")
  case True
  then have len: "length (text_of p) = length (text_of x)" using assms by (simp add: text_of_length)
  have "memcmp (sp_ptr p) (sp_ptr x) (sp_length p) = Inr (compare_bytes (text_of p) (text_of x))"
    using memcmp_prefix [OF assms, of "sp_length p"] assms True len by (simp add: text_of_length)
  then show ?thesis using True len by (simp add: eq_piece_def compare_bytes_eq)
qed (use assms in \<open>auto simp: eq_piece_def text_of_length\<close>)

lemma starts_with_text:
  assumes "piece_ok p" and "piece_ok x"
  shows "starts_with p x = Inr (take (length (text_of x)) (text_of p) = text_of x)"
proof (cases "sp_length p \<ge> sp_length x")
  case True
  then have le: "length (text_of x) \<le> length (text_of p)" using assms by (simp add: text_of_length)
  have "memcmp (sp_ptr p) (sp_ptr x) (sp_length x) = Inr (compare_bytes (take (length (text_of x)) (text_of p)) (text_of x))"
    using memcmp_prefix [OF assms, of "sp_length x"] assms True by (simp add: text_of_length)
  then show ?thesis using True le by (simp add: starts_with_def compare_bytes_eq)
next
  case False
  then have "length (text_of p) < length (text_of x)" using assms by (simp add: text_of_length)
  then have "take (length (text_of x)) (text_of p) \<noteq> text_of x" by (auto dest: arg_cong [of _ _ length])
  then show ?thesis using False by (simp add: starts_with_def)
qed

lemma as_string_text: "piece_ok p \<Longrightarrow> as_string p = Inr (text_of p)"
  using bytes_at_prefix [of p "sp_length p"] text_of_length [of p] by (simp add: as_string_def)

text \<open>
  Taking a prefix away drops the last characters instead: the pointer is not advanced.
\<close>

lemma remove_prefix_drops_suffix:
  assumes "piece_ok p" and "0 \<le> n" and "n \<le> sp_length p"
  shows "piece_ok (remove_prefix n p) \<and> text_of (remove_prefix n p) = take (length (text_of p) - nat n) (text_of p)"
proof -
  have "text_of (remove_prefix n p) = take (nat (sp_length p) - nat n) (text_of p)"
    using assms(2,3) by (simp add: remove_prefix_def text_of_def nat_diff_distrib min_def split: option.splits)
  moreover have "nat (sp_length p) = length (text_of p)" using text_of_length [OF assms(1)] by simp
  ultimately show ?thesis using assms by (auto simp: remove_prefix_def piece_ok_def split: option.splits)
qed

section \<open>Properties\<close>

text \<open>
  C34. Every comparison of two valid pieces reads inside their arrays only and agrees with one
  order, the lexicographic order of the texts by unsigned bytes: the six operators, the sign of
  \<open>compare\<close> and \<open>starts_with\<close> are what they are for the strings that \<open>as_string\<close> returns.
\<close>

theorem piece_comparisons:
  assumes "piece_ok p" and "piece_ok x"
  shows "\<exists>s t r. as_string p = Inr s \<and> as_string x = Inr t \<and> compare_piece p x = Inr r
    \<and> (r < 0 \<longleftrightarrow> s < t) \<and> (0 < r \<longleftrightarrow> t < s) \<and> eq_piece p x = Inr (s = t) \<and> ne_piece p x = Inr (s \<noteq> t)
    \<and> lt_piece p x = Inr (s < t) \<and> le_piece p x = Inr (s \<le> t) \<and> gt_piece p x = Inr (s > t) \<and> ge_piece p x = Inr (s \<ge> t)
    \<and> starts_with p x = Inr (take (length t) s = t)"
  using as_string_text [OF assms(1)] as_string_text [OF assms(2)] binary_predicates [OF assms]
    eq_piece_text [OF assms] starts_with_text [OF assms]
  by (auto simp: ne_piece_def)

theorem piece_comparisons_witness:
  "\<exists>r. compare_piece (piece_range (Some (''xabc'', 1)) 2) (piece_range (Some (''abd'', 0)) 3) = Inr r \<and> r < 0
    \<and> starts_with (piece_range (Some (''abd'', 0)) 3) (piece_range (Some (''xabc'', 1)) 2) = Inr True"
proof -
  let ?p = "piece_range (Some (''xabc'', 1)) 2" and ?x = "piece_range (Some (''abd'', 0)) 3"
  have ok: "piece_ok ?p" "piece_ok ?x" by (simp_all add: piece_range_def piece_ok_def)
  have s: "as_string ?p = Inr ''ab''" "as_string ?x = Inr ''abd''"
    by (simp_all add: as_string_def piece_range_def bytes_at_def numeral_2_eq_2 numeral_3_eq_3)
  show ?thesis using piece_comparisons [OF ok] piece_comparisons [OF ok(2,1)] s by auto
qed

end
