(* ===== verification/ProcessInfos.thy ===== *)
theory ProcessInfos
  imports StringPieces Timestamps "HOL-Library.Multiset"
begin

text \<open>
  \<open>src/base/ProcessInfo.h\<close> and \<open>src/base/ProcessInfo.cpp\<close>: what a process can find out about itself.
  The answers of the system (identifiers, the entries of a directory, the contents of files under
  \<open>/proc\<close>) are arguments. The functions that read those files are commented out in the source, so
  \<open>procname\<close> and \<open>numThreads\<close> take the contents.
\<close>

section \<open>Functions of the C library\<close>

definition is_space :: "char \<Rightarrow> bool" where
  "is_space c \<longleftrightarrow> c = CHR '' '' \<or> 9 \<le> (of_char c :: nat) \<and> (of_char c :: nat) \<le> 13"

text \<open>\<open>atoi\<close> is undefined when the number does not fit.\<close>

definition atoi :: "string \<Rightarrow> int outcome" where
  "atoi s =
     (let s = dropWhile is_space (c_str s);
          negative = (s \<noteq> [] \<and> hd s = CHR ''-'');
          s = (if s \<noteq> [] \<and> (hd s = CHR ''-'' \<or> hd s = CHR ''+'') then tl s else s);
          v = int (read_dec (takeWhile is_digit s));
          v = (if negative then - v else v)
      in defined_if (- 2147483648 \<le> v \<and> v < 2147483648) (Inr v))"

text \<open>\<open>string::rfind\<close> of a character, \<open>None\<close> for \<open>npos\<close>.\<close>

definition rfind :: "char \<Rightarrow> string \<Rightarrow> nat option" where
  "rfind c s = (if c \<in> set s then Some (length s - 1 - std_find c (rev s)) else None)"

text \<open>
  \<open>scandir\<close>: the filter sees every entry in the order of the directory; the selected names are
  returned, the list stays null when there are none.
\<close>

fun scandir :: "(string \<Rightarrow> 's \<Rightarrow> (int \<times> 's) outcome) \<Rightarrow> string list \<Rightarrow> 's \<Rightarrow> (string list \<times> 's) outcome" where
  "scandir keep [] s = Inr ([], s)"
| "scandir keep (d # ds) s =
     bind_out (keep d s) (\<lambda>(selected, s).
     bind_out (scandir keep ds s) (\<lambda>(names, s). Inr (if selected \<noteq> 0 then d # names else names, s)))"

section \<open>Directories\<close>

definition fdDirFilter :: "string \<Rightarrow> int \<Rightarrow> (int \<times> int) outcome" where
  "fdDirFilter d numOpenedFiles = Inr (0, if d \<noteq> [] \<and> is_digit (hd d) then numOpenedFiles + 1 else numOpenedFiles)"

definition taskDirFilter :: "string \<Rightarrow> int list \<Rightarrow> (int \<times> int list) outcome" where
  "taskDirFilter d pids =
     (if d \<noteq> [] \<and> is_digit (hd d) then bind_out (atoi d) (\<lambda>v. Inr (0, pids @ [v])) else Inr (0, pids))"

text \<open>\<open>None\<close> is a directory that cannot be opened.\<close>

definition scanDir :: "(string \<Rightarrow> 's \<Rightarrow> (int \<times> 's) outcome) \<Rightarrow> string list option \<Rightarrow> 's \<Rightarrow> (int \<times> 's) outcome" where
  "scanDir keep dir s =
     (case dir of
        None \<Rightarrow> Inr (- 1, s)
      | Some ds \<Rightarrow> bind_out (scandir keep ds s) (\<lambda>(namelist, s). asserting (namelist = []) (Inr (int (length namelist), s))))"

section \<open>Process information\<close>

text \<open>
  The variables that are initialised when the program starts, and the identifiers that the system
  answers with at a call. \<open>sysconf\<close> returns a \<open>long\<close>, which is cut to an \<open>int\<close>.
\<close>

record process_globals =
  g_startTime :: timestamp
  g_clockTicks :: int
  g_pageSize :: int

record process_ids =
  os_pid :: int
  os_uid :: nat
  os_euid :: nat

definition process_start :: "timestamp \<Rightarrow> int \<Rightarrow> int \<Rightarrow> process_globals" where
  "process_start now clkTck pageSize =
     \<lparr>g_startTime = now, g_clockTicks = signed_take_bit 31 clkTck, g_pageSize = signed_take_bit 31 pageSize\<rparr>"

definition pid_process :: "process_ids \<Rightarrow> int" where "pid_process os = os_pid os"

definition uid_process :: "process_ids \<Rightarrow> nat" where "uid_process os = os_uid os"

definition euid_process :: "process_ids \<Rightarrow> nat" where "euid_process os = os_euid os"

definition startTime :: "process_globals \<Rightarrow> timestamp" where "startTime g = g_startTime g"

definition clockTicksPerSecond :: "process_globals \<Rightarrow> int" where "clockTicksPerSecond g = g_clockTicks g"

definition pageSize_process :: "process_globals \<Rightarrow> int" where "pageSize_process g = g_pageSize g"

text \<open>The repository is built without \<open>NDEBUG\<close>.\<close>

definition isDebugBuild :: "bool \<Rightarrow> bool" where "isDebugBuild ndebug \<longleftrightarrow> \<not> ndebug"

definition pidString :: "process_ids \<Rightarrow> string" where
  "pidString os = c_str (snprintf_into (replicate 32 NUL) (show_int (pid_process os)))"

text \<open>The passwords of the system give a user identifier a name, or none.\<close>

definition username :: "(nat \<Rightarrow> string option) \<Rightarrow> process_ids \<Rightarrow> string" where
  "username getpwuid os = (case getpwuid (uid_process os) of Some name \<Rightarrow> c_str name | None \<Rightarrow> ''unknownuser'')"

text \<open>\<open>gethostname\<close> with the array it filled, or a failure; the last character is cleared.\<close>

definition hostname_process :: "string option \<Rightarrow> string outcome" where
  "hostname_process res =
     (case res of
        Some buf \<Rightarrow> defined_if (length buf = 256) (Inr (c_str (buf[255 := NUL])))
      | None \<Rightarrow> Inr ''unknownhost'')"

definition procname :: "string \<Rightarrow> string_piece" where
  "procname stat =
     (let lp = std_find CHR ''('' stat; rp = rfind CHR '')'' stat
      in if lp \<noteq> length stat \<and> rp \<noteq> None \<and> lp < the rp
         then set_range (Some (stat @ [NUL], lp + 1)) (to_int (the rp - lp - 1)) piece_empty
         else piece_empty)"

text \<open>The overload without an argument copies the name out of what the kernel prints.\<close>

definition procname_self :: "string \<Rightarrow> string outcome" where
  "procname_self procStat = as_string (procname procStat)"

text \<open>\<open>readlink\<close> into 1024 characters: the bytes stored, or a failure.\<close>

definition exePath :: "string option \<Rightarrow> string" where
  "exePath link = (case link of Some path \<Rightarrow> take 1024 path | None \<Rightarrow> [])"

definition openedFiles :: "string list option \<Rightarrow> int outcome" where
  "openedFiles dir = bind_out (scanDir fdDirFilter dir 0) (\<lambda>(_, n). Inr n)"

definition maxOpenFiles :: "int \<Rightarrow> nat \<Rightarrow> string list option \<Rightarrow> int outcome" where
  "maxOpenFiles ret rlim_cur dir = (if ret \<noteq> 0 then openedFiles dir else Inr (to_int rlim_cur))"

definition numThreads :: "string \<Rightarrow> int outcome" where
  "numThreads status =
     (let pos = std_search ''Threads:'' status
      in if pos \<noteq> length status then atoi (drop (pos + 8) status) else Inr 0)"

definition threads :: "string list option \<Rightarrow> int list outcome" where
  "threads dir = bind_out (scanDir taskDirFilter dir []) (\<lambda>(_, pids). Inr (sort pids))"

section \<open>Numbers in text\<close>

lemma show_nat_digits: "c \<in> set (show_nat n) \<Longrightarrow> is_digit c"
  using set_show_nat by (fastforce simp: is_digit_def)

lemma show_nat_Cons: "\<exists>c cs. show_nat n = c # cs \<and> is_digit c"
  using length_show_nat_pos [of n] show_nat_digits [of _ n] by (cases "show_nat n") auto

lemma not_space_NUL: "\<not> is_space NUL"
  by (simp add: is_space_def)

lemma digit_kinds:
  assumes "is_digit c"
  shows "c \<noteq> NUL" "\<not> is_space c" "c \<noteq> CHR ''-''" "c \<noteq> CHR ''+''" "c \<noteq> CHR ''(''" "c \<noteq> CHR '')''"
  using assms by (auto simp: is_digit_def is_space_def)

lemma atoi_show_nat:
  assumes "n < 2147483648" and "\<forall>c \<in> set ws. is_space c" and "rest = [] \<or> \<not> is_digit (hd rest)"
  shows "atoi (ws @ show_nat n @ rest) = Inr (int n)"
proof -
  obtain c cs where n: "show_nat n = c # cs" "is_digit c" using show_nat_Cons by blast
  have d: "\<forall>c \<in> set (show_nat n). c \<noteq> NUL \<and> is_digit c" using NUL_notin_show_nat show_nat_digits by metis
  have w: "\<forall>c \<in> set ws. c \<noteq> NUL" using assms(2) not_space_NUL by metis
  have "c_str (ws @ show_nat n @ rest) = ws @ show_nat n @ c_str rest"
    using d w by (simp add: c_str_def takeWhile_append2)
  moreover have "dropWhile is_space (ws @ show_nat n @ c_str rest) = show_nat n @ c_str rest"
    using assms(2) n digit_kinds(2) by (subst dropWhile_append2) auto
  moreover have "c_str rest = [] \<or> \<not> is_digit (hd (c_str rest))"
    using assms(3) by (cases rest) (auto simp: c_str_def)
  then have "takeWhile is_digit (show_nat n @ c_str rest) = show_nat n"
    using d by (cases "c_str rest") (auto simp: takeWhile_append)
  ultimately show ?thesis
    using assms(1) n(2) digit_kinds(3,4) n(1) read_dec_show_nat [of n] by (auto simp: atoi_def Let_def)
qed

lemma rfind_last:
  assumes "c \<notin> set ys"
  shows "rfind c (xs @ c # ys) = Some (length xs)"
proof -
  have "std_find c (rev (xs @ c # ys)) = length ys" using assms std_find_append [of c "rev ys" "rev xs"] by simp
  then show ?thesis by (simp add: rfind_def)
qed

section \<open>Names and directories\<close>

lemma procname_text:
  assumes "CHR ''('' \<notin> set pre" and "CHR '')'' \<notin> set post" and "length name < 2147483648"
  shows "as_string (procname (pre @ ''('' @ name @ '')'' @ post)) = Inr name"
proof -
  let ?s = "pre @ ''('' @ name @ '')'' @ post"
  have lp: "std_find CHR ''('' ?s = length pre" using std_find_append [OF assms(1)] by simp
  have rp: "rfind CHR '')'' ?s = Some (length pre + 1 + length name)"
    using rfind_last [OF assms(2), of "pre @ ''('' @ name"] by simp
  have len: "to_int (length name) = int (length name)"
    using assms(3) by (simp add: to_int_def signed_of_nat signed_take_bit_int_eq_self)
  show ?thesis
    unfolding procname_def Let_def lp rp by (simp add: set_range_def as_string_def bytes_at_def len)
qed

lemma scandir_fd: "scandir fdDirFilter ds n = Inr ([], n + int (length (filter (\<lambda>d. d \<noteq> [] \<and> is_digit (hd d)) ds)))"
  by (induction ds arbitrary: n) (auto simp: fdDirFilter_def)

lemma scandir_task:
  "scandir taskDirFilter (map show_nat pids @ ds) acc = scandir taskDirFilter ds (acc @ map int pids)"
  if "\<forall>v \<in> set pids. v < 2147483648"
  using that
proof (induction pids arbitrary: acc)
  case (Cons v pids)
  obtain c cs where c: "show_nat v = c # cs" "is_digit c" using show_nat_Cons by blast
  have "atoi (show_nat v) = Inr (int v)" using atoi_show_nat [of v "[]" "[]"] Cons.prems by simp
  then have "taskDirFilter (show_nat v) acc = Inr (0, acc @ [int v])" using c by (simp add: taskDirFilter_def)
  moreover have "\<forall>v \<in> set pids. v < 2147483648" using Cons.prems by simp
  ultimately show ?case using Cons.IH [of "acc @ [int v]"] by (cases "scandir taskDirFilter ds (acc @ int v # map int pids)") auto
qed simp

lemma dot_entries:
  "taskDirFilter ''.'' acc = Inr (0, acc)" "taskDirFilter ''..'' acc = Inr (0, acc)" "\<not> is_digit CHR ''.''"
  by (simp_all add: taskDirFilter_def is_digit_def)

lemma std_search_first:
  assumes "std_search pat s = length s" and "\<forall>k < length pat. 0 < k \<longrightarrow> take (length pat - k) pat \<noteq> drop k pat" and "pat \<noteq> []"
  shows "std_search pat (s @ pat @ t) = length s"
  using assms(1)
proof (induction s)
  case Nil
  then show ?case using assms(3) by (cases pat) auto
next
  case (Cons c s)
  have no: "take (length pat) (c # s) \<noteq> pat" and IH: "std_search pat s = length s"
    using Cons.prems by (auto split: if_splits)
  have "take (length pat) (c # s @ pat @ t) \<noteq> pat"
  proof (cases "length pat \<le> length (c # s)")
    case True
    then show ?thesis using no assms(3) by (cases pat) auto
  next
    case False
    let ?k = "length (c # s)"
    have "take (length pat) ((c # s) @ pat @ t) = (c # s) @ take (length pat - ?k) pat"
      using False by (subst take_append) simp
    moreover have "(c # s) @ take (length pat - ?k) pat = pat \<Longrightarrow> take (length pat - ?k) pat = drop ?k pat"
      by (metis append_eq_conv_conj)
    ultimately show ?thesis using assms(2) False by auto
  qed
  then show ?case using Cons.IH [OF IH] by simp
qed

lemma Threads_no_overlap:
  "\<forall>k < length ''Threads:''. 0 < k \<longrightarrow> take (length ''Threads:'' - k) ''Threads:'' \<noteq> drop k ''Threads:''"
  by code_simp

section \<open>Properties\<close>

lemma pidString_read:
  assumes "0 \<le> pid_process os" and "pid_process os < 2147483648"
  shows "atoi (pidString os) = Inr (pid_process os)"
proof -
  let ?n = "nat (pid_process os)"
  have n: "?n < 2147483648" using assms by simp
  then have "length (show_nat ?n) \<le> 10" by (intro length_show_nat) simp_all
  then have "pidString os = show_nat ?n"
    using assms(1) c_str_snprintf [of "show_nat ?n" "replicate 32 NUL"] NUL_notin_show_nat [of ?n] by (simp add: pidString_def show_int_def)
  then show ?thesis using atoi_show_nat [OF n, of "[]" "[]"] assms(1) by simp
qed

text \<open>
  C35. What the kernel prints about a process is read back. The name in the line of
  \<open>/proc/self/stat\<close> is recovered whatever it contains, parentheses and blanks included, because the
  first opening and the last closing one are taken. From the entries of \<open>/proc/self/task\<close>, in any
  order, \<open>threads\<close> returns the thread identifiers in ascending order, \<open>openedFiles\<close> counts the numeric
  entries, and \<open>numThreads\<close> finds the number in \<open>/proc/self/status\<close>. The text of the process identifier
  is read back by \<open>atoi\<close>. No assertion fails.
\<close>

theorem process_info_roundtrip:
  assumes "length name < 2147483648" and "CHR '')'' \<notin> set post" and "\<forall>v \<in> set pids. v < 2147483648"
    and "n < 2147483648" and "std_search ''Threads:'' pre = length pre" and "blank \<in> {CHR '' '', CHR 0x09}"
  shows "procname_self (show_nat pid @ '' ('' @ name @ '')'' @ post) = Inr name
    \<and> threads (Some ([''.'', ''..''] @ map show_nat pids)) = Inr (sort (map int pids))
    \<and> openedFiles (Some ([''.'', ''..''] @ map show_nat pids)) = Inr (int (length pids))
    \<and> numThreads (pre @ ''Threads:'' @ blank # show_nat n @ LF # rest) = Inr (int n)
    \<and> (0 \<le> pid_process os \<longrightarrow> pid_process os < 2147483648 \<longrightarrow> atoi (pidString os) = Inr (pid_process os))"
proof (intro conjI impI)
  have "CHR ''('' \<notin> set (show_nat pid @ '' '')" using show_nat_digits [of "CHR ''(''" pid] digit_kinds(5) by auto
  from procname_text [OF this assms(2,1)] show "procname_self (show_nat pid @ '' ('' @ name @ '')'' @ post) = Inr name" by (simp add: procname_self_def)
  show "threads (Some ([''.'', ''..''] @ map show_nat pids)) = Inr (sort (map int pids))"
    using scandir_task [OF assms(3), of "[]" "[]"] by (simp add: threads_def scanDir_def dot_entries)
  have "filter (\<lambda>d. d \<noteq> [] \<and> is_digit (hd d)) (map show_nat pids) = map show_nat pids"
  proof (intro filter_True ballI)
    fix d
    assume "d \<in> set (map show_nat pids)"
    then obtain v where "d = show_nat v" by auto
    then show "d \<noteq> [] \<and> is_digit (hd d)" using show_nat_Cons [of v] by auto
  qed
  then show "openedFiles (Some ([''.'', ''..''] @ map show_nat pids)) = Inr (int (length pids))"
    by (simp add: openedFiles_def scanDir_def scandir_fd fdDirFilter_def dot_entries del: filter_map)
  have "numThreads (pre @ ''Threads:'' @ blank # show_nat n @ LF # rest) = atoi (blank # show_nat n @ LF # rest)"
    using std_search_first [OF assms(5) Threads_no_overlap] by (simp add: numThreads_def Let_def)
  also have "\<dots> = Inr (int n)"
    using atoi_show_nat [OF assms(4), of "[blank]" "LF # rest"] assms(6) by (auto simp: is_space_def is_digit_def)
  finally show "numThreads (pre @ ''Threads:'' @ blank # show_nat n @ LF # rest) = Inr (int n)" .
  show "atoi (pidString os) = Inr (pid_process os)" if "0 \<le> pid_process os" "pid_process os < 2147483648"
    by (rule pidString_read [OF that])
qed

theorem process_info_roundtrip_witness:
  "procname_self (show_nat 12 @ '' ('' @ ''a) (b'' @ '')'' @ '' S 1'') = Inr ''a) (b''
    \<and> threads (Some ([''.'', ''..''] @ map show_nat [20, 3])) = Inr [3, 20]
    \<and> openedFiles (Some ([''.'', ''..''] @ map show_nat [20, 3])) = Inr 2
    \<and> numThreads (''Name: x'' @ ''Threads:'' @ CHR 0x09 # show_nat 2 @ LF # []) = Inr 2
    \<and> atoi (pidString \<lparr>os_pid = 42, os_uid = 0, os_euid = 0\<rparr>) = Inr 42"
  using process_info_roundtrip [of "''a) (b''" "'' S 1''" "[20, 3]" 2 "''Name: x''" "CHR 0x09" 12 "[]" "\<lparr>os_pid = 42, os_uid = 0, os_euid = 0\<rparr>"]
  by (simp add: pid_process_def)

end
