(* ===== verification/Spec2Isabelle.thy ===== *)
theory Spec2Isabelle
  imports PoolServers SmallFiles LoopThreads TcpClients Timers StackTraces Loggings AsyncLogs Threads ProcessInfos
begin

text \<open>
  A verification of ClyServer, an event-driven network library with a small HTTP server.

  \<^bold>\<open>The program.\<close> One thread runs an \<open>EventLoop\<close>: it polls the descriptors registered with a
  \<open>PollPoller\<close>, lets each \<open>Channel\<close> with events call its handlers, and then runs the functors that
  were queued for the loop. A \<open>TcpServer\<close> owns an \<open>Acceptor\<close>, whose channel accepts sockets; for each
  one it makes a \<open>TcpConnection\<close> on a loop of its \<open>EventLoopThreadPool\<close>. A connection reads into a
  \<open>Buffer\<close> and calls the user's callbacks. \<open>HttpServer\<close> is such a user: it parses requests with an
  \<open>HttpContext\<close> and answers with an \<open>HttpResponse\<close>. Apart from this there is a logging library: a
  statement is formatted by \<open>Logger\<close> and \<open>LogStream\<close>, handed to \<open>AsyncLogging\<close>, and written by its
  thread through \<open>LogFile\<close> and \<open>AppendFile\<close>.

  \<^bold>\<open>Theories.\<close> Definitions carry the names of the functions they translate, with a suffix where
  a name occurs twice.
  \<^item> \<open>Prelude\<close>: results of C++ code (a failed assertion, \<open>abort\<close>, an exception, undefined behaviour),
    \<open>size_t\<close>, the algorithms of the standard library that are used, decimal text; the locales
    \<open>invariant_system\<close>, \<open>safe_system\<close> and \<open>refined_system\<close> for components driven by events, which
    most components below interpret.
  \<^item> \<open>ByteBuffer\<close> (\<open>net/Buffer.h\<close>, \<open>net/Buffer.cpp\<close>, \<open>net/Endian.h\<close>): the buffer with its two indices;
    it implements a queue of bytes, also when a read spills into the extra buffer; integers in
    network byte order are read back.
  \<^item> \<open>HttpRequests\<close>, \<open>HttpContexts\<close> (\<open>http/HttpRequest.h\<close>, \<open>http/HttpContext.h\<close>, \<open>http/HttpContext.cpp\<close>): the
    request and its parser; a printed request is parsed back, and the parser returns exactly in two
    of its four states.
  \<^item> \<open>HttpResponses\<close>, \<open>HttpServers\<close> (\<open>http/HttpResponse.h\<close>, \<open>http/HttpResponse.cpp\<close>, \<open>http/HttpServer.cpp\<close>):
    the bytes of a response and the callbacks of the HTTP server.
  \<^item> \<open>Channels\<close>, \<open>PollPollers\<close>, \<open>EventLoops\<close> (\<open>net/Channel\<close>, \<open>net/PollPoller\<close>, \<open>net/EventLoop\<close>): the event
    loop. The poller hands the kernel exactly the registered channels and reports exactly the
    channels with events. The loop thread and the threads that queue functors are a step relation;
    no wake-up is lost, functors run once each and in order, and every queued functor runs.
  \<^item> \<open>TcpConnections\<close> (\<open>net/TcpConnection.h\<close>, \<open>net/TcpConnection.cpp\<close>): the life of a connection in any
    order of events, for any user that keeps the contract of the locale \<open>net_client\<close>.
  \<^item> \<open>SocketOps\<close> (\<open>net/SocketsOps\<close>, \<open>net/Socket\<close>, \<open>net/InetAddress.h\<close>): checks of system calls, and the
    text of addresses.
  \<^item> \<open>ThreadPools\<close>, \<open>Threads\<close>, \<open>LoopThreads\<close> (\<open>net/EventLoopThread\<close>, \<open>net/EventLoopThreadPool\<close>, \<open>base/Thread\<close>):
    starting threads, in all interleavings with the thread that waits for them; the loops of a pool
    in turn; the destructor of a loop's thread together with the loop, and when it ends.
  \<^item> \<open>TcpServers\<close> (\<open>net/Acceptor\<close>, \<open>net/TcpServer\<close>): the map of connections implements a set of numbered
    live connections; a connection that closes is cleaned up.
  \<^item> \<open>HttpSessions\<close>, \<open>ServerRounds\<close> and this theory: a server starts and establishes its invariant; a
    connection from accepting to cleaning up, through all layers; rounds of the loop with many
    connections that are interleaved in any way, which implement a set of live connections.
  \<^item> \<open>Programs\<close> (\<open>http/test.cpp\<close>, \<open>test/test.cpp\<close>): the two main functions, and how they distribute the
    connections over the loops of the default pool.
  \<^item> \<open>IoLoops\<close>, \<open>PoolServers\<close>: the loops of the pool at work, each in its thread. A round of such a loop
    brings the connections up that were posted to it, answers a request or sees a client close; the
    rounds of all loops in any order implement the set of connections with their answers, until
    the server's loop runs the end of a connection that belongs to another thread.
  \<^item> \<open>EchoServers\<close> (\<open>test/echo.cpp\<close>): the echo server returns its input.
  \<^item> \<open>Connectors\<close> (\<open>net/Connector.h\<close>, \<open>net/Connector.cpp\<close>): the state machine of a client's connection with
    its retry delays; no descriptor is lost or closed twice.
  \<^item> \<open>TcpClients\<close> (\<open>net/TcpClient.h\<close>, \<open>net/TcpClient.cc\<close>): the client over the models of the connector and
    of the connection, safe in every order of events, and when it opens a new connection.
  \<^item> \<open>Calendar\<close>, \<open>Timestamps\<close> (\<open>base/Timestamp\<close>): time stamps, and the calendar of the C library under
    the text of a date.
  \<^item> \<open>Doubles\<close>, \<open>Timers\<close> (\<open>base/Timestamp.h\<close>, \<open>base/Atomic.h\<close>, \<open>net/Timer\<close>, \<open>net/TimerId.h\<close>): numbers of type
    \<open>double\<close> with their rounding, the functions on seconds and their error, and timers.
  \<^item> \<open>LogStreams\<close>, \<open>Loggings\<close>, \<open>LogFiles\<close>, \<open>AsyncLogs\<close> (\<open>base/LogStream\<close>, \<open>base/Logging\<close>, \<open>base/FileUtil\<close>,
    \<open>base/LogFile\<close>, \<open>base/AsyncLogging\<close>): what a log statement prints, that rolling files lose and split
    no line and what of them is still in the buffer of the stream, and that the asynchronous logger
    keeps every line in order in every interleaving.
  \<^item> \<open>SmallFiles\<close> (\<open>base/FileUtil\<close>): reading a file into a string or a buffer; it ends, with the first
    bytes of the file.
  \<^item> \<open>StringPieces\<close>, \<open>ProcessInfos\<close>, \<open>StackTraces\<close> (\<open>base/StringPiece.h\<close>, \<open>base/ProcessInfo.cpp\<close>,
    \<open>base/CurrentThread.cpp\<close>): comparisons of string views, reading back what the kernel prints about a
    process, and the lines of a stack trace.

  \<^bold>\<open>How the code is modelled.\<close> Objects are records. Where objects point to each other (channels,
  connections), they live in a map from addresses, and following a pointer to nothing is undefined
  behaviour. Handlers bound with \<open>std::bind\<close> are constructors of a data type with the object they
  are bound to. The results of system calls, the clock, the contents of uninitialised memory and
  the addresses of new objects are arguments. Assertions are checked, since the repository is built
  in debug mode. \<open>LOG_SYSERR\<close> ends the process, as the code has it. Threads that share data are
  step relations, or event sequences with a predicate that says which events are enabled; a section under a mutex
  is one step. Machine integers are words or integers with explicit bounds where they can overflow.

  \<^bold>\<open>Bounds and fuel.\<close> No theorem depends on fuel: the parser's loop and the writing loop of the log
  file are \<open>partial_function\<close>s whose termination is proved where it holds; \<open>EventLoop::loop\<close> takes
  the list of results of \<open>poll\<close>, one per round. Sizes are assumed to stay below the largest vector
  where a theorem says so.

  \<^bold>\<open>What is not modelled.\<close> \<open>TimerQueue\<close> is declared and has no implementation, and the timer functions of
  \<open>EventLoop\<close> are commented out: where the connector and the client call them, the timers are
  recorded and may expire at any time. \<open>Poller\<close> is an unused base class with commented operations,
  \<open>TimeZone\<close> and \<open>Mutex\<close> are commented out, \<open>Condition\<close> has a constructor only, \<open>AtomicIntegerT::get\<close> does
  not compile. Functions that return a member unchanged have no definition of their own. Memory is modelled where the code computes with it (arrays with bounds, objects behind pointers), not as
  one address space, so what an access outside an array overwrites is not followed. Among the loops of
  a pool a round is one step: what it posts to another loop arrives when it ends. A data race is
  undefined behaviour and not followed further: that \<open>connectDestroyed\<close> is run by the server's thread
  for connections of other loops is such an end, and is recorded as a finding like the other places
  where the code does not do what it means to.
\<close>

section \<open>Starting a server\<close>

text \<open>
  C9. Constructing and starting an HTTP server establishes what the rest relies on. With any number
  of threads that is not negative, and system calls that succeed, no assertion fails; the server
  then listens, its acceptor's channel is registered for reading with the poller of the loop, no
  connection is alive, and connections will be handed to the loops of the pool, or to the server's
  own loop when there are no threads.
\<close>

theorem http_server_starts:
  assumes "poller_inv (el_poller w)" and "pl_heap (el_poller w) ch = None" and "map_of (pl_channels (el_poller w)) sock = None"
    and "0 \<le> sock" and "0 \<le> bindResult" and "0 \<le> listenResult" and "0 \<le> n" and "tid = el_threadId w"
  shows "\<exists>w1 w2 w3 c. HttpServer_ctor base name memory sock bindResult ch lh tied w = Inr w1
    \<and> setThreadNum_http n w1 = Inr w2 \<and> start_http newLoop cb listenResult tid w2 = Inr w3
    \<and> server_inv w3 \<and> server_abs w3 = (1, {}) \<and> ac_listening (ts_acceptor (nw_rest w3))
    \<and> registered (el_poller w3) ch \<and> pl_heap (el_poller w3) ch = Some c \<and> ch_fd c = sock \<and> isReading c
    \<and> ch_readCallback c = Some AcceptRead
    \<and> served (ts_pool (nw_rest w3)) = (if n = 0 then [base] else map newLoop [0..<nat n])"
proof -
  obtain p c where p: "HttpServer_ctor base name memory sock bindResult ch lh tied w
        = Inr (put_server (new_server base name memory sock ch) (w\<lparr>el_poller := store ch (setReadCallback AcceptRead (Channel_ctor lh tied sock)) (el_poller w)\<rparr>))"
      "setThreadNum_http n (put_server (new_server base name memory sock ch)
          (w\<lparr>el_poller := store ch (setReadCallback AcceptRead (Channel_ctor lh tied sock)) (el_poller w)\<rparr>))
        = Inr (with_threads base name memory sock ch lh tied n w)"
      "start_http newLoop cb listenResult tid (with_threads base name memory sock ch lh tied n w)
        = Inr ((put_server (started_server base name memory sock ch newLoop cb n) w)\<lparr>el_poller := p\<rparr>)"
      "poller_inv p" "registered p ch" "pl_heap p ch = Some c" "ch_fd c = sock" "isReading c" "ch_readCallback c = Some AcceptRead"
    using http_starts [OF assms, of base name memory lh tied newLoop cb] by auto
  let ?w3 = "(put_server (started_server base name memory sock ch newLoop cb n) w)\<lparr>el_poller := p\<rparr>"
  have s: "ts_connections (nw_rest ?w3) = []" "ac_listening (ts_acceptor (nw_rest ?w3))" by (simp_all add: started_server_def new_server_def)
  have "server_inv ?w3" "server_abs ?w3 = (1, {})" "served (ts_pool (nw_rest ?w3)) = (if n = 0 then [base] else map newLoop [0..<nat n])"
    using started_inv [OF p(4) assms(7) refl, of base name memory sock ch newLoop cb w] by simp_all
  then show ?thesis using p s(2) by (intro exI [of _ ?w3] exI conjI) simp_all
qed

theorem http_server_starts_witness:
  "\<exists>w1 w2 w3 c. HttpServer_ctor 0 ''web:'' True 3 0 50 True True sample_world = Inr w1
    \<and> setThreadNum_http 2 w1 = Inr w2 \<and> start_http (\<lambda>i. i + 100) False 0 1 w2 = Inr w3 \<and> server_inv w3
    \<and> pl_heap (el_poller w3) 50 = Some c \<and> isReading c \<and> served (ts_pool (nw_rest w3)) = [100, 101]"
proof -
  have "poller_inv (el_poller sample_world)" "pl_heap (el_poller sample_world) 50 = None"
      "map_of (pl_channels (el_poller sample_world)) 3 = None" "1 = el_threadId sample_world"
    by (simp_all add: sample_world_def PollPoller_ctor_def poller_inv_def)
  from http_server_starts [OF this(1-3) _ _ _ _ this(4), of 0 0 2 0 "''web:''" True True True "\<lambda>i. i + 100" False]
  show ?thesis by (fastforce simp: upt_rec)
qed

end
